(* ===== verification/Heal_Prelude.thy ===== *)
theory Heal_Prelude
  imports Complex_Main "HOL-Library.Multiset"
begin

text \<open>
  What every component of the self-healing model shares: the type names, the time model, the
  refusals as values, and the list operations the Python code uses (a slice from the end, the
  first index that satisfies a test, an element replaced or dropped by its place, as a reference
  held into a list is), with the lemmas the component proofs run on.

  \<^item> An epoch is a \<open>real\<close> number of seconds, as \<open>time.time()\<close> gives (rounding
    of floats is not modelled); \<open>iso\<close> is the whole second an ISO time string names, since
    \<open>strftime\<close> drops the fraction, and \<open>epoch_of\<close> reads one back (\<open>0\<close> for
    a time that is missing or will not parse).
  \<^item> A raise is the left value of a sum; \<open>heal_error\<close> names each refusal. The sentences
    a person reads (\<open>words\<close>) are not modelled: no branch of the code reads one back, except
    that a reason must not be blank, and reasons are strings here.
\<close>

section \<open>Types\<close>

type_synonym device = string
type_synonym network = string
type_synonym incident_id = string
type_synonym decision_id = string
type_synonym epoch = real
type_synonym iso_time = int

named_theorems heal_defs "the definitions a component's proofs unfold together"
named_theorems place_simps "how each update of the incident store moves devices"

datatype heal_error =
    Refused_no_network
  | Refused_bad_kind
  | Refused_no_incident
  | Refused_not_in_incident
  | Refused_not_settling
  | Refused_not_watching
  | Refused_not_ready
  | Refused_no_why
  | Refused_not_deferrable
  | Refused_bad_outcome
  | Refused_no_decision
  | Refused_not_takeable
  | Refused_taken
  | Refused_not_withdrawable
  | Refused_not_dry_run
  | Refused_no_reason
  | Refused_short_reason
  | Refused_other_halt
  | Refused_moved
  | Refused_not_confirmable
  | Refused_shape
  | Refused_not_saved
  | Refused_nothing_to_resume
  | Not_a_person
  | Store_unreadable
  | Heal_busy
  | Raised

section \<open>Time\<close>

definition iso :: "epoch \<Rightarrow> iso_time" where
  "iso t = \<lfloor>t\<rfloor>"

definition epoch_of :: "iso_time option \<Rightarrow> epoch" where
  "epoch_of a = (case a of None \<Rightarrow> 0 | Some s \<Rightarrow> of_int s)"

lemma epoch_of_iso_le: "epoch_of (Some (iso t)) \<le> t"
  by (simp add: epoch_of_def iso_def)

lemma epoch_of_iso_gt: "t - 1 < epoch_of (Some (iso t))"
  by (simp add: epoch_of_def iso_def)

lemma epoch_of_iso_int [simp]: "epoch_of (Some (iso (of_int k))) = of_int k"
  by (simp add: epoch_of_def iso_def)

text \<open>Python's \<open>x or y\<close> on a number: \<open>y\<close> where \<open>x\<close> is \<open>0\<close> (or absent, which the
  model stores as \<open>0\<close>).\<close>

definition or_num :: "epoch \<Rightarrow> epoch \<Rightarrow> epoch" where
  "or_num x y = (if x = 0 then y else x)"

lemma or_num_pos [simp]: "0 < x \<Longrightarrow> or_num x y = x"
  by (simp add: or_num_def)

text \<open>A clock read once a round, each round taking at least \<open>d\<close>.\<close>

lemma clock_after:
  fixes clock :: "nat \<Rightarrow> epoch"
  assumes "\<And>n. clock n + d \<le> clock (n + 1)" and "start \<le> clock 0"
  shows "start + real n * d \<le> clock n"
proof (induction n)
  case (Suc n)
  then show ?case using assms(1) [of n] by (simp add: algebra_simps)
qed (use assms(2) in simp)

section \<open>Sums as results\<close>

definition bind_result :: "'e + 'a \<Rightarrow> ('a \<Rightarrow> 'e + 'b) \<Rightarrow> 'e + 'b" where
  "bind_result r f = (case r of Inl e \<Rightarrow> Inl e | Inr x \<Rightarrow> f x)"

lemma bind_result_simps [simp]:
  "bind_result (Inl e) f = Inl e" "bind_result (Inr x) f = f x"
  by (simp_all add: bind_result_def)

lemma bind_result_eq_Inr_iff:
  "bind_result r f = Inr y \<longleftrightarrow> (\<exists>x. r = Inr x \<and> f x = Inr y)"
  by (cases r) simp_all

lemma bind_result_Inl: "bind_result r f = Inl e \<longleftrightarrow> r = Inl e \<or> (\<exists>x. r = Inr x \<and> f x = Inl e)"
  by (cases r) (auto simp: bind_result_def)

section \<open>Blank strings\<close>

text \<open>\<open>not (s or "").strip()\<close>: every character is white space.\<close>

definition is_space :: "char \<Rightarrow> bool" where
  "is_space c \<longleftrightarrow> c \<in> {CHR '' '', CHR 0x09, CHR 0x0A, CHR 0x0B, CHR 0x0C, CHR 0x0D,
                       CHR 0x1C, CHR 0x1D, CHR 0x1E, CHR 0x1F, CHR 0x85, CHR 0xA0}"

definition blank :: "string \<Rightarrow> bool" where
  "blank s \<longleftrightarrow> (\<forall>c \<in> set s. is_space c)"

lemma blank_Nil [simp]: "blank []"
  by (simp add: blank_def)

lemma blank_Cons [simp]: "blank (c # s) \<longleftrightarrow> is_space c \<and> blank s"
  by (simp add: blank_def)

text \<open>\<open>len(s.split())\<close>: the maximal runs of characters that are not white space.\<close>

fun word_count_from :: "bool \<Rightarrow> string \<Rightarrow> nat" where
  "word_count_from inside [] = 0"
| "word_count_from inside (c # s) =
     (if is_space c then word_count_from False s
      else (if inside then 0 else 1) + word_count_from True s)"

definition word_count :: "string \<Rightarrow> nat" where
  "word_count s = word_count_from False s"

lemma word_count_blank: "blank s \<Longrightarrow> word_count_from b s = 0"
  by (induction s arbitrary: b) simp_all

section \<open>List places\<close>

definition last_n :: "nat \<Rightarrow> 'a list \<Rightarrow> 'a list" where
  "last_n n xs = drop (length xs - n) xs"

lemma length_last_n [simp]: "length (last_n n xs) = min n (length xs)"
  by (simp add: last_n_def)

lemma set_last_n_subset: "set (last_n n xs) \<subseteq> set xs"
  by (auto simp: last_n_def dest: in_set_dropD)

lemma last_n_append_single:
  "0 < n \<Longrightarrow> x \<in> set (last_n n (xs @ [x]))"
  by (cases n) (auto simp: last_n_def Suc_diff_le)

fun find_idx :: "('a \<Rightarrow> bool) \<Rightarrow> 'a list \<Rightarrow> nat option" where
  "find_idx P [] = None"
| "find_idx P (x # xs) = (if P x then Some 0 else map_option Suc (find_idx P xs))"

lemma find_idx_None_iff: "find_idx P xs = None \<longleftrightarrow> (\<forall>x \<in> set xs. \<not> P x)"
  by (induction xs) auto

lemma find_idx_SomeD:
  "find_idx P xs = Some i \<Longrightarrow> i < length xs \<and> P (xs ! i) \<and> (\<forall>j < i. \<not> P (xs ! j))"
proof (induction xs arbitrary: i)
  case (Cons x xs)
  show ?case
  proof (cases "P x")
    case False
    with Cons.prems obtain k where k: "find_idx P xs = Some k" "i = Suc k" by auto
    with Cons.IH [OF k(1)] False show ?thesis by (auto simp: less_Suc_eq_0_disj)
  qed (use Cons.prems in auto)
qed simp

lemma find_idx_Some_ex: "x \<in> set xs \<Longrightarrow> P x \<Longrightarrow> \<exists>i. find_idx P xs = Some i"
  using find_idx_None_iff [of P xs] by (cases "find_idx P xs") auto

definition upd_at :: "nat \<Rightarrow> ('a \<Rightarrow> 'a) \<Rightarrow> 'a list \<Rightarrow> 'a list" where
  "upd_at i f xs = xs[i := f (xs ! i)]"

lemma length_upd_at [simp]: "length (upd_at i f xs) = length xs"
  by (simp add: upd_at_def)

lemma nth_upd_at: "i < length xs \<Longrightarrow> upd_at i f xs ! j = (if j = i then f (xs ! i) else xs ! j)"
  by (simp add: upd_at_def nth_list_update)

definition remove_at :: "nat \<Rightarrow> 'a list \<Rightarrow> 'a list" where
  "remove_at i xs = take i xs @ drop (Suc i) xs"

lemma mset_remove_at: "i < length xs \<Longrightarrow> add_mset (xs ! i) (mset (remove_at i xs)) = mset xs"
proof -
  assume i: "i < length xs"
  have "mset xs = mset (take i xs @ xs ! i # drop (Suc i) xs)"
    using id_take_nth_drop [OF i] by simp
  then show ?thesis by (simp add: remove_at_def)
qed

lemma map_remove_at: "map f (remove_at i xs) = remove_at i (map f xs)"
  by (simp add: remove_at_def take_map drop_map)

lemma set_remove_at_subset: "set (remove_at i xs) \<subseteq> set xs"
  by (auto simp: remove_at_def dest: in_set_takeD in_set_dropD)

text \<open>How one update moves a multiset gathered over a list.\<close>

lemma mset_gather_update:
  assumes "i < length xs"
  shows "mset (concat (map g (xs[i := y]))) + mset (g (xs ! i))
         = mset (concat (map g xs)) + mset (g y)"
proof -
  have "xs = take i xs @ xs ! i # drop (Suc i) xs"
    using id_take_nth_drop [OF assms] .
  then have "mset (concat (map g xs))
      = mset (concat (map g (take i xs))) + mset (g (xs ! i)) + mset (concat (map g (drop (Suc i) xs)))"
    by (metis (no_types, lifting) concat.simps(2) concat_append list.simps(9) map_append mset_append
        union_assoc)
  moreover have "mset (concat (map g (xs[i := y])))
      = mset (concat (map g (take i xs))) + mset (g y) + mset (concat (map g (drop (Suc i) xs)))"
    using assms by (simp add: upd_conv_take_nth_drop)
  ultimately show ?thesis by simp
qed

lemma mset_gather_update_same:
  assumes "i < length xs" and "mset (g y) = mset (g (xs ! i))"
  shows "mset (concat (map g (xs[i := y]))) = mset (concat (map g xs))"
  using mset_gather_update [OF assms(1), of g y] assms(2) by simp

end
