(* ===== verification/Grace.thy ===== *)
theory Grace
  imports Heal_Prelude
begin

text \<open>
  The grace period (\<open>modules/heal/grace.py\<close>): a departure is healed only once it
  persists. \<open>judge\<close> is the source's pure function of the reads made of one device, the
  times of the changes made outside Mercury, the grace period and the clock; its answer keeps
  the state, the time the next read is due, the two reads it judged by, and the operands the
  decision reads later (the departure). The lemmas say when it settles and when it waits.
\<close>

section \<open>Reads and answers\<close>

text \<open>A read's states (\<open>detect.read_device\<close> makes no others).\<close>

datatype read_state = Drifted | Clean | Skipped | Read_error | Busy

record read_row =
  r_epoch :: epoch            \<comment> \<open>\<open>0\<close> where the row holds none: \<open>r.get("epoch") or 0\<close>\<close>
  r_state :: read_state
  r_departure :: string       \<comment> \<open>empty where the read carried no fingerprint\<close>
  r_changed :: "int option"
  r_error :: string

datatype grace_state = Need_read | Waiting | Persisted | At_golden | Not_checkable | Unreadable

record judgement =
  j_state :: grace_state
  j_due :: "epoch option"
  j_first :: "nat option"
  j_second :: "nat option"
  j_departure :: string

definition READ_ATTEMPTS :: nat where "READ_ATTEMPTS = 3"
definition RETRY_SECONDS :: epoch where "RETRY_SECONDS = 60"

definition waiting_state :: "grace_state \<Rightarrow> bool" where
  "waiting_state s \<longleftrightarrow> s \<in> {Need_read, Waiting}"

definition settled_state :: "grace_state \<Rightarrow> bool" where
  "settled_state s \<longleftrightarrow> s \<in> {Persisted, At_golden, Not_checkable, Unreadable}"

lemma settled_iff_not_waiting: "settled_state s \<longleftrightarrow> \<not> waiting_state s"
  by (cases s) (simp_all add: settled_state_def waiting_state_def)

section \<open>The judgement\<close>

text \<open>Two drifted reads hold the same departure: by fingerprint where both carry one, else by
  the count of differing lines.\<close>

definition same :: "read_row \<Rightarrow> read_row \<Rightarrow> bool" where
  "same a b = (if r_departure a \<noteq> [] \<and> r_departure b \<noteq> [] then r_departure a = r_departure b
               else r_changed a = r_changed b)"

definition last_change :: "epoch list \<Rightarrow> epoch option" where
  "last_change cs = (if cs = [] then None else Some (Max (set cs)))"

definition after_change :: "epoch list \<Rightarrow> read_row \<Rightarrow> bool" where
  "after_change cs r = (case last_change cs of None \<Rightarrow> True | Some c \<Rightarrow> c < r_epoch r)"

definition usable :: "read_row list \<Rightarrow> epoch list \<Rightarrow> (nat \<times> read_row) list" where
  "usable reads cs = filter (\<lambda>(i, r). after_change cs r) (enumerate 0 reads)"

definition failed_read :: "read_row \<Rightarrow> bool" where
  "failed_read r \<longleftrightarrow> r_state r \<in> {Read_error, Busy}"

text \<open>The errors since the last read that said something, newest first in the source's loop.\<close>

definition errors_in_row :: "(nat \<times> read_row) list \<Rightarrow> read_row list" where
  "errors_in_row us = filter (\<lambda>r. r_state r = Read_error)
     (takeWhile failed_read (map snd (rev us)))"

text \<open>The loop over the earlier reads, newest first, that finds the first read of the run
  holding the newest one's departure; a failed read is stepped over.\<close>

fun run_start :: "read_row \<Rightarrow> nat \<Rightarrow> (nat \<times> read_row) list \<Rightarrow> nat" where
  "run_start newest i [] = i"
| "run_start newest i ((k, r) # rest) =
     (if failed_read r then run_start newest i rest
      else if r_state r \<noteq> Drifted then i
      else if \<not> same r newest then i
      else run_start newest k rest)"

definition judge :: "read_row list \<Rightarrow> epoch list \<Rightarrow> epoch \<Rightarrow> epoch \<Rightarrow> judgement" where
  "judge reads changes grace now =
     (let us = usable reads changes in
      if us = [] then
        \<lparr>j_state = Need_read, j_due = Some now, j_first = None, j_second = None, j_departure = []\<rparr>
      else
        let (i_new, newest) = last us in
        case r_state newest of
          Clean \<Rightarrow> \<lparr>j_state = At_golden, j_due = None, j_first = Some i_new, j_second = None,
                    j_departure = []\<rparr>
        | Skipped \<Rightarrow> \<lparr>j_state = Not_checkable, j_due = None, j_first = Some i_new, j_second = None,
                    j_departure = []\<rparr>
        | Drifted \<Rightarrow>
            (let i_first = run_start newest i_new (rev (butlast us));
                 first = reads ! i_first;
                 apart = r_epoch newest - r_epoch first
             in if i_first \<noteq> i_new \<and> grace \<le> apart then
                  \<lparr>j_state = Persisted, j_due = None, j_first = Some i_first,
                   j_second = Some i_new, j_departure = r_departure newest\<rparr>
                else
                  \<lparr>j_state = Waiting, j_due = Some (or_num (r_epoch first) now + grace),
                   j_first = Some i_first, j_second = None, j_departure = r_departure newest\<rparr>)
        | _ \<Rightarrow>
            (if READ_ATTEMPTS \<le> length (errors_in_row us) then
               \<lparr>j_state = Unreadable, j_due = None, j_first = None, j_second = None,
                j_departure = []\<rparr>
             else
               \<lparr>j_state = Need_read, j_due = Some (or_num (r_epoch newest) now + RETRY_SECONDS),
                j_first = None, j_second = None, j_departure = []\<rparr>))"

section \<open>The usable reads\<close>

lemma in_set_usable:
  "(i, r) \<in> set (usable reads cs) \<longleftrightarrow> i < length reads \<and> r = reads ! i \<and> after_change cs r"
  by (auto simp: usable_def in_set_enumerate_eq)

lemma after_change_iff: "after_change cs r \<longleftrightarrow> (\<forall>c \<in> set cs. c < r_epoch r)"
proof (cases "cs = []")
  case False
  then have "set cs \<noteq> {}" by simp
  then show ?thesis
    using False by (auto simp: after_change_def last_change_def Max_less_iff)
qed (simp add: after_change_def last_change_def)

lemma sorted_usable: "sorted_wrt (<) (map fst (usable reads cs))"
proof -
  have "sorted_wrt (\<lambda>p q. fst p < fst q) (enumerate 0 reads)"
    by (simp add: sorted_wrt_iff_nth_less nth_enumerate_eq)
  then have "sorted_wrt (\<lambda>p q. fst p < fst q) (usable reads cs)"
    unfolding usable_def by (rule sorted_wrt_filter)
  then show ?thesis by (simp add: sorted_wrt_map)
qed

lemma usable_append:
  "usable (reads @ [r]) cs
     = usable reads cs @ (if after_change cs r then [(length reads, r)] else [])"
  by (simp add: usable_def enumerate_append_eq)

section \<open>The run of reads with one departure\<close>

definition of_run :: "read_row \<Rightarrow> read_row \<Rightarrow> bool" where
  "of_run newest r \<longleftrightarrow> failed_read r \<or> r_state r = Drifted \<and> same r newest"

definition holds_departure :: "read_row \<Rightarrow> read_row \<Rightarrow> bool" where
  "holds_departure newest r \<longleftrightarrow> r_state r = Drifted \<and> same r newest"

lemma drifted_not_failed [simp]: "r_state r = Drifted \<Longrightarrow> \<not> failed_read r"
  by (simp add: failed_read_def)

lemma run_start_cases:
  "run_start newest i us = i
   \<or> (\<exists>pre r post. us = pre @ (run_start newest i us, r) # post \<and> holds_departure newest r
        \<and> (\<forall>(j, q) \<in> set pre. of_run newest q))"
proof (induction newest i us rule: run_start.induct)
  case (2 newest i k r rest)
  have lift: "P = i \<or> (\<exists>pre r' post. (k, r) # rest = pre @ (P, r') # post
        \<and> holds_departure newest r' \<and> (\<forall>(j, q) \<in> set pre. of_run newest q))"
    if "of_run newest r" and "\<exists>pre r' post. rest = pre @ (P, r') # post
        \<and> holds_departure newest r' \<and> (\<forall>(j, q) \<in> set pre. of_run newest q)" for P
  proof -
    from that(2) obtain pre r' post where "rest = pre @ (P, r') # post"
      "holds_departure newest r'" "\<forall>(j, q) \<in> set pre. of_run newest q" by blast
    with that(1) have "(k, r) # rest = ((k, r) # pre) @ (P, r') # post
        \<and> holds_departure newest r' \<and> (\<forall>(j, q) \<in> set ((k, r) # pre). of_run newest q)" by simp
    then show ?thesis by blast
  qed
  show ?case
  proof (cases "failed_read r")
    case True
    with "2.IH"(1) lift [of "run_start newest i rest"] show ?thesis
      by (auto simp: of_run_def)
  next
    case nf: False
    show ?thesis
    proof (cases "r_state r = Drifted \<and> same r newest")
      case True
      then have r: "holds_departure newest r" by (simp add: holds_departure_def)
      from True nf "2.IH"(2) consider "run_start newest k rest = k"
        | "\<exists>pre r' post. rest = pre @ (run_start newest k rest, r') # post
             \<and> holds_departure newest r' \<and> (\<forall>(j, q) \<in> set pre. of_run newest q)" by blast
      then show ?thesis
      proof cases
        case 1
        with True nf r show ?thesis by (intro disjI2 exI [of _ "[]"]) auto
      next
        case 2
        with lift [of "run_start newest k rest"] True nf show ?thesis
          by (auto simp: of_run_def)
      qed
    qed (use nf in auto)
  qed
qed simp

lemma run_start_skip:
  "\<forall>(j, q) \<in> set pre. of_run newest q \<Longrightarrow> holds_departure newest r \<Longrightarrow>
   run_start newest i (pre @ (k, r) # post) = run_start newest k post"
proof (induction pre arbitrary: i)
  case (Cons p pre)
  then show ?case by (cases p) (auto simp: of_run_def)
qed (simp add: holds_departure_def)

lemma run_start_le:
  "sorted_wrt (>) (i # map fst us) \<Longrightarrow> run_start newest i us \<le> i"
proof (induction newest i us rule: run_start.induct)
  case (2 newest i k r rest)
  then have "k < i" "sorted_wrt (>) (i # map fst rest)" "sorted_wrt (>) (k # map fst rest)" by auto
  with 2 show ?case by auto
qed simp

section \<open>When a departure has persisted\<close>

text \<open>N1 as a predicate: two drifted reads of one departure, the later the newest read after
  every outside change, at least the grace period apart, and nothing between them but reads of
  the same departure and reads that failed.\<close>

definition persists_between ::
    "read_row list \<Rightarrow> epoch list \<Rightarrow> epoch \<Rightarrow> nat \<Rightarrow> nat \<Rightarrow> bool" where
  "persists_between reads cs grace f n \<longleftrightarrow>
     f < n \<and> n < length reads
     \<and> (\<forall>c \<in> set cs. c < r_epoch (reads ! f) \<and> c < r_epoch (reads ! n))
     \<and> (\<forall>k. n < k \<and> k < length reads \<longrightarrow> \<not> after_change cs (reads ! k))
     \<and> r_state (reads ! n) = Drifted \<and> holds_departure (reads ! n) (reads ! f)
     \<and> grace \<le> r_epoch (reads ! n) - r_epoch (reads ! f)
     \<and> (\<forall>k. f < k \<and> k < n \<and> after_change cs (reads ! k) \<longrightarrow> of_run (reads ! n) (reads ! k))"

lemma map_fst_split: "xs \<noteq> [] \<Longrightarrow> last xs = (n, r) \<Longrightarrow> map fst xs = map fst (butlast xs) @ [n]"
  by (induction xs rule: rev_induct) auto

lemma set_split_last: "xs \<noteq> [] \<Longrightarrow> last xs = x \<Longrightarrow> set xs = insert x (set (butlast xs))"
  by (induction xs rule: rev_induct) auto

lemma last_usable:
  assumes "usable reads cs \<noteq> []" and "last (usable reads cs) = (n, r)"
  shows "n < length reads" "r = reads ! n" "after_change cs (reads ! n)"
    "\<And>k. n < k \<Longrightarrow> k < length reads \<Longrightarrow> \<not> after_change cs (reads ! k)"
    "\<And>k q. (k, q) \<in> set (butlast (usable reads cs))
            \<longleftrightarrow> k < n \<and> k < length reads \<and> q = reads ! k \<and> after_change cs q"
proof -
  let ?us = "usable reads cs"
  have inn: "(n, r) \<in> set ?us" using assms last_in_set by metis
  then show n: "n < length reads" "r = reads ! n" "after_change cs (reads ! n)"
    by (auto simp: in_set_usable)
  have srt: "sorted_wrt (<) (map fst (butlast ?us) @ [n])"
    using sorted_usable [of reads cs] by (simp only: map_fst_split [OF assms])
  note set_us = set_split_last [OF assms]
  from srt have below: "\<And>k q. (k, q) \<in> set (butlast ?us) \<Longrightarrow> k < n"
    by (force simp: sorted_wrt_append)
  show "\<not> after_change cs (reads ! k)" if "n < k" "k < length reads" for k
  proof
    assume "after_change cs (reads ! k)"
    with that have "(k, reads ! k) \<in> set ?us" by (simp add: in_set_usable)
    then have "(k, reads ! k) \<in> set (butlast ?us) \<or> k = n" by (auto simp: set_us)
    with below that show False by force
  qed
  show "(k, q) \<in> set (butlast ?us) \<longleftrightarrow> k < n \<and> k < length reads \<and> q = reads ! k \<and> after_change cs q"
    for k q
  proof
    assume a: "(k, q) \<in> set (butlast ?us)"
    then have "(k, q) \<in> set ?us" by (rule in_set_butlastD)
    with below [OF a] show "k < n \<and> k < length reads \<and> q = reads ! k \<and> after_change cs q"
      by (auto simp: in_set_usable)
  next
    assume a: "k < n \<and> k < length reads \<and> q = reads ! k \<and> after_change cs q"
    then have "(k, q) \<in> set ?us" by (auto simp: in_set_usable)
    with a show "(k, q) \<in> set (butlast ?us)" by (simp add: set_us)
  qed
qed

lemma sorted_rev_butlast:
  assumes "usable reads cs \<noteq> []" and "last (usable reads cs) = (n, r)"
  shows "sorted_wrt (>) (n # map fst (rev (butlast (usable reads cs))))"
proof -
  have "sorted_wrt (<) (map fst (butlast (usable reads cs)) @ [n])"
    using sorted_usable [of reads cs] by (simp only: map_fst_split [OF assms])
  then have "sorted_wrt (<) (rev (n # map fst (rev (butlast (usable reads cs)))))"
    by (simp add: rev_map)
  then show ?thesis by (simp only: sorted_wrt_rev)
qed

lemma judge_drifted:
  assumes "usable reads cs \<noteq> []" and "last (usable reads cs) = (n, r)" and "r_state r = Drifted"
  shows "judge reads cs grace now =
    (let f = run_start r n (rev (butlast (usable reads cs))) in
     if f \<noteq> n \<and> grace \<le> r_epoch r - r_epoch (reads ! f)
     then \<lparr>j_state = Persisted, j_due = None, j_first = Some f, j_second = Some n,
           j_departure = r_departure r\<rparr>
     else \<lparr>j_state = Waiting, j_due = Some (or_num (r_epoch (reads ! f)) now + grace),
           j_first = Some f, j_second = None, j_departure = r_departure r\<rparr>)"
  using assms by (simp add: judge_def Let_def)

lemma judge_persistedE:
  assumes "j_state (judge reads cs grace now) = Persisted"
  obtains n r where "usable reads cs \<noteq> []" "last (usable reads cs) = (n, r)" "r_state r = Drifted"
    "run_start r n (rev (butlast (usable reads cs))) \<noteq> n"
    "grace \<le> r_epoch r - r_epoch (reads ! run_start r n (rev (butlast (usable reads cs))))"
proof -
  obtain n r where l: "last (usable reads cs) = (n, r)" by fastforce
  from assms l have ne: "usable reads cs \<noteq> []" and d: "r_state r = Drifted"
    by (auto simp: judge_def Let_def split: if_splits read_state.splits)
  have "run_start r n (rev (butlast (usable reads cs))) \<noteq> n
      \<and> grace \<le> r_epoch r - r_epoch (reads ! run_start r n (rev (butlast (usable reads cs))))"
    using assms unfolding judge_drifted [OF ne l d] Let_def
    by (simp split: if_splits)
  with that ne l d show thesis by blast
qed

lemma judge_persisted_sound:
  assumes "j_state (judge reads cs grace now) = Persisted"
  shows "\<exists>f n. persists_between reads cs grace f n
              \<and> j_first (judge reads cs grace now) = Some f
              \<and> j_second (judge reads cs grace now) = Some n"
proof -
  from assms obtain n r where ne: "usable reads cs \<noteq> []" and l: "last (usable reads cs) = (n, r)"
    and d: "r_state r = Drifted" and f: "run_start r n (rev (butlast (usable reads cs))) \<noteq> n"
    and ap: "grace \<le> r_epoch r - r_epoch (reads ! run_start r n (rev (butlast (usable reads cs))))"
    by (rule judge_persistedE)
  note lu = last_usable [OF ne l]
  define k where "k = run_start r n (rev (butlast (usable reads cs)))"
  from run_start_cases [of r n "rev (butlast (usable reads cs))"] f obtain pre q post
    where sp: "rev (butlast (usable reads cs)) = pre @ (k, q) # post"
      and q: "holds_departure r q" and pre: "\<forall>(j, q) \<in> set pre. of_run r q"
    unfolding k_def by blast
  have mem: "\<And>x. x \<in> set (butlast (usable reads cs)) \<longleftrightarrow> x \<in> set (pre @ (k, q) # post)"
    using arg_cong [OF sp, of set] by auto
  from mem [of "(k, q)"] have kq: "k < n" "q = reads ! k" "after_change cs q" by (auto simp: lu(5))
  have srt: "sorted_wrt (>) (map fst (pre @ (k, q) # post))"
    using sorted_rev_butlast [OF ne l] by (simp only: sp sorted_wrt.simps)
  have between: "of_run r (reads ! i)" if "k < i" "i < n" "after_change cs (reads ! i)" for i
  proof -
    from that lu(1) have "(i, reads ! i) \<in> set (pre @ (k, q) # post)"
      by (subst mem [symmetric]) (simp add: lu(5))
    moreover from srt that(1) have "(i, reads ! i) \<notin> set ((k, q) # post)"
      by (force simp: sorted_wrt_append)
    ultimately have "(i, reads ! i) \<in> set pre" by auto
    with pre show ?thesis by blast
  qed
  have ap': "grace \<le> r_epoch (reads ! n) - r_epoch (reads ! k)"
    using ap lu(2) by (simp add: k_def)
  have "persists_between reads cs grace k n"
    unfolding persists_between_def
    using kq lu(1-4) d q ap' between by (auto simp: after_change_iff)
  moreover have "judge reads cs grace now = \<lparr>j_state = Persisted, j_due = None, j_first = Some k,
      j_second = Some n, j_departure = r_departure r\<rparr>"
    using f ap by (simp add: judge_drifted [OF ne l d] k_def Let_def)
  ultimately show ?thesis by auto
qed

lemma last_usable_eq:
  assumes "n < length reads" "after_change cs (reads ! n)"
    "\<forall>k. n < k \<and> k < length reads \<longrightarrow> \<not> after_change cs (reads ! k)"
  shows "usable reads cs \<noteq> []" "last (usable reads cs) = (n, reads ! n)"
proof -
  have inn: "(n, reads ! n) \<in> set (usable reads cs)" using assms by (simp add: in_set_usable)
  then show ne: "usable reads cs \<noteq> []" by auto
  obtain m r where l: "last (usable reads cs) = (m, r)" by fastforce
  note lu = last_usable [OF ne l]
  from lu(1,3) assms(3) have "m \<le> n" by (meson not_le)
  moreover from lu(4) [of n] assms(1,2) have "n \<le> m" by (meson not_le)
  ultimately show "last (usable reads cs) = (n, reads ! n)" using l lu(2) by simp
qed

lemma judge_persisted_complete:
  assumes srt: "sorted (map r_epoch reads)" and pb: "persists_between reads cs grace f n"
  shows "j_state (judge reads cs grace now) = Persisted"
proof -
  let ?r = "reads ! n"
  from pb have fn: "f < n" and n: "n < length reads" and d: "r_state ?r = Drifted"
    and af: "after_change cs (reads ! f)" and an: "after_change cs ?r"
    and top: "\<forall>k. n < k \<and> k < length reads \<longrightarrow> \<not> after_change cs (reads ! k)"
    and hf: "holds_departure ?r (reads ! f)"
    and gap: "grace \<le> r_epoch ?r - r_epoch (reads ! f)"
    and run: "\<And>k. f < k \<Longrightarrow> k < n \<Longrightarrow> after_change cs (reads ! k) \<Longrightarrow> of_run ?r (reads ! k)"
    by (auto simp: persists_between_def after_change_iff)
  note lu = last_usable_eq [OF n an top]
  note mem = last_usable(5) [OF lu]
  from fn n af have "(f, reads ! f) \<in> set (rev (butlast (usable reads cs)))" by (simp add: mem)
  then obtain pre post where sp: "rev (butlast (usable reads cs)) = pre @ (f, reads ! f) # post"
    by (meson split_list)
  have sw: "sorted_wrt (>) (map fst (pre @ (f, reads ! f) # post))"
    using sorted_rev_butlast [OF lu] by (simp only: sp sorted_wrt.simps)
  have "of_run ?r q" if "(k, q) \<in> set pre" for k q
  proof -
    from that have "(k, q) \<in> set (rev (butlast (usable reads cs)))" by (simp add: sp)
    then have k: "k < n" "q = reads ! k" "after_change cs (reads ! k)" by (auto simp: mem)
    moreover from sw that have "f < k" by (force simp: sorted_wrt_append)
    ultimately show ?thesis using run by simp
  qed
  then have start: "run_start ?r n (rev (butlast (usable reads cs))) = run_start ?r f post"
    unfolding sp by (intro run_start_skip hf) blast
  have "run_start ?r f post \<le> f"
    using sw by (intro run_start_le) (simp add: sorted_wrt_append)
  moreover from this srt fn n have "r_epoch (reads ! run_start ?r f post) \<le> r_epoch (reads ! f)"
    using sorted_nth_mono [OF srt, of "run_start ?r f post" f] by simp
  ultimately show ?thesis
    using fn gap by (simp add: judge_drifted [OF lu d] start Let_def)
qed

section \<open>What the grace period promises\<close>

text \<open>C16: a deviation settles as persisted exactly when N1's rule holds: two drifted reads of
  one departure at least the grace period apart, both after every outside change, the later the
  newest read that counts, and nothing between them but reads of that departure and failed
  reads (the reads in the order they were made).\<close>

theorem persisted_iff:
  assumes "sorted (map r_epoch reads)"
  shows "j_state (judge reads cs grace now) = Persisted
         \<longleftrightarrow> (\<exists>f n. persists_between reads cs grace f n)"
  using judge_persisted_sound judge_persisted_complete [OF assms] by metis

definition drifted_read :: "epoch \<Rightarrow> string \<Rightarrow> read_row" where
  "drifted_read t d = \<lparr>r_epoch = t, r_state = Drifted, r_departure = d, r_changed = Some 1,
                       r_error = []\<rparr>"

theorem persisted_iff_witness:
  "\<exists>f n. persists_between [drifted_read 100 ''d1'', drifted_read 250 ''d1''] [50] 120 f n"
proof -
  have "sorted (map r_epoch [drifted_read 100 ''d1'', drifted_read 250 ''d1''])"
    by (simp add: drifted_read_def)
  note iff = persisted_iff [OF this, of "[50]" 120 300]
  have "j_state (judge [drifted_read 100 ''d1'', drifted_read 250 ''d1''] [50] 120 300) = Persisted"
    by (simp add: judge_def usable_def after_change_def last_change_def drifted_read_def
        enumerate_eq_zip holds_departure_def same_def failed_read_def Let_def)
  with iff show ?thesis by blast
qed

lemma run_start_cong:
  assumes "\<forall>(k, q) \<in> set us. r_state q = Drifted \<longrightarrow> same q a = same q b"
  shows "run_start a i us = run_start b i us"
  using assms by (induction us arbitrary: i) auto

text \<open>The wait ends. When the judgement waits for a read due at \<open>due\<close>, a further read made
  at \<open>due\<close> or later that finds the same departure, with no outside change at or after it,
  settles the incident as persisted, whatever the clock says by then.\<close>

lemma due_read_settles:
  assumes j: "judge reads cs grace now = j" "j_state j = Waiting" "j_due j = Some due"
    and r: "r_state r = Drifted" "r_departure r = j_departure j" "due \<le> r_epoch r"
      "after_change cs r"
    and marked: "\<forall>q \<in> set reads. r_state q = Drifted \<longrightarrow> r_departure q \<noteq> []"
    and timed: "\<forall>q \<in> set reads. 0 < r_epoch q"
  shows "j_state (judge (reads @ [r]) cs grace now') = Persisted"
proof -
  obtain n q where l: "last (usable reads cs) = (n, q)" by fastforce
  from j l have ne: "usable reads cs \<noteq> []" and d: "r_state q = Drifted"
    by (auto simp: judge_def Let_def split: if_splits read_state.splits)
  note lu = last_usable [OF ne l]
  define us where "us = rev (butlast (usable reads cs))"
  define f where "f = run_start q n us"
  have jf: "j_departure j = r_departure q" "due = or_num (r_epoch (reads ! f)) now + grace"
    using j unfolding judge_drifted [OF ne l d] f_def us_def by (auto simp: Let_def split: if_splits)
  have f: "f \<le> n" unfolding f_def us_def by (rule run_start_le [OF sorted_rev_butlast [OF ne l]])
  have qd: "r_departure q \<noteq> []" using marked d lu(1,2) by simp
  have mem: "\<And>k p. (k, p) \<in> set us \<Longrightarrow> p \<in> set reads"
    unfolding us_def using lu(5) by auto
  have run: "run_start r n us = f"
    unfolding f_def using mem marked qd r(2) jf(1)
    by (intro run_start_cong) (auto simp: same_def)
  have us': "usable (reads @ [r]) cs = usable reads cs @ [(length reads, r)]"
    using r(4) by (simp add: usable_append)
  have split: "rev (usable reads cs) = (n, q) # us"
    using ne l unfolding us_def by (metis append_butlast_last_id rev_eq_Cons_iff rev_rev_ident)
  have "run_start r (length reads) (rev (butlast (usable (reads @ [r]) cs))) = f"
    unfolding us' using d qd r(2) jf(1) run by (simp add: split same_def)
  moreover have "reads ! f \<in> set reads" "f < length reads" using f lu(1) by simp_all
  ultimately show ?thesis
    using timed r(1,3) jf(2)
    by (subst judge_drifted [of _ _ "length reads" r]) (auto simp: us' Let_def nth_append)
qed

text \<open>An outside change restarts the period: while no read is later than the newest outside
  change the device is to be read now, and no earlier read settles anything.\<close>

lemma outside_change_restarts:
  assumes "c \<in> set cs" and "\<forall>r \<in> set reads. r_epoch r \<le> c"
  shows "j_state (judge reads cs grace now) = Need_read
         \<and> j_due (judge reads cs grace now) = Some now"
proof -
  have "usable reads cs = []"
    using assms
    by (auto simp: usable_def filter_empty_conv after_change_iff in_set_enumerate_eq)
      (meson leD nth_mem)
  then show ?thesis by (simp add: judge_def)
qed

end
