(* ===== verification/Incidents.thy ===== *)
theory Incidents
  imports Grace
begin

text \<open>
  The heal incidents of one network (\<open>modules/heal/incidents.py\<close>): one per cause, each a
  device to check. The store is the list of incidents in the file's order; a reference the
  Python holds into it is an index here, so an update in place is an update of that index.
  The operations are the source's: \<open>sight\<close> (with \<open>_where\<close>, \<open>_push\<close>, \<open>_cut\<close>,
  \<open>_fold_target\<close>, \<open>_absorb\<close>), \<open>record_read\<close>, \<open>settle\<close>, \<open>ready\<close>, \<open>claim\<close>,
  \<open>defer\<close>, \<open>close\<close> and \<open>close_watching\<close>, each through \<open>_mutate\<close>. The id a new
  incident gets (\<open>uuid4\<close>) and a device's blast radius are arguments.

  The lemmas: where each operation moves devices (the multiset of the devices the open incidents
  hold), the invariant of every reachable store, the states an incident may pass through, and
  that a trigger sighted twice changes nothing.
\<close>

section \<open>Triggers, members and incidents\<close>

datatype trigger_kind =
  Config_change | Drift | Alert | Adjacency | Adjacency_log | Duplicate_router_id | Other_kind

datatype attributed = Mercury | Outside | Unknown

record trigger =
  t_kind :: trigger_kind
  t_key :: "string option"
  t_epoch :: epoch
  t_source :: string
  t_related :: "device list"
  t_by :: "attributed option"
  t_person :: string           \<comment> \<open>the person's words, empty where the line named nobody\<close>
  t_interface :: string
  t_protocol :: string
  t_rule :: string
  t_router_id :: string
  t_read :: "read_row option"

definition CAUSE_KINDS :: "trigger_kind list" where
  "CAUSE_KINDS = [Config_change, Drift]"

definition SYMPTOM_KINDS :: "trigger_kind list" where
  "SYMPTOM_KINDS = [Alert, Adjacency, Adjacency_log, Duplicate_router_id]"

definition CLOSED_KEPT :: nat where "CLOSED_KEPT = 200"
definition TRIGGERS_KEPT :: nat where "TRIGGERS_KEPT = 100"
definition READS_KEPT :: nat where "READS_KEPT = 20"

datatype inc_state = Watching | Ready | Claimed | Closed
datatype inc_cause = Change | Symptom
datatype fold_state = Fold_unset | Fold_judged | Fold_not_judged | Not_folded
datatype close_why = Said string | Folded_into incident_id

record member =
  m_device :: device
  m_attached_at :: iso_time
  m_triggers :: "trigger list"
  m_seen :: nat
  m_reads :: "read_row list"
  m_from :: "incident_id option"

record settled =
  s_how :: grace_state
  s_at :: iso_time
  s_first :: "nat option"
  s_second :: "nat option"
  s_departure :: string

record incident =
  i_id :: incident_id
  i_network :: network
  i_device :: device
  i_state :: inc_state
  i_cause :: inc_cause
  i_opened_at :: iso_time
  i_opened_epoch :: epoch
  i_updated_at :: iso_time
  i_triggers :: "trigger list"
  i_seen :: nat
  i_reads :: "read_row list"
  i_attached :: "member list"
  i_related :: "(incident_id \<times> device) list"
  i_fold :: fold_state
  i_settled :: "settled option"
  i_unsettled :: "iso_time option"
  i_claimed :: "(string \<times> iso_time) option"
  i_defer_until :: "epoch option"
  i_deferred :: "(iso_time \<times> string) option"
  i_closed :: "(iso_time \<times> close_why) option"

definition is_cause :: "trigger \<Rightarrow> bool" where
  "is_cause t \<longleftrightarrow> t_kind t \<in> set CAUSE_KINDS"

definition open_state :: "inc_state \<Rightarrow> bool" where
  "open_state s \<longleftrightarrow> s \<in> {Watching, Ready, Claimed}"

definition is_open :: "incident \<Rightarrow> bool" where
  "is_open inc \<longleftrightarrow> open_state (i_state inc)"

lemma is_open_iff: "is_open inc \<longleftrightarrow> i_state inc \<noteq> Closed"
  by (cases "i_state inc") (simp_all add: is_open_def open_state_def)

section \<open>The store\<close>

datatype store = Absent | Unreadable_store | Stored "incident list"

fun held :: "store \<Rightarrow> incident list" where
  "held (Stored doc) = doc"
| "held _ = []"

text \<open>\<open>_mutate\<close>'s pruning: past \<open>CLOSED_KEPT\<close> closed incidents, the oldest are dropped by
  their ids.\<close>

definition prune :: "incident list \<Rightarrow> incident list" where
  "prune doc =
     (let closed = filter (\<lambda>i. i_state i = Closed) doc in
      if CLOSED_KEPT < length closed then
        let drop = map i_id (take (length closed - CLOSED_KEPT) closed)
        in filter (\<lambda>i. i_id i \<notin> set drop) doc
      else doc)"

text \<open>\<open>_mutate\<close>: a network that does not exist is refused, a store that cannot be read raises
  and is never replaced, an absent one is empty; a change that raises writes nothing.\<close>

definition mutate ::
    "bool \<Rightarrow> (incident list \<Rightarrow> heal_error + ('a \<times> incident list)) \<Rightarrow> store
     \<Rightarrow> heal_error + ('a \<times> store)" where
  "mutate network_exists fn st =
     (if \<not> network_exists then Inl Refused_no_network
      else case st of
        Unreadable_store \<Rightarrow> Inl Store_unreadable
      | _ \<Rightarrow> bind_result (fn (held st)) (\<lambda>(out, doc). Inr (out, Stored (prune doc))))"

section \<open>Finding and pushing\<close>

definition holds :: "device \<Rightarrow> incident \<Rightarrow> bool" where
  "holds d inc \<longleftrightarrow> i_device inc = d \<or> (\<exists>m \<in> set (i_attached inc). m_device m = d)"

definition where_idx :: "incident list \<Rightarrow> device \<Rightarrow> (nat \<times> nat option) option" where
  "where_idx doc d =
     (case find_idx (\<lambda>inc. is_open inc \<and> holds d inc) doc of
        None \<Rightarrow> None
      | Some i \<Rightarrow> Some (i, if i_device (doc ! i) = d then None
                          else find_idx (\<lambda>m. m_device m = d) (i_attached (doc ! i))))"

definition held_keys :: "incident \<Rightarrow> string option list" where
  "held_keys inc = map t_key (i_triggers inc)
                   @ concat (map (\<lambda>m. map t_key (m_triggers m)) (i_attached inc))"

definition push_list :: "trigger list \<Rightarrow> trigger \<Rightarrow> trigger list" where
  "push_list ts t = (let ts' = ts @ [t] in
                     if TRIGGERS_KEPT < length ts' then last_n TRIGGERS_KEPT ts' else ts')"

definition push_inc :: "trigger \<Rightarrow> incident \<Rightarrow> incident" where
  "push_inc t inc = inc\<lparr>i_triggers := push_list (i_triggers inc) t, i_seen := i_seen inc + 1\<rparr>"

definition push_member :: "trigger \<Rightarrow> member \<Rightarrow> member" where
  "push_member t m = m\<lparr>m_triggers := push_list (m_triggers m) t, m_seen := m_seen m + 1\<rparr>"

definition new_incident :: "incident_id \<Rightarrow> network \<Rightarrow> device \<Rightarrow> trigger \<Rightarrow> epoch \<Rightarrow> incident" where
  "new_incident nid network device t now =
     \<lparr>i_id = nid, i_network = network, i_device = device, i_state = Watching,
      i_cause = (if is_cause t then Change else Symptom),
      i_opened_at = iso now, i_opened_epoch = now, i_updated_at = iso now,
      i_triggers = [], i_seen = 0, i_reads = [], i_attached = [], i_related = [],
      i_fold = Fold_unset, i_settled = None, i_unsettled = None, i_claimed = None,
      i_defer_until = None, i_deferred = None, i_closed = None\<rparr>"

definition new_member :: "device \<Rightarrow> trigger \<Rightarrow> epoch \<Rightarrow> member" where
  "new_member device t now =
     \<lparr>m_device = device, m_attached_at = iso now, m_triggers = [t], m_seen = 1, m_reads = [],
      m_from = None\<rparr>"

section \<open>The fold\<close>

text \<open>A blast radius as \<open>blast_radius.radius\<close> answers it, or the exception judging it raised.\<close>

datatype radius = Radius_raised | Radius_unknown | Radius_known "device list"

type_synonym radius_of = "(device \<Rightarrow> radius) option"

definition blast_cut :: "radius_of \<Rightarrow> device \<Rightarrow> device list option" where
  "blast_cut radius_of d =
     (case radius_of of None \<Rightarrow> None
      | Some f \<Rightarrow> (case f d of Radius_known ds \<Rightarrow> Some ds | _ \<Rightarrow> None))"

definition fold_target :: "incident list \<Rightarrow> device \<Rightarrow> trigger \<Rightarrow> radius_of \<Rightarrow> nat option" where
  "fold_target doc d t radius_of =
     (case find_idx (\<lambda>inc. is_open inc \<and> i_device inc \<in> set (t_related t)) doc of
        Some i \<Rightarrow> Some i
      | None \<Rightarrow> find_idx (\<lambda>inc. is_open inc \<and> i_cause inc = Change
                     \<and> (case blast_cut radius_of (i_device inc) of None \<Rightarrow> False
                        | Some ds \<Rightarrow> d \<in> set ds)) doc)"

text \<open>\<open>_absorb\<close>'s test of one other incident, and taking it.\<close>

definition absorbs :: "device list option \<Rightarrow> device \<Rightarrow> incident \<Rightarrow> bool" where
  "absorbs c d other \<longleftrightarrow>
     i_cause other = Symptom \<and> i_state other = Watching
     \<and> ((\<exists>t \<in> set (i_triggers other). d \<in> set (t_related t))
        \<or> (case c of None \<Rightarrow> False | Some ds \<Rightarrow> i_device other \<in> set ds))"

definition taken_member :: "epoch \<Rightarrow> incident \<Rightarrow> member" where
  "taken_member now other =
     \<lparr>m_device = i_device other, m_attached_at = iso now, m_triggers = i_triggers other,
      m_seen = i_seen other, m_reads = i_reads other, m_from = Some (i_id other)\<rparr>"

definition fold_close :: "epoch \<Rightarrow> incident_id \<Rightarrow> incident \<Rightarrow> incident" where
  "fold_close now into other =
     other\<lparr>i_state := Closed, i_updated_at := iso now, i_closed := Some (iso now, Folded_into into)\<rparr>"

definition take_in :: "epoch \<Rightarrow> nat \<Rightarrow> nat \<Rightarrow> incident list \<Rightarrow> incident list" where
  "take_in now i k doc =
     (let inc = doc ! i; other = doc ! k in
      doc[i := inc\<lparr>i_attached := i_attached inc @ taken_member now other # i_attached other\<rparr>,
          k := fold_close now (i_id inc) other])"

fun absorb_loop ::
    "device list option \<Rightarrow> epoch \<Rightarrow> nat \<Rightarrow> nat list \<Rightarrow> incident list
     \<Rightarrow> device list \<times> incident list" where
  "absorb_loop c now i [] doc = ([], doc)"
| "absorb_loop c now i (k # ks) doc =
     (if k = i \<or> \<not> absorbs c (i_device (doc ! i)) (doc ! k)
      then absorb_loop c now i ks doc
      else let (taken, doc') = absorb_loop c now i ks (take_in now i k doc)
           in (i_device (doc ! k) # taken, doc'))"

definition open_idxs :: "incident list \<Rightarrow> nat list" where
  "open_idxs doc = filter (\<lambda>k. is_open (doc ! k)) [0..<length doc]"

definition absorb :: "radius_of \<Rightarrow> epoch \<Rightarrow> nat \<Rightarrow> incident list \<Rightarrow> device list \<times> incident list" where
  "absorb radius_of now i doc =
     (let c = blast_cut radius_of (i_device (doc ! i));
          doc = upd_at i (\<lambda>inc. inc\<lparr>i_fold := (if c = None then Fold_not_judged else Fold_judged)\<rparr>) doc
      in absorb_loop c now i (open_idxs doc) doc)"

section \<open>Sighting a trigger\<close>

datatype action = Opened | Added | Attached | Promoted | Moved | Duplicate

definition sight_added ::
    "trigger \<Rightarrow> epoch \<Rightarrow> radius_of \<Rightarrow> nat \<Rightarrow> incident list \<Rightarrow> incident list" where
  "sight_added t now radius_of i doc =
     (let doc = upd_at i (\<lambda>inc. push_inc t inc\<lparr>i_updated_at := iso now\<rparr>) doc;
          doc = (if is_cause t \<and> i_cause (doc ! i) \<noteq> Change
                 then snd (absorb radius_of now i (upd_at i (\<lambda>inc. inc\<lparr>i_cause := Change\<rparr>) doc))
                 else doc)
      in if is_cause t \<and> i_state (doc ! i) = Ready
         then upd_at i (\<lambda>inc. inc\<lparr>i_state := Watching, i_settled := None,
                                  i_unsettled := Some (iso now)\<rparr>) doc
         else doc)"

definition sight_member ::
    "trigger \<Rightarrow> epoch \<Rightarrow> nat \<Rightarrow> nat \<Rightarrow> incident list \<Rightarrow> incident list" where
  "sight_member t now i j doc =
     upd_at i (\<lambda>inc. inc\<lparr>i_attached := upd_at j (push_member t) (i_attached inc),
                         i_updated_at := iso now\<rparr>) doc"

definition promote :: "device \<Rightarrow> epoch \<Rightarrow> nat \<Rightarrow> incident \<Rightarrow> incident" where
  "promote device now j inc =
     (let m = i_attached inc ! j;
          old = \<lparr>m_device = i_device inc, m_attached_at = iso now, m_triggers = i_triggers inc,
                 m_seen = i_seen inc, m_reads = i_reads inc, m_from = None\<rparr>
      in inc\<lparr>i_attached := remove_at j (i_attached inc) @ [old], i_device := device,
             i_cause := Change, i_reads := m_reads m, i_triggers := m_triggers m,
             i_seen := m_seen m, i_updated_at := iso now\<rparr>)"

definition sight_promoted ::
    "device \<Rightarrow> trigger \<Rightarrow> epoch \<Rightarrow> radius_of \<Rightarrow> nat \<Rightarrow> nat \<Rightarrow> incident list \<Rightarrow> incident list" where
  "sight_promoted device t now radius_of i j doc =
     snd (absorb radius_of now i (upd_at i (\<lambda>inc. push_inc t (promote device now j inc)) doc))"

definition moved_incident ::
    "incident_id \<Rightarrow> network \<Rightarrow> device \<Rightarrow> trigger \<Rightarrow> epoch \<Rightarrow> incident \<Rightarrow> member \<Rightarrow> incident" where
  "moved_incident nid network device t now inc m =
     (push_inc t ((new_incident nid network device t now)
        \<lparr>i_reads := m_reads m, i_triggers := m_triggers m, i_seen := m_seen m\<rparr>))
     \<lparr>i_related := [(i_id inc, i_device inc)]\<rparr>"

definition sight_moved ::
    "incident_id \<Rightarrow> network \<Rightarrow> device \<Rightarrow> trigger \<Rightarrow> epoch \<Rightarrow> nat \<Rightarrow> nat \<Rightarrow> incident list
     \<Rightarrow> incident list" where
  "sight_moved nid network device t now i j doc =
     upd_at i (\<lambda>inc. inc\<lparr>i_attached := remove_at j (i_attached inc),
                         i_related := i_related inc @ [(nid, device)]\<rparr>) doc
     @ [moved_incident nid network device t now (doc ! i) (i_attached (doc ! i) ! j)]"

definition sight_attached :: "device \<Rightarrow> trigger \<Rightarrow> epoch \<Rightarrow> nat \<Rightarrow> incident list \<Rightarrow> incident list" where
  "sight_attached device t now k doc =
     upd_at k (\<lambda>inc. inc\<lparr>i_attached := i_attached inc @ [new_member device t now],
                         i_updated_at := iso now\<rparr>) doc"

definition sight_opened ::
    "incident_id \<Rightarrow> network \<Rightarrow> device \<Rightarrow> trigger \<Rightarrow> epoch \<Rightarrow> radius_of \<Rightarrow> incident list
     \<Rightarrow> incident list" where
  "sight_opened nid network device t now radius_of doc =
     (let new = push_inc t (new_incident nid network device t now) in
      if is_cause t then snd (absorb radius_of now (length doc) (doc @ [new]))
      else doc @ [new\<lparr>i_fold := Not_folded\<rparr>])"

text \<open>\<open>sight\<close>'s \<open>change\<close>, its branches in the source's order.\<close>

definition sight_doc ::
    "incident_id \<Rightarrow> network \<Rightarrow> device \<Rightarrow> trigger \<Rightarrow> epoch \<Rightarrow> radius_of \<Rightarrow> incident list
     \<Rightarrow> (action \<times> incident_id) \<times> incident list" where
  "sight_doc nid network device t now radius_of doc =
     (case where_idx doc device of
        Some (i, mo) \<Rightarrow>
          (let inc = doc ! i in
           if t_key t \<in> set (held_keys inc) then ((Duplicate, i_id inc), doc)
           else case mo of
             None \<Rightarrow> ((Added, i_id inc), sight_added t now radius_of i doc)
           | Some j \<Rightarrow>
               (if \<not> is_cause t then ((Attached, i_id inc), sight_member t now i j doc)
                else if i_cause inc \<noteq> Change \<and> i_state inc = Watching
                then ((Promoted, i_id inc), sight_promoted device t now radius_of i j doc)
                else ((Moved, nid), sight_moved nid network device t now i j doc)))
      | None \<Rightarrow>
          (case if is_cause t then None else fold_target doc device t radius_of of
             Some k \<Rightarrow> ((Attached, i_id (doc ! k)), sight_attached device t now k doc)
           | None \<Rightarrow> ((Opened, nid), sight_opened nid network device t now radius_of doc)))"

definition sight ::
    "bool \<Rightarrow> incident_id \<Rightarrow> network \<Rightarrow> device \<Rightarrow> trigger \<Rightarrow> epoch \<Rightarrow> radius_of \<Rightarrow> store
     \<Rightarrow> heal_error + ((action \<times> incident_id) \<times> store)" where
  "sight network_exists nid network device t now radius_of st =
     (if t_kind t \<notin> set (CAUSE_KINDS @ SYMPTOM_KINDS) then Inl Refused_bad_kind
      else mutate network_exists
             (\<lambda>doc. Inr (sight_doc nid network device t now radius_of doc)) st)"

section \<open>The other operations\<close>

definition find_inc :: "incident list \<Rightarrow> incident_id \<Rightarrow> heal_error + nat" where
  "find_inc doc x = (case find_idx (\<lambda>i. i_id i = x) doc of
                       None \<Rightarrow> Inl Refused_no_incident | Some k \<Rightarrow> Inr k)"

text \<open>An operation on the incident \<open>x\<close>: found by its id, changed by a function that may
  refuse it, answered as it is after the change.\<close>

definition on_incident ::
    "incident_id \<Rightarrow> (incident \<Rightarrow> heal_error + incident) \<Rightarrow> incident list
     \<Rightarrow> heal_error + (incident \<times> incident list)" where
  "on_incident x f doc =
     bind_result (find_inc doc x) (\<lambda>k.
       bind_result (f (doc ! k)) (\<lambda>inc. Inr (inc, doc[k := inc])))"

definition keep_read :: "read_row \<Rightarrow> read_row list \<Rightarrow> read_row list" where
  "keep_read r rs = last_n READS_KEPT (rs @ [r])"

text \<open>\<open>rat\<close> is the read's own time, or nothing: \<open>keep.get("at") or inc.get("updated_at")\<close>.\<close>

definition record_read_inc ::
    "device \<Rightarrow> read_row \<Rightarrow> iso_time option \<Rightarrow> incident \<Rightarrow> heal_error + incident" where
  "record_read_inc d r rat inc =
     (let stamp = (\<lambda>x. x\<lparr>i_updated_at := case rat of None \<Rightarrow> i_updated_at inc | Some a \<Rightarrow> a\<rparr>) in
      if i_device inc = d then Inr (stamp (inc\<lparr>i_reads := keep_read r (i_reads inc)\<rparr>))
      else case find_idx (\<lambda>m. m_device m = d) (i_attached inc) of
        None \<Rightarrow> Inl Refused_not_in_incident
      | Some j \<Rightarrow> Inr (stamp (inc\<lparr>i_attached := upd_at j
                       (\<lambda>m. m\<lparr>m_reads := keep_read r (m_reads m)\<rparr>) (i_attached inc)\<rparr>)))"

definition record_read ::
    "bool \<Rightarrow> incident_id \<Rightarrow> device \<Rightarrow> read_row \<Rightarrow> iso_time option \<Rightarrow> store
     \<Rightarrow> heal_error + (incident \<times> store)" where
  "record_read network_exists x d r rat =
     mutate network_exists (on_incident x (record_read_inc d r rat))"

definition settle_inc :: "judgement \<Rightarrow> epoch \<Rightarrow> incident \<Rightarrow> heal_error + incident" where
  "settle_inc j now inc =
     (if i_state inc \<noteq> Watching then Inl Refused_not_watching
      else Inr (inc\<lparr>i_state := Ready, i_updated_at := iso now,
                    i_settled := Some \<lparr>s_how = j_state j, s_at = iso now, s_first = j_first j,
                                       s_second = j_second j, s_departure = j_departure j\<rparr>\<rparr>))"

definition settle ::
    "bool \<Rightarrow> incident_id \<Rightarrow> judgement \<Rightarrow> epoch \<Rightarrow> store \<Rightarrow> heal_error + (incident \<times> store)" where
  "settle network_exists x j now st =
     (if \<not> settled_state (j_state j) then Inl Refused_not_settling
      else mutate network_exists (on_incident x (settle_inc j now)) st)"

definition ready :: "store \<Rightarrow> heal_error + incident list" where
  "ready st = (case st of Unreadable_store \<Rightarrow> Inl Store_unreadable
               | _ \<Rightarrow> Inr (filter (\<lambda>i. i_state i = Ready) (held st)))"

definition claim_inc :: "string \<Rightarrow> epoch \<Rightarrow> incident \<Rightarrow> heal_error + incident" where
  "claim_inc by now inc =
     (if i_state inc \<noteq> Ready then Inl Refused_not_ready
      else Inr (inc\<lparr>i_state := Claimed, i_claimed := Some (by, iso now), i_updated_at := iso now\<rparr>))"

definition claim ::
    "bool \<Rightarrow> incident_id \<Rightarrow> string \<Rightarrow> epoch \<Rightarrow> store \<Rightarrow> heal_error + (incident \<times> store)" where
  "claim network_exists x by now = mutate network_exists (on_incident x (claim_inc by now))"

definition defer_inc :: "epoch \<Rightarrow> string \<Rightarrow> epoch \<Rightarrow> incident \<Rightarrow> heal_error + incident" where
  "defer_inc until why now inc =
     (if i_state inc \<notin> {Claimed, Ready} then Inl Refused_not_deferrable
      else Inr (inc\<lparr>i_state := Watching, i_settled := None, i_claimed := None,
                    i_updated_at := iso now, i_defer_until := Some until,
                    i_deferred := Some (iso now, why)\<rparr>))"

definition defer_incident ::
    "bool \<Rightarrow> incident_id \<Rightarrow> epoch \<Rightarrow> string \<Rightarrow> epoch \<Rightarrow> store \<Rightarrow> heal_error + (incident \<times> store)"
where
  "defer_incident network_exists x until why now st =
     (if blank why then Inl Refused_no_why
      else mutate network_exists (on_incident x (defer_inc until why now)) st)"

definition close_inc :: "string \<Rightarrow> epoch \<Rightarrow> incident \<Rightarrow> heal_error + incident" where
  "close_inc why now inc =
     (if i_state inc = Closed then Inr inc
      else Inr (inc\<lparr>i_state := Closed, i_closed := Some (iso now, Said why),
                    i_updated_at := iso now\<rparr>))"

definition close_incident ::
    "bool \<Rightarrow> incident_id \<Rightarrow> string \<Rightarrow> epoch \<Rightarrow> store \<Rightarrow> heal_error + (incident \<times> store)" where
  "close_incident network_exists x why now st =
     (if blank why then Inl Refused_no_why
      else mutate network_exists (on_incident x (close_inc why now)) st)"

definition close_watching_inc :: "string \<Rightarrow> epoch \<Rightarrow> incident \<Rightarrow> incident" where
  "close_watching_inc why now inc =
     (if i_state inc = Watching
      then inc\<lparr>i_state := Closed, i_closed := Some (iso now, Said why), i_updated_at := iso now\<rparr>
      else inc)"

definition close_watching ::
    "bool \<Rightarrow> string \<Rightarrow> epoch \<Rightarrow> store \<Rightarrow> heal_error + (incident_id list \<times> store)" where
  "close_watching network_exists why now st =
     (case st of
        Stored doc \<Rightarrow>
          (if \<not> (\<exists>i \<in> set doc. i_state i = Watching) then Inr ([], st)
           else mutate network_exists
             (\<lambda>doc. Inr (map i_id (filter (\<lambda>i. i_state i = Watching) doc),
                         map (close_watching_inc why now) doc)) st)
      | _ \<Rightarrow> Inr ([], st))"

section \<open>Where the devices are\<close>

definition places :: "incident \<Rightarrow> device list" where
  "places inc = (if is_open inc then i_device inc # map m_device (i_attached inc) else [])"

definition open_places :: "incident list \<Rightarrow> device list" where
  "open_places doc = concat (map places doc)"

definition one_place :: "incident list \<Rightarrow> bool" where
  "one_place doc \<longleftrightarrow> distinct (open_places doc)"

lemma open_places_append [simp]: "open_places (a @ b) = open_places a @ open_places b"
  by (simp add: open_places_def)

lemma open_places_update:
  "k < length doc \<Longrightarrow> mset (places y) = mset (places (doc ! k))
   \<Longrightarrow> mset (open_places (doc[k := y])) = mset (open_places doc)"
  unfolding open_places_def by (rule mset_gather_update_same)

lemma open_places_upd_at:
  "k < length doc \<Longrightarrow> mset (places (f (doc ! k))) = mset (places (doc ! k))
   \<Longrightarrow> mset (open_places (upd_at k f doc)) = mset (open_places doc)"
  unfolding upd_at_def by (rule open_places_update)

lemma holds_places: "is_open inc \<Longrightarrow> holds d inc \<longleftrightarrow> d \<in> set (places inc)"
  by (auto simp: holds_def places_def)

lemma where_idx_None_iff: "where_idx doc d = None \<longleftrightarrow> d \<notin> set (open_places doc)"
proof -
  have "where_idx doc d = None \<longleftrightarrow> find_idx (\<lambda>inc. is_open inc \<and> holds d inc) doc = None"
    by (simp add: where_idx_def split: option.splits)
  also have "\<dots> \<longleftrightarrow> d \<notin> set (open_places doc)"
    by (auto simp: find_idx_None_iff open_places_def holds_places places_def)
  finally show ?thesis .
qed

lemma where_idx_SomeD:
  assumes "where_idx doc d = Some (i, mo)"
  shows "i < length doc" "is_open (doc ! i)"
    "mo = None \<Longrightarrow> i_device (doc ! i) = d"
    "mo = Some j \<Longrightarrow> i_device (doc ! i) \<noteq> d \<and> j < length (i_attached (doc ! i))
                    \<and> m_device (i_attached (doc ! i) ! j) = d"
proof -
  from assms have f: "find_idx (\<lambda>inc. is_open inc \<and> holds d inc) doc = Some i"
    and mo: "mo = (if i_device (doc ! i) = d then None
                   else find_idx (\<lambda>m. m_device m = d) (i_attached (doc ! i)))"
    by (auto simp: where_idx_def split: option.splits)
  from find_idx_SomeD [OF f] show "i < length doc" "is_open (doc ! i)" by auto
  from find_idx_SomeD [OF f] have h: "holds d (doc ! i)" by auto
  show "mo = None \<Longrightarrow> i_device (doc ! i) = d"
    using mo h by (auto simp: holds_def find_idx_None_iff split: if_splits)
  show "mo = Some j \<Longrightarrow> i_device (doc ! i) \<noteq> d \<and> j < length (i_attached (doc ! i))
                    \<and> m_device (i_attached (doc ! i) ! j) = d"
    using mo by (auto dest: find_idx_SomeD split: if_splits)
qed

lemma places_push_inc [simp]: "places (push_inc t inc) = places inc"
  by (simp add: places_def push_inc_def is_open_def)

lemma m_device_push_member [simp]: "m_device (push_member t m) = m_device m"
  by (simp add: push_member_def)

lemma map_upd_at_same: "(\<And>x. g (f x) = g x) \<Longrightarrow> map g (upd_at j f xs) = map g xs"
proof (cases "j < length xs")
  case True
  assume "\<And>x. g (f x) = g x"
  with True show ?thesis by (simp add: upd_at_def map_update list_update_same_conv)
qed (simp add: upd_at_def list_update_beyond)

lemma length_take_in [simp]: "length (take_in now i k doc) = length doc"
  by (simp add: take_in_def Let_def)

lemma open_places_take_in:
  assumes "i < length doc" "k < length doc" "k \<noteq> i" "is_open (doc ! i)" "is_open (doc ! k)"
  shows "mset (open_places (take_in now i k doc)) = mset (open_places doc)"
proof -
  let ?inc = "(doc ! i)\<lparr>i_attached := i_attached (doc ! i)
                 @ taken_member now (doc ! k) # i_attached (doc ! k)\<rparr>"
  let ?doc = "doc[i := ?inc]"
  have a: "mset (open_places ?doc) = mset (open_places doc) + mset (places (doc ! k))"
    using mset_gather_update [OF assms(1), of places ?inc] assms(4,5)
    by (simp add: open_places_def places_def taken_member_def is_open_def)
  have "mset (open_places (?doc[k := fold_close now (i_id (doc ! i)) (doc ! k)]))
        + mset (places (doc ! k)) = mset (open_places ?doc)"
    using mset_gather_update [of k ?doc places "fold_close now (i_id (doc ! i)) (doc ! k)"] assms(2,3)
    by (simp add: open_places_def places_def fold_close_def is_open_def open_state_def)
  with a show ?thesis by (simp add: take_in_def Let_def)
qed

lemma take_in_nth:
  assumes "i < length doc" "k < length doc" "k \<noteq> i" "x < length doc"
  shows "i_state (take_in now i k doc ! x) = (if x = k then Closed else i_state (doc ! x))"
    "i_device (take_in now i k doc ! x) = i_device (doc ! x)"
    "i_id (take_in now i k doc ! x) = i_id (doc ! x)"
  using assms by (simp_all add: take_in_def Let_def nth_list_update fold_close_def)

lemma absorbs_watching: "absorbs c d other \<Longrightarrow> i_state other = Watching"
  by (simp add: absorbs_def)

lemma absorb_loop_places:
  assumes "i < length doc" "is_open (doc ! i)" "\<forall>k \<in> set ks. k < length doc"
  shows "mset (open_places (snd (absorb_loop c now i ks doc))) = mset (open_places doc)
         \<and> length (snd (absorb_loop c now i ks doc)) = length doc"
  using assms
proof (induction c now i ks doc rule: absorb_loop.induct)
  case (2 c now i k ks doc)
  show ?case
  proof (cases "k = i \<or> \<not> absorbs c (i_device (doc ! i)) (doc ! k)")
    case True
    with 2 show ?thesis by simp
  next
    case False
    then have ki: "k \<noteq> i" and w: "i_state (doc ! k) = Watching" by (auto dest: absorbs_watching)
    from 2(3-5) ki have "is_open (take_in now i k doc ! i)"
      by (simp add: is_open_iff take_in_nth)
    with 2(2) [OF False] 2(3-5) have
      "mset (open_places (snd (absorb_loop c now i ks (take_in now i k doc))))
         = mset (open_places (take_in now i k doc))
       \<and> length (snd (absorb_loop c now i ks (take_in now i k doc))) = length doc" by simp
    moreover have "mset (open_places (take_in now i k doc)) = mset (open_places doc)"
      using 2(3-5) ki w by (intro open_places_take_in) (simp_all add: is_open_iff)
    ultimately show ?thesis using False by (simp add: split_beta Let_def)
  qed
qed simp

lemma open_idxs_less: "k \<in> set (open_idxs doc) \<Longrightarrow> k < length doc"
  by (simp add: open_idxs_def)

lemma absorb_places:
  assumes "i < length doc" "is_open (doc ! i)"
  shows "mset (open_places (snd (absorb radius_of now i doc))) = mset (open_places doc)
         \<and> length (snd (absorb radius_of now i doc)) = length doc"
proof -
  let ?f = "\<lambda>inc. inc\<lparr>i_fold := (if blast_cut radius_of (i_device (doc ! i)) = None
                                  then Fold_not_judged else Fold_judged)\<rparr>"
  have o: "is_open (upd_at i ?f doc ! i)"
    using assms by (simp add: nth_upd_at is_open_def)
  have "mset (open_places (upd_at i ?f doc)) = mset (open_places doc)"
    using assms by (intro open_places_upd_at) (simp_all add: places_def is_open_def)
  moreover have "\<forall>k \<in> set (open_idxs (upd_at i ?f doc)). k < length (upd_at i ?f doc)"
    by (auto dest: open_idxs_less)
  note absorb_loop_places [OF _ o this]
  ultimately show ?thesis using assms(1) by (simp add: absorb_def Let_def)
qed

section \<open>What one sighting may change\<close>

text \<open>An incident before and after a sighting: its identity stays, and its state stays, or it is
  folded shut, or a settled one watches again.\<close>

definition sight_evolves :: "incident \<Rightarrow> incident \<Rightarrow> bool" where
  "sight_evolves a b \<longleftrightarrow>
     i_id b = i_id a \<and> i_network b = i_network a \<and> i_opened_epoch b = i_opened_epoch a
     \<and> ((i_state b = i_state a \<and> i_settled b = i_settled a \<and> (i_state a = Closed \<longrightarrow> b = a))
        \<or> (i_state a \<in> {Watching, Ready} \<and> i_state b = Closed)
        \<or> (i_state a = Ready \<and> i_state b = Watching))"

lemma sight_evolves_refl [simp]: "sight_evolves a a"
  by (simp add: sight_evolves_def)

lemma sight_evolves_trans: "sight_evolves a b \<Longrightarrow> sight_evolves b c \<Longrightarrow> sight_evolves a c"
  by (auto simp: sight_evolves_def)

lemma sight_evolves_same:
  "i_id b = i_id a \<Longrightarrow> i_network b = i_network a \<Longrightarrow> i_opened_epoch b = i_opened_epoch a
   \<Longrightarrow> i_state b = i_state a \<Longrightarrow> i_settled b = i_settled a \<Longrightarrow> i_state a \<noteq> Closed
   \<Longrightarrow> sight_evolves a b"
  by (simp add: sight_evolves_def)

definition all_evolve :: "incident list \<Rightarrow> incident list \<Rightarrow> bool" where
  "all_evolve doc doc' \<longleftrightarrow> length doc \<le> length doc'
     \<and> (\<forall>x < length doc. sight_evolves (doc ! x) (doc' ! x))"

lemma all_evolve_refl [simp]: "all_evolve doc doc"
  by (simp add: all_evolve_def)

lemma all_evolve_trans: "all_evolve a b \<Longrightarrow> all_evolve b c \<Longrightarrow> all_evolve a c"
proof -
  assume ab: "all_evolve a b" and bc: "all_evolve b c"
  have "sight_evolves (a ! x) (c ! x)" if x: "x < length a" for x
  proof -
    from ab x have "sight_evolves (a ! x) (b ! x)" and "x < length b" by (auto simp: all_evolve_def)
    with bc have "sight_evolves (b ! x) (c ! x)" by (simp add: all_evolve_def)
    with \<open>sight_evolves (a ! x) (b ! x)\<close> show ?thesis by (rule sight_evolves_trans)
  qed
  with ab bc show ?thesis by (simp add: all_evolve_def)
qed

lemma all_evolve_upd_at:
  "k < length doc \<Longrightarrow> sight_evolves (doc ! k) (f (doc ! k)) \<Longrightarrow> all_evolve doc (upd_at k f doc)"
  by (simp add: all_evolve_def nth_upd_at)

lemma all_evolve_append: "all_evolve doc doc' \<Longrightarrow> all_evolve doc (doc' @ new)"
  by (simp add: all_evolve_def nth_append)

lemma all_evolve_take_in:
  assumes "i < length doc" "k < length doc" "k \<noteq> i" "is_open (doc ! i)" "i_state (doc ! k) = Watching"
  shows "all_evolve doc (take_in now i k doc)"
proof -
  have "sight_evolves (doc ! x) (take_in now i k doc ! x)" if "x < length doc" for x
  proof (cases "x = k")
    case True
    with assms that show ?thesis
      by (simp add: take_in_def Let_def nth_list_update sight_evolves_def fold_close_def)
  next
    case False
    with assms that show ?thesis
      by (cases "x = i") (simp_all add: take_in_def Let_def sight_evolves_same is_open_iff)
  qed
  then show ?thesis by (simp add: all_evolve_def)
qed

text \<open>The incident an absorption grows keeps everything but its members and its fold.\<close>

definition same_core :: "incident \<Rightarrow> incident \<Rightarrow> bool" where
  "same_core a b \<longleftrightarrow> i_id b = i_id a \<and> i_device b = i_device a \<and> i_state b = i_state a
     \<and> i_cause b = i_cause a \<and> i_triggers b = i_triggers a \<and> i_reads b = i_reads a
     \<and> i_settled b = i_settled a
     \<and> set (i_attached a) \<subseteq> set (i_attached b)"

lemma same_core_trans: "same_core a b \<Longrightarrow> same_core b c \<Longrightarrow> same_core a c"
  by (auto simp: same_core_def)

lemma same_core_refl [simp]: "same_core a a"
  by (simp add: same_core_def)

lemma absorb_loop_evolve:
  assumes "i < length doc" "is_open (doc ! i)" "\<forall>k \<in> set ks. k < length doc"
  shows "all_evolve doc (snd (absorb_loop c now i ks doc))
         \<and> same_core (doc ! i) (snd (absorb_loop c now i ks doc) ! i)"
  using assms
proof (induction c now i ks doc rule: absorb_loop.induct)
  case (2 c now i k ks doc)
  show ?case
  proof (cases "k = i \<or> \<not> absorbs c (i_device (doc ! i)) (doc ! k)")
    case True
    with 2 show ?thesis by simp
  next
    case False
    then have ki: "k \<noteq> i" and w: "i_state (doc ! k) = Watching" by (auto dest: absorbs_watching)
    have k: "k < length doc" using 2(5) by simp
    have core: "same_core (doc ! i) (take_in now i k doc ! i)"
      using 2(3) k ki by (auto simp: same_core_def take_in_def Let_def nth_list_update)
    then have "is_open (take_in now i k doc ! i)"
      using 2(4) by (simp add: same_core_def is_open_iff)
    with 2(2) [OF False] 2(3-5)
    have "all_evolve (take_in now i k doc) (snd (absorb_loop c now i ks (take_in now i k doc)))
        \<and> same_core (take_in now i k doc ! i) (snd (absorb_loop c now i ks (take_in now i k doc)) ! i)"
      by simp
    with all_evolve_take_in [OF 2(3) k ki 2(4) w] core
    have "all_evolve doc (snd (absorb_loop c now i ks (take_in now i k doc)))
        \<and> same_core (doc ! i) (snd (absorb_loop c now i ks (take_in now i k doc)) ! i)"
      by (blast intro: all_evolve_trans same_core_trans)
    with False show ?thesis by (simp add: split_beta Let_def)
  qed
qed simp

lemma absorb_evolve:
  assumes "i < length doc" "is_open (doc ! i)"
  shows "all_evolve doc (snd (absorb radius_of now i doc))
         \<and> same_core (doc ! i) (snd (absorb radius_of now i doc) ! i)"
proof -
  let ?f = "\<lambda>inc. inc\<lparr>i_fold := (if blast_cut radius_of (i_device (doc ! i)) = None
                                  then Fold_not_judged else Fold_judged)\<rparr>"
  let ?d = "upd_at i ?f doc"
  have "\<forall>k \<in> set (open_idxs ?d). k < length ?d" by (auto dest: open_idxs_less)
  moreover have "is_open (?d ! i)" using assms by (simp add: nth_upd_at is_open_def)
  ultimately have "all_evolve ?d (snd (absorb radius_of now i doc))
      \<and> same_core (?d ! i) (snd (absorb radius_of now i doc) ! i)"
    using absorb_loop_evolve [of i ?d "open_idxs ?d"] assms(1) by (simp add: absorb_def Let_def)
  moreover have "all_evolve doc ?d"
    using assms by (intro all_evolve_upd_at sight_evolves_same) (simp_all add: is_open_iff)
  moreover have "same_core (doc ! i) (?d ! i)"
    using assms by (simp add: nth_upd_at same_core_def)
  ultimately show ?thesis by (blast intro: all_evolve_trans same_core_trans)
qed

lemma push_list_has: "t \<in> set (push_list ts t)"
  by (auto simp: push_list_def Let_def TRIGGERS_KEPT_def intro: last_n_append_single)

lemma push_inc_simps [simp]:
  "i_id (push_inc t inc) = i_id inc" "i_device (push_inc t inc) = i_device inc"
  "i_state (push_inc t inc) = i_state inc" "i_network (push_inc t inc) = i_network inc"
  "i_opened_epoch (push_inc t inc) = i_opened_epoch inc"
  "i_settled (push_inc t inc) = i_settled inc" "i_attached (push_inc t inc) = i_attached inc"
  "i_triggers (push_inc t inc) = push_list (i_triggers inc) t"
  by (simp_all add: push_inc_def)

text \<open>What each branch of a sighting leaves: where the devices are, how each incident evolved, and
  that an open incident holding the device holds the trigger.\<close>

definition sighted :: "device \<Rightarrow> trigger \<Rightarrow> incident list \<Rightarrow> bool" where
  "sighted d t doc \<longleftrightarrow> (\<exists>x < length doc. is_open (doc ! x) \<and> holds d (doc ! x)
                          \<and> t_key t \<in> set (held_keys (doc ! x)))"

lemma held_keys_trigger: "t \<in> set (i_triggers inc) \<Longrightarrow> t_key t \<in> set (held_keys inc)"
  by (simp add: held_keys_def)

lemma held_keys_member:
  "m \<in> set (i_attached inc) \<Longrightarrow> t \<in> set (m_triggers m) \<Longrightarrow> t_key t \<in> set (held_keys inc)"
  by (force simp: held_keys_def)

lemma same_core_open: "same_core a b \<Longrightarrow> is_open a \<Longrightarrow> is_open b"
  by (simp add: same_core_def is_open_iff)

lemma sight_added_ok:
  assumes "i < length doc" "is_open (doc ! i)" "i_device (doc ! i) = d"
  shows "mset (open_places (sight_added t now radius_of i doc)) = mset (open_places doc)
         \<and> all_evolve doc (sight_added t now radius_of i doc)
         \<and> sighted d t (sight_added t now radius_of i doc)
         \<and> length (sight_added t now radius_of i doc) = length doc"
proof -
  let ?d1 = "upd_at i (\<lambda>inc. push_inc t inc\<lparr>i_updated_at := iso now\<rparr>) doc"
  let ?dc = "upd_at i (\<lambda>inc. inc\<lparr>i_cause := Change\<rparr>) ?d1"
  let ?d2 = "if is_cause t \<and> i_cause (?d1 ! i) \<noteq> Change
             then snd (absorb radius_of now i ?dc) else ?d1"
  have i1: "i < length ?d1" "i < length ?dc" using assms(1) by simp_all
  have o1: "is_open (?d1 ! i)" "is_open (?dc ! i)" "i_device (?dc ! i) = d"
    "i_device (?d1 ! i) = d" "t \<in> set (i_triggers (?d1 ! i))" "t \<in> set (i_triggers (?dc ! i))"
    using assms by (simp_all add: nth_upd_at is_open_iff push_list_has)
  have p1: "mset (open_places ?d1) = mset (open_places doc)"
    using assms by (intro open_places_upd_at) (simp_all add: places_def is_open_def)
  have pc: "mset (open_places ?dc) = mset (open_places ?d1)"
    using i1 by (intro open_places_upd_at) (simp_all add: places_def is_open_def)
  have e1: "all_evolve doc ?d1"
    using assms by (intro all_evolve_upd_at sight_evolves_same) (simp_all add: is_open_iff)
  have ec: "all_evolve ?d1 ?dc"
    using i1 o1 by (intro all_evolve_upd_at sight_evolves_same) (simp_all add: is_open_iff)
  note ab = absorb_places [OF i1(2) o1(2)] absorb_evolve [OF i1(2) o1(2)]
  have p2: "mset (open_places ?d2) = mset (open_places doc) \<and> length ?d2 = length doc"
    using p1 pc ab(1) by auto
  have e2: "all_evolve doc ?d2"
    using e1 ec ab(2) by (auto intro: all_evolve_trans)
  have o2: "is_open (?d2 ! i)" "i_device (?d2 ! i) = d" "t \<in> set (i_triggers (?d2 ! i))"
    using o1 ab(2) [of radius_of now] by (auto simp: same_core_def is_open_iff)
  let ?f = "\<lambda>inc. inc\<lparr>i_state := Watching, i_settled := None, i_unsettled := Some (iso now)\<rparr>"
  have res: "sight_added t now radius_of i doc
      = (if is_cause t \<and> i_state (?d2 ! i) = Ready then upd_at i ?f ?d2 else ?d2)"
    by (simp add: sight_added_def Let_def)
  have i2: "i < length ?d2" using p2 assms(1) by simp
  have "mset (open_places (upd_at i ?f ?d2)) = mset (open_places ?d2)"
    using i2 o2 by (intro open_places_upd_at) (simp_all add: places_def is_open_def open_state_def)
  moreover have "all_evolve ?d2 (upd_at i ?f ?d2)" if "i_state (?d2 ! i) = Ready"
    using i2 that by (intro all_evolve_upd_at) (simp_all add: sight_evolves_def)
  moreover have "sighted d t ?d2"
    unfolding sighted_def using i2 o2 by (blast intro: held_keys_trigger exI [of _ i] holds_def [THEN iffD2])
  moreover have "sighted d t (upd_at i ?f ?d2)"
    unfolding sighted_def using i2 o2
    by (intro exI [of _ i]) (simp add: nth_upd_at is_open_iff holds_def held_keys_def)
  ultimately show ?thesis unfolding res using p2 e2 by (auto intro: all_evolve_trans)
qed

lemma sight_member_ok:
  assumes "i < length doc" "is_open (doc ! i)" "j < length (i_attached (doc ! i))"
    "m_device (i_attached (doc ! i) ! j) = d"
  shows "mset (open_places (sight_member t now i j doc)) = mset (open_places doc)
         \<and> all_evolve doc (sight_member t now i j doc)
         \<and> sighted d t (sight_member t now i j doc)
         \<and> length (sight_member t now i j doc) = length doc"
proof -
  let ?ms = "upd_at j (push_member t) (i_attached (doc ! i))"
  let ?inc = "(doc ! i)\<lparr>i_attached := ?ms, i_updated_at := iso now\<rparr>"
  have "?ms ! j = push_member t (i_attached (doc ! i) ! j)" "j < length ?ms"
    using assms(3) by (simp_all add: nth_upd_at)
  then have m: "push_member t (i_attached (doc ! i) ! j) \<in> set ?ms" by (metis nth_mem)
  then have "t_key t \<in> set (held_keys ?inc)"
    by (intro held_keys_member [of "push_member t (i_attached (doc ! i) ! j)"])
      (simp_all add: push_member_def push_list_has)
  moreover have "holds d ?inc"
    using m assms(4) by (force simp: holds_def)
  ultimately have "sighted d t (sight_member t now i j doc)"
    unfolding sighted_def using assms
    by (intro exI [of _ i]) (simp add: sight_member_def nth_upd_at is_open_iff)
  moreover have "mset (open_places (sight_member t now i j doc)) = mset (open_places doc)"
    unfolding sight_member_def using assms
    by (intro open_places_upd_at)
      (simp_all add: places_def is_open_def map_upd_at_same [of m_device])
  moreover have "all_evolve doc (sight_member t now i j doc)"
    unfolding sight_member_def using assms
    by (intro all_evolve_upd_at sight_evolves_same) (simp_all add: is_open_iff)
  ultimately show ?thesis by (simp add: sight_member_def)
qed

lemma places_promote:
  assumes "j < length (i_attached inc)" "m_device (i_attached inc ! j) = d"
  shows "mset (places (promote d now j inc)) = mset (places inc)"
proof -
  have "add_mset d (mset (map m_device (remove_at j (i_attached inc))))
      = mset (map m_device (i_attached inc))"
    using mset_remove_at [of j "map m_device (i_attached inc)"] assms by (simp add: map_remove_at)
  then show ?thesis
    by (simp add: promote_def Let_def places_def is_open_def add_mset_commute)
qed

lemma sight_promoted_ok:
  assumes "i < length doc" "is_open (doc ! i)" "j < length (i_attached (doc ! i))"
    "m_device (i_attached (doc ! i) ! j) = d"
  shows "mset (open_places (sight_promoted d t now radius_of i j doc)) = mset (open_places doc)
         \<and> all_evolve doc (sight_promoted d t now radius_of i j doc)
         \<and> sighted d t (sight_promoted d t now radius_of i j doc)
         \<and> length (sight_promoted d t now radius_of i j doc) = length doc"
proof -
  let ?d1 = "upd_at i (\<lambda>inc. push_inc t (promote d now j inc)) doc"
  have i1: "i < length ?d1" and o1: "is_open (?d1 ! i)" "i_device (?d1 ! i) = d"
    "t \<in> set (i_triggers (?d1 ! i))"
    using assms by (simp_all add: nth_upd_at is_open_iff push_list_has promote_def Let_def)
  have p1: "mset (open_places ?d1) = mset (open_places doc)"
    using assms by (intro open_places_upd_at) (simp_all add: places_promote)
  have e1: "all_evolve doc ?d1"
    using assms by (intro all_evolve_upd_at sight_evolves_same)
      (simp_all add: is_open_iff promote_def Let_def)
  note ab = absorb_places [OF i1 o1(1), of radius_of now] absorb_evolve [OF i1 o1(1), of radius_of now]
  have "sighted d t (sight_promoted d t now radius_of i j doc)"
    unfolding sighted_def using ab o1 i1
    by (intro exI [of _ i]) (auto simp: sight_promoted_def same_core_def is_open_iff holds_def
        held_keys_trigger)
  with p1 e1 ab show ?thesis by (auto simp: sight_promoted_def intro: all_evolve_trans)
qed

lemma sight_moved_ok:
  assumes "i < length doc" "is_open (doc ! i)" "j < length (i_attached (doc ! i))"
    "m_device (i_attached (doc ! i) ! j) = d"
  shows "mset (open_places (sight_moved nid nw d t now i j doc)) = mset (open_places doc)
         \<and> all_evolve doc (sight_moved nid nw d t now i j doc)
         \<and> sighted d t (sight_moved nid nw d t now i j doc)"
proof -
  let ?inc = "(doc ! i)\<lparr>i_attached := remove_at j (i_attached (doc ! i)),
                 i_related := i_related (doc ! i) @ [(nid, d)]\<rparr>"
  let ?d1 = "upd_at i (\<lambda>inc. inc\<lparr>i_attached := remove_at j (i_attached inc),
                 i_related := i_related inc @ [(nid, d)]\<rparr>) doc"
  let ?new = "moved_incident nid nw d t now (doc ! i) (i_attached (doc ! i) ! j)"
  have res: "sight_moved nid nw d t now i j doc = ?d1 @ [?new]" by (simp add: sight_moved_def)
  have rm: "add_mset d (mset (map m_device (remove_at j (i_attached (doc ! i)))))
      = mset (map m_device (i_attached (doc ! i)))"
    using mset_remove_at [of j "map m_device (i_attached (doc ! i))"] assms
    by (simp add: map_remove_at)
  have "mset (open_places (doc[i := ?inc])) + mset (places (doc ! i))
      = mset (open_places doc) + mset (places ?inc)"
    unfolding open_places_def by (rule mset_gather_update [OF assms(1)])
  moreover have "mset (places (doc ! i)) = add_mset d (mset (places ?inc))"
    using assms(2) rm by (simp add: places_def is_open_def add_mset_commute)
  ultimately have p: "add_mset d (mset (open_places ?d1)) = mset (open_places doc)"
    by (simp add: upd_at_def)
  have new: "places ?new = [d]" "i_device ?new = d" "is_open ?new" "t \<in> set (i_triggers ?new)"
    by (simp_all add: places_def moved_incident_def new_incident_def is_open_def open_state_def
        push_inc_def push_list_has)
  have "mset (open_places (sight_moved nid nw d t now i j doc)) = mset (open_places doc)"
    unfolding res using p new(1) by (simp add: open_places_def)
  moreover have "all_evolve doc (sight_moved nid nw d t now i j doc)"
    unfolding res using assms
    by (intro all_evolve_append all_evolve_upd_at sight_evolves_same) (simp_all add: is_open_iff)
  moreover have "sighted d t (sight_moved nid nw d t now i j doc)"
    unfolding sighted_def res using new
    by (intro exI [of _ "length doc"]) (simp add: nth_append holds_def held_keys_trigger)
  ultimately show ?thesis by blast
qed

lemma sight_attached_ok:
  assumes "k < length doc" "is_open (doc ! k)"
  shows "mset (open_places (sight_attached d t now k doc)) = add_mset d (mset (open_places doc))
         \<and> all_evolve doc (sight_attached d t now k doc)
         \<and> sighted d t (sight_attached d t now k doc)
         \<and> length (sight_attached d t now k doc) = length doc"
proof -
  let ?inc = "(doc ! k)\<lparr>i_attached := i_attached (doc ! k) @ [new_member d t now],
                         i_updated_at := iso now\<rparr>"
  have "mset (open_places (doc[k := ?inc])) + mset (places (doc ! k))
      = mset (open_places doc) + mset (places ?inc)"
    unfolding open_places_def by (rule mset_gather_update [OF assms(1)])
  moreover have "mset (places ?inc) = add_mset d (mset (places (doc ! k)))"
    using assms(2) by (simp add: places_def is_open_def new_member_def add_mset_commute)
  ultimately have "mset (open_places (sight_attached d t now k doc)) = add_mset d (mset (open_places doc))"
    by (simp add: sight_attached_def upd_at_def)
  moreover have "all_evolve doc (sight_attached d t now k doc)"
    unfolding sight_attached_def using assms
    by (intro all_evolve_upd_at sight_evolves_same) (simp_all add: is_open_iff)
  moreover have "sighted d t (sight_attached d t now k doc)"
    unfolding sighted_def using assms
    by (intro exI [of _ k]) (auto simp: sight_attached_def nth_upd_at is_open_iff holds_def
        held_keys_def new_member_def)
  ultimately show ?thesis by (simp add: sight_attached_def)
qed

lemma sight_opened_ok:
  "mset (open_places (sight_opened nid nw d t now radius_of doc)) = add_mset d (mset (open_places doc))
   \<and> all_evolve doc (sight_opened nid nw d t now radius_of doc)
   \<and> sighted d t (sight_opened nid nw d t now radius_of doc)
   \<and> length (sight_opened nid nw d t now radius_of doc) = length doc + 1"
proof -
  let ?new = "push_inc t (new_incident nid nw d t now)"
  let ?d1 = "doc @ [?new]"
  have new: "places ?new = [d]" "i_device ?new = d" "is_open ?new" "t \<in> set (i_triggers ?new)"
    by (simp_all add: places_def new_incident_def is_open_def open_state_def push_list_has)
  have p1: "mset (open_places ?d1) = add_mset d (mset (open_places doc))"
    using new by (simp add: open_places_def)
  have i1: "length doc < length ?d1" "is_open (?d1 ! length doc)"
    using new by (simp_all add: nth_append)
  note ab = absorb_places [OF i1, of radius_of now] absorb_evolve [OF i1, of radius_of now]
  show ?thesis
  proof (cases "is_cause t")
    case True
    then have res: "sight_opened nid nw d t now radius_of doc
        = snd (absorb radius_of now (length doc) ?d1)" by (simp add: sight_opened_def Let_def)
    have "sighted d t (sight_opened nid nw d t now radius_of doc)"
      unfolding sighted_def res using ab new i1
      by (intro exI [of _ "length doc"]) (auto simp: nth_append same_core_def is_open_iff holds_def
          held_keys_trigger)
    moreover have "all_evolve doc ?d1" by (intro all_evolve_append) simp
    ultimately show ?thesis unfolding res using p1 ab by (auto intro: all_evolve_trans)
  next
    case False
    then have res: "sight_opened nid nw d t now radius_of doc = doc @ [?new\<lparr>i_fold := Not_folded\<rparr>]"
      by (simp add: sight_opened_def Let_def)
    have "sighted d t (sight_opened nid nw d t now radius_of doc)"
      unfolding sighted_def res using new
      by (intro exI [of _ "length doc"]) (simp add: nth_append is_open_iff holds_def held_keys_trigger)
    moreover have "all_evolve doc (doc @ [?new\<lparr>i_fold := Not_folded\<rparr>])"
      by (intro all_evolve_append) simp
    ultimately show ?thesis unfolding res using new by (simp add: open_places_def places_def is_open_def)
  qed
qed

lemma fold_targetD:
  "fold_target doc d t radius_of = Some k \<Longrightarrow> k < length doc \<and> is_open (doc ! k)"
  by (auto simp: fold_target_def dest: find_idx_SomeD split: option.splits)

text \<open>The whole sighting.\<close>

lemma sight_doc_ok:
  shows "mset (open_places (snd (sight_doc nid nw d t now radius_of doc)))
         = mset (open_places doc) + (if d \<in> set (open_places doc) then {#} else {#d#})
         \<and> all_evolve doc (snd (sight_doc nid nw d t now radius_of doc))
         \<and> sighted d t (snd (sight_doc nid nw d t now radius_of doc))"
proof (cases "where_idx doc d")
  case None
  then have out: "d \<notin> set (open_places doc)" by (simp add: where_idx_None_iff)
  show ?thesis
  proof (cases "if is_cause t then None else fold_target doc d t radius_of")
    case n: None
    with None have "sight_doc nid nw d t now radius_of doc
        = ((Opened, nid), sight_opened nid nw d t now radius_of doc)"
      by (simp add: sight_doc_def)
    with out sight_opened_ok show ?thesis by simp
  next
    case (Some k)
    with None have "sight_doc nid nw d t now radius_of doc
        = ((Attached, i_id (doc ! k)), sight_attached d t now k doc)"
      by (simp add: sight_doc_def)
    moreover from Some have "k < length doc" "is_open (doc ! k)"
      by (auto dest: fold_targetD split: if_splits)
    ultimately show ?thesis using out sight_attached_ok by simp
  qed
next
  case (Some p)
  then obtain i mo where w: "where_idx doc d = Some (i, mo)" by (cases p) auto
  note wi = where_idx_SomeD [OF w]
  have inn: "d \<in> set (open_places doc)" using w where_idx_None_iff [of doc d] by auto
  show ?thesis
  proof (cases "t_key t \<in> set (held_keys (doc ! i))")
    case True
    have "holds d (doc ! i)"
    proof (cases mo)
      case (Some j)
      with wi(4) show ?thesis by (metis holds_def nth_mem)
    qed (use wi(3) in \<open>simp add: holds_def\<close>)
    with True w wi(1,2) inn show ?thesis by (auto simp: sight_doc_def Let_def sighted_def)
  next
    case nk: False
    show ?thesis
    proof (cases mo)
      case None
      with nk w have "snd (sight_doc nid nw d t now radius_of doc) = sight_added t now radius_of i doc"
        by (simp add: sight_doc_def Let_def)
      with sight_added_ok [OF wi(1,2) wi(3) [OF None]] inn show ?thesis by simp
    next
      case (Some j)
      from wi(4) [OF Some] have j: "j < length (i_attached (doc ! i))"
        "m_device (i_attached (doc ! i) ! j) = d" by auto
      note member = sight_member_ok [OF wi(1,2) j] sight_promoted_ok [OF wi(1,2) j]
        sight_moved_ok [OF wi(1,2) j]
      have "snd (sight_doc nid nw d t now radius_of doc)
          = (if \<not> is_cause t then sight_member t now i j doc
             else if i_cause (doc ! i) \<noteq> Change \<and> i_state (doc ! i) = Watching
             then sight_promoted d t now radius_of i j doc
             else sight_moved nid nw d t now i j doc)"
        using nk w Some by (simp add: sight_doc_def Let_def)
      with member inn show ?thesis by (simp split: if_split)
    qed
  qed
qed

lemma sight_doc_tail:
  assumes "length doc \<le> x" "x < length (snd (sight_doc nid nw d t now radius_of doc))"
  shows "x = length doc \<and> i_id (snd (sight_doc nid nw d t now radius_of doc) ! x) = nid
         \<and> i_state (snd (sight_doc nid nw d t now radius_of doc) ! x) = Watching"
proof (cases "where_idx doc d")
  case None
  show ?thesis
  proof (cases "if is_cause t then None else fold_target doc d t radius_of")
    case n: None
    with None have res: "snd (sight_doc nid nw d t now radius_of doc)
        = sight_opened nid nw d t now radius_of doc" by (simp add: sight_doc_def)
    let ?new = "push_inc t (new_incident nid nw d t now)"
    have "same_core ?new (sight_opened nid nw d t now radius_of doc ! length doc)"
      using absorb_evolve [of "length doc" "doc @ [?new]" radius_of now]
      by (auto simp: sight_opened_def Let_def nth_append is_open_iff new_incident_def same_core_def)
    then have "i_id (sight_opened nid nw d t now radius_of doc ! length doc) = nid
        \<and> i_state (sight_opened nid nw d t now radius_of doc ! length doc) = Watching"
      by (simp add: same_core_def new_incident_def)
    moreover have "x = length doc"
      using res assms sight_opened_ok [of nid nw d t now radius_of doc] by simp
    ultimately show ?thesis using res by simp
  next
    case (Some k)
    with None have "snd (sight_doc nid nw d t now radius_of doc) = sight_attached d t now k doc"
      by (simp add: sight_doc_def)
    with assms show ?thesis by (simp add: sight_attached_def)
  qed
next
  case (Some p)
  then obtain i mo where w: "where_idx doc d = Some (i, mo)" by (cases p) auto
  note wi = where_idx_SomeD [OF w]
  show ?thesis
  proof (cases mo)
    case None
    with w assms sight_added_ok [OF wi(1,2) wi(3) [OF None]] show ?thesis
      by (simp add: sight_doc_def Let_def split: if_splits)
  next
    case (Some j)
    from wi(4) [OF Some] have j: "j < length (i_attached (doc ! i))"
      "m_device (i_attached (doc ! i) ! j) = d" by auto
    show ?thesis
      using w Some assms sight_member_ok [OF wi(1,2) j] sight_promoted_ok [OF wi(1,2) j]
      by (auto simp: sight_doc_def Let_def sight_moved_def moved_incident_def new_incident_def
          nth_append split: if_splits)
  qed
qed

section \<open>A trigger sighted twice\<close>

lemma nth_concat_split:
  assumes "distinct (concat (map g xs))" "x < length xs" "y < length xs" "x < y"
    "d \<in> set (g (xs ! x))" "d \<in> set (g (xs ! y))"
  shows False
proof -
  have "xs = take y xs @ xs ! y # drop (Suc y) xs" by (rule id_take_nth_drop [OF assms(3)])
  then have "distinct (concat (map g (take y xs @ xs ! y # drop (Suc y) xs)))" using assms(1) by simp
  then have "set (concat (map g (take y xs))) \<inter> set (g (xs ! y)) = {}" by auto
  moreover have "xs ! x \<in> set (take y xs)"
    using assms(2-4) by (auto simp: in_set_conv_nth intro!: exI [of _ x])
  ultimately show False using assms(5,6) by auto
qed

lemma open_unique:
  assumes "one_place doc" "x < length doc" "y < length doc" "is_open (doc ! x)" "is_open (doc ! y)"
    "holds d (doc ! x)" "holds d (doc ! y)"
  shows "x = y"
proof -
  have d: "distinct (concat (map places doc))" using assms(1) by (simp add: one_place_def open_places_def)
  have p: "d \<in> set (places (doc ! x))" "d \<in> set (places (doc ! y))"
    using assms(4-7) by (simp_all add: holds_places)
  show ?thesis
    using nth_concat_split [OF d assms(2,3) _ p] nth_concat_split [OF d assms(3,2) _ p(2,1)]
    by (meson linorder_neqE_nat)
qed

lemma one_place_mset: "mset (open_places a) = mset (open_places b) \<Longrightarrow> one_place a = one_place b"
  unfolding one_place_def by (rule mset_eq_imp_distinct_iff)

lemma sight_doc_one_place:
  "one_place doc \<Longrightarrow> one_place (snd (sight_doc nid nw d t now radius_of doc))"
proof -
  assume "one_place doc"
  then have "distinct (if d \<in> set (open_places doc) then open_places doc else d # open_places doc)"
    by (simp add: one_place_def)
  moreover have "mset (open_places (snd (sight_doc nid nw d t now radius_of doc)))
      = mset (if d \<in> set (open_places doc) then open_places doc else d # open_places doc)"
    using sight_doc_ok by simp
  note mset_eq_imp_distinct_iff [OF this]
  ultimately show ?thesis by (simp only: one_place_def)
qed

lemma sighted_duplicate:
  assumes "one_place doc" "sighted d t doc"
  shows "\<exists>x. sight_doc nid nw d t now radius_of doc = ((Duplicate, x), doc)"
proof -
  from assms(2) obtain x where x: "x < length doc" "is_open (doc ! x)" "holds d (doc ! x)"
    "t_key t \<in> set (held_keys (doc ! x))" by (auto simp: sighted_def)
  then have "where_idx doc d \<noteq> None"
    by (auto simp: where_idx_None_iff open_places_def holds_places)
  then obtain i mo where w: "where_idx doc d = Some (i, mo)" by auto
  from w have "find_idx (\<lambda>inc. is_open inc \<and> holds d inc) doc = Some i"
    by (auto simp: where_idx_def split: option.splits)
  then have "i < length doc" "is_open (doc ! i)" "holds d (doc ! i)"
    by (auto dest: find_idx_SomeD)
  with x assms(1) have "i = x" by (meson open_unique)
  with w x(4) show ?thesis by (simp add: sight_doc_def Let_def)
qed

text \<open>Sighting is idempotent. In a store where no device is in two places, a trigger sighted
  again, at any time and with any blast radius, is answered \<open>Duplicate\<close> and changes nothing.\<close>

lemma sight_twice:
  assumes "one_place doc"
  shows "\<exists>x. sight_doc nid' nw d t now' radius_of'
                (snd (sight_doc nid nw d t now radius_of doc))
             = ((Duplicate, x), snd (sight_doc nid nw d t now radius_of doc))"
  by (intro sighted_duplicate sight_doc_one_place assms) (simp add: sight_doc_ok)

section \<open>The invariant of a store\<close>

text \<open>An incident ready for the decision, or taken by it, says how it settled.\<close>

definition settled_ok :: "incident \<Rightarrow> bool" where
  "settled_ok inc \<longleftrightarrow> i_state inc \<in> {Ready, Claimed}
     \<longrightarrow> (\<exists>s. i_settled inc = Some s \<and> settled_state (s_how s))"

definition ids_ok :: "incident list \<Rightarrow> bool" where
  "ids_ok doc \<longleftrightarrow> distinct (map i_id doc)"

definition doc_inv :: "incident list \<Rightarrow> bool" where
  "doc_inv doc \<longleftrightarrow> ids_ok doc \<and> one_place doc \<and> (\<forall>inc \<in> set doc. settled_ok inc)"

definition closed_of :: "incident list \<Rightarrow> incident list" where
  "closed_of doc = filter (\<lambda>i. i_state i = Closed) doc"

definition store_inv :: "incident list \<Rightarrow> bool" where
  "store_inv doc \<longleftrightarrow> doc_inv doc \<and> length (closed_of doc) \<le> CLOSED_KEPT"

text \<open>The states an incident may go through in one operation.\<close>

definition legal :: "inc_state \<Rightarrow> inc_state \<Rightarrow> bool" where
  "legal s s' \<longleftrightarrow> s' = s \<or> (s, s') \<in> {(Watching, Ready), (Ready, Claimed), (Ready, Watching),
     (Claimed, Watching), (Watching, Closed), (Ready, Closed), (Claimed, Closed)}"

definition ids_legal :: "incident list \<Rightarrow> incident list \<Rightarrow> bool" where
  "ids_legal doc doc' \<longleftrightarrow> (\<forall>a \<in> set doc. \<forall>b \<in> set doc'. i_id a = i_id b \<longrightarrow>
     legal (i_state a) (i_state b) \<and> i_network b = i_network a
     \<and> i_opened_epoch b = i_opened_epoch a)"

lemma legal_refl [simp]: "legal s s"
  by (simp add: legal_def)

lemma legal_from_closed: "legal Closed s \<longleftrightarrow> s = Closed"
  by (auto simp: legal_def)

subsection \<open>Pruning\<close>

lemma filter_drop_ids:
  assumes "distinct (map f xs)"
  shows "filter (\<lambda>x. f x \<notin> set (map f (take n xs))) xs = drop n xs"
proof -
  have "filter (\<lambda>x. f x \<notin> set (map f (take n xs))) (take n xs @ drop n xs) = drop n xs"
  proof -
    have "filter (\<lambda>x. f x \<notin> set (map f (take n xs))) (take n xs) = []"
      by (simp add: filter_empty_conv)
    moreover have "f x \<notin> set (map f (take n xs))" if "x \<in> set (drop n xs)" for x
    proof -
      have "distinct (map f (take n xs) @ map f (drop n xs))"
        using assms by (metis append_take_drop_id map_append)
      then have "set (map f (take n xs)) \<inter> set (map f (drop n xs)) = {}" by simp
      with that show ?thesis by auto
    qed
    then have "filter (\<lambda>x. f x \<notin> set (map f (take n xs))) (drop n xs) = drop n xs"
      by (simp add: filter_id_conv)
    ultimately show ?thesis by (simp only: filter_append append_Nil)
  qed
  then show ?thesis by simp
qed

lemma open_places_filter:
  "\<forall>x \<in> set doc. \<not> P x \<longrightarrow> i_state x = Closed \<Longrightarrow> open_places (filter P doc) = open_places doc"
  by (induction doc) (auto simp: open_places_def places_def is_open_iff)

definition dropped :: "incident list \<Rightarrow> incident list" where
  "dropped doc = take (length (closed_of doc) - CLOSED_KEPT) (closed_of doc)"

lemma prune_eq: "prune doc = filter (\<lambda>i. i_id i \<notin> set (map i_id (dropped doc))) doc"
  by (simp add: prune_def dropped_def closed_of_def Let_def)

lemma dropped_closed: "a \<in> set (dropped doc) \<Longrightarrow> a \<in> set doc \<and> i_state a = Closed"
  by (auto simp: dropped_def closed_of_def dest!: in_set_takeD)

lemma prune_dropped_only:
  assumes "ids_ok doc" "a \<in> set doc" "a \<notin> set (prune doc)"
  shows "i_state a = Closed"
proof -
  from assms(2,3) obtain b where "b \<in> set (dropped doc)" "i_id a = i_id b"
    by (auto simp: prune_eq)
  with assms(1,2) dropped_closed have "a = b"
    unfolding ids_ok_def by (metis distinct_map inj_on_def)
  with \<open>b \<in> set (dropped doc)\<close> show ?thesis by (simp add: dropped_closed)
qed

lemma set_prune_subset: "set (prune doc) \<subseteq> set doc"
  by (auto simp: prune_eq)

lemma prune_open_places:
  assumes "ids_ok doc"
  shows "open_places (prune doc) = open_places doc"
proof -
  have "\<forall>x \<in> set doc. \<not> (i_id x \<notin> set (map i_id (dropped doc))) \<longrightarrow> i_state x = Closed"
  proof (intro ballI impI)
    fix x assume "x \<in> set doc" "\<not> (i_id x \<notin> set (map i_id (dropped doc)))"
    then have "x \<notin> set (prune doc)" by (simp add: prune_eq)
    with \<open>x \<in> set doc\<close> assms show "i_state x = Closed" by (simp add: prune_dropped_only)
  qed
  then show ?thesis unfolding prune_eq by (rule open_places_filter)
qed

lemma prune_store_inv:
  assumes "doc_inv doc"
  shows "store_inv (prune doc)"
proof -
  from assms have ids: "ids_ok doc" by (simp add: doc_inv_def)
  have "ids_ok (prune doc)"
    using ids by (simp add: ids_ok_def prune_eq distinct_map_filter)
  moreover have "open_places (prune doc) = open_places doc"
    using ids by (rule prune_open_places)
  moreover have "closed_of (prune doc) = drop (length (closed_of doc) - CLOSED_KEPT) (closed_of doc)"
  proof -
    have "closed_of (prune doc) = filter (\<lambda>i. i_id i \<notin> set (map i_id (dropped doc))) (closed_of doc)"
      by (simp add: closed_of_def prune_eq filter_filter conj_commute cong: conj_cong)
    moreover have "distinct (map i_id (closed_of doc))"
      using ids by (simp add: closed_of_def ids_ok_def distinct_map_filter)
    ultimately show ?thesis unfolding dropped_def by (simp only: filter_drop_ids)
  qed
  ultimately show ?thesis
    using assms set_prune_subset [of doc]
    by (auto simp: store_inv_def doc_inv_def one_place_def)
qed

subsection \<open>The contract of an operation on one incident\<close>

text \<open>What every operation but the sighting promises of the incident it changes: it stays who it
  is, its state moves legally, it keeps its devices or gives them all up, and it still says how
  it settled while it is ready or taken.\<close>

lemma one_place_mono:
  assumes "one_place doc" "mset (open_places doc') \<subseteq># mset (open_places doc)"
  shows "one_place doc'"
proof -
  from assms(2) obtain zs where "mset (open_places doc) = mset (open_places doc' @ zs)"
    by (metis ex_mset mset_append subset_mset.le_iff_add)
  from mset_eq_imp_distinct_iff [OF this] assms(1) show ?thesis by (simp add: one_place_def)
qed

locale incident_operation =
  fixes op :: "'a \<Rightarrow> incident \<Rightarrow> heal_error + incident"
    and allowed :: "'a \<Rightarrow> bool"
  assumes keeps_identity: "op a inc = Inr inc' \<Longrightarrow> i_id inc' = i_id inc
            \<and> i_network inc' = i_network inc \<and> i_opened_epoch inc' = i_opened_epoch inc"
    and moves_legally: "op a inc = Inr inc' \<Longrightarrow> legal (i_state inc) (i_state inc')"
    and keeps_places: "op a inc = Inr inc' \<Longrightarrow> places inc' = places inc \<or> places inc' = []"
    and keeps_settled: "allowed a \<Longrightarrow> op a inc = Inr inc' \<Longrightarrow> settled_ok inc \<Longrightarrow> settled_ok inc'"
begin

lemma on_incidentE:
  assumes "on_incident x (op a) doc = Inr (inc', doc')"
  obtains k where "k < length doc" "i_id (doc ! k) = x" "op a (doc ! k) = Inr inc'"
    "doc' = doc[k := inc']"
  using assms
  by (auto simp: on_incident_def find_inc_def bind_result_eq_Inr_iff dest!: find_idx_SomeD
      split: option.splits)

lemma on_incident_doc_inv:
  assumes "on_incident x (op a) doc = Inr (inc', doc')" "allowed a" "doc_inv doc"
  shows "doc_inv doc'"
proof -
  from assms(1) obtain k where k: "k < length doc" "op a (doc ! k) = Inr inc'" "doc' = doc[k := inc']"
    by (rule on_incidentE)
  have "map i_id doc' = map i_id doc"
    using k keeps_identity [OF k(2)] by (simp add: map_update list_update_same_conv)
  moreover have "one_place doc'"
  proof -
    have "mset (open_places doc') + mset (places (doc ! k)) = mset (open_places doc) + mset (places inc')"
      unfolding k(3) open_places_def by (rule mset_gather_update [OF k(1)])
    with keeps_places [OF k(2)] have "mset (open_places doc') \<subseteq># mset (open_places doc)"
      by (metis add_right_cancel empty_neutral(2) mset.simps(1) mset_subset_eq_add_left
          subset_mset.order_refl)
    with assms(3) show ?thesis by (auto simp: doc_inv_def intro: one_place_mono)
  qed
  moreover have "\<forall>inc \<in> set doc'. settled_ok inc"
    using k keeps_settled [OF assms(2) k(2)] assms(3)
    by (auto simp: doc_inv_def dest!: set_update_subset_insert [THEN subsetD])
  ultimately show ?thesis using assms(3) by (simp add: doc_inv_def ids_ok_def)
qed

lemma on_incident_legal:
  assumes "on_incident x (op a) doc = Inr (inc', doc')" "ids_ok doc"
  shows "ids_legal doc doc'"
proof -
  from assms(1) obtain k where k: "k < length doc" "op a (doc ! k) = Inr inc'" "doc' = doc[k := inc']"
    by (rule on_incidentE)
  note ki = keeps_identity [OF k(2)] and ml = moves_legally [OF k(2)]
  show ?thesis
    unfolding ids_legal_def
  proof (intro ballI impI)
    fix a' b assume ab: "a' \<in> set doc" "b \<in> set doc'" "i_id a' = i_id b"
    have uniq: "u \<in> set doc \<Longrightarrow> v \<in> set doc \<Longrightarrow> i_id u = i_id v \<Longrightarrow> u = v" for u v
      using assms(2) by (simp add: ids_ok_def distinct_map inj_on_def)
    from ab(2) k(1,3) have "b = inc' \<or> b \<in> set doc"
      by (auto dest!: set_update_subset_insert [THEN subsetD])
    then show "legal (i_state a') (i_state b) \<and> i_network b = i_network a'
        \<and> i_opened_epoch b = i_opened_epoch a'"
    proof
      assume "b = inc'"
      with ab ki k(1) uniq [of a' "doc ! k"] have "a' = doc ! k" by simp
      with \<open>b = inc'\<close> ki ml show ?thesis by simp
    next
      assume "b \<in> set doc"
      with ab uniq have "a' = b" by blast
      then show ?thesis by simp
    qed
  qed
qed

end

interpretation reading: incident_operation
  "\<lambda>(d, r, rat) inc. record_read_inc d r rat inc" "\<lambda>_. True"
  by unfold_locales
    (auto simp: record_read_inc_def Let_def places_def is_open_def settled_ok_def map_upd_at_same
      split: if_splits option.splits)

interpretation settling: incident_operation
  "\<lambda>(j, now) inc. settle_inc j now inc" "\<lambda>(j, now). settled_state (j_state j)"
  by unfold_locales
    (auto simp: settle_inc_def places_def is_open_def open_state_def settled_ok_def legal_def
      split: if_splits)

interpretation claiming: incident_operation
  "\<lambda>(by, now) inc. claim_inc by now inc" "\<lambda>_. True"
  by unfold_locales
    (auto simp: claim_inc_def places_def is_open_def open_state_def settled_ok_def legal_def
      split: if_splits)

interpretation deferring: incident_operation
  "\<lambda>(until, why, now) inc. defer_inc until why now inc" "\<lambda>_. True"
  by unfold_locales
    (auto simp: defer_inc_def places_def is_open_def open_state_def settled_ok_def legal_def
      split: if_splits)

lemma legal_to_closed [simp]: "legal s Closed"
  by (cases s) (simp_all add: legal_def)

interpretation closing: incident_operation
  "\<lambda>(why, now) inc. close_inc why now inc" "\<lambda>_. True"
  by unfold_locales
    (auto simp: close_inc_def places_def is_open_def open_state_def settled_ok_def split: if_splits)

lemma close_watching_doc_inv:
  assumes "doc_inv doc"
  shows "doc_inv (map (close_watching_inc why now) doc)"
proof -
  have pl: "places (close_watching_inc why now inc) = places inc
      \<or> places (close_watching_inc why now inc) = []" for inc
    by (simp add: close_watching_inc_def places_def is_open_def open_state_def)
  have "mset (open_places (map (close_watching_inc why now) doc)) \<subseteq># mset (open_places doc)"
  proof (induction doc)
    case (Cons inc doc)
    with pl [of inc] show ?case
      by (auto simp: open_places_def intro: subset_mset.add_mono subset_mset.add_increasing)
  qed (simp add: open_places_def)
  moreover have "map i_id (map (close_watching_inc why now) doc) = map i_id doc"
    by (simp add: close_watching_inc_def)
  moreover have "settled_ok inc \<Longrightarrow> settled_ok (close_watching_inc why now inc)" for inc
    by (simp add: close_watching_inc_def settled_ok_def)
  ultimately show ?thesis
    using assms by (auto simp: doc_inv_def ids_ok_def intro: one_place_mono simp del: map_map)
qed

lemma ids_legal_refl: "ids_ok doc \<Longrightarrow> ids_legal doc doc"
proof -
  assume "ids_ok doc"
  then have "u \<in> set doc \<Longrightarrow> v \<in> set doc \<Longrightarrow> i_id u = i_id v \<Longrightarrow> u = v" for u v
    by (simp add: ids_ok_def distinct_map inj_on_def)
  then show ?thesis unfolding ids_legal_def by (metis legal_refl)
qed

lemma close_watching_legal:
  assumes "ids_ok doc"
  shows "ids_legal doc (map (close_watching_inc why now) doc)"
proof -
  have id: "i_id (close_watching_inc why now u) = i_id u" for u
    by (simp add: close_watching_inc_def)
  have uniq: "u \<in> set doc \<Longrightarrow> v \<in> set doc \<Longrightarrow> i_id u = i_id v \<Longrightarrow> u = v" for u v
    using assms by (simp add: ids_ok_def distinct_map inj_on_def)
  show ?thesis
    unfolding ids_legal_def
  proof (intro ballI impI)
    fix a b assume "a \<in> set doc" "b \<in> set (map (close_watching_inc why now) doc)" "i_id a = i_id b"
    with id uniq have "b = close_watching_inc why now a" by fastforce
    then show "legal (i_state a) (i_state b) \<and> i_network b = i_network a
        \<and> i_opened_epoch b = i_opened_epoch a"
      by (simp add: close_watching_inc_def legal_def)
  qed
qed

section \<open>The sighting keeps the invariant\<close>

lemma sight_ids:
  "map i_id (snd (sight_doc nid nw d t now radius_of doc)) = map i_id doc
   \<or> map i_id (snd (sight_doc nid nw d t now radius_of doc)) = map i_id doc @ [nid]"
proof -
  let ?d = "snd (sight_doc nid nw d t now radius_of doc)"
  have ev: "length doc \<le> length ?d" "\<And>x. x < length doc \<Longrightarrow> i_id (?d ! x) = i_id (doc ! x)"
    using sight_doc_ok [of nid nw d t now radius_of doc]
    by (auto simp: all_evolve_def sight_evolves_def)
  have le: "length ?d \<le> length doc + 1"
  proof (rule ccontr)
    assume "\<not> length ?d \<le> length doc + 1"
    then have "length doc + 1 < length ?d" by simp
    with sight_doc_tail [of doc "length doc + 1"] show False by fastforce
  qed
  show ?thesis
  proof (cases "length ?d = length doc")
    case True
    with ev have "map i_id ?d = map i_id doc" by (intro nth_equalityI) simp_all
    then show ?thesis ..
  next
    case False
    with ev(1) le have len: "length ?d = length doc + 1" by simp
    then have "i_id (?d ! length doc) = nid" using sight_doc_tail [of doc "length doc"] by simp
    with len ev(2) have "map i_id ?d = map i_id doc @ [nid]"
      by (intro nth_equalityI) (auto simp: nth_append less_Suc_eq)
    then show ?thesis ..
  qed
qed

lemma sight_doc_inv:
  assumes "doc_inv doc" "nid \<notin> set (map i_id doc)"
  shows "doc_inv (snd (sight_doc nid nw d t now radius_of doc))"
proof -
  let ?d = "snd (sight_doc nid nw d t now radius_of doc)"
  have "distinct (map i_id ?d)"
    using sight_ids [of nid nw d t now radius_of doc] assms by (auto simp: doc_inv_def ids_ok_def)
  moreover have "settled_ok (?d ! x)" if "x < length ?d" for x
  proof (cases "x < length doc")
    case True
    with sight_doc_ok have "sight_evolves (doc ! x) (?d ! x)" by (simp add: all_evolve_def)
    moreover have "settled_ok (doc ! x)" using assms(1) True by (simp add: doc_inv_def)
    ultimately show ?thesis by (auto simp: sight_evolves_def settled_ok_def)
  next
    case False
    with that sight_doc_tail [of doc x] show ?thesis by (simp add: settled_ok_def)
  qed
  ultimately show ?thesis
    using assms sight_doc_one_place [of doc] by (auto simp: doc_inv_def ids_ok_def in_set_conv_nth)
qed

lemma sight_legal:
  assumes "ids_ok doc" "nid \<notin> set (map i_id doc)"
  shows "ids_legal doc (snd (sight_doc nid nw d t now radius_of doc))"
proof -
  let ?d = "snd (sight_doc nid nw d t now radius_of doc)"
  have dist: "distinct (map i_id ?d)"
    using sight_ids [of nid nw d t now radius_of doc] assms by (auto simp: ids_ok_def)
  have ev: "x < length doc \<Longrightarrow> sight_evolves (doc ! x) (?d ! x)" "length doc \<le> length ?d" for x
    using sight_doc_ok [of nid nw d t now radius_of doc] by (simp_all add: all_evolve_def)
  show ?thesis
    unfolding ids_legal_def
  proof (intro ballI impI)
    fix a b assume ab: "a \<in> set doc" "b \<in> set ?d" "i_id a = i_id b"
    then obtain x y where x: "x < length doc" "a = doc ! x" and y: "y < length ?d" "b = ?d ! y"
      by (auto simp: in_set_conv_nth)
    with ev(1) [of x] ab(3) have "i_id (?d ! x) = i_id (?d ! y)" by (simp add: sight_evolves_def)
    moreover have "x < length ?d" using x(1) ev(2) by simp
    ultimately have "x = y"
      using dist y(1) nth_eq_iff_index_eq [of "map i_id ?d" x y] by simp
    with ev(1) [OF x(1)] x y show "legal (i_state a) (i_state b) \<and> i_network b = i_network a
        \<and> i_opened_epoch b = i_opened_epoch a"
      by (auto simp: sight_evolves_def legal_def)
  qed
qed

section \<open>Every store that can be reached\<close>

text \<open>One operation of a readable store of a network that exists, written and pruned. The id of a
  sighting is a fresh one (\<open>uuid4\<close>).\<close>

inductive incident_step :: "incident list \<Rightarrow> incident list \<Rightarrow> bool" where
  step_sight: "sight True nid nw d t now radius_of (Stored doc) = Inr (a, Stored doc') \<Longrightarrow>
     nid \<notin> set (map i_id doc) \<Longrightarrow> incident_step doc doc'"
| step_record_read: "record_read True x d r rat (Stored doc) = Inr (inc, Stored doc') \<Longrightarrow>
     incident_step doc doc'"
| step_settle: "settle True x j now (Stored doc) = Inr (inc, Stored doc') \<Longrightarrow> incident_step doc doc'"
| step_claim: "claim True x by now (Stored doc) = Inr (inc, Stored doc') \<Longrightarrow> incident_step doc doc'"
| step_defer: "defer_incident True x until why now (Stored doc) = Inr (inc, Stored doc') \<Longrightarrow>
     incident_step doc doc'"
| step_close: "close_incident True x why now (Stored doc) = Inr (inc, Stored doc') \<Longrightarrow>
     incident_step doc doc'"
| step_close_watching: "close_watching True why now (Stored doc) = Inr (ids, Stored doc') \<Longrightarrow>
     incident_step doc doc'"

inductive reached :: "incident list \<Rightarrow> bool" where
  reached_empty: "reached []"
| reached_step: "reached doc \<Longrightarrow> incident_step doc doc' \<Longrightarrow> reached doc'"

lemma mutate_StoredE:
  assumes "mutate True fn (Stored doc) = Inr (out, Stored doc')"
  obtains doc1 where "fn doc = Inr (out, doc1)" "doc' = prune doc1"
  using assms by (auto simp: mutate_def bind_result_eq_Inr_iff)

text \<open>What one operation does before the pruning: it keeps the invariant and moves states
  legally.\<close>

lemma incident_step_cases:
  assumes "incident_step doc doc'" "doc_inv doc"
  shows "\<exists>doc1. doc_inv doc1 \<and> ids_legal doc doc1 \<and> (doc' = prune doc1 \<or> doc' = doc)"
  using assms
proof (induction rule: incident_step.induct)
  case (step_sight nid nw d t now radius_of doc a doc')
  then have "doc' = prune (snd (sight_doc nid nw d t now radius_of doc))"
    by (auto simp: sight_def split: if_splits elim!: mutate_StoredE)
  moreover have "ids_ok doc" using step_sight(3) by (simp add: doc_inv_def)
  ultimately show ?case
    using sight_doc_inv [OF step_sight(3,2)] sight_legal [OF _ step_sight(2)] by blast
next
  case (step_record_read x d r rat doc inc doc')
  then obtain doc1 where d1: "on_incident x ((\<lambda>(d, r, rat) inc. record_read_inc d r rat inc) (d, r, rat)) doc
      = Inr (inc, doc1)" "doc' = prune doc1"
    by (auto simp: record_read_def elim!: mutate_StoredE)
  with reading.on_incident_doc_inv [OF d1(1)] reading.on_incident_legal [OF d1(1)] step_record_read(2)
  show ?case by (auto simp: doc_inv_def)
next
  case (step_settle x j now doc inc doc')
  then obtain doc1 where d1: "on_incident x ((\<lambda>(j, now) inc. settle_inc j now inc) (j, now)) doc
      = Inr (inc, doc1)" "doc' = prune doc1" and "settled_state (j_state j)"
    by (auto simp: settle_def split: if_splits elim!: mutate_StoredE)
  with settling.on_incident_doc_inv [OF d1(1)] settling.on_incident_legal [OF d1(1)] step_settle(2)
  show ?case by (auto simp: doc_inv_def)
next
  case (step_claim x "by" now doc inc doc')
  then obtain doc1 where d1: "on_incident x ((\<lambda>(by, now) inc. claim_inc by now inc) (by, now)) doc
      = Inr (inc, doc1)" "doc' = prune doc1"
    by (auto simp: claim_def elim!: mutate_StoredE)
  with claiming.on_incident_doc_inv [OF d1(1)] claiming.on_incident_legal [OF d1(1)] step_claim(2)
  show ?case by (auto simp: doc_inv_def)
next
  case (step_defer x until why now doc inc doc')
  then obtain doc1 where d1: "on_incident x
      ((\<lambda>(until, why, now) inc. defer_inc until why now inc) (until, why, now)) doc
      = Inr (inc, doc1)" "doc' = prune doc1"
    by (auto simp: defer_incident_def split: if_splits elim!: mutate_StoredE)
  with deferring.on_incident_doc_inv [OF d1(1)] deferring.on_incident_legal [OF d1(1)] step_defer(2)
  show ?case by (auto simp: doc_inv_def)
next
  case (step_close x why now doc inc doc')
  then obtain doc1 where d1: "on_incident x ((\<lambda>(why, now) inc. close_inc why now inc) (why, now)) doc
      = Inr (inc, doc1)" "doc' = prune doc1"
    by (auto simp: close_incident_def split: if_splits elim!: mutate_StoredE)
  with closing.on_incident_doc_inv [OF d1(1)] closing.on_incident_legal [OF d1(1)] step_close(2)
  show ?case by (auto simp: doc_inv_def)
next
  case (step_close_watching why now doc ids doc')
  then have "doc' = doc \<or> doc' = prune (map (close_watching_inc why now) doc)"
    by (auto simp: close_watching_def split: if_splits elim!: mutate_StoredE)
  moreover have "ids_ok doc" using step_close_watching(2) by (simp add: doc_inv_def)
  moreover from this have "ids_legal doc doc" by (rule ids_legal_refl)
  ultimately show ?case
    using step_close_watching(2) close_watching_doc_inv [OF step_close_watching(2), of why now]
      close_watching_legal [of doc why now] by blast
qed

lemma incident_step_inv:
  assumes "incident_step doc doc'" "store_inv doc"
  shows "store_inv doc'"
proof -
  from assms(2) have "doc_inv doc" by (simp add: store_inv_def)
  from incident_step_cases [OF assms(1) this] assms(2) show ?thesis
    by (auto intro: prune_store_inv)
qed

lemma reached_inv: "reached doc \<Longrightarrow> store_inv doc"
proof (induction rule: reached.induct)
  case reached_empty
  show ?case by (simp add: store_inv_def doc_inv_def ids_ok_def one_place_def open_places_def
        closed_of_def)
qed (auto intro: incident_step_inv)

section \<open>Properties of the store\<close>

lemma reached_distinct_ids: "store_inv doc \<Longrightarrow> distinct (map i_id doc)"
  by (simp add: store_inv_def doc_inv_def ids_ok_def)

text \<open>C15: in every store the operations can reach, no device is in two open incidents (nor twice
  in one), ids are unique, at most \<open>CLOSED_KEPT\<close> closed incidents are kept, and an incident
  that is ready for the decision, or claimed by it, says how it settled.\<close>

theorem reachable_store:
  assumes "reached doc"
  shows "distinct (open_places doc) \<and> distinct (map i_id doc)
         \<and> length (filter (\<lambda>i. i_state i = Closed) doc) \<le> CLOSED_KEPT
         \<and> (\<forall>inc \<in> set doc. i_state inc \<in> {Ready, Claimed} \<longrightarrow>
              (\<exists>s. i_settled inc = Some s \<and> settled_state (s_how s)))"
  using reached_inv [OF assms] reached_distinct_ids [of doc]
  by (simp add: store_inv_def doc_inv_def one_place_def closed_of_def settled_ok_def)

text \<open>C27: one operation on a store that holds the invariant: an incident that stays moves only
  \<open>Watching \<rightarrow> Ready \<rightarrow> Claimed\<close>, back to \<open>Watching\<close>, or to \<open>Closed\<close> (which is final),
  and keeps its network and its opening.\<close>

theorem incidents_move_legally:
  assumes "incident_step doc doc'" and "store_inv doc" and "a \<in> set doc"
  shows "(\<forall>b \<in> set doc'. i_id b = i_id a \<longrightarrow>
            (i_state b = i_state a
             \<or> (i_state a, i_state b) \<in> {(Watching, Ready), (Ready, Claimed), (Ready, Watching),
                  (Claimed, Watching), (Watching, Closed), (Ready, Closed), (Claimed, Closed)})
            \<and> i_network b = i_network a \<and> i_opened_epoch b = i_opened_epoch a)"
proof (intro ballI impI)
  fix b assume b: "b \<in> set doc'" "i_id b = i_id a"
  from assms(2) have inv: "doc_inv doc" by (simp add: store_inv_def)
  then have refl: "ids_legal doc doc" by (simp add: doc_inv_def ids_legal_refl)
  obtain doc1 where "ids_legal doc doc1" "doc' = prune doc1 \<or> doc' = doc"
    using incident_step_cases [OF assms(1) inv] by blast
  then obtain doc2 where "ids_legal doc doc2" "b \<in> set doc2"
    using b(1) refl set_prune_subset [of doc1] by blast
  with assms(3) b(2) have "legal (i_state a) (i_state b) \<and> i_network b = i_network a
      \<and> i_opened_epoch b = i_opened_epoch a"
    by (simp add: ids_legal_def)
  then show "(i_state b = i_state a
             \<or> (i_state a, i_state b) \<in> {(Watching, Ready), (Ready, Claimed), (Ready, Watching),
                  (Claimed, Watching), (Watching, Closed), (Ready, Closed), (Claimed, Closed)})
            \<and> i_network b = i_network a \<and> i_opened_epoch b = i_opened_epoch a"
    by (simp only: legal_def)
qed

definition ex_trigger :: "trigger_kind \<Rightarrow> string \<Rightarrow> device list \<Rightarrow> trigger" where
  "ex_trigger k key related =
     \<lparr>t_kind = k, t_key = Some key, t_epoch = 100, t_source = ''reconciler'', t_related = related,
      t_by = None, t_person = [], t_interface = [], t_protocol = [], t_rule = [], t_router_id = [],
      t_read = None\<rparr>"

lemma ex_trigger_simps [simp]:
  "t_kind (ex_trigger k key related) = k" "t_key (ex_trigger k key related) = Some key"
  "t_related (ex_trigger k key related) = related"
  "is_cause (ex_trigger k key related) \<longleftrightarrow> k \<in> {Config_change, Drift}"
  by (simp_all add: ex_trigger_def is_cause_def CAUSE_KINDS_def)

definition ex_doc :: "incident list" where
  "ex_doc = snd (sight_doc ''i1'' ''net'' ''r1'' (ex_trigger Alert ''k1'' []) 100 None [])"

lemma ex_doc_eq:
  "ex_doc = [(push_inc (ex_trigger Alert ''k1'' [])
     (new_incident ''i1'' ''net'' ''r1'' (ex_trigger Alert ''k1'' []) 100))\<lparr>i_fold := Not_folded\<rparr>]"
  by (simp add: ex_doc_def sight_doc_def where_idx_def fold_target_def sight_opened_def Let_def)

lemma ex_sight:
  "sight True ''i1'' ''net'' ''r1'' (ex_trigger Alert ''k1'' []) 100 None (Stored [])
      = Inr (fst (sight_doc ''i1'' ''net'' ''r1'' (ex_trigger Alert ''k1'' []) 100 None []),
             Stored ex_doc)"
  by (simp add: sight_def SYMPTOM_KINDS_def CAUSE_KINDS_def mutate_def ex_doc_def prune_def
      split_beta ex_doc_eq [unfolded ex_doc_def] CLOSED_KEPT_def)

lemma ex_step: "incident_step [] ex_doc"
  using ex_sight by (rule step_sight) simp

lemma ex_reached: "reached ex_doc"
  by (rule reached_step [OF reached_empty ex_step])

theorem reachable_store_witness:
  "distinct (open_places ex_doc) \<and> reached ex_doc \<and> open_places ex_doc = [''r1'']"
  using reachable_store [OF ex_reached] ex_reached
  by (simp add: ex_doc_eq open_places_def places_def is_open_def open_state_def new_incident_def
      push_inc_def)

definition ex_inc :: incident where "ex_inc = hd ex_doc"

definition ex_closed :: "incident list" where
  "ex_closed = [close_watching_inc ''paused'' 200 ex_inc]"

lemma ex_closed_step: "incident_step ex_doc ex_closed"
proof (rule step_close_watching)
  show "close_watching True ''paused'' 200 (Stored ex_doc) = Inr ([''i1''], Stored ex_closed)"
    by (simp add: close_watching_def ex_doc_eq mutate_def prune_def CLOSED_KEPT_def ex_closed_def
        ex_inc_def new_incident_def push_inc_def)
qed

theorem incidents_move_legally_witness:
  "i_state (hd ex_closed) = Closed \<and> i_network (hd ex_closed) = i_network ex_inc"
  using incidents_move_legally [OF ex_closed_step reached_inv [OF ex_reached], of ex_inc]
  by (simp add: ex_closed_def close_watching_inc_def ex_inc_def ex_doc_eq new_incident_def push_inc_def)

text \<open>One sighting never drops or duplicates a device: after it (pruning included) the open
  incidents hold exactly the devices they held, as a multiset, and the sighted device once more
  only where no open incident held it.\<close>

lemma sight_conserves_devices:
  assumes "sight True nid nw d t now radius_of (Stored doc) = Inr (a, Stored doc')"
    and "store_inv doc" and "nid \<notin> set (map i_id doc)"
  shows "mset (open_places doc')
         = mset (open_places doc) + (if d \<in> set (open_places doc) then {#} else {#d#})"
proof -
  let ?d = "snd (sight_doc nid nw d t now radius_of doc)"
  from assms(1) have "doc' = prune ?d"
    by (auto simp: sight_def split: if_splits elim!: mutate_StoredE)
  moreover have "ids_ok ?d"
    using sight_doc_inv [of doc nid] assms(2,3) by (simp add: store_inv_def doc_inv_def)
  ultimately show ?thesis by (simp add: sight_doc_ok prune_open_places)
qed

text \<open>A change on an attached device whose incident only ever showed a symptom, but is no
  longer watching (it settled, or the decision has it): the device is moved to an incident of its
  own and the two name each other as related, which is what a cause spanning devices is judged
  by, though only one device changed.\<close>

lemma moved_though_one_changed:
  assumes "where_idx doc d = Some (i, Some j)" and "is_cause t"
    and "t_key t \<notin> set (held_keys (doc ! i))"
    and "i_cause (doc ! i) = Symptom" and "i_state (doc ! i) \<noteq> Watching"
  shows "fst (sight_doc nid nw d t now radius_of doc) = (Moved, nid)
       \<and> (nid, d) \<in> set (i_related (snd (sight_doc nid nw d t now radius_of doc) ! i))
       \<and> i_related (snd (sight_doc nid nw d t now radius_of doc) ! length doc)
         = [(i_id (doc ! i), i_device (doc ! i))]"
  using assms where_idx_SomeD [OF assms(1)]
  by (auto simp: sight_doc_def Let_def sight_moved_def nth_append nth_upd_at moved_incident_def)

end
