(* ===== verification/Attribution.thy ===== *)
theory Attribution
  imports Incidents
begin

text \<open>
  Whose change a configuration-change line records (\<open>modules/heal/attribution.py\<close>,
  \<open>attribute\<close>): Mercury's own, when one of its records explains the line; from outside Mercury,
  when every record was read and none does; not known, when a record could not be read.

  A record that cannot be read (the source raises) is \<open>Inl ()\<close>. A hold is its start, 0 where it
  names none; a receipt's time that will not parse is \<open>None\<close>, which \<open>_epoch\<close> makes 0; a
  rotation is its commit's time. Which lines are configuration changes, and whom one names, are
  read by regular expressions and not modelled.

  \<open>outside_changes\<close> (\<open>modules/heal/detect.py\<close>) is what restarts an incident's grace period.
\<close>

section \<open>The rule\<close>

type_synonym 'a source = "unit + 'a"

definition DEPLOY_WINDOW_S :: epoch where "DEPLOY_WINDOW_S = 600"
definition AFTER_RECEIPT_SECONDS :: epoch where "AFTER_RECEIPT_SECONDS = 60"

definition in_window :: "epoch \<Rightarrow> epoch \<Rightarrow> bool" where
  "in_window t line_at \<longleftrightarrow> t - DEPLOY_WINDOW_S \<le> line_at \<and> line_at \<le> t + AFTER_RECEIPT_SECONDS"

definition receipt_covers :: "epoch \<Rightarrow> iso_time option \<Rightarrow> bool" where
  "receipt_covers line_at r \<longleftrightarrow> epoch_of r \<noteq> 0 \<and> in_window (epoch_of r) line_at"

datatype evidence =
  By_hold epoch | By_receipt "iso_time option" | By_rotation epoch | Not_read nat | No_evidence

fun not_read :: "'a source \<Rightarrow> nat" where
  "not_read (Inl _) = 1" | "not_read (Inr _) = 0"

fun or_empty :: "'a list source \<Rightarrow> 'a list" where
  "or_empty (Inl _) = []" | "or_empty (Inr xs) = xs"

fun or_none :: "'a option source \<Rightarrow> 'a option" where
  "or_none (Inl _) = None" | "or_none (Inr x) = x"

definition attribute ::
    "epoch option source \<Rightarrow> iso_time option list source \<Rightarrow> epoch option source \<Rightarrow> epoch
     \<Rightarrow> attributed \<times> evidence" where
  "attribute holder receipts rotation line_at =
     (let unread = not_read holder + not_read receipts + not_read rotation in
      case filter (\<lambda>s. s \<le> line_at) (case or_none holder of None \<Rightarrow> [] | Some s \<Rightarrow> [s]) of
        s # _ \<Rightarrow> (Mercury, By_hold s)
      | [] \<Rightarrow>
     (case filter (receipt_covers line_at) (or_empty receipts) of
        r # _ \<Rightarrow> (Mercury, By_receipt r)
      | [] \<Rightarrow>
     (case filter (\<lambda>t. in_window t line_at) (case or_none rotation of None \<Rightarrow> [] | Some t \<Rightarrow> [t]) of
        t # _ \<Rightarrow> (Mercury, By_rotation t)
      | [] \<Rightarrow> (if 0 < unread then (Unknown, Not_read unread) else (Outside, No_evidence)))))"

section \<open>What the rule promises\<close>

definition explained ::
    "epoch option source \<Rightarrow> iso_time option list source \<Rightarrow> epoch option source \<Rightarrow> epoch \<Rightarrow> bool" where
  "explained holder receipts rotation line_at \<longleftrightarrow>
     (\<exists>s. holder = Inr (Some s) \<and> s \<le> line_at)
     \<or> (\<exists>rs r. receipts = Inr rs \<and> r \<in> set rs \<and> receipt_covers line_at r)
     \<or> (\<exists>t. rotation = Inr (Some t) \<and> in_window t line_at)"

lemma or_none_Some [simp]: "or_none x = Some y \<longleftrightarrow> x = Inr (Some y)"
  by (cases x) auto

lemma in_or_empty: "y \<in> set (or_empty x) \<longleftrightarrow> (\<exists>ys. x = Inr ys \<and> y \<in> set ys)"
  by (cases x) auto

lemma filter_option:
  "filter P (case x of None \<Rightarrow> [] | Some y \<Rightarrow> [y]) = [] \<longleftrightarrow> (\<forall>y. x = Some y \<longrightarrow> \<not> P y)"
  by (cases x) auto

lemma attribute_cases:
  "fst (attribute holder receipts rotation line_at) =
     (if explained holder receipts rotation line_at then Mercury
      else if 0 < not_read holder + not_read receipts + not_read rotation then Unknown else Outside)"
proof -
  let ?h = "filter (\<lambda>s. s \<le> line_at) (case or_none holder of None \<Rightarrow> [] | Some s \<Rightarrow> [s])"
  let ?r = "filter (receipt_covers line_at) (or_empty receipts)"
  let ?t = "filter (\<lambda>t. in_window t line_at) (case or_none rotation of None \<Rightarrow> [] | Some t \<Rightarrow> [t])"
  have e: "explained holder receipts rotation line_at \<longleftrightarrow> \<not> (?h = [] \<and> ?r = [] \<and> ?t = [])"
    unfolding explained_def filter_option by (cases receipts) (auto simp: filter_empty_conv)
  show ?thesis unfolding e attribute_def Let_def by (cases ?h; cases ?r; cases ?t) simp_all
qed

text \<open>A configuration change is Mercury's own exactly when a hold that started by then, a
  receipt or a rotation in its window explains it; of the changes none explains, it is from
  outside exactly when every record was read, and otherwise not known.\<close>

lemma attribution_exact:
  "(fst (attribute holder receipts rotation line_at) = Mercury
      \<longleftrightarrow> explained holder receipts rotation line_at)
   \<and> (fst (attribute holder receipts rotation line_at) = Outside
      \<longleftrightarrow> \<not> explained holder receipts rotation line_at
          \<and> (\<exists>h rs t. holder = Inr h \<and> receipts = Inr rs \<and> rotation = Inr t))"
  unfolding attribute_cases by (cases holder; cases receipts; cases rotation) auto

text \<open>Losing a record never makes a change Mercury's.\<close>

lemma unreadable_never_mercury:
  assumes "fst (attribute (if a then Inl () else holder) (if b then Inl () else receipts)
                  (if c then Inl () else rotation) line_at) = Mercury"
  shows "fst (attribute holder receipts rotation line_at) = Mercury"
  using assms unfolding attribute_cases by (auto simp: explained_def split: if_splits)

section \<open>What restarts an incident's grace period\<close>

text \<open>\<open>float(incident["defer_until"])\<close>, when it is set and not 0.\<close>

definition outside_changes :: "incident \<Rightarrow> epoch list" where
  "outside_changes inc =
     map t_epoch (filter (\<lambda>t. t_kind t = Config_change \<and> t_by t \<noteq> Some Mercury) (i_triggers inc))
     @ (case i_defer_until inc of None \<Rightarrow> [] | Some u \<Rightarrow> if u = 0 then [] else [u])"

end
