(* ===== verification/Sections.thy ===== *)
theory Sections
  imports Heal_Prelude
begin

text \<open>
  Configuration text as the deploy and the heal read it: a line and the header lines above it
  (\<open>modules/nsot/sections.py\<close> \<open>chains\<close>, \<open>modules/nsot/deploy.py\<close>
  \<open>_section_chains\<close>), the program a merge sends (\<open>merge_commands\<close>, its builder loop, and
  \<open>merge_diff\<close>'s lines to add) and what a program configures (\<open>program_lines\<close>).

  A path is \<open>(chain, line)\<close>, the chain outermost first. The stack of open levels is a list
  with its top first here, where the source keeps its top last. What is taken as a parameter:
  \<open>canon\<close>, the canonical form of a line (\<open>ifnames.canonicalise_line\<close>), and the lines held
  at a device's default (\<open>classify_diff\<close>). The lines given to \<open>chains\<close> are the caller's
  normalised ones.

  The lemmas: every chain is made of lines that came before, each under the rest of its own chain
  (no partial chain), and a merge's program, read back by the device's own rule of indentation,
  configures exactly the lines it was to add and the headers above them.
\<close>

type_synonym line = string
type_synonym chain = "string list"
type_synonym path = "chain \<times> line"

section \<open>White space\<close>

definition lstrip :: "string \<Rightarrow> string" where "lstrip s = dropWhile is_space s"
definition rstrip :: "string \<Rightarrow> string" where "rstrip s = rev (dropWhile is_space (rev s))"
definition strip :: "string \<Rightarrow> string" where "strip s = lstrip (rstrip s)"

definition indent_of :: "string \<Rightarrow> nat" where
  "indent_of s = length s - length (lstrip s)"

lemma indent_of_le: "indent_of s \<le> length s"
  by (simp add: indent_of_def)

section \<open>The chains of a configuration\<close>

definition skipped :: "string \<Rightarrow> bool" where
  "skipped l \<longleftrightarrow> strip l \<in> {'''', ''!'', ''end''}"

fun chains_loop :: "(line \<Rightarrow> line) \<Rightarrow> line list \<Rightarrow> (nat \<times> line) list \<Rightarrow> path list" where
  "chains_loop nf [] stack = []"
| "chains_loop nf (raw # raws) stack =
     (let l = rstrip raw in
      if skipped l then chains_loop nf raws stack
      else let stack = dropWhile (\<lambda>e. indent_of l \<le> fst e) stack
           in (rev (map snd stack), nf l) # chains_loop nf raws ((indent_of l, nf l) # stack))"

definition chains :: "(line \<Rightarrow> line) \<Rightarrow> line list \<Rightarrow> path list" where
  "chains nf ls = chains_loop nf ls []"

definition section_chains :: "(line \<Rightarrow> line) \<Rightarrow> line list \<Rightarrow> path list" where
  "section_chains canon ls = chains_loop canon ls []"

text \<open>\<open>_headers\<close>: the paths that open a level (\<open>removal._headers\<close>, and \<open>containers\<close> in
  \<open>merge_commands\<close>).\<close>

definition headers_of :: "path list \<Rightarrow> chain set" where
  "headers_of entries = {take (Suc n) c | c n. c \<in> fst ` set entries \<and> n < length c}"

definition is_header :: "path list \<Rightarrow> chain \<Rightarrow> bool" where
  "is_header entries p \<longleftrightarrow> p \<noteq> [] \<and> (\<exists>e \<in> set entries. take (length p) (fst e) = p)"

lemma is_header_iff: "is_header entries p \<longleftrightarrow> p \<in> headers_of entries"
proof
  assume h: "is_header entries p"
  then obtain e where e: "e \<in> set entries" "take (length p) (fst e) = p" and p: "p \<noteq> []"
    by (auto simp: is_header_def)
  then have "length p \<le> length (fst e)" by (metis length_take min.cobounded1)
  with e p show "p \<in> headers_of entries"
    unfolding headers_of_def
    by (intro CollectI exI [of _ "fst e"] exI [of _ "length p - 1"]) (cases p, auto)
next
  assume "p \<in> headers_of entries"
  then show "is_header entries p"
    by (auto simp: headers_of_def is_header_def min_def intro: rev_bexI)
qed

section \<open>A program's lines\<close>

definition CONTROL_WORDS :: "string set" where "CONTROL_WORDS = {''exit''}"

text \<open>\<open>program_lines\<close>: the open levels are kept outermost first, the last one on top, as the
  source keeps them.\<close>

definition close_to :: "nat \<Rightarrow> line list \<Rightarrow> line list" where
  "close_to k st = rev (dropWhile (\<lambda>h. k \<le> indent_of h) (rev st))"

fun scan :: "(line \<Rightarrow> line) \<Rightarrow> line list \<Rightarrow> line list \<Rightarrow> path list \<times> line list" where
  "scan canon [] st = ([], st)"
| "scan canon (raw # raws) st =
     (let l = rstrip raw in
      if strip l = '''' then scan canon raws st
      else if strip l \<in> CONTROL_WORDS then scan canon raws (butlast st)
      else let st = close_to (indent_of l) st;
               (ps, st') = scan canon raws (st @ [l])
           in ((map canon st, canon l) # ps, st'))"

definition program_lines :: "(line \<Rightarrow> line) \<Rightarrow> line list \<Rightarrow> path set" where
  "program_lines canon cmds = set (fst (scan canon cmds []))"

section \<open>A merge's program\<close>

text \<open>\<open>merge_diff\<close>'s \<open>to_add_keyed\<close>.\<close>

definition to_add :: "path list \<Rightarrow> path list \<Rightarrow> path set \<Rightarrow> path list" where
  "to_add intended running held_defaults =
     filter (\<lambda>p. strip (snd p) \<notin> {'''', ''!'', ''end''} \<and> p \<notin> set running \<and> p \<notin> held_defaults)
            intended"

definition exits :: "chain \<Rightarrow> line list" where
  "exits oc = replicate (length oc) ''exit''"

text \<open>The builder loop: \<open>rem\<close> is what is still to send, \<open>oc\<close> the open chain.\<close>

fun merge_loop :: "path list \<Rightarrow> path list \<Rightarrow> path list \<Rightarrow> chain \<Rightarrow> line list" where
  "merge_loop entries [] rem oc = exits oc"
| "merge_loop entries ((c, l) # es) rem oc =
     (if (c, l) \<notin> set rem then merge_loop entries es rem oc
      else (if c \<noteq> oc then exits oc @ c else []) @ l #
           merge_loop entries es (filter (\<lambda>p. p \<noteq> (c, l)) rem)
             (if is_header entries (c @ [l]) then c @ [l] else c))"

definition merge_commands :: "path list \<Rightarrow> path list \<Rightarrow> path set \<Rightarrow> line list" where
  "merge_commands intended running held_defaults =
     (let wanted = to_add intended running held_defaults in
      if wanted = [] then [] else merge_loop intended intended wanted [])"

section \<open>The chain of a line is its nearest lines at each smaller indentation\<close>

fun nearest :: "nat \<Rightarrow> (nat \<times> line) list \<Rightarrow> chain" where
  "nearest m [] = []"
| "nearest m ((i, v) # before) = (if i < m then nearest i before @ [v] else nearest m before)"

text \<open>\<open>before\<close> is what was kept so far, the newest first.\<close>

fun nearest_chains :: "(line \<Rightarrow> line) \<Rightarrow> line list \<Rightarrow> (nat \<times> line) list \<Rightarrow> path list" where
  "nearest_chains nf [] before = []"
| "nearest_chains nf (raw # raws) before =
     (if skipped (rstrip raw) then nearest_chains nf raws before
      else (nearest (indent_of (rstrip raw)) before, nf (rstrip raw))
           # nearest_chains nf raws ((indent_of (rstrip raw), nf (rstrip raw)) # before))"

lemma dropWhile_le_le:
  "m \<le> i \<Longrightarrow> dropWhile (\<lambda>e. m \<le> f e) (dropWhile (\<lambda>e. i \<le> f e) s) = dropWhile (\<lambda>e. (m::nat) \<le> f e) s"
  by (induction s) auto

lemma chains_loop_nearest:
  assumes "\<And>m. rev (map snd (dropWhile (\<lambda>e. m \<le> fst e) stack)) = nearest m before"
  shows "chains_loop nf raws stack = nearest_chains nf raws before"
  using assms
proof (induction nf raws stack arbitrary: before rule: chains_loop.induct)
  case (2 nf raw raws stack)
  show ?case
  proof (cases "skipped (rstrip raw)")
    case True
    with 2 show ?thesis by (simp add: Let_def)
  next
    case False
    let ?i = "indent_of (rstrip raw)" and ?v = "nf (rstrip raw)"
    let ?s = "(?i, ?v) # dropWhile (\<lambda>e. ?i \<le> fst e) stack"
    have "rev (map snd (dropWhile (\<lambda>e. m \<le> fst e) ?s)) = nearest m ((?i, ?v) # before)" for m
      using 2(3) by (simp add: dropWhile_le_le not_le)
    from 2(2) [OF refl False refl this] False 2(3) show ?thesis by (simp add: Let_def)
  qed
qed simp

text \<open>The sections a configuration is read into are the ones its indentation says: each line's
  chain is the nearest line before it at each smaller indentation, outermost first, whatever was
  opened and closed in between.\<close>

lemma section_chains_nearest:
  "section_chains canon ls = nearest_chains canon ls []"
  unfolding section_chains_def by (rule chains_loop_nearest) simp

section \<open>A merge's program configures what it was to add\<close>

text \<open>A line the program can be read back by: canonical, at its depth's indentation, no
  control word.\<close>

definition tidy_line :: "(line \<Rightarrow> line) \<Rightarrow> nat \<Rightarrow> line \<Rightarrow> bool" where
  "tidy_line canon i l \<longleftrightarrow> rstrip l = l \<and> strip l \<noteq> '''' \<and> strip l \<notin> CONTROL_WORDS
     \<and> indent_of l = i \<and> canon l = l"

definition tidy_chain :: "(line \<Rightarrow> line) \<Rightarrow> chain \<Rightarrow> bool" where
  "tidy_chain canon c \<longleftrightarrow> (\<forall>i < length c. tidy_line canon i (c ! i))"

definition tidy :: "(line \<Rightarrow> line) \<Rightarrow> path \<Rightarrow> bool" where
  "tidy canon p \<longleftrightarrow> tidy_chain canon (fst p) \<and> tidy_line canon (length (fst p)) (snd p)"

definition above :: "chain \<Rightarrow> path set" where
  "above c = (\<lambda>i. (take i c, c ! i)) ` {..<length c}"

lemma above_Nil [simp]: "above [] = {}"
  by (simp add: above_def)

lemma above_snoc: "above (c @ [l]) = insert (c, l) (above c)"
  by (auto simp: above_def lessThan_Suc nth_append image_iff)

lemma tidy_chain_snoc:
  "tidy_chain canon (c @ [l]) \<longleftrightarrow> tidy_chain canon c \<and> tidy_line canon (length c) l"
  by (auto simp: tidy_chain_def nth_append less_Suc_eq)

lemma tidy_chain_take: "tidy_chain canon c \<Longrightarrow> tidy_chain canon (take k c)"
  by (simp add: tidy_chain_def)

lemma tidy_chain_canon: "tidy_chain canon c \<Longrightarrow> map canon c = c"
  by (auto simp: tidy_chain_def tidy_line_def intro: nth_equalityI)

lemma close_to_tidy:
  assumes "tidy_chain canon st"
  shows "close_to k st = take k st"
  using assms
proof (induction st rule: rev_induct)
  case (snoc x st)
  then show ?case by (auto simp: close_to_def tidy_chain_snoc tidy_line_def)
qed (simp add: close_to_def)

lemma scan_append:
  "scan canon (a @ b) st = (fst (scan canon a st) @ fst (scan canon b (snd (scan canon a st))),
                            snd (scan canon b (snd (scan canon a st))))"
  by (induction a arbitrary: st) (simp_all add: Let_def split_beta)

lemma scan_line:
  assumes "tidy_chain canon st" "tidy_line canon k l" "k \<le> length st"
  shows "scan canon [l] st = ([(take k st, l)], take k st @ [l])"
  using assms tidy_chain_canon [OF tidy_chain_take [OF assms(1), of k]]
  by (simp add: tidy_line_def close_to_tidy Let_def)

lemma scan_headers:
  assumes "tidy_chain canon st" "tidy_chain canon c"
  shows "set (fst (scan canon c st)) = above c \<and> snd (scan canon c st) = (if c = [] then st else c)"
  using assms
proof (induction c rule: rev_induct)
  case (snoc x c)
  then have x: "tidy_line canon (length c) x" and c: "tidy_chain canon c"
    by (simp_all add: tidy_chain_snoc)
  let ?st = "snd (scan canon c st)"
  have "tidy_chain canon ?st" "length c \<le> length ?st" "take (length c) ?st = c"
    using snoc.IH [OF snoc.prems(1) c] snoc.prems(1) c by auto
  from scan_line [OF this(1) x this(2)] this(3) snoc.IH [OF snoc.prems(1) c]
  show ?case by (simp add: scan_append above_snoc)
qed simp

lemma scan_exits:
  "scan canon (replicate n ''exit'') st = ([], take (length st - n) st)"
proof (induction n arbitrary: st)
  case (Suc n)
  have "strip (rstrip ''exit'') = ''exit''" "rstrip ''exit'' = ''exit''"
    by (simp_all add: strip_def rstrip_def lstrip_def is_space_def)
  with Suc show ?case by (simp add: Let_def CONTROL_WORDS_def butlast_take butlast_conv_take min_def)
qed simp

definition above_all :: "path set \<Rightarrow> path set" where
  "above_all W = (\<Union>p \<in> W. above (fst p))"

lemma above_all_insert: "above_all (insert p W) = above (fst p) \<union> above_all W"
  by (simp add: above_all_def)

text \<open>One line sent in its section: the stack it is sent on, or the section opened afresh.\<close>

lemma scan_step:
  assumes "tidy_chain canon st" "tidy canon (c, l)"
    and "take (length oc) st = oc" "length oc \<le> length st"
  shows "tidy_chain canon (snd (scan canon ((if c \<noteq> oc then exits oc @ c else []) @ [l]) st))"
    and "snd (scan canon ((if c \<noteq> oc then exits oc @ c else []) @ [l]) st) = c @ [l]"
    and "set (fst (scan canon ((if c \<noteq> oc then exits oc @ c else []) @ [l]) st))
         = (if c \<noteq> oc then above c else {}) \<union> {(c, l)}"
proof -
  have c: "tidy_chain canon c" and l: "tidy_line canon (length c) l"
    using assms(2) by (simp_all add: tidy_def)
  let ?pre = "if c \<noteq> oc then exits oc @ c else []"
  let ?st = "snd (scan canon ?pre st)"
  let ?ex = "take (length st - length oc) st"
  have ex: "tidy_chain canon ?ex" using assms(1) by (rule tidy_chain_take)
  have st: "tidy_chain canon ?st \<and> length c \<le> length ?st \<and> take (length c) ?st = c"
    using scan_headers [OF ex c] ex c assms(1,3,4)
    by (cases "c = []") (auto simp: exits_def scan_append scan_exits)
  then have run: "scan canon [l] ?st = ([(c, l)], c @ [l])"
    using scan_line [OF conjunct1 [OF st] l conjunct1 [OF conjunct2 [OF st]]] st by simp
  then show snd: "snd (scan canon (?pre @ [l]) st) = c @ [l]" by (simp add: scan_append)
  then show "tidy_chain canon (snd (scan canon (?pre @ [l]) st))"
    using c l by (simp only: tidy_chain_snoc)
  show "set (fst (scan canon (?pre @ [l]) st)) = (if c \<noteq> oc then above c else {}) \<union> {(c, l)}"
    using run scan_headers [OF ex c] by (auto simp: scan_append exits_def scan_exits)
qed

lemma sent_union:
  assumes "R \<union> A' = X \<union> Y \<union> A'" "A' \<subseteq> insert x A" "A \<subseteq> A'" "b \<or> A = B"
  shows "(if b then A else {}) \<union> {x} \<union> R \<union> B = insert x X \<union> (A \<union> Y) \<union> B"
proof -
  have "insert x A \<union> R = insert x A \<union> X \<union> Y" using assms(1-3) by blast
  with assms(4) show ?thesis by auto
qed

lemma merge_loop_scan:
  assumes "\<forall>p \<in> set es. tidy canon p" "tidy_chain canon st" "take (length oc) st = oc"
    "length oc \<le> length st"
  shows "set (fst (scan canon (merge_loop entries es rem oc) st)) \<union> above oc
         = (set es \<inter> set rem) \<union> above_all (set es \<inter> set rem) \<union> above oc"
  using assms
proof (induction entries es rem oc arbitrary: st rule: merge_loop.induct)
  case (1 entries rem oc)
  then show ?case by (simp add: exits_def scan_exits above_all_def)
next
  case (2 entries c l es rem oc)
  show ?case
  proof (cases "(c, l) \<in> set rem")
    case False
    have "set ((c, l) # es) \<inter> set rem = set es \<inter> set rem" using False by auto
    with 2(1) [OF False] 2(3-6) False show ?thesis by simp
  next
    case True
    let ?pre = "if c \<noteq> oc then exits oc @ c else []"
    let ?rem = "filter (\<lambda>p. p \<noteq> (c, l)) rem"
    let ?oc = "if is_header entries (c @ [l]) then c @ [l] else c"
    have cl: "tidy canon (c, l)" and es: "\<forall>p \<in> set es. tidy canon p" using 2(3) by auto
    note step = scan_step [OF 2(4) cl 2(5,6)]
    have ih: "set (fst (scan canon (merge_loop entries es ?rem ?oc) (c @ [l]))) \<union> above ?oc
        = (set es \<inter> set ?rem) \<union> above_all (set es \<inter> set ?rem) \<union> above ?oc"
      using 2(2) [of "c @ [l]"] True es step(1) unfolding step(2) by simp
    have one: "merge_loop entries ((c, l) # es) rem oc
        = (?pre @ [l]) @ merge_loop entries es ?rem ?oc" using True by simp
    have run: "set (fst (scan canon (merge_loop entries ((c, l) # es) rem oc) st))
        = (if c \<noteq> oc then above c else {}) \<union> {(c, l)}
          \<union> set (fst (scan canon (merge_loop entries es ?rem ?oc) (c @ [l])))"
      unfolding one by (simp only: scan_append [of canon "?pre @ [l]"] fst_conv set_append step(2,3))
    have W: "set ((c, l) # es) \<inter> set rem = insert (c, l) (set es \<inter> set ?rem)" using True by auto
    have oc: "above ?oc \<subseteq> insert (c, l) (above c)" "above c \<subseteq> above ?oc"
      by (auto simp: above_snoc)
    show ?thesis
      unfolding run W above_all_insert fst_conv 
      by (rule sent_union [OF ih oc]) (cases "c = oc", simp_all)
  qed
qed

lemma to_add_subset: "set (to_add intended running held) \<subseteq> set intended"
  by (auto simp: to_add_def)

text \<open>Read back the way a device reads it, by indentation and \<open>exit\<close>, the program of a merge
  configures exactly the lines the device lacks (in the section each belongs to) and the headers
  above them: no line lands in another section, none is invented, none is dropped.\<close>

lemma merge_configures_what_it_adds:
  assumes "\<forall>p \<in> set intended. tidy canon p"
  shows "program_lines canon (merge_commands intended running held_defaults)
         = set (to_add intended running held_defaults)
           \<union> above_all (set (to_add intended running held_defaults))"
proof (cases "to_add intended running held_defaults = []")
  case True
  then show ?thesis by (simp add: merge_commands_def program_lines_def above_all_def)
next
  case False
  have "set intended \<inter> set (to_add intended running held_defaults)
      = set (to_add intended running held_defaults)"
    using to_add_subset by blast
  then show ?thesis
    using False merge_loop_scan [OF assms, of "[]" "[]" intended "to_add intended running held_defaults"]
    by (simp add: merge_commands_def program_lines_def tidy_chain_def Let_def)
qed

end
