(* ===== verification/Removal.thy ===== *)
theory Removal
  imports Sections
begin

text \<open>
  Removing configuration lines (\<open>modules/nsot/removal.py\<close>): which lines may be the way Mercury
  reaches the device (\<open>_management_interfaces\<close>, \<open>_management_routes\<close>), what is refused
  (\<open>_refusal\<close>), the program that negates the rest (\<open>negation_program\<close>,
  \<open>removal_program\<close>) and how a deploy carries it (\<open>resolve\<close>, \<open>with_removals\<close>,
  \<open>split_pushed\<close>, \<open>still_present\<close>).

  What the file does not hold is an argument, gathered in \<open>removal_env\<close>: the canonical form of
  a line, a static route's destination and next hops as \<open>ipaddress\<close> reads them, this host's
  addresses (\<open>None\<close> where they could not be read), whether an object is still used
  (\<open>_references\<close>), whether the removal of a line is measured as exact on the platform
  (\<open>_unmeasured\<close>), whether a line holds a secret, a shape's own negation and a line's id.
  The reasons are constructors; that one starts with "the management path" is the constructor
  \<open>Management_path\<close>.

  The lemmas: the loop over the routes ends and finds exactly the routes that may reach the
  manager; a removed unit was on the device and touches none of what Mercury reaches it by; and
  the program negates each removed line in its own section, and nothing else.
\<close>

section \<open>Addresses and routes\<close>

datatype family = V4 | V6

type_synonym addr = "family \<times> nat"
type_synonym net = "family \<times> nat \<times> nat"   \<comment> \<open>the base address and the prefix length\<close>
type_synonym route = "net \<times> addr list"

definition addr_width :: "family \<Rightarrow> nat" where
  "addr_width f = (case f of V4 \<Rightarrow> 32 | V6 \<Rightarrow> 128)"

definition prefix_len :: "net \<Rightarrow> nat" where "prefix_len n = snd (snd n)"

definition in_net :: "addr \<Rightarrow> net \<Rightarrow> bool" where
  "in_net a n = (case (a, n) of ((f, x), (g, b, p)) \<Rightarrow>
     f = g \<and> x div 2 ^ (addr_width f - p) = b div 2 ^ (addr_width f - p))"

text \<open>\<open>STATIC_ROUTE\<close>: a family's \<open>route\<close> and something after it.\<close>

definition starts :: "string \<Rightarrow> string \<Rightarrow> bool" where
  "starts p s \<longleftrightarrow> take (length p) s = p"

definition is_static :: "string \<Rightarrow> bool" where
  "is_static t \<longleftrightarrow> (starts ''ip route '' t \<and> 9 < length t) \<or> (starts ''ipv6 route '' t \<and> 11 < length t)"

definition static_routes :: "path list \<Rightarrow> string list" where
  "static_routes running =
     map (\<lambda>p. strip (snd p)) (filter (\<lambda>p. fst p = [] \<and> is_static (strip (snd p))) running)"

text \<open>\<open>add_hops\<close> and \<open>mr_pass\<close> are one pass of the \<open>while changed\<close> loop over the routes.\<close>

fun add_hops :: "addr list \<Rightarrow> addr list \<Rightarrow> addr list" where
  "add_hops [] targets = targets"
| "add_hops (h # hs) targets = add_hops hs (if h \<in> set targets then targets else targets @ [h])"

fun mr_pass :: "(string \<Rightarrow> route option) \<Rightarrow> string list \<Rightarrow> string list \<times> addr list
                \<Rightarrow> string list \<times> addr list" where
  "mr_pass route_of [] s = s"
| "mr_pass route_of (t # ts) (out, targets) =
     (case route_of t of
        None \<Rightarrow> mr_pass route_of ts (out, targets)
      | Some (dest, hops) \<Rightarrow>
          (if t \<notin> set out \<and> \<not> (\<exists>a \<in> set targets. in_net a dest)
           then mr_pass route_of ts (out, targets)
           else mr_pass route_of ts (if t \<in> set out then out else out @ [t],
                                     add_hops hops targets)))"

definition all_hops :: "(string \<Rightarrow> route option) \<Rightarrow> string list \<Rightarrow> addr set" where
  "all_hops route_of ts = (\<Union>t \<in> set ts. case route_of t of None \<Rightarrow> {} | Some (_, hs) \<Rightarrow> set hs)"

lemma add_hops_set [simp]: "set (add_hops hs targets) = set hs \<union> set targets"
  by (induction hs targets rule: add_hops.induct) auto

lemma add_hops_same: "set hs \<subseteq> set targets \<Longrightarrow> add_hops hs targets = targets"
  by (induction hs targets rule: add_hops.induct) auto

lemma mr_pass_hit:
  "route_of t = Some (dest, hops) \<Longrightarrow> t \<in> set out \<or> (\<exists>a \<in> set targets. in_net a dest)
   \<Longrightarrow> mr_pass route_of (t # ts) (out, targets)
       = mr_pass route_of ts (if t \<in> set out then out else out @ [t], add_hops hops targets)"
  by auto

lemma mr_pass_miss:
  "(case route_of t of None \<Rightarrow> True
    | Some r \<Rightarrow> t \<notin> set out \<and> \<not> (\<exists>a \<in> set targets. in_net a (fst r)))
   \<Longrightarrow> mr_pass route_of (t # ts) (out, targets) = mr_pass route_of ts (out, targets)"
  by (auto split: option.splits)

declare mr_pass.simps(2) [simp del]

lemma mr_pass_cases:
  obtains (miss) "mr_pass route_of (t # ts) (out, targets) = mr_pass route_of ts (out, targets)"
      "case route_of t of None \<Rightarrow> True
       | Some r \<Rightarrow> t \<notin> set out \<and> \<not> (\<exists>a \<in> set targets. in_net a (fst r))"
  | (hit) dest hops where "route_of t = Some (dest, hops)"
      "t \<in> set out \<or> (\<exists>a \<in> set targets. in_net a dest)"
      "mr_pass route_of (t # ts) (out, targets)
       = mr_pass route_of ts (if t \<in> set out then out else out @ [t], add_hops hops targets)"
proof (cases "case route_of t of None \<Rightarrow> True
              | Some r \<Rightarrow> t \<notin> set out \<and> \<not> (\<exists>a \<in> set targets. in_net a (fst r))")
  case True
  with miss mr_pass_miss show thesis by blast
next
  case False
  then obtain r where r: "route_of t = Some r" "t \<in> set out \<or> (\<exists>a \<in> set targets. in_net a (fst r))"
    by (auto split: option.splits)
  obtain dest hops where "r = (dest, hops)" by (cases r)
  with r hit mr_pass_hit show thesis by simp
qed

lemma mr_pass_grows:
  "set out \<subseteq> set (fst (mr_pass route_of ts (out, targets)))
   \<and> set targets \<subseteq> set (snd (mr_pass route_of ts (out, targets)))"
proof (induction ts arbitrary: out targets)
  case (Cons t ts)
  show ?case
  proof (cases rule: mr_pass_cases [where route_of = route_of and t = t and out = out and targets = targets and ts = ts])
    case (hit dest hops)
    with Cons [of "if t \<in> set out then out else out @ [t]" "add_hops hops targets"]
    show ?thesis by (auto split: if_splits)
  qed (use Cons in simp)
qed simp

lemma mr_pass_bound:
  "set (fst (mr_pass route_of ts (out, targets))) \<subseteq> set out \<union> set ts
   \<and> set (snd (mr_pass route_of ts (out, targets))) \<subseteq> set targets \<union> all_hops route_of ts"
proof (induction ts arbitrary: out targets)
  case (Cons t ts)
  show ?case
  proof (cases rule: mr_pass_cases [where route_of = route_of and t = t and out = out and targets = targets and ts = ts])
    case miss
    with Cons [of out targets] show ?thesis by (auto simp: all_hops_def)
  next
    case (hit dest hops)
    have "all_hops route_of (t # ts) = set hops \<union> all_hops route_of ts"
      using hit(1) by (simp add: all_hops_def)
    with hit(3) Cons [of "if t \<in> set out then out else out @ [t]" "add_hops hops targets"]
    show ?thesis by (auto split: if_splits)
  qed
qed (simp add: all_hops_def)

lemma mr_pass_same:
  "set (fst (mr_pass route_of ts (out, targets))) = set out
   \<Longrightarrow> set (snd (mr_pass route_of ts (out, targets))) = set targets
   \<Longrightarrow> mr_pass route_of ts (out, targets) = (out, targets)"
proof (induction ts arbitrary: out targets)
  case (Cons t ts)
  show ?case
  proof (cases rule: mr_pass_cases [where route_of = route_of and t = t and out = out and targets = targets and ts = ts])
    case miss
    with Cons show ?thesis by simp
  next
    case (hit dest hops)
    let ?o = "if t \<in> set out then out else out @ [t]" and ?g = "add_hops hops targets"
    have "set ?o \<subseteq> set out" "set ?g \<subseteq> set targets"
      using Cons.prems mr_pass_grows [where out = ?o and targets = ?g and route_of = route_of and ts = ts] unfolding hit(3) by blast+
    then have "?o = out" "?g = targets" by (auto intro: add_hops_same split: if_splits)
    with hit(3) Cons.IH [of out targets] Cons.prems show ?thesis by simp
  qed
qed simp

text \<open>The loop: until a pass changes nothing.\<close>

function mr_loop :: "(string \<Rightarrow> route option) \<Rightarrow> string list \<Rightarrow> string list \<times> addr list
                     \<Rightarrow> string list \<times> addr list" where
  "mr_loop route_of ts s =
     (let s' = mr_pass route_of ts s in if s' = s then s else mr_loop route_of ts s')"
  by auto

definition mr_left :: "(string \<Rightarrow> route option) \<Rightarrow> string list \<Rightarrow> string list \<times> addr list \<Rightarrow> nat" where
  "mr_left route_of ts s = card (set ts - set (fst s)) + card (all_hops route_of ts - set (snd s))"

lemma finite_all_hops [simp]: "finite (all_hops route_of ts)"
  by (auto simp: all_hops_def split: option.splits)

lemma mr_left_less:
  assumes "mr_pass route_of ts s \<noteq> s"
  shows "mr_left route_of ts (mr_pass route_of ts s) < mr_left route_of ts s"
proof -
  obtain out targets where s: "s = (out, targets)" by (cases s)
  let ?s' = "mr_pass route_of ts s"
  have g: "set out \<subseteq> set (fst ?s')" "set targets \<subseteq> set (snd ?s')"
    and b: "set (fst ?s') \<subseteq> set out \<union> set ts" "set (snd ?s') \<subseteq> set targets \<union> all_hops route_of ts"
    unfolding s using mr_pass_grows mr_pass_bound by blast+
  have sub: "set ts - set (fst ?s') \<subseteq> set ts - set out"
    "all_hops route_of ts - set (snd ?s') \<subseteq> all_hops route_of ts - set targets" using g by auto
  from assms s have "set (fst ?s') \<noteq> set out \<or> set (snd ?s') \<noteq> set targets"
    using mr_pass_same by blast
  with g b have "set ts - set (fst ?s') \<subset> set ts - set out
      \<or> all_hops route_of ts - set (snd ?s') \<subset> all_hops route_of ts - set targets" by blast
  with sub show ?thesis
    unfolding mr_left_def s fst_conv snd_conv
    by (metis add_le_less_mono add_less_le_mono card_mono finite_Diff finite_set finite_all_hops
        psubset_card_mono)
qed

termination mr_loop
  by (relation "measure (\<lambda>(route_of, ts, s). mr_left route_of ts s)") (auto intro: mr_left_less)

declare mr_loop.simps [simp del]

definition management_routes :: "(string \<Rightarrow> route option) \<Rightarrow> addr list option \<Rightarrow> path list \<Rightarrow> string list" where
  "management_routes route_of addresses running =
     (let ts = static_routes running in
      case addresses of
        None \<Rightarrow> ts
      | Some as \<Rightarrow>
          fst (mr_loop route_of ts
                 (filter (\<lambda>t. case route_of t of None \<Rightarrow> True | Some (d, _) \<Rightarrow> prefix_len d = 0) ts,
                  as)))"

section \<open>The routes found are the ones that may reach the manager\<close>

inductive may_reach :: "(string \<Rightarrow> route option) \<Rightarrow> addr list \<Rightarrow> string list \<Rightarrow> string \<Rightarrow> bool"
  for route_of as ts where
  unread: "t \<in> set ts \<Longrightarrow> route_of t = None \<Longrightarrow> may_reach route_of as ts t"
| default: "t \<in> set ts \<Longrightarrow> route_of t = Some (d, hs) \<Longrightarrow> prefix_len d = 0 \<Longrightarrow> may_reach route_of as ts t"
| holds_address: "t \<in> set ts \<Longrightarrow> route_of t = Some (d, hs) \<Longrightarrow> a \<in> set as \<Longrightarrow> in_net a d
    \<Longrightarrow> may_reach route_of as ts t"
| holds_next_hop: "t \<in> set ts \<Longrightarrow> route_of t = Some (d, hs) \<Longrightarrow> may_reach route_of as ts u
    \<Longrightarrow> route_of u = Some (d', hs') \<Longrightarrow> h \<in> set hs' \<Longrightarrow> in_net h d
    \<Longrightarrow> may_reach route_of as ts t"

definition mr_sound :: "(string \<Rightarrow> route option) \<Rightarrow> addr list \<Rightarrow> string list
                        \<Rightarrow> string list \<times> addr list \<Rightarrow> bool" where
  "mr_sound route_of as ts s \<longleftrightarrow>
     (\<forall>t \<in> set (fst s). may_reach route_of as ts t)
     \<and> (\<forall>a \<in> set (snd s). a \<in> set as
          \<or> (\<exists>u d hs. may_reach route_of as ts u \<and> route_of u = Some (d, hs) \<and> a \<in> set hs))"

lemma mr_pass_sound:
  "set us \<subseteq> set ts \<Longrightarrow> mr_sound route_of as ts (out, targets)
   \<Longrightarrow> mr_sound route_of as ts (mr_pass route_of us (out, targets))"
proof (induction us arbitrary: out targets)
  case (Cons t us)
  show ?case
  proof (cases rule: mr_pass_cases [where route_of = route_of and t = t and out = out
          and targets = targets and ts = us])
    case miss
    with Cons show ?thesis by simp
  next
    case (hit d hs)
    from hit(2) Cons.prems have t: "may_reach route_of as ts t"
    proof (elim disjE bexE)
      fix a assume a: "a \<in> set targets" "in_net a d"
      with Cons.prems(2) consider "a \<in> set as" | u d' hs' where "may_reach route_of as ts u"
        "route_of u = Some (d', hs')" "a \<in> set hs'" by (auto simp: mr_sound_def)
      then show ?thesis
      proof cases
        case 1
        with a Cons.prems(1) hit(1) show ?thesis by (auto intro: holds_address)
      next
        case 2
        with a Cons.prems(1) hit(1) show ?thesis by (auto intro: holds_next_hop)
      qed
    qed (simp add: mr_sound_def)
    have hop: "\<exists>u d hs. may_reach route_of as ts u \<and> route_of u = Some (d, hs) \<and> a \<in> set hs"
      if "a \<in> set hs" for a using that t hit(1) by blast
    from Cons.prems(2) t have
      "mr_sound route_of as ts (if t \<in> set out then out else out @ [t], add_hops hs targets)"
      unfolding mr_sound_def by (simp add: ball_Un del: split_paired_Ex) (use hop in blast)
    with Cons.IH [OF _ this] Cons.prems(1) hit(3) show ?thesis by simp
  qed
qed simp

lemma mr_pass_fixed:
  "mr_pass route_of us (out, targets) = (out, targets) \<Longrightarrow> t \<in> set us
   \<Longrightarrow> route_of t = Some (d, hs) \<Longrightarrow> t \<in> set out \<or> (\<exists>a \<in> set targets. in_net a d)
   \<Longrightarrow> t \<in> set out \<and> set hs \<subseteq> set targets"
proof (induction us)
  case (Cons v us)
  show ?case
  proof (cases rule: mr_pass_cases [where route_of = route_of and t = v and out = out
          and targets = targets and ts = us])
    case miss
    with Cons show ?thesis by auto
  next
    case (hit d' hs')
    let ?o = "if v \<in> set out then out else out @ [v]" and ?g = "add_hops hs' targets"
    have sub: "set ?o \<subseteq> set out" "set ?g \<subseteq> set targets"
      using Cons.prems(1) mr_pass_grows [where out = ?o and targets = ?g and route_of = route_of and ts = us]
      unfolding hit(3) by auto
    then have "?o = out" "?g = targets" by (auto intro: add_hops_same split: if_splits)
    with hit(3) Cons.prems(1) have "mr_pass route_of us (out, targets) = (out, targets)" by simp
    with Cons.IH Cons.prems(2-) sub hit(1) show ?thesis by (auto split: if_splits)
  qed
qed simp

lemma mr_loop_result:
  assumes "mr_sound route_of as ts s"
  shows "mr_sound route_of as ts (mr_loop route_of ts s)
    \<and> set (fst s) \<subseteq> set (fst (mr_loop route_of ts s))
    \<and> set (snd s) \<subseteq> set (snd (mr_loop route_of ts s))
    \<and> mr_pass route_of ts (mr_loop route_of ts s) = mr_loop route_of ts s"
  using assms
proof (induction route_of ts s rule: mr_loop.induct)
  case (1 route_of ts s)
  obtain out targets where s: "s = (out, targets)" by (cases s)
  show ?case
  proof (cases "mr_pass route_of ts s = s")
    case True
    with 1(2) show ?thesis by (simp add: mr_loop.simps [of route_of ts s] Let_def)
  next
    case False
    have "mr_sound route_of as ts (mr_pass route_of ts s)"
      using 1(2) mr_pass_sound [of ts ts] unfolding s by simp
    from 1(1) [OF refl False this] False mr_pass_grows [of out route_of ts targets]
    show ?thesis unfolding s mr_loop.simps [of route_of ts "(out, targets)"]
      by (simp add: Let_def) blast
  qed
qed

lemma management_routes_may_reach:
  "t \<in> set (management_routes route_of (Some as) running)
   \<longleftrightarrow> may_reach route_of as (static_routes running) t"
proof -
  let ?ts = "static_routes running"
  let ?s = "(filter (\<lambda>t. case route_of t of None \<Rightarrow> True | Some (d, _) \<Rightarrow> prefix_len d = 0) ?ts, as)"
  let ?r = "mr_loop route_of ?ts ?s"
  have "mr_sound route_of as ?ts ?s"
    by (auto simp: mr_sound_def split: option.splits intro: unread default)
  note res = mr_loop_result [OF this]
  obtain out targets where r: "?r = (out, targets)" by (cases ?r)
  have fixed: "t \<in> set ?ts \<Longrightarrow> route_of t = Some (d, hs)
      \<Longrightarrow> t \<in> set out \<or> (\<exists>a \<in> set targets. in_net a d) \<Longrightarrow> t \<in> set out \<and> set hs \<subseteq> set targets" for t d hs
    using res mr_pass_fixed [of route_of ?ts out targets] unfolding r by blast
  have init: "set as \<subseteq> set targets" "t \<in> set (fst ?s) \<Longrightarrow> t \<in> set out" for t
    using res unfolding r by auto
  have complete: "may_reach route_of as ?ts t \<Longrightarrow> t \<in> set out" for t
  proof (induction rule: may_reach.induct)
    case (unread t)
    then show ?case by (intro init(2)) simp
  next
    case (default t d hs)
    then show ?case by (intro init(2)) simp
  next
    case (holds_address t d hs a)
    with fixed [OF holds_address(1,2)] init(1) show ?case by auto
  next
    case (holds_next_hop t d hs u d' hs' h)
    have "u \<in> set ?ts" using holds_next_hop(3) by (cases rule: may_reach.cases) auto
    with fixed holds_next_hop(4,7) have "set hs' \<subseteq> set targets" by blast
    with fixed [OF holds_next_hop(1,2)] holds_next_hop(5,6) show ?case by auto
  qed
  have "management_routes route_of (Some as) running = out"
    using r by (simp add: management_routes_def Let_def)
  with res complete show ?thesis unfolding r mr_sound_def by auto
qed

section \<open>What is refused\<close>

text \<open>\<open>\b\<close> after a word: the text ends there or goes on with a character that is not one of a
  word.\<close>

definition word_char :: "char \<Rightarrow> bool" where
  "word_char c \<longleftrightarrow> (let n = of_char c :: nat in
     n = 95 \<or> (48 \<le> n \<and> n \<le> 57) \<or> (65 \<le> n \<and> n \<le> 90) \<or> (97 \<le> n \<and> n \<le> 122))"

definition starts_word :: "string \<Rightarrow> string \<Rightarrow> bool" where
  "starts_word p s \<longleftrightarrow> starts p s \<and> (length p = length s \<or> \<not> word_char (s ! length p))"

definition starts_spaced :: "string \<Rightarrow> string \<Rightarrow> bool" where
  "starts_spaced p s \<longleftrightarrow> starts p s \<and> length p < length s \<and> is_space (s ! length p)"

definition is_digit :: "char \<Rightarrow> bool" where
  "is_digit c \<longleftrightarrow> (let n = of_char c :: nat in 48 \<le> n \<and> n \<le> 57)"

text \<open>\<open>UNREMOVABLE\<close>, \<open>ACCOUNT\<close>, \<open>NUMBERED_ACL\<close> and \<open>MANAGEMENT_GLOBAL\<close>, each pattern
  as the test it makes of a line already stripped.\<close>

definition unremovable :: "string \<Rightarrow> bool" where
  "unremovable t \<longleftrightarrow> starts_word ''hostname'' t \<or> starts_word ''version'' t
     \<or> starts_word ''boot-start-marker'' t \<or> starts_word ''boot-end-marker'' t
     \<or> starts_spaced ''line'' t \<or> t = ''end'' \<or> starts_spaced ''banner'' t
     \<or> starts_word ''crypto pki'' t \<or> starts_word ''logging buffered'' t"

definition is_account :: "string \<Rightarrow> bool" where
  "is_account t \<longleftrightarrow> starts_spaced ''username'' t \<or> starts_word ''enable secret'' t
     \<or> starts_word ''enable password'' t"

definition numbered_acl :: "string \<Rightarrow> bool" where
  "numbered_acl t \<longleftrightarrow> starts_spaced ''access-list'' t
     \<and> (let r = lstrip (drop 11 t); n = takeWhile is_digit r
        in n \<noteq> [] \<and> length n < length r \<and> is_space (r ! length n))"

definition management_global :: "string \<Rightarrow> bool" where
  "management_global t \<longleftrightarrow> starts_word ''ip ssh'' t \<or> starts_word ''aaa'' t
     \<or> starts_word ''crypto key'' t \<or> starts_word ''ip domain-name'' t
     \<or> starts_word ''ip domain name'' t \<or> starts_word ''ip default-gateway'' t"

definition VIRTUAL_INTERFACES :: "string list" where
  "VIRTUAL_INTERFACES = [''Loopback'', ''Tunnel'', ''Vlan'', ''Port-channel'', ''BDI'',
                         ''Virtual-Template'', ''NVE'', ''Virtual-PPP'', ''Dialer'']"

text \<open>\<open>header.split(None, 1)[1]\<close> where the header holds a space.\<close>

definition is_physical :: "string \<Rightarrow> bool" where
  "is_physical h =
     (let name = if CHR '' '' \<in> set h then lstrip (dropWhile (\<lambda>c. \<not> is_space c) (lstrip h)) else ''''
      in name \<noteq> '''' \<and> CHR ''.'' \<notin> set name \<and> \<not> (\<exists>v \<in> set VIRTUAL_INTERFACES. starts v name))"

fun words_from :: "string \<Rightarrow> string \<Rightarrow> string list" where
  "words_from w [] = (if w = [] then [] else [w])"
| "words_from w (c # s) = (if is_space c then (if w = [] then [] else [w]) @ words_from [] s
                           else words_from (w @ [c]) s)"

definition words_of :: "string \<Rightarrow> string list" where "words_of s = words_from [] s"

definition management_interfaces :: "path list \<Rightarrow> string \<Rightarrow> string list" where
  "management_interfaces running mgmt_ip =
     map (\<lambda>p. hd (fst p))
       (filter (\<lambda>p. length (fst p) = 1 \<and> starts ''interface '' (hd (fst p))
          \<and> (let ws = words_of (snd p) in
             take 2 ws = [''ip'', ''address''] \<and> 2 < length ws
             \<and> (ws ! 2 = ''dhcp'' \<or> (mgmt_ip \<noteq> '''' \<and> ws ! 2 = mgmt_ip)))) running)"

datatype refusal =
  Not_on_device | Management_path | Unremovable | Physical_interface | Account | Whole_acl
| Still_used | Not_measured | No_such_id

record removal_env =
  e_canon :: "line \<Rightarrow> line"
  e_route_of :: "string \<Rightarrow> route option"
  e_addresses :: "addr list option"
  e_still_used :: "path \<Rightarrow> bool"
  e_measured :: "bool \<Rightarrow> path \<Rightarrow> bool"          \<comment> \<open>a stanza?, the unit\<close>
  e_secret :: "line \<Rightarrow> bool"
  e_negation :: "path \<Rightarrow> line option"
  e_unit_id :: "path \<Rightarrow> string"

definition refusal_of :: "removal_env \<Rightarrow> string list \<Rightarrow> string list \<Rightarrow> path \<Rightarrow> refusal option" where
  "refusal_of env ifaces routes u =
     (let c = fst u; t = strip (snd u); top = (if c = [] then t else hd c) in
      if c = [] \<and> is_static t \<and> t \<in> set routes then Some Management_path
      else if c = [] \<and> unremovable t then Some Unremovable
      else if c = [] \<and> starts ''interface '' t \<and> is_physical t then Some Physical_interface
      else if c = [] \<and> is_account t then Some Account
      else if c = [] \<and> numbered_acl t then Some Whole_acl
      else if c = [] \<and> management_global t then Some Management_path
      else if top \<in> set ifaces \<or> t \<in> set ifaces then Some Management_path
      else if starts ''line vty'' top then Some Management_path
      else if c = [] \<and> e_still_used env u then Some Still_used
      else None)"

section \<open>The program\<close>

definition indent_text :: "line \<Rightarrow> string" where "indent_text l = take (indent_of l) l"

definition negate :: "line \<Rightarrow> line" where
  "negate l = (let t = strip l in
     if starts ''no '' t then indent_text l @ drop 3 t else indent_text l @ ''no '' @ t)"

definition negated :: "removal_env \<Rightarrow> path \<Rightarrow> line" where
  "negated env u = (case e_negation env u of
       Some n \<Rightarrow> indent_text (snd u) @ ''no '' @ n | None \<Rightarrow> negate (snd u))"

fun negation_loop :: "(path \<Rightarrow> line) \<Rightarrow> path list \<Rightarrow> chain \<Rightarrow> line list" where
  "negation_loop neg [] oc = exits oc"
| "negation_loop neg (u # us) oc =
     (if fst u \<noteq> oc then exits oc @ fst u else []) @ neg u # negation_loop neg us (fst u)"

definition negation_program :: "removal_env \<Rightarrow> path list \<Rightarrow> line list" where
  "negation_program env us = negation_loop (negated env) us []"

record removal_result =
  rm_commands :: "line list"
  rm_removed :: "path list"
  rm_refused :: "(path \<times> refusal) list"
  rm_secret :: "path list"

datatype judged_unit = Remove_it | Implied | Refuse_it refusal

definition full_path :: "path \<Rightarrow> chain" where "full_path u = fst u @ [snd u]"

definition judge_unit ::
    "removal_env \<Rightarrow> path list \<Rightarrow> string list \<Rightarrow> string list \<Rightarrow> path list \<Rightarrow> path \<Rightarrow> judged_unit" where
  "judge_unit env running ifaces routes units u =
     (if u \<notin> set running then Refuse_it Not_on_device
      else if \<exists>w \<in> set units. take (length (full_path w)) (full_path u) = full_path w
                             \<and> full_path u \<noteq> full_path w
      then Implied
      else case refusal_of env ifaces routes u of
        Some why \<Rightarrow> Refuse_it why
      | None \<Rightarrow> (if e_measured env (is_header running (full_path u)) u then Remove_it
                else Refuse_it Not_measured))"

definition canon_path :: "removal_env \<Rightarrow> path \<Rightarrow> path" where
  "canon_path env u = (map (e_canon env) (fst u), e_canon env (snd u))"

fun refused_of :: "(path \<Rightarrow> judged_unit) \<Rightarrow> path list \<Rightarrow> (path \<times> refusal) list" where
  "refused_of judge [] = []"
| "refused_of judge (u # us) = (case judge u of Refuse_it why \<Rightarrow> [(u, why)] | _ \<Rightarrow> []) @ refused_of judge us"

definition removal_program :: "removal_env \<Rightarrow> path list \<Rightarrow> path list \<Rightarrow> string \<Rightarrow> removal_result" where
  "removal_program env running selected mgmt_ip =
     (let ifaces = management_interfaces running mgmt_ip;
          routes = management_routes (e_route_of env) (e_addresses env) running;
          units = map (canon_path env) selected;
          judge = judge_unit env running ifaces routes units;
          removed = filter (\<lambda>u. judge u = Remove_it) units
      in \<lparr>rm_commands = negation_program env removed, rm_removed = removed,
          rm_refused = refused_of judge units,
          rm_secret = filter (\<lambda>u. e_secret env (snd u)) removed\<rparr>)"

text \<open>\<open>resolve\<close>: a selection is a unit, or the id of a line of the capture (the last one with
  it, as the source's dictionary keeps).\<close>

datatype selection = Unit_of path | Id_of string

fun resolve_one :: "removal_env \<Rightarrow> path list \<Rightarrow> selection \<Rightarrow> string + path" where
  "resolve_one env captured (Unit_of u) = Inr u"
| "resolve_one env captured (Id_of x) =
     (case find_idx (\<lambda>p. e_unit_id env p = x) (rev captured) of
        Some i \<Rightarrow> Inr (rev captured ! i) | None \<Rightarrow> Inl x)"

definition resolve :: "removal_env \<Rightarrow> path list \<Rightarrow> selection list \<Rightarrow> path list \<times> string list" where
  "resolve env captured selected =
     (concat (map (\<lambda>s. case resolve_one env captured s of Inr u \<Rightarrow> [u] | Inl _ \<Rightarrow> []) selected),
      concat (map (\<lambda>s. case resolve_one env captured s of Inl x \<Rightarrow> [x] | Inr _ \<Rightarrow> []) selected))"

record deploy_program =
  dp_merge :: "line list"
  dp_removals :: "line list"
  dp_commands :: "line list"
  dp_removed :: "path list"
  dp_refused :: "(path \<times> refusal) list"
  dp_ids :: "string list"

definition with_removals ::
    "removal_env \<Rightarrow> line list \<Rightarrow> path list \<Rightarrow> selection list \<Rightarrow> string \<Rightarrow> deploy_program" where
  "with_removals env merge captured selected mgmt_ip =
     (let (units, missing) = resolve env captured selected;
          rm = (if units = [] then \<lparr>rm_commands = [], rm_removed = [], rm_refused = [], rm_secret = []\<rparr>
                else removal_program env captured units mgmt_ip)
      in \<lparr>dp_merge = merge, dp_removals = rm_commands rm, dp_commands = merge @ rm_commands rm,
          dp_removed = rm_removed rm,
          dp_refused = rm_refused rm @ map (\<lambda>x. (([], ''(id '' @ x @ '')''), No_such_id)) missing,
          dp_ids = map (e_unit_id env) (rm_removed rm)\<rparr>)"

definition split_pushed :: "line list \<Rightarrow> line list \<Rightarrow> unit + line list" where
  "split_pushed pushed removals =
     (if removals = [] then Inr pushed
      else let k = length pushed - length removals in
        if drop k pushed = removals then Inr (take k pushed) else Inl ())"

definition still_present :: "removal_env \<Rightarrow> path list \<Rightarrow> path list \<Rightarrow> path list" where
  "still_present env units now = filter (\<lambda>u. canon_path env u \<in> set now) units"

text \<open>The loop over a device's static routes ends, and the routes it protects are exactly the
  ones that may be the way to the manager: a default route, a line that cannot be read as one, a
  route whose destination holds an address of this host, and, recursively, one whose destination
  holds the next hop of a protected route.\<close>

lemma management_routes_exact:
  "set (management_routes route_of (Some as) running)
   = {t. may_reach route_of as (static_routes running) t}"
  by (simp add: set_eq_iff management_routes_may_reach)

section \<open>Properties of a removal\<close>

lemma removed_iff:
  "u \<in> set (rm_removed (removal_program env running selected mgmt_ip))
   \<longleftrightarrow> u \<in> canon_path env ` set selected
     \<and> judge_unit env running (management_interfaces running mgmt_ip)
         (management_routes (e_route_of env) (e_addresses env) running)
         (map (canon_path env) selected) u = Remove_it"
  by (auto simp: removal_program_def Let_def)

lemma judge_unit_RemoveD:
  "judge_unit env running ifaces routes units u = Remove_it
   \<Longrightarrow> u \<in> set running \<and> refusal_of env ifaces routes u = None
       \<and> e_measured env (is_header running (full_path u)) u"
  by (auto simp: judge_unit_def split: if_splits option.splits)

lemma refusal_of_NoneD:
  "refusal_of env ifaces routes (c, l) = None \<Longrightarrow>
     (c = [] \<and> is_static (strip l) \<longrightarrow> strip l \<notin> set routes)
     \<and> (if c = [] then strip l else hd c) \<notin> set ifaces \<and> strip l \<notin> set ifaces
     \<and> \<not> starts ''line vty'' (if c = [] then strip l else hd c)
     \<and> (c = [] \<longrightarrow> \<not> management_global (strip l) \<and> \<not> is_account (strip l))"
  by (auto simp: refusal_of_def Let_def split: if_splits)

lemma protected_routes:
  assumes "(c, l) \<in> set running" "c = []" "is_static (strip l)"
    "strip l \<notin> set (management_routes route_of addresses running)"
  shows "\<exists>as. addresses = Some as \<and> \<not> may_reach route_of as (static_routes running) (strip l)"
proof (cases addresses)
  case None
  with assms show ?thesis by (force simp: management_routes_def static_routes_def)
next
  case (Some as)
  with assms(4) show ?thesis by (simp add: management_routes_may_reach)
qed

text \<open>C11: a unit a removal program removes was on the device, its removal is measured as exact
  there, and it is no part of the way Mercury reaches the device: not a static route that may be
  the manager's (none at all where this host's addresses could not be read), not a line of an
  interface Mercury reaches it on or of a vty, not SSH, AAA, the keys or the default gateway, and
  not an account.\<close>

theorem removal_spares_the_management_path:
  assumes "(c, l) \<in> set (rm_removed (removal_program env running selected mgmt_ip))"
  shows "(c, l) \<in> set running
    \<and> e_measured env (is_header running (full_path (c, l))) (c, l)
    \<and> (c = [] \<longrightarrow> is_static (strip l) \<longrightarrow>
           (\<exists>as. e_addresses env = Some as
              \<and> \<not> may_reach (e_route_of env) as (static_routes running) (strip l)))
    \<and> (if c = [] then strip l else hd c) \<notin> set (management_interfaces running mgmt_ip)
    \<and> \<not> starts ''line vty'' (if c = [] then strip l else hd c)
    \<and> (c = [] \<longrightarrow> \<not> management_global (strip l) \<and> \<not> is_account (strip l))"
proof -
  let ?routes = "management_routes (e_route_of env) (e_addresses env) running"
  note j = judge_unit_RemoveD [OF conjunct2 [OF assms [unfolded removed_iff]]]
  note r = refusal_of_NoneD [OF conjunct1 [OF conjunct2 [OF j]]]
  from j have run: "(c, l) \<in> set running" by simp
  have "c = [] \<longrightarrow> is_static (strip l) \<longrightarrow>
           (\<exists>as. e_addresses env = Some as
              \<and> \<not> may_reach (e_route_of env) as (static_routes running) (strip l))"
    using r run by (intro impI protected_routes) auto
  with j r run show ?thesis by simp
qed

lemma refused_iff:
  "u \<in> fst ` set (refused_of j us) \<longleftrightarrow> u \<in> set us \<and> (\<exists>why. j u = Refuse_it why)"
proof (induction us)
  case (Cons v us)
  then show ?case by (cases "j v") auto
qed simp

text \<open>Nothing selected is dropped: each selected unit is removed, or refused with its reason,
  or lies inside a stanza that is selected too; and never two of these.\<close>

lemma removal_answers_every_unit:
  assumes "s \<in> set selected"
  shows "let u = canon_path env s; r = removal_program env running selected mgmt_ip in
      (u \<in> set (rm_removed r) \<and> u \<notin> fst ` set (rm_refused r))
      \<or> (u \<notin> set (rm_removed r) \<and> u \<in> fst ` set (rm_refused r))
      \<or> (u \<notin> set (rm_removed r) \<and> u \<notin> fst ` set (rm_refused r)
         \<and> (\<exists>w \<in> canon_path env ` set selected.
              take (length (full_path w)) (full_path u) = full_path w \<and> full_path u \<noteq> full_path w))"
proof -
  note s = assms
  let ?u = "canon_path env s" and ?us = "map (canon_path env) selected"
  let ?r = "removal_program env running selected mgmt_ip"
  let ?j = "judge_unit env running (management_interfaces running mgmt_ip)
      (management_routes (e_route_of env) (e_addresses env) running) ?us ?u"
  have rm: "?u \<in> set (rm_removed ?r) \<longleftrightarrow> ?j = Remove_it" using s by (auto simp: removed_iff)
  have rf: "?u \<in> fst ` set (rm_refused ?r) \<longleftrightarrow> (\<exists>why. ?j = Refuse_it why)"
    using s by (simp add: removal_program_def Let_def refused_iff)
  have imp: "?j = Implied \<Longrightarrow> \<exists>w \<in> canon_path env ` set selected.
      take (length (full_path w)) (full_path ?u) = full_path w \<and> full_path ?u \<noteq> full_path w"
    by (auto simp: judge_unit_def split: if_splits option.splits)
  show "let u = ?u; r = ?r in
      (u \<in> set (rm_removed r) \<and> u \<notin> fst ` set (rm_refused r))
      \<or> (u \<notin> set (rm_removed r) \<and> u \<in> fst ` set (rm_refused r))
      \<or> (u \<notin> set (rm_removed r) \<and> u \<notin> fst ` set (rm_refused r)
         \<and> (\<exists>w \<in> canon_path env ` set selected.
              take (length (full_path w)) (full_path u) = full_path w \<and> full_path u \<noteq> full_path w))"
    unfolding Let_def rm rf using imp by (cases ?j) simp_all
qed

lemma negation_loop_scan:
  assumes "\<forall>u \<in> set us. tidy canon (fst u, neg u)" "tidy_chain canon st" "take (length oc) st = oc"
    "length oc \<le> length st"
  shows "set (fst (scan canon (negation_loop neg us oc) st)) \<union> above oc
         = (\<lambda>u. (fst u, neg u)) ` set us \<union> above_all (set us) \<union> above oc"
  using assms
proof (induction us arbitrary: oc st)
  case Nil
  then show ?case by (simp add: exits_def scan_exits above_all_def)
next
  case (Cons u us)
  let ?pre = "if fst u \<noteq> oc then exits oc @ fst u else []"
  have u: "tidy canon (fst u, neg u)" and us: "\<forall>u \<in> set us. tidy canon (fst u, neg u)"
    using Cons.prems(1) by auto
  note step = scan_step [OF Cons.prems(2) u Cons.prems(3,4)]
  have one: "negation_loop neg (u # us) oc = (?pre @ [neg u]) @ negation_loop neg us (fst u)" by simp
  have ih: "set (fst (scan canon (negation_loop neg us (fst u)) (fst u @ [neg u]))) \<union> above (fst u)
      = (\<lambda>u. (fst u, neg u)) ` set us \<union> above_all (set us) \<union> above (fst u)"
    using Cons.IH [OF us, of "fst u @ [neg u]" "fst u"] step(1) unfolding step(2) by simp
  have run: "set (fst (scan canon (negation_loop neg (u # us) oc) st))
      = (if fst u \<noteq> oc then above (fst u) else {}) \<union> {(fst u, neg u)}
        \<union> set (fst (scan canon (negation_loop neg us (fst u)) (fst u @ [neg u])))"
    unfolding one by (simp only: scan_append [of canon "?pre @ [neg u]"] fst_conv set_append step(2,3))
  show ?case
    unfolding run set_simps image_insert above_all_insert
    by (rule sent_union [OF ih subset_insertI subset_refl]) (cases "fst u = oc", simp_all)
qed

text \<open>Read back by the device's own rule, the program of a removal holds each removed line's
  negation in that line's own section, the headers above it, and nothing else.\<close>

lemma negation_program_lines:
  assumes "\<forall>u \<in> set us. tidy (e_canon env) (fst u, negated env u)"
  shows "program_lines (e_canon env) (negation_program env us)
         = (\<lambda>u. (fst u, negated env u)) ` set us \<union> above_all (set us)"
  using negation_loop_scan [OF assms, of "[]" "[]"]
  by (simp add: negation_program_def program_lines_def tidy_chain_def)

text \<open>The two halves of a deploy's program are told apart again: what was pushed, split by the
  removals it ended with, is the merge.\<close>

lemma split_pushed_with_removals:
  "split_pushed (dp_commands (with_removals env merge captured selected mgmt_ip))
                (dp_removals (with_removals env merge captured selected mgmt_ip)) = Inr merge"
  by (simp add: with_removals_def split_pushed_def Let_def split_beta)

lemma mr_loop_Nil [simp]: "mr_loop route_of [] s = s"
  by (subst mr_loop.simps) simp

definition ex_env :: removal_env where
  "ex_env = \<lparr>e_canon = id, e_route_of = (\<lambda>_. None), e_addresses = Some [(V4, 1)],
     e_still_used = (\<lambda>_. False), e_measured = (\<lambda>_ _. True), e_secret = (\<lambda>_. False),
     e_negation = (\<lambda>_. None), e_unit_id = snd\<rparr>"

definition ex_running :: "path list" where
  "ex_running = [([], ''interface Gi1''), ([''interface Gi1''], '' shutdown'')]"

lemmas ex_eval = ex_env_def ex_running_def static_routes_def is_static_def starts_def strip_def
  rstrip_def lstrip_def is_space_def words_of_def

lemma ex_removed:
  "rm_removed (removal_program ex_env ex_running [([''interface Gi1''], '' shutdown'')] ''10.0.0.1'')
   = [([''interface Gi1''], '' shutdown'')]"
  by code_simp

theorem removal_spares_the_management_path_witness:
  "([''interface Gi1''], '' shutdown'') \<in> set ex_running
   \<and> ''interface Gi1'' \<notin> set (management_interfaces ex_running ''10.0.0.1'')"
  using removal_spares_the_management_path [of "[''interface Gi1'']" "'' shutdown''" ex_env ex_running
      "[([''interface Gi1''], '' shutdown'')]" "''10.0.0.1''"]
  by (simp add: ex_removed)

end
