(* ===== verification/Kinds.thy ===== *)
theory Kinds
  imports Removal
begin

text \<open>
  What departed, unit by unit, and each unit's fix kind and tier (\<open>modules/heal/kinds.py\<close>): the
  intersection rule (\<open>departures\<close>), the units the departed lines group into
  (\<open>_stanzas\<close>, \<open>units_of\<close>), a unit's kind by the checks in their order (\<open>kind_of\<close>, with
  the regular expressions as tests of a line) and the classification of a device
  (\<open>classify\<close>). A configuration is the list of its paths here, in the form a golden is stored.

  Arguments: \<open>feature_of\<close>, the place a line's section parse changes when the line is added (the
  parsers'), whether a line holds a secret (\<open>redact_positional\<close> changes it), and the
  \<open>removal_env\<close> of theory \<open>Removal\<close>, whose \<open>removal_program\<close> judges every removal. The
  reasons a person reads are not modelled.

  The lemmas: the units hold every departed line exactly once, the healed configuration lies
  between intent-and-golden and intent-or-golden, and what stays below Tier 3 touches no ACL, no
  credential and no way Mercury reaches the device by.
\<close>

section \<open>The intersection rule\<close>

fun uniq_from :: "'a list \<Rightarrow> 'a list \<Rightarrow> 'a list" where
  "uniq_from seen [] = []"
| "uniq_from seen (x # xs) = (if x \<in> set seen then uniq_from seen xs
                              else x # uniq_from (x # seen) xs)"

definition paths_of :: "path list \<Rightarrow> path list" where "paths_of ps = uniq_from [] ps"

lemma set_uniq_from: "set (uniq_from seen xs) = set xs - set seen"
  by (induction seen xs rule: uniq_from.induct) auto

lemma distinct_uniq_from: "distinct (uniq_from seen xs)"
  by (induction seen xs rule: uniq_from.induct) (auto simp: set_uniq_from)

lemma paths_of_simps [simp]: "set (paths_of ps) = set ps" "distinct (paths_of ps)"
  by (simp_all add: paths_of_def set_uniq_from distinct_uniq_from)

record departure_sets =
  dp_missing :: "path list"
  dp_added :: "path list"
  dp_intent_only :: nat
  dp_golden_behind :: nat
  dp_golden_not_intent :: nat

definition departures :: "path list \<Rightarrow> path list \<Rightarrow> path list \<Rightarrow> departure_sets" where
  "departures golden running intended =
     (let g = paths_of golden; r = paths_of running; i = paths_of intended in
      \<lparr>dp_missing = filter (\<lambda>p. p \<in> set i \<and> p \<notin> set r) g,
       dp_added = filter (\<lambda>p. p \<notin> set g \<and> p \<notin> set i) r,
       dp_intent_only = length (filter (\<lambda>p. p \<notin> set g \<and> p \<notin> set r) i),
       dp_golden_behind = length (filter (\<lambda>p. p \<in> set i \<and> p \<notin> set g) r),
       dp_golden_not_intent = length (filter (\<lambda>p. p \<notin> set i) g)\<rparr>)"

section \<open>Stanzas\<close>

type_synonym feature = "string list"

text \<open>\<open>d.setdefault(k, []).extend(vs)\<close> on a dictionary in insertion order.\<close>

fun sd_append :: "'k \<Rightarrow> 'v list \<Rightarrow> ('k \<times> 'v list) list \<Rightarrow> ('k \<times> 'v list) list" where
  "sd_append k vs [] = [(k, vs)]"
| "sd_append k vs ((k', ws) # d) = (if k' = k then (k', ws @ vs) # d else (k', ws) # sd_append k vs d)"

definition heads_of :: "path list \<Rightarrow> chain list" where "heads_of ps = map full_path ps"

definition top_of :: "path list \<Rightarrow> path \<Rightarrow> chain option" where
  "top_of ps p = map_option (\<lambda>n. take (Suc n) (fst p))
     (find_idx (\<lambda>n. take (Suc n) (fst p) \<in> set (heads_of ps)) [0..<length (fst p)])"

definition opens :: "path list \<Rightarrow> path \<Rightarrow> bool" where
  "opens ps p \<longleftrightarrow> (\<exists>q \<in> set ps. take (Suc (length (fst p))) (fst q) = full_path p)"

fun stanza_loop :: "path list \<Rightarrow> path list \<Rightarrow> (chain \<times> path list) list \<Rightarrow> path list
                    \<Rightarrow> (chain \<times> path list) list \<times> path list" where
  "stanza_loop ps [] stanzas leaves = (stanzas, leaves)"
| "stanza_loop ps (p # todo) stanzas leaves =
     (case top_of ps p of
        Some h \<Rightarrow> stanza_loop ps todo (sd_append h [p] stanzas) leaves
      | None \<Rightarrow> if opens ps p then stanza_loop ps todo (sd_append (full_path p) [] stanzas) leaves
                else stanza_loop ps todo stanzas (leaves @ [p]))"

definition stanzas_of :: "path list \<Rightarrow> (chain \<times> path list) list \<times> path list" where
  "stanzas_of ps = stanza_loop ps ps [] []"

section \<open>Units\<close>

datatype unit_op = Op_add | Op_change | Op_remove

record dunit =
  u_op :: unit_op
  u_chain :: chain
  u_stanza :: bool
  u_feature :: feature
  u_add :: "path list"
  u_remove :: "path list"

definition u_lines :: "'a dunit_scheme \<Rightarrow> line list" where
  "u_lines u = map snd (u_add u) @ map snd (u_remove u)"

text \<open>A leaf's feature: one feature on one interface; anywhere else a multi-valued line is its own
  unit.\<close>

definition leaf_feature :: "(chain \<Rightarrow> line \<Rightarrow> feature \<times> bool) \<Rightarrow> path \<Rightarrow> feature \<times> bool" where
  "leaf_feature feature_of p =
     (let (f, single) = feature_of (fst p) (snd p) in
      if f \<noteq> [] \<and> \<not> single \<and> \<not> (fst p \<noteq> [] \<and> starts ''interface '' (hd (fst p)))
      then (f @ [strip (snd p)], single) else (f, single))"

type_synonym group_key = "unit_op \<times> chain \<times> feature"
type_synonym groups = "(group_key \<times> bool \<times> path list) list"

fun group_add :: "group_key \<Rightarrow> bool \<Rightarrow> path \<Rightarrow> groups \<Rightarrow> groups" where
  "group_add k single p [] = [(k, single, [p])]"
| "group_add k single p ((k', s, ps) # d) =
     (if k' = k then (k', s, ps @ [p]) # d else (k', s, ps) # group_add k single p d)"

fun group_leaves :: "(chain \<Rightarrow> line \<Rightarrow> feature \<times> bool) \<Rightarrow> unit_op \<Rightarrow> path list \<Rightarrow> groups \<Rightarrow> groups" where
  "group_leaves feature_of op [] d = d"
| "group_leaves feature_of op (p # ps) d =
     (let (f, single) = leaf_feature feature_of p in
      group_leaves feature_of op ps (group_add (op, fst p, f) single p d))"

definition stanza_unit :: "unit_op \<Rightarrow> chain \<times> path list \<Rightarrow> dunit" where
  "stanza_unit op s =
     (let lines = (butlast (fst s), last (fst s)) # snd s in
      \<lparr>u_op = op, u_chain = butlast (fst s), u_stanza = True,
       u_feature = [''stanza'', last (fst s)],
       u_add = (if op = Op_add then lines else []), u_remove = (if op = Op_add then [] else lines)\<rparr>)"

definition group_units :: "groups \<Rightarrow> group_key \<times> bool \<times> path list \<Rightarrow> dunit list" where
  "group_units d g =
     (case g of ((op, c, f), single, ps) \<Rightarrow>
        if op = Op_remove \<and> single \<and> map_of d (Op_add, c, f) \<noteq> None then []
        else if op = Op_add \<and> single \<and> map_of d (Op_remove, c, f) \<noteq> None
        then [\<lparr>u_op = Op_change, u_chain = c, u_stanza = False, u_feature = f, u_add = ps,
               u_remove = snd (the (map_of d (Op_remove, c, f)))\<rparr>]
        else [\<lparr>u_op = op, u_chain = c, u_stanza = False, u_feature = f,
               u_add = (if op = Op_add then ps else []),
               u_remove = (if op = Op_add then [] else ps)\<rparr>])"

definition units_of :: "(chain \<Rightarrow> line \<Rightarrow> feature \<times> bool) \<Rightarrow> path list \<Rightarrow> path list \<Rightarrow> dunit list" where
  "units_of feature_of missing added =
     (let (sa, la) = stanzas_of missing; (sr, lr) = stanzas_of added;
          d = group_leaves feature_of Op_remove lr (group_leaves feature_of Op_add la [])
      in map (stanza_unit Op_add) sa @ map (stanza_unit Op_remove) sr
         @ concat (map (group_units d) d))"

section \<open>Kinds and tiers\<close>

datatype fix_kind =
  K_missing_line | K_changed_line | K_added_line | K_admin_down | K_process_reset | K_qos_policy
| K_secret_added_back | K_physical | K_unknown_cause | K_security_acl | K_credentials
| K_management_path | K_multi_device | K_port_bounce | K_session_clear | K_ospf_reset
| K_dampening_proposal

fun TIER :: "fix_kind \<Rightarrow> nat" where
  "TIER K_missing_line = 1" | "TIER K_changed_line = 1" | "TIER K_added_line = 1"
| "TIER K_admin_down = 1" | "TIER K_process_reset = 2" | "TIER K_qos_policy = 2"
| "TIER K_secret_added_back = 2" | "TIER K_physical = 3" | "TIER K_unknown_cause = 3"
| "TIER K_security_acl = 4" | "TIER K_credentials = 4" | "TIER K_management_path = 4"
| "TIER K_multi_device = 4" | "TIER K_port_bounce = 1" | "TIER K_session_clear = 1"
| "TIER K_ospf_reset = 1" | "TIER K_dampening_proposal = 2"

definition ACL_WORDS :: "string list" where
  "ACL_WORDS = [''ip access-list'', ''ipv6 access-list'', ''access-list'', ''ip access-group'',
                ''ipv6 traffic-filter'', ''access-class'', ''ipv6 access-class'']"

definition CREDENTIAL_WORDS :: "string list" where
  "CREDENTIAL_WORDS = [''username'', ''aaa'', ''snmp-server community'', ''snmp-server user'',
     ''snmp-server group'', ''key chain'', ''crypto'', ''tacacs'', ''tacacs-server'', ''radius'',
     ''radius-server'']"

definition MANAGEMENT_WORDS :: "string list" where
  "MANAGEMENT_WORDS = [''line vty'', ''ip ssh'', ''ip domain-name'', ''ip domain name'', ''ip http'']"

definition QOS_WORDS :: "string list" where
  "QOS_WORDS = [''service-policy'', ''policy-map'', ''class-map'']"

definition any_spaced :: "string list \<Rightarrow> string \<Rightarrow> bool" where
  "any_spaced ws t \<longleftrightarrow> (\<exists>w \<in> set ws. starts_spaced w (lstrip t))"

definition is_acl :: "string \<Rightarrow> bool" where "is_acl t = any_spaced ACL_WORDS t"

definition is_credential :: "string \<Rightarrow> bool" where
  "is_credential t \<longleftrightarrow> any_spaced CREDENTIAL_WORDS t
     \<or> starts_word ''enable secret'' (lstrip t) \<or> starts_word ''enable password'' (lstrip t)"

definition is_management :: "string \<Rightarrow> bool" where "is_management t = any_spaced MANAGEMENT_WORDS t"
definition is_qos :: "string \<Rightarrow> bool" where "is_qos t = any_spaced QOS_WORDS t"

definition is_router_id :: "string \<Rightarrow> bool" where
  "is_router_id t = any_spaced [''router-id'', ''bgp router-id''] t"

definition is_router :: "string \<Rightarrow> bool" where
  "is_router t \<longleftrightarrow> (\<exists>w \<in> {''router ospf'', ''ipv6 router ospf'', ''router ospfv3'', ''router bgp''}.
                     starts_word w t)"

definition is_shutdown :: "string \<Rightarrow> bool" where
  "is_shutdown t \<longleftrightarrow> lstrip t = ''shutdown'' \<or> lstrip t = ''shutdown'' @ [CHR 0x0A]"

definition unit_texts :: "'a dunit_scheme \<Rightarrow> string list" where
  "unit_texts u = concat (map full_path (u_add u @ u_remove u))"

definition touches_management :: "string list \<Rightarrow> string list \<Rightarrow> 'a dunit_scheme \<Rightarrow> bool" where
  "touches_management ifaces routes u \<longleftrightarrow>
     (\<exists>p \<in> set (u_add u @ u_remove u).
        let hdr = (if fst p = [] then snd p else hd (fst p)) in
        hdr \<in> set ifaces \<or> is_management hdr \<or> is_management (snd p)
        \<or> (fst p = [] \<and> strip (snd p) \<in> set routes))"

definition kind_of ::
    "(line \<Rightarrow> bool) \<Rightarrow> string list \<Rightarrow> string list \<Rightarrow> bool \<Rightarrow> 'a dunit_scheme \<Rightarrow> fix_kind" where
  "kind_of secret ifaces routes related u =
     (if related then K_multi_device
      else if touches_management ifaces routes u then K_management_path
      else if \<exists>t \<in> set (unit_texts u). is_acl t then K_security_acl
      else if \<exists>t \<in> set (unit_texts u). is_credential t then K_credentials
      else if \<exists>t \<in> set (unit_texts u). is_qos t then K_qos_policy
      else if u_op u = Op_change \<and> u_chain u \<noteq> [] \<and> is_router (hd (u_chain u))
              \<and> (\<exists>l \<in> set (u_lines u). is_router_id l) then K_process_reset
      else if u_op u \<noteq> Op_remove \<and> (\<exists>p \<in> set (u_add u). secret (snd p)) then K_secret_added_back
      else if u_op u = Op_remove \<and> length (u_remove u) = 1 \<and> u_chain u \<noteq> []
              \<and> starts ''interface '' (hd (u_chain u)) \<and> is_shutdown (snd (hd (u_remove u)))
      then K_admin_down
      else (case u_op u of Op_add \<Rightarrow> K_missing_line | Op_change \<Rightarrow> K_changed_line
                         | Op_remove \<Rightarrow> K_added_line))"

record cunit = dunit +
  u_kind :: fix_kind
  u_tier :: nat
  u_blocked :: "refusal option"
  u_ids :: "string list"

record classified =
  cl_units :: "cunit list"
  cl_tier :: nat
  cl_kind :: "fix_kind option"
  cl_blocked :: "fix_kind option"       \<comment> \<open>the first blocked unit's kind\<close>
  cl_removal_ids :: "string list"
  cl_left_out :: "nat \<times> nat \<times> nat"

definition removal_heads :: "'a dunit_scheme \<Rightarrow> path list" where
  "removal_heads u = (if u_stanza u then [hd (u_remove u)] else u_remove u)"

definition classify_unit ::
    "removal_env \<Rightarrow> path list \<Rightarrow> string \<Rightarrow> bool \<Rightarrow> dunit \<Rightarrow> cunit" where
  "classify_unit env running mgmt_ip related u =
     (let ifaces = management_interfaces running mgmt_ip;
          routes = management_routes (e_route_of env) (e_addresses env) running;
          k = kind_of (e_secret env) ifaces routes related u;
          v = dunit.extend u \<lparr>u_kind = k, u_tier = TIER k, u_blocked = None, u_ids = []\<rparr>
      in if u_op u = Op_remove \<and> TIER k < 4
         then (case rm_refused (removal_program env running (removal_heads u) mgmt_ip) of
                 (_, Management_path) # _ \<Rightarrow> v\<lparr>u_kind := K_management_path, u_tier := 4\<rparr>
               | (_, why) # _ \<Rightarrow> v\<lparr>u_blocked := Some why\<rparr>
               | [] \<Rightarrow> v\<lparr>u_ids := map (e_unit_id env) (removal_heads u)\<rparr>)
         else v)"

fun strictest :: "cunit \<Rightarrow> cunit list \<Rightarrow> cunit" where
  "strictest best [] = best"
| "strictest best (u # us) =
     strictest (if u_tier best < u_tier u
                   \<or> (u_tier best = u_tier u \<and> u_blocked best = None \<and> u_blocked u \<noteq> None)
                then u else best) us"

definition classify ::
    "removal_env \<Rightarrow> (chain \<Rightarrow> line \<Rightarrow> feature \<times> bool) \<Rightarrow> path list \<Rightarrow> path list \<Rightarrow> path list
     \<Rightarrow> string \<Rightarrow> bool \<Rightarrow> classified" where
  "classify env feature_of golden running intended mgmt_ip related =
     (let dep = departures golden running intended;
          us = map (classify_unit env running mgmt_ip related)
                 (units_of feature_of (dp_missing dep) (dp_added dep));
          strict = (case us of [] \<Rightarrow> None | u # rest \<Rightarrow> Some (strictest u rest))
      in \<lparr>cl_units = us,
          cl_tier = (case strict of None \<Rightarrow> 0 | Some u \<Rightarrow> u_tier u),
          cl_kind = map_option u_kind strict,
          cl_blocked = map_option (\<lambda>i. u_kind (us ! i)) (find_idx (\<lambda>u. u_blocked u \<noteq> None) us),
          cl_removal_ids = concat (map u_ids us),
          cl_left_out = (dp_intent_only dep, dp_golden_behind dep, dp_golden_not_intent dep)\<rparr>)"

section \<open>The units hold every departed line once\<close>

lemma sd_append_mset:
  "mset (concat (map snd (sd_append k vs d))) = mset (concat (map snd d)) + mset vs"
  by (induction k vs d rule: sd_append.induct) auto

lemma sd_append_keys: "set (map fst (sd_append k vs d)) = insert k (set (map fst d))"
  by (induction k vs d rule: sd_append.induct) auto

lemma sd_append_distinct: "distinct (map fst d) \<Longrightarrow> distinct (map fst (sd_append k vs d))"
proof (induction k vs d rule: sd_append.induct)
  case (2 k vs k' ws d)
  then show ?case using sd_append_keys [of k vs d] by auto
qed simp

definition inner :: "path list \<Rightarrow> path \<Rightarrow> bool" where "inner ps p \<longleftrightarrow> top_of ps p \<noteq> None"
definition leads :: "path list \<Rightarrow> path \<Rightarrow> bool" where
  "leads ps p \<longleftrightarrow> \<not> inner ps p \<and> opens ps p"

lemma stanza_loop_ok:
  "mset (concat (map snd (fst (stanza_loop ps todo s l))))
     = mset (concat (map snd s)) + mset (filter (inner ps) todo)
   \<and> mset (snd (stanza_loop ps todo s l))
     = mset l + mset (filter (\<lambda>p. \<not> inner ps p \<and> \<not> leads ps p) todo)
   \<and> set (map fst (fst (stanza_loop ps todo s l)))
     = set (map fst s) \<union> {h. \<exists>p \<in> set todo. top_of ps p = Some h}
       \<union> full_path ` set (filter (leads ps) todo)
   \<and> (distinct (map fst s) \<longrightarrow> distinct (map fst (fst (stanza_loop ps todo s l))))"
proof (induction ps todo s l rule: stanza_loop.induct)
  case (2 ps p todo s l)
  show ?case
  proof (cases "top_of ps p")
    case (Some h)
    with 2(3) [OF Some] show ?thesis
      using sd_append_keys [of h "[p]" s] sd_append_distinct [of s h "[p]"]
      by (auto simp: sd_append_mset inner_def leads_def)
  next
    case None
    show ?thesis
    proof (cases "opens ps p")
      case True
      with 2(1) [OF None True] None show ?thesis
        using sd_append_keys [of "full_path p" "[]" s] sd_append_distinct [of s "full_path p" "[]"]
        by (auto simp: sd_append_mset inner_def leads_def)
    next
      case False
      with 2(2) [OF None False] None show ?thesis by (auto simp: inner_def leads_def)
    qed
  qed
qed simp

lemma full_path_split [simp]: "(butlast (full_path p), last (full_path p)) = p"
  by (simp add: full_path_def)

lemma full_path_inj: "full_path p = full_path q \<longleftrightarrow> p = q"
  by (auto simp: full_path_def prod_eq_iff)

lemma find_idx_upt:
  assumes "find_idx P [0..<m] = Some k"
  shows "k < m \<and> P k \<and> (\<forall>j < k. \<not> P j)"
  using find_idx_SomeD [OF assms] by auto

lemma top_of_leads:
  assumes "top_of ps p = Some h" "p \<in> set ps"
  shows "\<exists>q \<in> set ps. full_path q = h \<and> leads ps q"
proof -
  from assms(1) obtain n where f: "find_idx (\<lambda>n. take (Suc n) (fst p) \<in> set (heads_of ps)) [0..<length (fst p)]
      = Some n" and h: "h = take (Suc n) (fst p)" by (auto simp: top_of_def)
  from find_idx_upt [OF f] have n: "n < length (fst p)" "h \<in> set (heads_of ps)"
    and less: "\<And>j. j < n \<Longrightarrow> take (Suc j) (fst p) \<notin> set (heads_of ps)" using h by auto
  from n(2) obtain q where q: "q \<in> set ps" "full_path q = h" by (auto simp: heads_of_def)
  have c: "fst q = take n (fst p)" "Suc (length (fst q)) = Suc n"
    using q(2) h n(1) by (auto simp: full_path_def take_Suc_conv_app_nth)
  have "find_idx (\<lambda>n. take (Suc n) (fst q) \<in> set (heads_of ps)) [0..<length (fst q)] = None"
    using less c n(1) by (auto simp: find_idx_None_iff min_def)
  then have "\<not> inner ps q" by (simp add: inner_def top_of_def)
  moreover have "opens ps q"
    unfolding opens_def c(2) using assms(2) q(2) h by auto
  ultimately show ?thesis using q by (auto simp: leads_def)
qed

lemma mset_three_way:
  "(\<And>x. \<not> (A x \<and> B x)) \<Longrightarrow>
   mset xs = mset (filter A xs) + mset (filter B xs) + mset (filter (\<lambda>x. \<not> B x \<and> \<not> A x) xs)"
  by (induction xs) auto

lemma stanzas_of_mset:
  assumes "distinct ps"
  shows "mset (map (\<lambda>s. (butlast (fst s), last (fst s))) (fst (stanzas_of ps)))
         + mset (concat (map snd (fst (stanzas_of ps)))) + mset (snd (stanzas_of ps)) = mset ps"
proof -
  let ?s = "fst (stanzas_of ps)" and ?l = "snd (stanzas_of ps)"
  note ok = stanza_loop_ok [of ps ps "[]" "[]", folded stanzas_of_def]
  have keys: "set (map fst ?s) = full_path ` set (filter (leads ps) ps)"
    using ok top_of_leads [of ps] by (force simp: inner_def leads_def)
  have "mset (map fst ?s) = mset (map full_path (filter (leads ps) ps))"
    using keys ok assms by (intro set_eq_iff_mset_eq_distinct [THEN iffD1])
      (auto simp: distinct_map full_path_inj inj_on_def)
  then have "mset (map (\<lambda>k. (butlast k, last k)) (map fst ?s))
      = mset (map (\<lambda>k. (butlast k, last k)) (map full_path (filter (leads ps) ps)))"
    by (simp only: mset_map)
  then have "mset (map (\<lambda>s. (butlast (fst s), last (fst s))) ?s) = mset (filter (leads ps) ps)"
    by (simp add: comp_def)
  moreover have "mset ps = mset (filter (leads ps) ps) + mset (filter (inner ps) ps)
      + mset (filter (\<lambda>p. \<not> inner ps p \<and> \<not> leads ps p) ps)"
    using mset_three_way [of "leads ps" "inner ps" ps] by (simp only: leads_def) blast
  moreover have "mset (concat (map snd ?s)) = mset (filter (inner ps) ps)"
    "mset ?l = mset (filter (\<lambda>p. \<not> inner ps p \<and> \<not> leads ps p) ps)"
    using ok by simp_all
  ultimately show ?thesis by (simp only:)
qed

lemma stanza_units_mset:
  "mset (concat (map u_add (map (stanza_unit Op_add) s)))
     = mset (map (\<lambda>s. (butlast (fst s), last (fst s))) s) + mset (concat (map snd s))"
  "mset (concat (map u_remove (map (stanza_unit Op_remove) s)))
     = mset (map (\<lambda>s. (butlast (fst s), last (fst s))) s) + mset (concat (map snd s))"
  "concat (map u_remove (map (stanza_unit Op_add) s)) = []"
  "concat (map u_add (map (stanza_unit Op_remove) s)) = []"
  by (induction s) (simp_all add: stanza_unit_def Let_def)

subsection \<open>The groups of leaves\<close>

text \<open>What the parser must promise: lines of one section with one feature agree on whether it holds
  a single value.\<close>

definition feature_consistent :: "(chain \<Rightarrow> line \<Rightarrow> feature \<times> bool) \<Rightarrow> bool" where
  "feature_consistent feature_of \<longleftrightarrow>
     (\<forall>p q. fst p = fst q \<longrightarrow> fst (leaf_feature feature_of p) = fst (leaf_feature feature_of q)
        \<longrightarrow> snd (leaf_feature feature_of p) = snd (leaf_feature feature_of q))"

definition glines :: "unit_op \<Rightarrow> groups \<Rightarrow> path list" where
  "glines op d = concat (map (\<lambda>g. if fst (fst g) = op then snd (snd g) else []) d)"

definition groups_ok :: "(chain \<Rightarrow> line \<Rightarrow> feature \<times> bool) \<Rightarrow> groups \<Rightarrow> bool" where
  "groups_ok feature_of d \<longleftrightarrow> distinct (map fst d)
     \<and> (\<forall>g \<in> set d. fst (fst g) \<in> {Op_add, Op_remove}
          \<and> (\<exists>p. fst p = fst (snd (fst g)) \<and> leaf_feature feature_of p = (snd (snd (fst g)), fst (snd g))))"

lemma group_add_mset:
  "mset (glines op (group_add k s p d)) = mset (glines op d) + (if fst k = op then {#p#} else {#})"
  by (induction k s p d rule: group_add.induct) (auto simp: glines_def)

lemma group_add_keys: "set (map fst (group_add k s p d)) = insert k (set (map fst d))"
  by (induction k s p d rule: group_add.induct) auto

lemma group_add_mem:
  "g \<in> set (group_add k s p d) \<Longrightarrow> (\<exists>h \<in> set d. fst g = fst h \<and> fst (snd g) = fst (snd h))
                                \<or> (fst g = k \<and> fst (snd g) = s)"
  by (induction k s p d rule: group_add.induct) (auto split: if_splits)

lemma group_add_distinct: "distinct (map fst d) \<Longrightarrow> distinct (map fst (group_add k s p d))"
proof (induction k s p d rule: group_add.induct)
  case (2 k s p k' s' ps d)
  then show ?case using group_add_keys [of k s p d] by auto
qed simp

lemma group_leaves_ok:
  assumes "groups_ok feature_of d" "op \<in> {Op_add, Op_remove}"
  shows "groups_ok feature_of (group_leaves feature_of op ps d)
    \<and> mset (glines op' (group_leaves feature_of op ps d))
      = mset (glines op' d) + (if op = op' then mset ps else {#})"
  using assms
proof (induction ps arbitrary: d)
  case (Cons p ps)
  obtain f s where f: "leaf_feature feature_of p = (f, s)" by (cases "leaf_feature feature_of p")
  let ?d = "group_add (op, fst p, f) s p d"
  have "groups_ok feature_of ?d"
    unfolding groups_ok_def
  proof (intro conjI ballI)
    show "distinct (map fst ?d)" using Cons.prems(1) by (simp add: groups_ok_def group_add_distinct)
    fix g assume "g \<in> set ?d"
    with group_add_mem consider h where "h \<in> set d" "fst g = fst h" "fst (snd g) = fst (snd h)"
      | "fst g = (op, fst p, f)" "fst (snd g) = s" by blast
    then have "fst (fst g) \<in> {Op_add, Op_remove} \<and> (\<exists>p. fst p = fst (snd (fst g))
        \<and> leaf_feature feature_of p = (snd (snd (fst g)), fst (snd g)))"
    proof cases
      case 1
      with Cons.prems(1) show ?thesis by (auto simp: groups_ok_def)
    next
      case 2
      with f Cons.prems(2) show ?thesis by (intro conjI exI [of _ p]) simp_all
    qed
    then show "fst (fst g) \<in> {Op_add, Op_remove}"
      and "\<exists>p. fst p = fst (snd (fst g))
        \<and> leaf_feature feature_of p = (snd (snd (fst g)), fst (snd g))" by simp_all
  qed
  with Cons.IH [of ?d] Cons.prems(2) f show ?case by (simp add: group_add_mset)
qed simp

lemma groups_ok_map_of:
  "groups_ok feature_of d \<Longrightarrow> map_of d k = Some v \<longleftrightarrow> (k, v) \<in> set d"
  by (simp add: groups_ok_def)

lemma groups_ok_partner:
  assumes "groups_ok feature_of d" "feature_consistent feature_of"
    "((Op_add, c, f), s, ps) \<in> set d" "((Op_remove, c, f), s', ps') \<in> set d"
  shows "s' = s"
proof -
  note mem = assms(1) [unfolded groups_ok_def, THEN conjunct2, THEN bspec, THEN conjunct2]
  from mem [OF assms(3)] obtain p where p: "fst p = c" "leaf_feature feature_of p = (f, s)" by auto
  from mem [OF assms(4)] obtain q where q: "fst q = c" "leaf_feature feature_of q = (f, s')" by auto
  from assms(2) p q show ?thesis unfolding feature_consistent_def by (metis fst_conv snd_conv)
qed

lemma group_units_add:
  assumes "groups_ok feature_of d" "g \<in> set d"
  shows "concat (map u_add (group_units d g)) = (if fst (fst g) = Op_add then snd (snd g) else [])"
proof -
  obtain op c f s ps where g: "g = ((op, c, f), s, ps)" by (metis prod.exhaust)
  with assms have "op \<in> {Op_add, Op_remove}" by (force simp: groups_ok_def)
  then show ?thesis by (auto simp: g group_units_def)
qed

lemma sum_mset_groups:
  assumes "groups_ok feature_of d"
  shows "mset (concat (map h d)) = (\<Sum>g \<in> set d. mset (h g))"
proof -
  have "distinct d" using assms by (simp add: groups_ok_def distinct_map)
  then show ?thesis by (induction d) simp_all
qed

text \<open>The lines a paired removal group gives its change are the ones it leaves out itself.\<close>

lemma group_units_remove:
  assumes ok: "groups_ok feature_of d" and cons: "feature_consistent feature_of"
  shows "mset (concat (map (\<lambda>g. concat (map u_remove (group_units d g))) d)) = mset (glines Op_remove d)"
proof -
  let ?A = "{g \<in> set d. fst (fst g) = Op_add}" and ?R = "{g \<in> set d. fst (fst g) = Op_remove}"
  let ?other = "\<lambda>op g. (op, snd (fst g))"
  let ?paired = "\<lambda>op g. fst (snd g) \<and> map_of d (?other op g) \<noteq> None"
  have D: "set d = ?A \<union> ?R" "?A \<inter> ?R = {}" "finite ?A" "finite ?R"
    using ok by (auto simp: groups_ok_def)
  have h: "mset (concat (map u_remove (group_units d g)))
      = (if fst (fst g) = Op_add
         then (if ?paired Op_remove g then mset (snd (the (map_of d (?other Op_remove g)))) else {#})
         else (if ?paired Op_add g then {#} else mset (snd (snd g))))" if "g \<in> set d" for g
  proof -
    obtain op c f s ps where g: "g = ((op, c, f), s, ps)" by (metis prod.exhaust)
    with ok that have "op \<in> {Op_add, Op_remove}" by (force simp: groups_ok_def)
    then show ?thesis by (auto simp: g group_units_def)
  qed
  have "(\<Sum>g \<in> ?A. if ?paired Op_remove g then mset (snd (the (map_of d (?other Op_remove g)))) else {#})
      = (\<Sum>g \<in> {g \<in> ?A. ?paired Op_remove g}. mset (snd (the (map_of d (?other Op_remove g)))))"
    by (rule sum.inter_filter [OF D(3), symmetric])
  also have "\<dots> = (\<Sum>g \<in> {g \<in> ?R. ?paired Op_add g}. mset (snd (snd g)))"
  proof (rule sum.reindex_bij_witness [where
        i = "\<lambda>g. (?other Op_add g, the (map_of d (?other Op_add g)))" and
        j = "\<lambda>g. (?other Op_remove g, the (map_of d (?other Op_remove g)))"])
    fix g assume g: "g \<in> {g \<in> ?A. ?paired Op_remove g}"
    then obtain c f ps s' ps' where e: "g = ((Op_add, c, f), True, ps)" "g \<in> set d"
      "map_of d (Op_remove, c, f) = Some (s', ps')" by (cases g) auto
    with ok have r: "((Op_remove, c, f), s', ps') \<in> set d" by (simp add: groups_ok_map_of)
    with ok cons e have "s'" using groups_ok_partner by blast
    moreover have "map_of d (Op_add, c, f) = Some (True, ps)" using e ok by (simp add: groups_ok_map_of)
    ultimately show "(?other Op_add (?other Op_remove g, the (map_of d (?other Op_remove g))),
        the (map_of d (?other Op_add (?other Op_remove g, the (map_of d (?other Op_remove g)))))) = g"
      and "(?other Op_remove g, the (map_of d (?other Op_remove g))) \<in> {g \<in> ?R. ?paired Op_add g}"
      and "mset (snd (snd (?other Op_remove g, the (map_of d (?other Op_remove g)))))
        = mset (snd (the (map_of d (?other Op_remove g))))"
      using e r by auto
  next
    fix g assume g: "g \<in> {g \<in> ?R. ?paired Op_add g}"
    then obtain c f ps s' ps' where e: "g = ((Op_remove, c, f), True, ps)" "g \<in> set d"
      "map_of d (Op_add, c, f) = Some (s', ps')" by (cases g) auto
    with ok have r: "((Op_add, c, f), s', ps') \<in> set d" by (simp add: groups_ok_map_of)
    with ok cons e have "s'" using groups_ok_partner by blast
    moreover have "map_of d (Op_remove, c, f) = Some (True, ps)" using e ok by (simp add: groups_ok_map_of)
    ultimately show "(?other Op_remove (?other Op_add g, the (map_of d (?other Op_add g))),
        the (map_of d (?other Op_remove (?other Op_add g, the (map_of d (?other Op_add g)))))) = g"
      and "(?other Op_add g, the (map_of d (?other Op_add g))) \<in> {g \<in> ?A. ?paired Op_remove g}"
      using e r by auto
  qed
  also have "\<dots> + (\<Sum>g \<in> ?R. if ?paired Op_add g then {#} else mset (snd (snd g)))
      = (\<Sum>g \<in> ?R. mset (snd (snd g)))"
    unfolding sum.inter_filter [OF D(4)] sum.distrib [symmetric] by (rule sum.cong) auto
  finally have pair: "(\<Sum>g \<in> ?A. if ?paired Op_remove g then mset (snd (the (map_of d (?other Op_remove g)))) else {#})
      + (\<Sum>g \<in> ?R. if ?paired Op_add g then {#} else mset (snd (snd g)))
      = (\<Sum>g \<in> ?R. mset (snd (snd g)))" by simp
  have "mset (concat (map (\<lambda>g. concat (map u_remove (group_units d g))) d))
      = (\<Sum>g \<in> ?A \<union> ?R. mset (concat (map u_remove (group_units d g))))"
    using sum_mset_groups [OF ok] D(1) by simp
  also have "\<dots> = (\<Sum>g \<in> ?A. mset (concat (map u_remove (group_units d g))))
      + (\<Sum>g \<in> ?R. mset (concat (map u_remove (group_units d g))))"
    by (rule sum.union_disjoint [OF D(3,4,2)])
  also have "\<dots> = (\<Sum>g \<in> ?R. mset (snd (snd g)))"
    unfolding pair [symmetric]
    by (intro arg_cong2 [where f = "(+)"] sum.cong refl) (use h in auto)
  also have "\<dots> = mset (glines Op_remove d)"
    unfolding glines_def sum_mset_groups [OF ok]
    by (simp add: sum.inter_filter [symmetric] if_distrib cong: if_cong)
  finally show ?thesis .
qed

section \<open>Properties of the classification\<close>

lemma concat_map_units:
  "concat (map f (concat (map h d))) = concat (map (\<lambda>g. concat (map f (h g))) d)"
  by (induction d) simp_all

text \<open>No departed line is lost, doubled or split over two units: the lines the units add back
  are exactly the missing ones and the lines they remove exactly the added ones (as multisets),
  given the parser's promise about single values.\<close>

lemma units_cover_departure:
  assumes "distinct missing" and "distinct added" and "feature_consistent feature_of"
  shows "mset (concat (map u_add (units_of feature_of missing added))) = mset missing
       \<and> mset (concat (map u_remove (units_of feature_of missing added))) = mset added"
proof -
  obtain sa la where sa: "stanzas_of missing = (sa, la)" by (cases "stanzas_of missing")
  obtain sr lr where sr: "stanzas_of added = (sr, lr)" by (cases "stanzas_of added")
  let ?d1 = "group_leaves feature_of Op_add la []"
  let ?d = "group_leaves feature_of Op_remove lr ?d1"
  have d0: "groups_ok feature_of []" by (simp add: groups_ok_def)
  note d1 = group_leaves_ok [OF d0, of Op_add la]
  then have ok1: "groups_ok feature_of ?d1" by simp
  note d2 = group_leaves_ok [OF ok1, of Op_remove lr]
  then have ok: "groups_ok feature_of ?d" by simp
  have gl: "mset (glines Op_add ?d) = mset la" "mset (glines Op_remove ?d) = mset lr"
    using d1 [of Op_add] d1 [of Op_remove] d2 [of Op_add] d2 [of Op_remove]
    by (simp_all add: glines_def)
  have units: "units_of feature_of missing added
      = map (stanza_unit Op_add) sa @ map (stanza_unit Op_remove) sr @ concat (map (group_units ?d) ?d)"
    by (simp add: units_of_def sa sr Let_def)
  have add: "concat (map u_add (concat (map (group_units ?d) ?d))) = glines Op_add ?d"
    using group_units_add [OF ok] by (simp add: glines_def concat_map_units cong: map_cong)
  have rem: "concat (map u_remove (concat (map (group_units ?d) ?d)))
      = concat (map (\<lambda>g. concat (map u_remove (group_units ?d g))) ?d)"
    by (rule concat_map_units)
  show ?thesis
    using stanzas_of_mset [OF assms(1)] stanzas_of_mset [OF assms(2)] gl
      group_units_remove [OF ok assms(3)]
    by (simp only: units map_append concat_append mset_append add rem stanza_units_mset sa sr
        fst_conv snd_conv mset.simps) simp
qed

text \<open>What healing by the intersection rule makes of a device: after the missing lines are
  added and the added ones removed, it holds every line the golden and intent agree on, keeps each
  of its own that either of them has, and holds nothing else; and judged again nothing departs.\<close>

lemma healed_configuration:
  "(let dep = departures golden running intended;
        healed = filter (\<lambda>p. p \<notin> set (dp_added dep)) (running @ dp_missing dep)
    in set healed = (set golden \<inter> set intended) \<union> (set running \<inter> (set golden \<union> set intended))
       \<and> dp_missing (departures golden healed intended) = []
       \<and> dp_added (departures golden healed intended) = [])"
  by (auto simp: departures_def Let_def filter_empty_conv)

lemma strictest_ge: "u \<in> set (best # us) \<Longrightarrow> u_tier u \<le> u_tier (strictest best us)"
proof (induction us arbitrary: best u)
  case (Cons v us)
  define b where "b = (if u_tier best < u_tier v
              \<or> (u_tier best = u_tier v \<and> u_blocked best = None \<and> u_blocked v \<noteq> None)
            then v else best)"
  have b: "u_tier best \<le> u_tier b" "u_tier v \<le> u_tier b" by (auto simp: b_def)
  have ih: "w \<in> set (b # us) \<Longrightarrow> u_tier w \<le> u_tier (strictest b us)" for w by (rule Cons.IH)
  have "strictest best (v # us) = strictest b us" by (simp add: b_def)
  with Cons.prems b ih [of b] ih [of u] show ?case by auto
qed simp

lemma TIER_le: "TIER k \<le> 4"
  by (cases k) simp_all

lemma kind_of_low:
  assumes "TIER (kind_of secret ifaces routes related u) < 3"
  shows "\<not> related \<and> \<not> touches_management ifaces routes u
    \<and> (\<forall>t \<in> set (unit_texts u). \<not> is_acl t \<and> \<not> is_credential t)"
  using assms by (auto simp: kind_of_def split: if_splits)

lemma extend_simps [simp]:
  "u_op (dunit.extend u m) = u_op u" "u_add (dunit.extend u m) = u_add u"
  "u_remove (dunit.extend u m) = u_remove u" "u_stanza (dunit.extend u m) = u_stanza u"
  "u_chain (dunit.extend u m) = u_chain u"
  by (simp_all add: dunit.extend_def)

lemma classify_unit_low:
  assumes "u_tier (classify_unit env running mgmt_ip related d) < 3"
  defines "u \<equiv> classify_unit env running mgmt_ip related d"
  shows "\<not> related
    \<and> \<not> touches_management (management_interfaces running mgmt_ip)
          (management_routes (e_route_of env) (e_addresses env) running) u
    \<and> (\<forall>t \<in> set (unit_texts u). \<not> is_acl t \<and> \<not> is_credential t)
    \<and> (u_op u = Op_remove \<and> u_blocked u = None \<longrightarrow>
         rm_refused (removal_program env running (removal_heads u) mgmt_ip) = [])"
proof -
  let ?i = "management_interfaces running mgmt_ip"
  let ?r = "management_routes (e_route_of env) (e_addresses env) running"
  let ?k = "kind_of (e_secret env) ?i ?r related d"
  have same: "u_op u = u_op d" "u_add u = u_add d" "u_remove u = u_remove d" "u_stanza u = u_stanza d"
    by (auto simp: u_def classify_unit_def Let_def dunit.extend_def split: list.splits refusal.splits)
  then have tm: "touches_management ?i ?r u = touches_management ?i ?r d"
    "unit_texts u = unit_texts d" "removal_heads u = removal_heads d"
    by (simp_all add: touches_management_def unit_texts_def removal_heads_def)
  have "TIER ?k < 3"
    using assms(1) by (auto simp: classify_unit_def Let_def dunit.extend_def
        split: list.splits refusal.splits if_splits)
  moreover have "rm_refused (removal_program env running (removal_heads d) mgmt_ip) = []"
    if "u_op d = Op_remove" "u_blocked u = None"
    using assms(1) that calculation unfolding u_def
    by (auto simp: classify_unit_def Let_def dunit.extend_def split: list.splits refusal.splits if_splits)
  ultimately show ?thesis
    using kind_of_low [of "e_secret env" ?i ?r related d] same tm by simp
qed

text \<open>C24: a departure classed below Tier 3 with no unit blocked, which is what self-healing may act
  on: no unit of it is about another device's cause, touches the interface, the route or the lines
  Mercury reaches the device by, or holds a line of an ACL or of a credential; and every removal in
  it passes the removal's own gates.\<close>

theorem low_tier_units_are_safe:
  assumes "cl_tier (classify env feature_of golden running intended mgmt_ip related) < 3"
    and "cl_blocked (classify env feature_of golden running intended mgmt_ip related) = None"
    and "u \<in> set (cl_units (classify env feature_of golden running intended mgmt_ip related))"
  shows "\<not> related
    \<and> \<not> touches_management (management_interfaces running mgmt_ip)
          (management_routes (e_route_of env) (e_addresses env) running) u
    \<and> (\<forall>t \<in> set (unit_texts u). \<not> is_acl t \<and> \<not> is_credential t)
    \<and> (u_op u = Op_remove \<longrightarrow>
         rm_refused (removal_program env running (removal_heads u) mgmt_ip) = [])"
proof -
  let ?us = "cl_units (classify env feature_of golden running intended mgmt_ip related)"
  obtain v vs where us: "?us = v # vs" using assms(3) by (cases ?us) auto
  then have "cl_tier (classify env feature_of golden running intended mgmt_ip related)
      = u_tier (strictest v vs)"
    by (simp add: classify_def Let_def)
  with assms(1,3) us strictest_ge [of u v vs] have "u_tier u < 3" by simp
  moreover obtain d where d: "u = classify_unit env running mgmt_ip related d"
    using assms(3) by (auto simp: classify_def Let_def)
  moreover have "u_blocked u = None"
    using assms(2,3) by (auto simp: classify_def Let_def find_idx_None_iff)
  ultimately show ?thesis using classify_unit_low [of env running mgmt_ip related d] by blast
qed

definition ex_feature_of :: "chain \<Rightarrow> line \<Rightarrow> feature \<times> bool" where
  "ex_feature_of c l = ([strip l], False)"

definition ex_golden :: "path list" where
  "ex_golden = [([], ''interface Gi1'')]"

definition ex_class :: classified where
  "ex_class = classify ex_env ex_feature_of ex_golden ex_running ex_golden ''10.0.0.1'' False"

lemma ex_class_eq:
  "cl_tier ex_class = 1" "cl_blocked ex_class = None"
  "map u_op (cl_units ex_class) = [Op_remove]" "map u_kind (cl_units ex_class) = [K_admin_down]"
  by code_simp+

theorem low_tier_units_are_safe_witness:
  "u_op (hd (cl_units ex_class)) = Op_remove
   \<and> rm_refused (removal_program ex_env ex_running (removal_heads (hd (cl_units ex_class))) ''10.0.0.1'') = []"
proof -
  obtain u us where us: "cl_units ex_class = u # us" using ex_class_eq(3) by (cases "cl_units ex_class") auto
  then have "u_op u = Op_remove" using ex_class_eq(3) by simp
  with us show ?thesis
    using low_tier_units_are_safe [of ex_env ex_feature_of ex_golden ex_running ex_golden "''10.0.0.1''"
        False u] ex_class_eq(1,2) unfolding ex_class_def by simp
qed

end
