(* ===== verification/Decisions.thy ===== *)
theory Decisions
  imports Incidents Kinds
begin

text \<open>
  The heal decisions and halts of one network (\<open>modules/heal/decisions.py\<close>): an append-only log
  of rows, and what a reader replays from it. \<open>decisions\<close> joins each decision with its newest
  mark, its take, what was applied and its withdrawal; \<open>halted\<close> is the halt in force.

  The log is absent, unreadable (a line that does not parse) or its rows. A row is appended without
  reading the log, so an unreadable one stays unreadable; everything that reads it first refuses.
  Ids (\<open>uuid4\<close>) are arguments. The words a person reads are not modelled, reasons are.

  The lemmas: every operation only appends; a decision's take is decided once, whoever takes it;
  a halt stays in force until a verified person lifts it with a reason; a rolled-back heal halts.
\<close>

section \<open>Rows\<close>

datatype outcome =
  O_heal | O_would_heal | O_propose | O_cant_fix | O_nothing | O_held | O_halted | O_off | O_deferred

datatype heal_mode = M_off | M_dry_run | M_auto

record unit_row =
  ur_op :: unit_op
  ur_kind :: fix_kind
  ur_tier :: nat
  ur_blocked :: "refusal option"
  ur_stanza :: bool
  ur_section :: string

definition masked_unit :: "cunit \<Rightarrow> unit_row" where
  "masked_unit u =
     \<lparr>ur_op = u_op u, ur_kind = u_kind u, ur_tier = u_tier u, ur_blocked = u_blocked u, ur_stanza = u_stanza u,
      ur_section = (if u_chain u \<noteq> [] then hd (u_chain u) else if u_lines u \<noteq> [] then hd (u_lines u) else '''')\<rparr>"

record decision =
  d_id :: decision_id
  d_at :: iso_time
  d_epoch :: epoch
  d_incident :: incident_id
  d_device :: device
  d_outcome :: outcome
  d_mode :: heal_mode
  d_policy :: "string \<times> string"     \<comment> \<open>its fingerprint, and who confirmed it (empty: nobody)\<close>
  d_guard :: "nat option"
  d_units :: "unit_row list"
  d_kind :: "fix_kind option"
  d_tier :: nat
  d_program_hash :: string
  d_removal_ids :: "string list"
  d_departure :: string
  d_until :: "epoch option"

datatype withdrawn_how = At_intent | Changed

record halt =
  h_id :: string
  h_guard :: nat
  h_at :: iso_time
  h_epoch :: epoch

datatype log_row =
  Decision_row decision
| Mark_row decision_id bool string string iso_time      \<comment> \<open>decision, right?, by, why, at\<close>
| Taken_row decision_id string iso_time                 \<comment> \<open>decision, by, at\<close>
| Applied_row decision_id string string iso_time        \<comment> \<open>decision, outcome, by, at\<close>
| Withdrawn_row decision_id withdrawn_how string iso_time
| Halt_row halt
| Lift_row string string string string iso_time         \<comment> \<open>halt, by, verified, reason, at\<close>

datatype log = No_log | Bad_log | Rows "log_row list"

fun rows_of :: "log \<Rightarrow> heal_error + log_row list" where
  "rows_of (Rows rs) = Inr rs"
| "rows_of No_log = Inr []"
| "rows_of Bad_log = Inl Store_unreadable"

text \<open>\<open>_append\<close>.\<close>

fun append_to :: "log_row list \<Rightarrow> log \<Rightarrow> log" where
  "append_to new (Rows rs) = Rows (rs @ new)"
| "append_to new No_log = Rows new"
| "append_to new Bad_log = Bad_log"

definition append_row :: "bool \<Rightarrow> log_row \<Rightarrow> log \<Rightarrow> heal_error + log" where
  "append_row network_exists r lg =
     (if network_exists then Inr (append_to [r] lg) else Inl Refused_no_network)"

section \<open>The replay\<close>

record dview = decision +
  v_mark :: "(bool \<times> string \<times> string \<times> iso_time) option"
  v_taken :: "(string \<times> iso_time) option"
  v_applied :: "(string \<times> string \<times> iso_time) option"
  v_withdrawn :: "(withdrawn_how \<times> string \<times> iso_time) option"

definition plain_view :: "decision \<Rightarrow> dview" where
  "plain_view d = decision.extend d \<lparr>v_mark = None, v_taken = None, v_applied = None, v_withdrawn = None\<rparr>"

definition WITHDRAWN :: string where "WITHDRAWN = ''withdrawn''"
definition ROLLED_BACK :: string where "ROLLED_BACK = ''rolled_back''"

fun row_target :: "log_row \<Rightarrow> decision_id option" where
  "row_target (Mark_row i _ _ _ _) = Some i"
| "row_target (Taken_row i _ _) = Some i"
| "row_target (Applied_row i _ _ _) = Some i"
| "row_target (Withdrawn_row i _ _ _) = Some i"
| "row_target _ = None"

fun row_change :: "log_row \<Rightarrow> dview \<Rightarrow> dview" where
  "row_change (Mark_row _ right by why t) v = v\<lparr>v_mark := Some (right, by, why, t)\<rparr>"
| "row_change (Taken_row _ by t) v = v\<lparr>v_taken := Some (by, t)\<rparr>"
| "row_change (Applied_row _ res by t) v = v\<lparr>v_applied := Some (res, by, t)\<rparr>"
| "row_change (Withdrawn_row _ how by t) v =
     v\<lparr>v_taken := Some (by, t), v_applied := Some (WITHDRAWN, by, t),
       v_withdrawn := Some (how, by, t)\<rparr>"
| "row_change _ v = v"

definition apply_row :: "log_row \<Rightarrow> dview \<Rightarrow> dview" where
  "apply_row r v = (if row_target r = Some (d_id v) then row_change r v else v)"

text \<open>The dictionary by id, in insertion order.\<close>

fun put_view :: "dview \<Rightarrow> dview list \<Rightarrow> dview list" where
  "put_view v [] = [v]"
| "put_view v (w # ws) = (if d_id w = d_id v then v # ws else w # put_view v ws)"

fun base_views :: "log_row list \<Rightarrow> dview list \<Rightarrow> dview list" where
  "base_views [] vs = vs"
| "base_views (Decision_row d # rs) vs = base_views rs (put_view (plain_view d) vs)"
| "base_views (_ # rs) vs = base_views rs vs"

fun replay :: "log_row list \<Rightarrow> dview list \<Rightarrow> dview list" where
  "replay [] vs = vs"
| "replay (r # rs) vs = replay rs (map (apply_row r) vs)"

definition decisions :: "log_row list \<Rightarrow> dview list" where
  "decisions rs = replay rs (base_views rs [])"

definition find_decision :: "log \<Rightarrow> decision_id \<Rightarrow> heal_error + dview" where
  "find_decision lg i = bind_result (rows_of lg) (\<lambda>rs.
     case find_idx (\<lambda>v. d_id v = i) (decisions rs) of
       None \<Rightarrow> Inl Refused_no_decision | Some k \<Rightarrow> Inr (decisions rs ! k))"

definition to_apply :: "log_row list \<Rightarrow> dview list" where
  "to_apply rs = filter (\<lambda>v. d_outcome v = O_heal \<and> v_taken v = None) (decisions rs)"

definition proposals :: "log_row list \<Rightarrow> dview list" where
  "proposals rs = filter (\<lambda>v. d_outcome v = O_propose \<and> v_taken v = None) (decisions rs)"

section \<open>Halts\<close>

fun halted_from :: "halt option \<Rightarrow> log_row list \<Rightarrow> halt option" where
  "halted_from cur [] = cur"
| "halted_from cur (Halt_row h # rs) = halted_from (Some h) rs"
| "halted_from cur (Lift_row i by ver why t # rs) =
     halted_from (case cur of None \<Rightarrow> None | Some h \<Rightarrow> if i = h_id h then None else cur) rs"
| "halted_from cur (_ # rs) = halted_from cur rs"

definition halted :: "log_row list \<Rightarrow> halt option" where
  "halted rs = halted_from None rs"

fun halts_of :: "log_row list \<Rightarrow> halt list" where
  "halts_of [] = []"
| "halts_of (Halt_row h # rs) = h # halts_of rs"
| "halts_of (_ # rs) = halts_of rs"

definition last_halt_epoch :: "log_row list \<Rightarrow> epoch" where
  "last_halt_epoch rs = (case map h_epoch (halts_of rs) of [] \<Rightarrow> 0 | es \<Rightarrow> Max (set es))"

type_synonym lifted = "string \<times> string \<times> string \<times> iso_time"   \<comment> \<open>by, verified, reason, at\<close>

fun halt_row_from :: "string \<Rightarrow> (halt \<times> lifted option) option \<Rightarrow> log_row list
    \<Rightarrow> (halt \<times> lifted option) option" where
  "halt_row_from i found [] = found"
| "halt_row_from i found (Halt_row h # rs) =
     halt_row_from i (if h_id h = i then Some (h, None) else found) rs"
| "halt_row_from i found (Lift_row j by ver why t # rs) =
     halt_row_from i (if j = i then map_option (\<lambda>(h, _). (h, Some (by, ver, why, t))) found else found) rs"
| "halt_row_from i found (_ # rs) = halt_row_from i found rs"

definition halt_row :: "log_row list \<Rightarrow> string \<Rightarrow> (halt \<times> lifted option) option"
where "halt_row rs i = halt_row_from i None rs"

section \<open>Operations\<close>

type_synonym 'a log_op = "log \<Rightarrow> heal_error + ('a \<times> log)"

text \<open>\<open>record\<close>: the decision gains its id and its time.\<close>

definition record_decision :: "bool \<Rightarrow> decision_id \<Rightarrow> decision \<Rightarrow> epoch \<Rightarrow> decision log_op" where
  "record_decision network_exists nid d now lg =
     (let row = d\<lparr>d_id := nid, d_at := iso now, d_epoch := now\<rparr> in
      bind_result (append_row network_exists (Decision_row row) lg) (\<lambda>lg'. Inr (row, lg')))"

definition halt_network :: "bool \<Rightarrow> string \<Rightarrow> nat \<Rightarrow> epoch \<Rightarrow> halt log_op" where
  "halt_network network_exists hid g now lg =
     (let h = \<lparr>h_id = hid, h_guard = g, h_at = iso now, h_epoch = now\<rparr> in
      bind_result (append_row network_exists (Halt_row h) lg) (\<lambda>lg'. Inr (h, lg')))"

text \<open>Appending a row and answering the decision as it then stands.\<close>

definition append_find :: "bool \<Rightarrow> decision_id \<Rightarrow> log_row \<Rightarrow> dview log_op" where
  "append_find network_exists i r lg =
     bind_result (append_row network_exists r lg) (\<lambda>lg'.
       bind_result (find_decision lg' i) (\<lambda>v. Inr (v, lg')))"

definition withdraw :: "bool \<Rightarrow> decision_id \<Rightarrow> withdrawn_how \<Rightarrow> string \<Rightarrow> epoch \<Rightarrow> dview log_op" where
  "withdraw network_exists i how by now lg =
     bind_result (find_decision lg i) (\<lambda>d.
       if d_outcome d \<noteq> O_propose then Inl Refused_not_withdrawable
       else if v_taken d \<noteq> None then Inl Refused_taken
       else append_find network_exists i (Withdrawn_row i how by (iso now)) lg)"

definition take_decision :: "bool \<Rightarrow> decision_id \<Rightarrow> string \<Rightarrow> epoch \<Rightarrow> dview log_op" where
  "take_decision network_exists i by now lg =
     bind_result (find_decision lg i) (\<lambda>d.
       if d_outcome d \<notin> {O_heal, O_propose} then Inl Refused_not_takeable
       else if v_taken d \<noteq> None then Inl Refused_taken
       else append_find network_exists i (Taken_row i by (iso now)) lg)"

definition record_applied ::
    "bool \<Rightarrow> decision_id \<Rightarrow> string \<Rightarrow> string \<Rightarrow> string \<Rightarrow> epoch \<Rightarrow> dview log_op" where
  "record_applied network_exists i res by hid now lg =
     bind_result (find_decision lg i) (\<lambda>d.
       bind_result (append_row network_exists (Applied_row i res by (iso now)) lg) (\<lambda>lg.
         bind_result (if res = ROLLED_BACK
                      then bind_result (halt_network network_exists hid 14 now lg) (\<lambda>(h, lg). Inr lg)
                      else Inr lg) (\<lambda>lg.
           bind_result (find_decision lg i) (\<lambda>v. Inr (v, lg)))))"

definition not_a_person :: "string \<Rightarrow> string \<Rightarrow> bool \<Rightarrow> bool" where
  "not_a_person by verified person \<longleftrightarrow> by = '''' \<or> verified \<in> {'''', ''none''} \<or> \<not> person"

definition mark_decision ::
    "bool \<Rightarrow> decision_id \<Rightarrow> bool \<Rightarrow> string \<Rightarrow> string \<Rightarrow> bool \<Rightarrow> string \<Rightarrow> epoch \<Rightarrow> dview log_op" where
  "mark_decision network_exists i right by verified person why now lg =
     (if not_a_person by verified person then Inl Not_a_person
      else if \<not> right \<and> blank why then Inl Refused_no_why
      else bind_result (find_decision lg i) (\<lambda>d.
        if d_outcome d \<noteq> O_would_heal then Inl Refused_not_dry_run
        else append_find network_exists i (Mark_row i right by (strip why) (iso now)) lg))"

definition LIFT_REASON_WORDS :: nat where "LIFT_REASON_WORDS = 3"

definition lift_halt ::
    "bool \<Rightarrow> string \<Rightarrow> string \<Rightarrow> string \<Rightarrow> bool \<Rightarrow> string \<Rightarrow> epoch \<Rightarrow> log_row log_op" where
  "lift_halt network_exists hid by verified person reason now lg =
     (if not_a_person by verified person then Inl Not_a_person
      else if strip reason = '''' then Inl Refused_no_reason
      else if word_count (strip reason) < LIFT_REASON_WORDS then Inl Refused_short_reason
      else bind_result (rows_of lg) (\<lambda>rs.
        if map_option h_id (halted rs) \<noteq> Some hid then Inl Refused_other_halt
        else (let r = Lift_row hid by verified (strip reason) (iso now) in
              bind_result (append_row network_exists r lg) (\<lambda>lg'. Inr (r, lg')))))"

text \<open>\<open>dry_run_counts\<close> of one kind: records, right, wrong, unmarked.\<close>

definition dry_run_counts :: "log_row list \<Rightarrow> fix_kind option \<Rightarrow> nat \<times> nat \<times> nat \<times> nat" where
  "dry_run_counts rs k =
     (let ds = filter (\<lambda>v. d_outcome v = O_would_heal \<and> d_kind v = k) (decisions rs);
          marks = (\<lambda>p. length (filter (\<lambda>v. p (map_option fst (v_mark v))) ds))
      in (length ds, marks (\<lambda>m. m = Some True), marks (\<lambda>m. m = Some False), marks (\<lambda>m. m = None)))"

section \<open>The replay, row by row\<close>

fun is_decision :: "log_row \<Rightarrow> bool" where
  "is_decision (Decision_row d) = True"
| "is_decision _ = False"

fun decs :: "log_row list \<Rightarrow> decision list" where
  "decs [] = []"
| "decs (Decision_row d # rs) = d # decs rs"
| "decs (_ # rs) = decs rs"

fun takes :: "decision_id \<Rightarrow> log_row \<Rightarrow> bool" where
  "takes i (Taken_row j _ _) \<longleftrightarrow> j = i"
| "takes i (Withdrawn_row j _ _ _) \<longleftrightarrow> j = i"
| "takes i _ \<longleftrightarrow> False"

lemma decs_append [simp]: "decs (a @ b) = decs a @ decs b"
  by (induction a rule: decs.induct) simp_all

lemma decs_other: "\<not> is_decision r \<Longrightarrow> decs [r] = []"
  by (cases r) simp_all

lemma replay_append: "replay (a @ b) vs = replay b (replay a vs)"
  by (induction a vs rule: replay.induct) simp_all

lemma base_views_append: "base_views (a @ b) vs = base_views b (base_views a vs)"
  by (induction a vs rule: base_views.induct) simp_all

lemma base_views_other: "\<not> is_decision r \<Longrightarrow> base_views [r] vs = vs"
  by (cases r) simp_all

lemma truncate_row_change [simp]: "decision.truncate (row_change r v) = decision.truncate v"
  by (cases r) (simp_all add: decision.truncate_def)

lemma truncate_apply_row [simp]: "decision.truncate (apply_row r v) = decision.truncate v"
  by (simp add: apply_row_def)

lemma truncate_eqD:
  "decision.truncate v = decision.truncate w \<Longrightarrow>
     d_id v = d_id w \<and> d_outcome v = d_outcome w \<and> d_epoch v = d_epoch w \<and> d_device v = d_device w
     \<and> d_departure v = d_departure w \<and> d_program_hash v = d_program_hash w"
  by (simp add: decision.truncate_def)

lemma apply_row_fields [simp]:
  "d_id (apply_row r v) = d_id v" "d_outcome (apply_row r v) = d_outcome v"
  "d_epoch (apply_row r v) = d_epoch v" "d_device (apply_row r v) = d_device v"
  "d_departure (apply_row r v) = d_departure v"
  using truncate_eqD [OF truncate_apply_row [of r v]] by simp_all

lemma v_taken_apply_row:
  "v_taken (apply_row r v) = None \<longleftrightarrow> v_taken v = None \<and> \<not> takes (d_id v) r"
  by (cases r) (auto simp: apply_row_def)

lemma plain_view_fields [simp]:
  "d_id (plain_view d) = d_id d" "d_outcome (plain_view d) = d_outcome d"
  "d_epoch (plain_view d) = d_epoch d" "d_device (plain_view d) = d_device d"
  "d_departure (plain_view d) = d_departure d"
  "v_taken (plain_view d) = None" "v_applied (plain_view d) = None"
  by (simp_all add: plain_view_def decision.extend_def)

lemma put_view_new: "d_id v \<notin> d_id ` set vs \<Longrightarrow> put_view v vs = vs @ [v]"
  by (induction v vs rule: put_view.induct) auto

lemma decisions_other:
  assumes "\<not> is_decision r"
  shows "decisions (rs @ [r]) = map (apply_row r) (decisions rs)"
  using assms by (simp add: decisions_def replay_append base_views_append base_views_other)

text \<open>What every reachable log keeps: ids name one decision each, and a row is about a decision
  that was recorded before it.\<close>

definition log_ok :: "log_row list \<Rightarrow> bool" where
  "log_ok rs \<longleftrightarrow> distinct (map d_id (decs rs))
     \<and> (\<forall>r \<in> set rs. \<forall>i. row_target r = Some i \<longrightarrow> i \<in> d_id ` set (decs rs))"

lemma base_views_decs:
  "distinct (map d_id vs @ map d_id (decs rs)) \<Longrightarrow> base_views rs vs = vs @ map plain_view (decs rs)"
proof (induction rs vs rule: base_views.induct)
  case (2 d rs vs)
  then have "put_view (plain_view d) vs = vs @ [plain_view d]" by (intro put_view_new) auto
  with 2 show ?case by simp
qed simp_all

lemma replay_map: "replay rs vs = map (\<lambda>v. fold apply_row rs v) vs"
  by (induction rs vs rule: replay.induct) simp_all

lemma decisions_eq:
  "log_ok rs \<Longrightarrow> decisions rs = map (\<lambda>d. fold apply_row rs (plain_view d)) (decs rs)"
  by (simp add: decisions_def replay_map log_ok_def base_views_decs comp_def)

lemma fold_apply_id:
  "\<forall>r \<in> set rs. row_target r \<noteq> Some (d_id v) \<Longrightarrow> fold apply_row rs v = v"
  by (induction rs) (simp_all add: apply_row_def)

lemma decisions_record:
  assumes "log_ok rs" "d_id d \<notin> d_id ` set (decs rs)"
  shows "decisions (rs @ [Decision_row d]) = decisions rs @ [plain_view d]"
proof -
  have "fold apply_row rs (plain_view d) = plain_view d"
    using assms by (intro fold_apply_id) (auto simp: log_ok_def)
  moreover have "log_ok (rs @ [Decision_row d])"
    using assms by (auto simp: log_ok_def)
  ultimately show ?thesis
    using assms(1) by (simp add: decisions_eq apply_row_def)
qed

lemma fold_apply_fields:
  "d_id (fold apply_row rs v) = d_id v \<and> d_outcome (fold apply_row rs v) = d_outcome v
   \<and> d_epoch (fold apply_row rs v) = d_epoch v
   \<and> (v_taken (fold apply_row rs v) = None \<longleftrightarrow> v_taken v = None \<and> (\<forall>r \<in> set rs. \<not> takes (d_id v) r))"
  by (induction rs arbitrary: v) (auto simp: v_taken_apply_row)

lemma decisions_ids: "log_ok rs \<Longrightarrow> map d_id (decisions rs) = map d_id (decs rs)"
  by (simp add: decisions_eq comp_def fold_apply_fields)

lemma find_decision_RowsD:
  assumes "find_decision lg i = Inr v" "rows_of lg = Inr rs"
  shows "v \<in> set (decisions rs) \<and> d_id v = i"
  using assms by (auto simp: find_decision_def dest!: find_idx_SomeD split: option.splits)

lemma decisions_taken:
  assumes "log_ok rs" "v \<in> set (decisions rs)"
  shows "v_taken v = None \<longleftrightarrow> (\<forall>r \<in> set rs. \<not> takes (d_id v) r)"
  using assms fold_apply_fields by (auto simp: decisions_eq)

section \<open>What may be appended\<close>

text \<open>A row an operation may append to a log, from the log before it.\<close>

definition admissible :: "log_row list \<Rightarrow> log_row \<Rightarrow> bool" where
  "admissible rs r \<longleftrightarrow> (case r of
       Decision_row d \<Rightarrow> d_id d \<notin> d_id ` set (decs rs)
     | Mark_row i right by why t \<Rightarrow> \<exists>v \<in> set (decisions rs). d_id v = i \<and> d_outcome v = O_would_heal \<and> by \<noteq> ''''
     | Taken_row i by t \<Rightarrow> \<exists>v \<in> set (decisions rs). d_id v = i \<and> v_taken v = None
                             \<and> d_outcome v \<in> {O_heal, O_propose}
     | Withdrawn_row i how by t \<Rightarrow> \<exists>v \<in> set (decisions rs). d_id v = i \<and> v_taken v = None
                             \<and> d_outcome v = O_propose
     | Applied_row i res by t \<Rightarrow> \<exists>v \<in> set (decisions rs). d_id v = i
     | Halt_row h \<Rightarrow> True
     | Lift_row hid by verified reason t \<Rightarrow> \<exists>h. halted rs = Some h \<and> h_id h = hid
                             \<and> by \<noteq> '''' \<and> verified \<notin> {'''', ''none''}
                             \<and> LIFT_REASON_WORDS \<le> word_count reason)"

inductive grows :: "log_row list \<Rightarrow> log_row list \<Rightarrow> bool" where
  grows_refl: "grows rs rs"
| grows_row: "grows rs rs' \<Longrightarrow> admissible rs' r \<Longrightarrow> grows rs (rs' @ [r])"

lemma grows_one: "admissible rs r \<Longrightarrow> grows rs (rs @ [r])"
  by (intro grows_row grows_refl)

lemma grows_trans:
  assumes "grows a b" "grows b c"
  shows "grows a c"
  using assms(2,1) by (induction rule: grows.induct) (auto intro: grows_row)

lemma grows_prefix: "grows rs rs' \<Longrightarrow> \<exists>new. rs' = rs @ new"
  by (induction rule: grows.induct) auto

lemma admissible_log_ok:
  assumes "log_ok rs" "admissible rs r"
  shows "log_ok (rs @ [r])"
proof -
  have ids: "d_id ` set (decisions rs) = d_id ` set (decs rs)"
    using decisions_ids [OF assms(1)] by (metis set_map)
  have "row_target r = Some i \<Longrightarrow> i \<in> d_id ` set (decs rs)" for i
    using assms(2) unfolding ids [symmetric] by (cases r) (auto simp: admissible_def)
  then show ?thesis
    using assms by (cases r) (auto simp: log_ok_def admissible_def)
qed

lemma grows_log_ok: "grows a b \<Longrightarrow> log_ok a \<Longrightarrow> log_ok b"
  by (induction rule: grows.induct) (auto intro: admissible_log_ok)

section \<open>The contract of an operation on the log\<close>

text \<open>\<open>needs\<close> is what the caller provides: a fresh id.\<close>

locale log_operation =
  fixes op :: "'a \<Rightarrow> log \<Rightarrow> heal_error + ('b \<times> log)"
    and needs :: "'a \<Rightarrow> log_row list \<Rightarrow> bool"
  assumes appends: "op a lg = Inr (x, lg') \<Longrightarrow> rows_of lg = Inr rs \<Longrightarrow> needs a rs
            \<Longrightarrow> \<exists>rs'. rows_of lg' = Inr rs' \<and> grows rs rs'"
begin

lemma only_appends:
  assumes "op a lg = Inr (x, lg')" "rows_of lg = Inr rs" "needs a rs"
  shows "\<exists>new. rows_of lg' = Inr (rs @ new)"
  using appends [OF assms] by (auto dest: grows_prefix)

lemma keeps_log_ok:
  assumes "op a lg = Inr (x, lg')" "rows_of lg = Inr rs" "needs a rs" "log_ok rs"
  shows "\<exists>rs'. rows_of lg' = Inr rs' \<and> log_ok rs'"
  using appends [OF assms(1-3)] assms(4) by (auto intro: grows_log_ok)

end

lemma append_row_Inr:
  "append_row e r lg = Inr lg' \<Longrightarrow> rows_of lg = Inr rs \<Longrightarrow> rows_of lg' = Inr (rs @ [r])"
  by (cases lg) (auto simp: append_row_def split: if_splits)

lemma append_find_Inr:
  assumes "append_find e i r lg = Inr (v, lg')" "rows_of lg = Inr rs"
  shows "rows_of lg' = Inr (rs @ [r])"
  using assms by (auto simp: append_find_def bind_result_eq_Inr_iff dest: append_row_Inr)

lemma word_count_strip: "blank s \<Longrightarrow> word_count s = 0"
  by (simp add: word_count_def word_count_blank)

text \<open>A decision found, its guards passed, one row appended.\<close>

lemma found_append:
  assumes "bind_result (find_decision lg i) (\<lambda>d. if P d then Inl (err d) else append_find e i r lg)
           = Inr (x, lg')" "rows_of lg = Inr rs"
  shows "rows_of lg' = Inr (rs @ [r]) \<and> (\<exists>d \<in> set (decisions rs). d_id d = i \<and> \<not> P d)"
proof -
  from assms(1) obtain d where d: "find_decision lg i = Inr d" "\<not> P d" "append_find e i r lg = Inr (x, lg')"
    by (auto simp: bind_result_eq_Inr_iff split: if_splits)
  from find_decision_RowsD [OF d(1) assms(2)] append_find_Inr [OF d(3) assms(2)] d(2)
  show ?thesis by blast
qed

lemma if_if_Inl: "(if P then Inl a else if Q then Inl b else c)
    = (if P \<or> Q then Inl (if P then a else b) else c)"
  by simp

interpretation recording: log_operation
  "\<lambda>(e, nid, d, now). record_decision e nid d now" "\<lambda>(e, nid, d, now) rs. nid \<notin> d_id ` set (decs rs)"
  by unfold_locales
    (auto simp: record_decision_def Let_def bind_result_eq_Inr_iff admissible_def
      intro!: grows_one dest!: append_row_Inr)

interpretation halting: log_operation
  "\<lambda>(e, hid, g, now). halt_network e hid g now" "\<lambda>_ _. True"
  by unfold_locales
    (auto simp: halt_network_def Let_def bind_result_eq_Inr_iff admissible_def
      intro!: grows_one dest!: append_row_Inr)

lemma take_decision_rows:
  assumes "take_decision e i by now lg = Inr (x, lg')" "rows_of lg = Inr rs"
  shows "rows_of lg' = Inr (rs @ [Taken_row i by (iso now)])" "admissible rs (Taken_row i by (iso now))"
proof -
  from found_append [OF assms(1) [unfolded take_decision_def if_if_Inl] assms(2)]
  obtain d where d: "rows_of lg' = Inr (rs @ [Taken_row i by (iso now)])" "d \<in> set (decisions rs)"
    "d_id d = i" "\<not> (d_outcome d \<notin> {O_heal, O_propose} \<or> v_taken d \<noteq> None)" by blast
  then show "rows_of lg' = Inr (rs @ [Taken_row i by (iso now)])"
    and "admissible rs (Taken_row i by (iso now))"
    by (auto simp: admissible_def simp del: not_None_eq intro!: bexI [of _ d])
qed

lemma withdraw_rows:
  assumes "withdraw e i how by now lg = Inr (x, lg')" "rows_of lg = Inr rs"
  shows "rows_of lg' = Inr (rs @ [Withdrawn_row i how by (iso now)])"
    "admissible rs (Withdrawn_row i how by (iso now))"
proof -
  from found_append [OF assms(1) [unfolded withdraw_def if_if_Inl] assms(2)]
  obtain d where d: "rows_of lg' = Inr (rs @ [Withdrawn_row i how by (iso now)])"
    "d \<in> set (decisions rs)" "d_id d = i" "\<not> (d_outcome d \<noteq> O_propose \<or> v_taken d \<noteq> None)" by blast
  then show "rows_of lg' = Inr (rs @ [Withdrawn_row i how by (iso now)])"
    and "admissible rs (Withdrawn_row i how by (iso now))"
    by (auto simp: admissible_def simp del: not_None_eq intro!: bexI [of _ d])
qed

lemma mark_decision_rows:
  assumes "mark_decision e i right by verified person why now lg = Inr (x, lg')" "rows_of lg = Inr rs"
  shows "rows_of lg' = Inr (rs @ [Mark_row i right by (strip why) (iso now)])"
    "admissible rs (Mark_row i right by (strip why) (iso now))"
proof -
  from assms(1) have "\<not> not_a_person by verified person"
    and m: "bind_result (find_decision lg i) (\<lambda>d. if d_outcome d \<noteq> O_would_heal then Inl Refused_not_dry_run
        else append_find e i (Mark_row i right by (strip why) (iso now)) lg) = Inr (x, lg')"
    by (auto simp: mark_decision_def split: if_splits)
  moreover from found_append [OF m assms(2)]
  obtain d where "rows_of lg' = Inr (rs @ [Mark_row i right by (strip why) (iso now)])"
    "d \<in> set (decisions rs)" "d_id d = i" "\<not> (d_outcome d \<noteq> O_would_heal)" by blast
  ultimately show "rows_of lg' = Inr (rs @ [Mark_row i right by (strip why) (iso now)])"
    and "admissible rs (Mark_row i right by (strip why) (iso now))"
    by (auto simp: not_a_person_def admissible_def intro!: bexI [of _ d])
qed

interpretation taking: log_operation
  "\<lambda>(e, i, by, now). take_decision e i by now" "\<lambda>_ _. True"
  by unfold_locales (auto dest: take_decision_rows intro: grows_one)

interpretation withdrawing: log_operation
  "\<lambda>(e, i, how, by, now). withdraw e i how by now" "\<lambda>_ _. True"
  by unfold_locales (auto dest: withdraw_rows intro: grows_one)

interpretation marking: log_operation
  "\<lambda>(e, i, right, by, verified, person, why, now). mark_decision e i right by verified person why now"
  "\<lambda>_ _. True"
  by unfold_locales (auto dest: mark_decision_rows intro: grows_one)

interpretation lifting: log_operation
  "\<lambda>(e, hid, by, verified, person, reason, now). lift_halt e hid by verified person reason now"
  "\<lambda>_ _. True"
  by unfold_locales
    (auto simp: lift_halt_def Let_def not_a_person_def bind_result_eq_Inr_iff admissible_def
      intro!: grows_one dest!: append_row_Inr split: if_splits)

lemma record_applied_rows:
  assumes "record_applied e i res by hid now lg = Inr (v, lg')" "rows_of lg = Inr rs"
  shows "rows_of lg' = Inr (rs @ Applied_row i res by (iso now) #
           (if res = ROLLED_BACK
            then [Halt_row \<lparr>h_id = hid, h_guard = 14, h_at = iso now, h_epoch = now\<rparr>] else []))
    \<and> (\<exists>d \<in> set (decisions rs). d_id d = i)"
  using assms
  by (auto simp: record_applied_def halt_network_def Let_def bind_result_eq_Inr_iff
      dest!: append_row_Inr find_decision_RowsD split: if_splits)

interpretation applying: log_operation
  "\<lambda>(e, i, res, by, hid, now). record_applied e i res by hid now" "\<lambda>_ _. True"
proof (unfold_locales, clarify)
  fix e i res "by" hid now lg x lg' rs
  assume a: "record_applied e i res by hid now lg = Inr (x, lg')" "rows_of lg = Inr rs"
  have "grows rs (rs @ [Applied_row i res by (iso now)])"
    using record_applied_rows [OF a] by (intro grows_one) (simp add: admissible_def)
  moreover from this have "grows rs ((rs @ [Applied_row i res by (iso now)])
      @ [Halt_row \<lparr>h_id = hid, h_guard = 14, h_at = iso now, h_epoch = now\<rparr>])"
    by (rule grows_row) (simp add: admissible_def)
  ultimately show "\<exists>rs'. rows_of lg' = Inr rs' \<and> grows rs rs'"
    using record_applied_rows [OF a] by auto
qed

section \<open>Every log that can be reached\<close>

inductive log_step :: "log \<Rightarrow> log \<Rightarrow> bool" where
  step_record: "record_decision e nid d now lg = Inr (x, lg') \<Longrightarrow> rows_of lg = Inr rs \<Longrightarrow>
     nid \<notin> d_id ` set (decs rs) \<Longrightarrow> log_step lg lg'"
| step_halt: "halt_network e hid g now lg = Inr (x, lg') \<Longrightarrow> log_step lg lg'"
| step_take: "take_decision e i by now lg = Inr (x, lg') \<Longrightarrow> log_step lg lg'"
| step_withdraw: "withdraw e i how by now lg = Inr (x, lg') \<Longrightarrow> log_step lg lg'"
| step_mark: "mark_decision e i right by verified person why now lg = Inr (x, lg') \<Longrightarrow> log_step lg lg'"
| step_lift: "lift_halt e hid by verified person reason now lg = Inr (x, lg') \<Longrightarrow> log_step lg lg'"
| step_applied: "record_applied e i res by hid now lg = Inr (x, lg') \<Longrightarrow> log_step lg lg'"

inductive log_reachable :: "log \<Rightarrow> bool" where
  log_empty: "log_reachable No_log"
| log_next: "log_reachable lg \<Longrightarrow> log_step lg lg' \<Longrightarrow> log_reachable lg'"

lemma log_step_grows:
  assumes "log_step lg lg'" "rows_of lg = Inr rs"
  shows "\<exists>rs'. rows_of lg' = Inr rs' \<and> grows rs rs'"
  using assms
proof (induction rule: log_step.induct)
  case (step_record e nid d now lg x lg' rs')
  with recording.appends [of "(e, nid, d, now)" lg x lg' rs] show ?case by simp
next
  case (step_halt e hid g now lg x lg')
  with halting.appends [of "(e, hid, g, now)" lg x lg' rs] show ?case by simp
next
  case (step_take e i "by" now lg x lg')
  with taking.appends [of "(e, i, by, now)" lg x lg' rs] show ?case by simp
next
  case (step_withdraw e i how "by" now lg x lg')
  with withdrawing.appends [of "(e, i, how, by, now)" lg x lg' rs] show ?case by simp
next
  case (step_mark e i right "by" verified person why now lg x lg')
  with marking.appends [of "(e, i, right, by, verified, person, why, now)" lg x lg' rs]
  show ?case by simp
next
  case (step_lift e hid "by" verified person reason now lg x lg')
  with lifting.appends [of "(e, hid, by, verified, person, reason, now)" lg x lg' rs]
  show ?case by simp
next
  case (step_applied e i res "by" hid now lg x lg')
  with applying.appends [of "(e, i, res, by, hid, now)" lg x lg' rs] show ?case by simp
qed

lemma log_reachable_grows: "log_reachable lg \<Longrightarrow> \<exists>rs. rows_of lg = Inr rs \<and> grows [] rs"
proof (induction rule: log_reachable.induct)
  case (log_next lg lg')
  then obtain rs where rs: "rows_of lg = Inr rs" "grows [] rs" by blast
  with log_step_grows [OF log_next(2) rs(1)] grows_trans show ?case by blast
qed (auto intro: grows_refl)

lemma log_ok_Nil [simp]: "log_ok []"
  by (simp add: log_ok_def)

lemma grows_taken_once:
  assumes "grows [] rs"
  shows "log_ok rs \<and> length (filter (takes i) rs) \<le> 1"
proof -
  have "grows a rs \<Longrightarrow> a = [] \<Longrightarrow> log_ok rs \<and> length (filter (takes i) rs) \<le> 1" for a
  proof (induction rule: grows.induct)
    case (grows_row rs rs' r)
    then have ok: "log_ok rs'" and le: "length (filter (takes i) rs') \<le> 1" by simp_all
    have "filter (takes i) rs' = []" if "takes i r"
    proof -
      from that grows_row(2) obtain v where "v \<in> set (decisions rs')" "d_id v = i" "v_taken v = None"
        by (cases r) (auto simp: admissible_def)
      with decisions_taken [OF ok] show ?thesis by (auto simp: filter_empty_conv)
    qed
    with ok le grows_row(2) show ?case by (auto intro: admissible_log_ok)
  qed simp
  with assms show ?thesis by blast
qed

section \<open>Properties of the log\<close>

text \<open>However takes, withdrawals and every other operation are ordered, a decision is taken at
  most once: a reachable log holds at most one row, a take or a withdrawal, that takes it.\<close>

lemma taken_once:
  assumes "log_reachable lg" and "rows_of lg = Inr rs"
  shows "length (filter (takes i) rs) \<le> 1"
proof -
  from log_reachable_grows [OF assms(1)] assms(2) have "grows [] rs" by auto
  then show ?thesis using grows_taken_once by blast
qed

fun lifts_of :: "log_row list \<Rightarrow> string list" where
  "lifts_of [] = []"
| "lifts_of (Lift_row i by ver why t # rs) = i # lifts_of rs"
| "lifts_of (_ # rs) = lifts_of rs"

lemma halted_from_append: "halted_from c (a @ b) = halted_from (halted_from c a) b"
  by (induction c a rule: halted_from.induct) simp_all

lemma halts_of_append [simp]: "halts_of (a @ b) = halts_of a @ halts_of b"
  by (induction a rule: halts_of.induct) simp_all

lemma halted_from_quiet:
  "halts_of rs = [] \<Longrightarrow> halted_from c rs
     = (case c of None \<Rightarrow> None | Some h \<Rightarrow> if h_id h \<in> set (lifts_of rs) then None else Some h)"
  by (induction c rs rule: halted_from.induct) (auto split: option.splits)

lemma halts_of_last:
  "halts_of rs \<noteq> [] \<Longrightarrow> \<exists>pre h post. rs = pre @ Halt_row h # post \<and> halts_of post = []"
proof (induction rs rule: halts_of.induct)
  case (2 h rs)
  show ?case
  proof (cases "halts_of rs = []")
    case True
    then show ?thesis by (intro exI [of _ "[]"] exI [of _ h] exI [of _ rs]) simp
  next
    case False
    with "2.IH" obtain pre k post where "rs = pre @ Halt_row k # post" "halts_of post = []" by blast
    then show ?thesis by (intro exI [of _ "Halt_row h # pre"] exI [of _ k] exI [of _ post]) simp
  qed
qed (auto, (metis append_Cons)+)

text \<open>The halt in force is the newest halt recorded, unless a lift of that very halt was recorded
  after it: an older halt never comes back, and the lift of another halt lifts nothing.\<close>

lemma halted_iff:
  "halted rs = Some h \<longleftrightarrow>
     (\<exists>pre post. rs = pre @ Halt_row h # post \<and> halts_of post = [] \<and> h_id h \<notin> set (lifts_of post))"
proof
  assume h: "halted rs = Some h"
  then have "halts_of rs \<noteq> []" using halted_from_quiet [of rs None] by (auto simp: halted_def)
  then obtain pre k post where rs: "rs = pre @ Halt_row k # post" "halts_of post = []"
    using halts_of_last by blast
  with h have "h_id k \<notin> set (lifts_of post) \<and> k = h"
    using halted_from_quiet [OF rs(2), of "Some k"]
    by (auto simp: halted_def halted_from_append split: if_splits)
  with rs show "\<exists>pre post. rs = pre @ Halt_row h # post \<and> halts_of post = [] \<and> h_id h \<notin> set (lifts_of post)"
    by blast
next
  assume "\<exists>pre post. rs = pre @ Halt_row h # post \<and> halts_of post = [] \<and> h_id h \<notin> set (lifts_of post)"
  then show "halted rs = Some h"
    by (auto simp: halted_def halted_from_append halted_from_quiet)
qed

lemma halted_append: "halted (rs @ [r]) = halted_from (halted rs) [r]"
  by (simp add: halted_def halted_from_append)

lemma grows_unhalted:
  "grows a b \<Longrightarrow> halted a \<noteq> None \<Longrightarrow> halted b = None \<Longrightarrow>
     \<exists>mid hid by ver reason t post. b = a @ mid @ Lift_row hid by ver reason t # post
        \<and> by \<noteq> '''' \<and> ver \<notin> {'''', ''none''} \<and> LIFT_REASON_WORDS \<le> word_count reason"
proof (induction rule: grows.induct)
  case (grows_row a b r)
  show ?case
  proof (cases "halted b = None")
    case True
    with grows_row.IH grows_row.prems(1) obtain mid hid "by" ver reason t post where
      "b = a @ mid @ Lift_row hid by ver reason t # post" "by \<noteq> ''''" "ver \<notin> {'''', ''none''}"
      "LIFT_REASON_WORDS \<le> word_count reason" by blast
    then show ?thesis
      by (intro exI [of _ mid] exI [of _ hid] exI [of _ "by"] exI [of _ ver] exI [of _ reason]
          exI [of _ t] exI [of _ "post @ [r]"]) simp
  next
    case False
    then obtain h where h: "halted b = Some h" by auto
    with grows_row.prems(2) obtain hid "by" ver reason t where r: "r = Lift_row hid by ver reason t"
      by (cases r) (auto simp: halted_append split: if_splits)
    with grows_row.hyps(2) have "by \<noteq> ''''" "ver \<notin> {'''', ''none''}"
      "LIFT_REASON_WORDS \<le> word_count reason" by (auto simp: admissible_def)
    moreover from grows_prefix [OF grows_row.hyps(1)] obtain new where "b = a @ new" by blast
    ultimately show ?thesis using r
      by (intro exI [of _ new] exI [of _ hid] exI [of _ "by"] exI [of _ ver] exI [of _ reason]
          exI [of _ t] exI [of _ "[]"]) simp
  qed
qed simp

text \<open>A halted network stays halted until a person lifts it: when an operation leaves no halt in
  force where one was, it recorded a lift, by someone named and verified, with a reason of three
  words or more.\<close>

lemma only_a_person_lifts:
  assumes "log_step lg lg'" and "rows_of lg = Inr rs" and "rows_of lg' = Inr rs'"
    and "halted rs = Some h" and "halted rs' = None"
  shows "\<exists>mid hid by ver reason t post. rs' = rs @ mid @ Lift_row hid by ver reason t # post
        \<and> by \<noteq> '''' \<and> ver \<notin> {'''', ''none''} \<and> LIFT_REASON_WORDS \<le> word_count reason"
proof -
  from log_step_grows [OF assms(1,2)] assms(3) have "grows rs rs'" by simp
  with assms(4,5) show ?thesis by (intro grows_unhalted) simp_all
qed

text \<open>A heal recorded as rolled back halts the network at once, by guard 14.\<close>

lemma rolled_back_halts:
  assumes "record_applied e i ROLLED_BACK by hid now lg = Inr (v, lg')" and "rows_of lg = Inr rs"
  shows "\<exists>rs' h. rows_of lg' = Inr rs' \<and> halted rs' = Some h \<and> h_guard h = 14 \<and> h_id h = hid"
  using record_applied_rows [OF assms] by (simp add: halted_def halted_from_append)

lemma find_decision_ok:
  assumes "rows_of lg = Inr rs" "log_ok rs" "v \<in> set (decisions rs)"
  shows "find_decision lg (d_id v) = Inr v"
proof -
  have dist: "distinct (map d_id (decisions rs))"
    using decisions_ids [OF assms(2)] assms(2) by (simp add: log_ok_def)
  obtain k where k: "find_idx (\<lambda>w. d_id w = d_id v) (decisions rs) = Some k"
    using find_idx_Some_ex [OF assms(3), of "\<lambda>w. d_id w = d_id v"] by auto
  from find_idx_SomeD [OF k] have "decisions rs ! k = v"
    using dist assms(3) by (auto simp: distinct_map inj_on_def)
  with k assms(1) show ?thesis by (simp add: find_decision_def)
qed

text \<open>A take succeeds at most once and shuts every other out: after it the decision is found
  taken by that taker, and a further take or withdrawal of it, by anyone, is refused and writes
  nothing.\<close>

lemma take_shuts_others_out:
  assumes "take_decision e i by now lg = Inr (v, lg')" and "rows_of lg = Inr rs" and "log_ok rs"
  shows "v_taken v = Some (by, iso now) \<and> d_id v = i
    \<and> take_decision e' i by' now' lg' = Inl Refused_taken
    \<and> withdraw e' i how by' now' lg' \<in> {Inl Refused_taken, Inl Refused_not_withdrawable}"
proof -
  note rows = take_decision_rows [OF assms(1,2)]
  let ?r = "Taken_row i by (iso now)"
  have ok: "log_ok (rs @ [?r])" using assms(3) rows(2) by (rule admissible_log_ok)
  from rows(2) obtain u where u: "u \<in> set (decisions rs)" "d_id u = i" "d_outcome u \<in> {O_heal, O_propose}"
    by (auto simp: admissible_def)
  let ?w = "apply_row ?r u"
  have w: "?w \<in> set (decisions (rs @ [?r]))" "d_id ?w = i" "d_outcome ?w \<in> {O_heal, O_propose}"
    "v_taken ?w = Some (by, iso now)"
    using u by (auto simp: decisions_other) (simp_all add: apply_row_def)
  from find_decision_ok [OF rows(1) ok w(1)] w(2) have f: "find_decision lg' i = Inr ?w" by simp
  have "v = ?w"
    using assms(1) f rows(1) assms(2)
    by (auto simp: take_decision_def append_find_def bind_result_eq_Inr_iff append_row_def
        split: if_splits)
  with w f show ?thesis by (auto simp: take_decision_def withdraw_def)
qed

text \<open>What is found stays found, and an outcome can always be recorded for it.\<close>

lemma find_after_row:
  assumes "rows_of lg = Inr rs" "log_ok rs" "admissible rs r" "\<not> is_decision r"
    and "v \<in> set (decisions rs)" and "rows_of lg' = Inr (rs @ [r])"
  shows "find_decision lg' (d_id v) = Inr (apply_row r v)"
proof -
  have "apply_row r v \<in> set (decisions (rs @ [r]))" using assms(4,5) by (simp add: decisions_other)
  from find_decision_ok [OF assms(6) admissible_log_ok [OF assms(2,3)] this] show ?thesis by simp
qed

lemma record_applied_succeeds:
  assumes "rows_of lg = Inr rs" "log_ok rs" "v \<in> set (decisions rs)"
  shows "\<exists>w lg'. record_applied True (d_id v) res by hid now lg = Inr (w, lg')"
proof -
  let ?r = "Applied_row (d_id v) res by (iso now)"
  let ?h = "Halt_row \<lparr>h_id = hid, h_guard = 14, h_at = iso now, h_epoch = now\<rparr>"
  have f: "find_decision lg (d_id v) = Inr v" by (rule find_decision_ok [OF assms])
  have ad: "admissible rs ?r" using assms(3) by (auto simp: admissible_def)
  have a: "append_row True ?r lg = Inr (append_to [?r] lg)" by (simp add: append_row_def)
  note r1 = append_row_Inr [OF a assms(1)]
  have v1: "apply_row ?r v \<in> set (decisions (rs @ [?r]))" using assms(3) by (simp add: decisions_other)
  have f1: "find_decision (append_to [?r] lg) (d_id v) = Inr (apply_row ?r v)"
    by (rule find_after_row [OF assms(1,2) ad _ assms(3) r1]) simp
  have b: "append_row True ?h (append_to [?r] lg) = Inr (append_to [?h] (append_to [?r] lg))"
    by (simp add: append_row_def)
  have ah: "admissible (rs @ [?r]) ?h" by (simp add: admissible_def)
  have "find_decision (append_to [?h] (append_to [?r] lg)) (d_id (apply_row ?r v)) = Inr (apply_row ?h (apply_row ?r v))"
    by (rule find_after_row [OF r1 admissible_log_ok [OF assms(2) ad] ah _ v1 append_row_Inr [OF b r1]]) simp
  then show ?thesis
    by (auto simp: record_applied_def f f1 append_row_def halt_network_def Let_def bind_result_def)
qed

section \<open>A log with a heal\<close>

definition ex_decision :: "outcome \<Rightarrow> decision" where
  "ex_decision res = \<lparr>d_id = '''', d_at = 0, d_epoch = 0, d_incident = ''i1'', d_device = ''r1'',
     d_outcome = res, d_mode = M_auto, d_policy = (''fp'', ''ann''), d_guard = None, d_units = [], d_kind = None, d_tier = 1,
     d_program_hash = ''abc'', d_removal_ids = [], d_departure = ''d1'', d_until = None\<rparr>"

definition ex_row :: log_row where
  "ex_row = Decision_row ((ex_decision O_heal)\<lparr>d_id := ''hd1'', d_at := 100, d_epoch := 100\<rparr>)"

definition ex_taken :: log_row where "ex_taken = Taken_row ''hd1'' ''H4'' 200"

lemma iso_numeral [simp]: "iso (numeral k) = numeral k"
  by (simp add: iso_def)

lemma ex_record: "record_decision True ''hd1'' (ex_decision O_heal) 100 No_log
    = Inr ((ex_decision O_heal)\<lparr>d_id := ''hd1'', d_at := 100, d_epoch := 100\<rparr>, Rows [ex_row])"
  by (simp add: record_decision_def append_row_def ex_row_def Let_def)

lemma ex_take: "\<exists>v. take_decision True ''hd1'' ''H4'' 200 (Rows [ex_row]) = Inr (v, Rows [ex_row, ex_taken])"
  by (simp add: take_decision_def find_decision_def decisions_def ex_row_def ex_decision_def
      plain_view_def decision.extend_def apply_row_def append_find_def append_row_def ex_taken_def)

lemma ex_log_reachable: "log_reachable (Rows [ex_row, ex_taken])"
proof -
  have "log_step No_log (Rows [ex_row])" by (rule step_record [OF ex_record, of "[]"]) simp_all
  moreover have "log_step (Rows [ex_row]) (Rows [ex_row, ex_taken])" using ex_take step_take by blast
  ultimately show ?thesis using log_empty log_next by blast
qed

end
