(* ===== verification/Policy.thy ===== *)
theory Policy
  imports Decisions
begin

text \<open>
  A network's heal policy (\<open>modules/heal/policy.py\<close>): what is stored, what is in force now
  (\<open>current\<close>), a change previewed and confirmed by its fingerprint (\<open>_proposed\<close>,
  \<open>plan\<close>, \<open>apply\<close>), Turn off, AUTO's expiry and the installation's kill switch. The stage a
  network is marked with (\<open>modules/sdn/modes.py\<close>) and the values the settings schema allows
  (\<open>modules/settings_schema.py\<close>) are modelled as far as they decide here.

  \<open>hash\<close> stands for \<open>_hash\<close> (the first digits of SHA-256 over the JSON text); where a
  property needs that different values hash differently, it says so. A stored mode that is none of
  the three is \<open>None\<close>; a stored expiry that is empty or will not parse is \<open>None\<close>. The stores
  are written whole by \<open>list_settings\<close> and \<open>settings_schema\<close>, and a write that they refuse is
  the argument \<open>written\<close> being false (\<open>settings_write\<close> where the installation's settings may meanwhile have
  become unreadable).

  The lemmas: what AUTO takes; a policy in force is one a verified person confirmed, within its
  tiers and its week; Turn off and the kill switch win over everything.
\<close>

section \<open>Values\<close>

datatype guard_key =
  Topology_hold_minutes | Max_devices_drifting | Person_working_changes | Person_working_minutes
| Grace_seconds | Max_per_device_hour | Max_per_network_hour | Repeat_halts_hours
| Max_removed_units | Max_units | Flap_transitions | Flap_minutes | Bounce_per_port_hour

definition GUARD_KEYS :: "guard_key list" where
  "GUARD_KEYS = [Topology_hold_minutes, Max_devices_drifting, Person_working_changes,
     Person_working_minutes, Grace_seconds, Max_per_device_hour, Max_per_network_hour,
     Repeat_halts_hours, Max_removed_units, Max_units, Flap_transitions, Flap_minutes,
     Bounce_per_port_hour]"

lemma GUARD_KEYS_all [simp]: "k \<in> set GUARD_KEYS"
  by (cases k) (simp_all add: GUARD_KEYS_def)

lemma GUARD_KEYS_distinct: "distinct GUARD_KEYS"
  by (simp add: GUARD_KEYS_def)

text \<open>The hard stops are finitely many, so two settings of them are compared by evaluation.\<close>

instantiation guard_key :: enum
begin

definition enum_guard_key :: "guard_key list" where "enum_guard_key = GUARD_KEYS"
definition enum_all_guard_key :: "(guard_key \<Rightarrow> bool) \<Rightarrow> bool" where
  "enum_all_guard_key P = list_all P GUARD_KEYS"
definition enum_ex_guard_key :: "(guard_key \<Rightarrow> bool) \<Rightarrow> bool" where
  "enum_ex_guard_key P = list_ex P GUARD_KEYS"

instance
proof
  show "UNIV = set (Enum.enum :: guard_key list)" by (auto simp: enum_guard_key_def)
  show "distinct (Enum.enum :: guard_key list)" by (simp add: enum_guard_key_def GUARD_KEYS_distinct)
  show "Enum.enum_all P = Ball UNIV P" for P :: "guard_key \<Rightarrow> bool"
    by (auto simp: enum_all_guard_key_def list_all_iff)
  show "Enum.enum_ex P = Bex UNIV P" for P :: "guard_key \<Rightarrow> bool"
    by (auto simp: enum_ex_guard_key_def list_ex_iff)
qed

end

definition ACTION_GUARD_KEYS :: "guard_key list" where
  "ACTION_GUARD_KEYS = [Flap_transitions, Flap_minutes, Bounce_per_port_hour]"

fun guard_default :: "guard_key \<Rightarrow> nat" where
  "guard_default Topology_hold_minutes = 240" | "guard_default Max_devices_drifting = 3"
| "guard_default Person_working_changes = 3" | "guard_default Person_working_minutes = 10"
| "guard_default Grace_seconds = 900" | "guard_default Max_per_device_hour = 1"
| "guard_default Max_per_network_hour = 6" | "guard_default Repeat_halts_hours = 24"
| "guard_default Max_removed_units = 1" | "guard_default Max_units = 1"
| "guard_default Flap_transitions = 3" | "guard_default Flap_minutes = 10"
| "guard_default Bounce_per_port_hour = 1"

definition lab_default :: "guard_key \<Rightarrow> nat option" where
  "lab_default k = (if k = Grace_seconds then Some 120 else if k = Topology_hold_minutes then Some 60
                    else None)"

text \<open>The schema's bounds.\<close>

fun guard_bounds :: "guard_key \<Rightarrow> nat \<times> nat option" where
  "guard_bounds Topology_hold_minutes = (0, Some 10080)" | "guard_bounds Max_devices_drifting = (1, None)"
| "guard_bounds Person_working_changes = (1, None)" | "guard_bounds Person_working_minutes = (1, Some 1440)"
| "guard_bounds Grace_seconds = (60, Some 86400)" | "guard_bounds Max_per_device_hour = (0, None)"
| "guard_bounds Max_per_network_hour = (0, None)" | "guard_bounds Repeat_halts_hours = (1, Some 720)"
| "guard_bounds Max_removed_units = (0, Some 1)" | "guard_bounds Max_units = (0, Some 1)"
| "guard_bounds Flap_transitions = (2, Some 100)" | "guard_bounds Flap_minutes = (1, Some 60)"
| "guard_bounds Bounce_per_port_hour = (0, Some 1)"

definition within_bounds :: "guard_key \<Rightarrow> nat \<Rightarrow> bool" where
  "within_bounds k n \<longleftrightarrow> fst (guard_bounds k) \<le> n
     \<and> (case snd (guard_bounds k) of None \<Rightarrow> True | Some m \<Rightarrow> n \<le> m)"

definition TIER1_KINDS :: "fix_kind list" where
  "TIER1_KINDS = [K_missing_line, K_changed_line, K_added_line, K_admin_down]"

definition TIER2_KINDS :: "fix_kind list" where
  "TIER2_KINDS = [K_process_reset, K_qos_policy, K_secret_added_back]"

definition ACTION_KINDS :: "fix_kind list" where
  "ACTION_KINDS = [K_port_bounce, K_session_clear, K_ospf_reset, K_dampening_proposal]"

record policy =
  p_mode :: "heal_mode option"
  p_until :: "iso_time option"
  p_auto :: "fix_kind list"
  p_propose :: "fix_kind list"
  p_guard :: "guard_key \<Rightarrow> nat"

section \<open>The fingerprint\<close>

type_synonym policy_view =
  "heal_mode option \<times> iso_time option \<times> fix_kind list \<times> fix_kind list \<times> (guard_key \<times> nat) list"

definition policy_view :: "policy \<Rightarrow> policy_view" where
  "policy_view p = (p_mode p, p_until p, p_auto p, p_propose p,
     map (\<lambda>k. (k, p_guard p k))
       (filter (\<lambda>k. k \<notin> set ACTION_GUARD_KEYS \<or> p_guard p k \<noteq> guard_default k) GUARD_KEYS))"

definition policy_fingerprint :: "(policy_view \<Rightarrow> string) \<Rightarrow> policy \<Rightarrow> string" where
  "policy_fingerprint hash p = hash (policy_view p)"



section \<open>What is stored, and what is in force\<close>

record confirmation =
  c_by :: string
  c_verified :: string
  c_at :: iso_time
  c_reason :: string
  c_fingerprint :: string
  c_until :: "iso_time option"

datatype settings =
  Settings_unreadable
| Settings policy "guard_key \<Rightarrow> bool" "confirmation option"   \<comment> \<open>values, which are set here, confirmed\<close>

datatype stage = Stage_unreadable | Not_marked | Stage string

definition is_lab :: "stage \<Rightarrow> bool" where "is_lab st \<longleftrightarrow> st = Stage ''lab''"

text \<open>\<open>_stage_refusal\<close>: AUTO is refused unless the network is marked lab.\<close>

definition auto_refused :: "stage \<Rightarrow> bool" where "auto_refused st \<longleftrightarrow> \<not> is_lab st"

definition guards_now :: "policy \<Rightarrow> (guard_key \<Rightarrow> bool) \<Rightarrow> bool \<Rightarrow> guard_key \<Rightarrow> nat" where
  "guards_now p set_here lab k =
     (if set_here k then p_guard p k
      else if lab then (case lab_default k of Some n \<Rightarrow> n | None \<Rightarrow> p_guard p k)
      else p_guard p k)"

datatype kill_switch = Kill_unreadable | Kill_on | Kill_off

definition stopped :: "kill_switch \<Rightarrow> bool" where "stopped k \<longleftrightarrow> k \<noteq> Kill_off"

record policy_now =
  m_mode :: heal_mode
  m_readable :: bool
  m_expired :: bool
  m_suspended :: bool
  m_stopped :: bool
  m_auto :: "fix_kind list"
  m_propose :: "fix_kind list"
  m_guards :: "(guard_key \<Rightarrow> nat) option"
  m_fingerprint :: string
  m_confirmed :: "confirmation option"

definition until_epoch :: "policy \<Rightarrow> epoch" where
  "until_epoch p = epoch_of (p_until p)"

definition current ::
    "(policy_view \<Rightarrow> string) \<Rightarrow> settings \<Rightarrow> stage \<Rightarrow> kill_switch \<Rightarrow> epoch \<Rightarrow> policy_now" where
  "current hash st stg kill now =
     (case st of
        Settings_unreadable \<Rightarrow>
          \<lparr>m_mode = M_off, m_readable = False, m_expired = False, m_suspended = False,
           m_stopped = stopped kill, m_auto = [], m_propose = [], m_guards = None,
           m_fingerprint = '''', m_confirmed = None\<rparr>
      | Settings p set_here conf \<Rightarrow>
          (let fp = policy_fingerprint hash p;
               out = \<lparr>m_mode = M_off, m_readable = True, m_expired = False, m_suspended = False,
                      m_stopped = stopped kill, m_auto = p_auto p, m_propose = p_propose p,
                      m_guards = Some (guards_now p set_here (is_lab stg)),
                      m_fingerprint = fp, m_confirmed = conf\<rparr>
           in if stopped kill then out
              else case p_mode p of
                None \<Rightarrow> out
              | Some M_off \<Rightarrow> out
              | Some md \<Rightarrow>
                  (if map_option c_fingerprint conf \<noteq> Some fp then out
                   else if md = M_auto
                   then (if until_epoch p \<le> now then out\<lparr>m_mode := M_dry_run, m_expired := True\<rparr>
                         else if auto_refused stg then out\<lparr>m_mode := M_dry_run, m_suspended := True\<rparr>
                         else out\<lparr>m_mode := M_auto\<rparr>)
                   else out\<lparr>m_mode := M_dry_run\<rparr>)))"

section \<open>A change: previewed, then confirmed\<close>

text \<open>What is sent: each value, or nothing for it.\<close>

record change =
  ch_mode :: "heal_mode option"
  ch_until :: "iso_time option option"
  ch_auto :: "fix_kind list option"
  ch_propose :: "fix_kind list option"
  ch_guard :: "guard_key \<Rightarrow> nat option"

definition or_else :: "'a option \<Rightarrow> 'a \<Rightarrow> 'a" where
  "or_else x y = (case x of None \<Rightarrow> y | Some z \<Rightarrow> z)"

definition names_something :: "change \<Rightarrow> bool" where
  "names_something ch \<longleftrightarrow> ch_mode ch \<noteq> None \<or> ch_until ch \<noteq> None \<or> ch_auto ch \<noteq> None
     \<or> ch_propose ch \<noteq> None \<or> (\<exists>k \<in> set GUARD_KEYS. ch_guard ch k \<noteq> None)"

definition MAX_AUTO_SECONDS :: epoch where "MAX_AUTO_SECONDS = 7 * 24 * 3600"

definition merged_policy :: "policy \<Rightarrow> change \<Rightarrow> policy" where
  "merged_policy before ch =
     \<lparr>p_mode = (case ch_mode ch of None \<Rightarrow> p_mode before | Some md \<Rightarrow> Some md),
      p_until = or_else (ch_until ch) (p_until before),
      p_auto = or_else (ch_auto ch) (p_auto before),
      p_propose = or_else (ch_propose ch) (p_propose before),
      p_guard = (\<lambda>k. or_else (ch_guard ch k) (p_guard before k))\<rparr>"

text \<open>The schema's part of \<open>validate\<close> that a policy's values can fail.\<close>

definition valid_values :: "policy \<Rightarrow> bool" where
  "valid_values p \<longleftrightarrow> distinct (p_auto p) \<and> distinct (p_propose p)
     \<and> (\<forall>k \<in> set GUARD_KEYS. within_bounds k (p_guard p k))"

definition proposed_policy :: "policy \<Rightarrow> change \<Rightarrow> epoch \<Rightarrow> heal_error + policy" where
  "proposed_policy before ch now =
     (if \<not> names_something ch then Inl Refused_shape
      else let merged = merged_policy before ch in
        if p_mode merged = None then Inl Refused_shape
        else let after = (if p_mode merged \<noteq> Some M_auto then merged\<lparr>p_until := None\<rparr> else merged) in
          if p_mode merged = Some M_auto \<and> p_until merged = None then Inl Refused_shape
          else if p_mode merged = Some M_auto \<and> until_epoch merged \<le> now then Inl Refused_shape
          else if p_mode merged = Some M_auto \<and> MAX_AUTO_SECONDS < until_epoch merged - now
          then Inl Refused_shape
          else if (\<exists>k \<in> set (p_auto after). k \<in> set ACTION_KINDS \<or> k \<notin> set TIER1_KINDS)
          then Inl Refused_shape
          else if (\<exists>k \<in> set (p_propose after). k \<in> set ACTION_KINDS \<or> k \<notin> set TIER2_KINDS)
          then Inl Refused_shape
          else if \<not> valid_values after then Inl Refused_shape
          else Inr after)"

datatype gate = Auto_only_on_lab | Auto_names_kinds | One_kind_at_a_time | Something_to_confirm

record operands =
  o_network :: network
  o_stage :: stage
  o_stopped :: bool
  o_before :: policy
  o_confirmed :: string
  o_after :: policy

record preview =
  pv_after :: policy
  pv_failed :: "gate list"
  pv_fingerprint :: string
  pv_operands :: operands

definition failed_gates :: "policy \<Rightarrow> policy \<Rightarrow> bool \<Rightarrow> stage \<Rightarrow> gate list" where
  "failed_gates before after in_force stg =
     (if p_mode after = Some M_auto \<and> auto_refused stg then [Auto_only_on_lab] else [])
     @ (if p_mode after = Some M_auto \<and> p_auto after = [] then [Auto_names_kinds] else [])
     @ (if 1 < length (filter (\<lambda>k. k \<notin> set (p_auto before)) (p_auto after))
        then [One_kind_at_a_time] else [])
     @ (if before = after \<and> \<not> (p_mode after \<noteq> Some M_off \<and> \<not> in_force)
        then [Something_to_confirm] else [])"

definition plan ::
    "(policy_view \<Rightarrow> string) \<Rightarrow> (operands \<Rightarrow> string) \<Rightarrow> network \<Rightarrow> settings \<Rightarrow> stage \<Rightarrow> kill_switch
     \<Rightarrow> change \<Rightarrow> epoch \<Rightarrow> heal_error + preview" where
  "plan hash hash_ops nw st stg kill ch now =
     (if nw = '''' then Inl Refused_shape
      else case st of
        Settings_unreadable \<Rightarrow> Inl Store_unreadable
      | Settings before set_here conf \<Rightarrow>
          bind_result (proposed_policy before ch now) (\<lambda>after.
            let in_force = (map_option c_fingerprint conf = Some (policy_fingerprint hash before));
                ops = \<lparr>o_network = nw, o_stage = stg, o_stopped = stopped kill, o_before = before,
                       o_confirmed = (case conf of None \<Rightarrow> '''' | Some c \<Rightarrow> c_fingerprint c),
                       o_after = after\<rparr>
            in Inr \<lparr>pv_after = after, pv_failed = failed_gates before after in_force stg,
                     pv_fingerprint = hash_ops ops, pv_operands = ops\<rparr>))"

text \<open>\<open>apply\<close>: re-planned under the network's lock. \<open>written\<close> is whether the store took it.\<close>

definition apply_change ::
    "(policy_view \<Rightarrow> string) \<Rightarrow> (operands \<Rightarrow> string) \<Rightarrow> network \<Rightarrow> stage \<Rightarrow> kill_switch \<Rightarrow> change
     \<Rightarrow> string \<Rightarrow> string \<Rightarrow> string \<Rightarrow> bool \<Rightarrow> string \<Rightarrow> bool \<Rightarrow> epoch \<Rightarrow> settings
     \<Rightarrow> heal_error + settings" where
  "apply_change hash hash_ops nw stg kill ch fp actor verified person reason written now st =
     (if not_a_person actor verified person then Inl Not_a_person
      else if strip reason = '''' then Inl Refused_no_reason
      else bind_result (plan hash hash_ops nw st stg kill ch now) (\<lambda>p.
        if pv_failed p \<noteq> [] then Inl Refused_not_confirmable
        else if pv_fingerprint p \<noteq> fp then Inl Refused_moved
        else if \<not> written then Inl Refused_not_saved
        else case st of
          Settings_unreadable \<Rightarrow> Inl Store_unreadable
        | Settings before set_here conf \<Rightarrow>
            Inr (Settings (pv_after p) (\<lambda>k. set_here k \<or> ch_guard ch k \<noteq> None)
              (Some \<lparr>c_by = actor, c_verified = verified, c_at = iso now, c_reason = strip reason,
                     c_fingerprint = policy_fingerprint hash (pv_after p),
                     c_until = p_until (pv_after p)\<rparr>))))"

definition turn_off :: "network \<Rightarrow> string \<Rightarrow> bool \<Rightarrow> settings \<Rightarrow> heal_error + (bool \<times> settings)" where
  "turn_off nw actor written st =
     (if nw = '''' \<or> actor = '''' then Inl Refused_shape
      else case st of
        Settings_unreadable \<Rightarrow> Inr (False, st)
      | Settings p set_here conf \<Rightarrow>
          (if p_mode p = Some M_off then Inr (False, st)
           else if \<not> written then Inl Refused_not_saved
           else Inr (True, Settings (p\<lparr>p_mode := Some M_off, p_until := None\<rparr>) set_here conf)))"

text \<open>\<open>record_expiry\<close>: the fingerprints whose expiry is recorded, or nothing where the record
  cannot be read.\<close>

definition record_expiry :: "policy_now \<Rightarrow> string list option \<Rightarrow> bool \<times> string list option" where
  "record_expiry md rows =
     (if \<not> m_expired md then (False, rows)
      else case rows of
        None \<Rightarrow> (False, None)
      | Some fps \<Rightarrow>
          (let fp = (case m_confirmed md of None \<Rightarrow> '''' | Some c \<Rightarrow> c_fingerprint c) in
           if fp \<in> set fps then (False, rows) else (True, Some (fps @ [fp]))))"

section \<open>The kill switch\<close>

text \<open>A write of the installation's settings: done, refused, or met settings that can no longer be read.\<close>

datatype settings_write = Was_written | Write_refused | Write_unreadable

definition stop_everywhere :: "string \<Rightarrow> settings_write \<Rightarrow> kill_switch \<Rightarrow> heal_error + (bool \<times> kill_switch)" where
  "stop_everywhere actor written kill =
     (if actor = '''' then Inl Refused_shape
      else if stopped kill then Inr (False, kill)
      else case written of
        Write_unreadable \<Rightarrow> Inr (False, Kill_unreadable)
      | Write_refused \<Rightarrow> Inl Refused_not_saved
      | Was_written \<Rightarrow> Inr (True, Kill_on))"

text \<open>A stop that answers leaves self-healing stopped, whether it wrote or found nothing to write.\<close>

lemma stop_is_stopped: "stop_everywhere actor written kill = Inr (wrote, kill') \<Longrightarrow> stopped kill'"
  by (auto simp: stop_everywhere_def stopped_def split: settings_write.splits if_splits)

type_synonym resume_operands = "(iso_time \<times> string) \<times> (network \<times> heal_mode) list"

text \<open>The networks in order, each with its settings and its stage; \<open>at_by\<close> is when and by whom
  self-healing was stopped.\<close>

definition resume_plan ::
    "(policy_view \<Rightarrow> string) \<Rightarrow> (iso_time \<times> string) \<Rightarrow> (network \<times> settings \<times> stage) list \<Rightarrow> kill_switch
     \<Rightarrow> epoch \<Rightarrow> heal_error + resume_operands" where
  "resume_plan hash at_by nets kill now =
     (case kill of
        Kill_unreadable \<Rightarrow> Inl Store_unreadable
      | Kill_off \<Rightarrow> Inl Refused_nothing_to_resume
      | Kill_on \<Rightarrow> Inr (at_by, map (\<lambda>(nw, st, stg). (nw, m_mode (current hash st stg Kill_off now))) nets))"

definition resume ::
    "(policy_view \<Rightarrow> string) \<Rightarrow> (resume_operands \<Rightarrow> string) \<Rightarrow> (iso_time \<times> string)
     \<Rightarrow> (network \<times> settings \<times> stage) list \<Rightarrow> string \<Rightarrow> string \<Rightarrow> string \<Rightarrow> bool \<Rightarrow> string \<Rightarrow> settings_write
     \<Rightarrow> epoch \<Rightarrow> kill_switch \<Rightarrow> heal_error + kill_switch" where
  "resume hash hash_res at_by nets fp actor verified person reason written now kill =
     (if not_a_person actor verified person then Inl Not_a_person
      else if strip reason = '''' then Inl Refused_no_reason
      else bind_result (resume_plan hash at_by nets kill now) (\<lambda>p.
        if hash_res p \<noteq> fp then Inl Refused_moved
        else if written \<noteq> Was_written then Inl Refused_not_saved
        else Inr Kill_off))"

section \<open>What is in force\<close>

lemma current_fields:
  "m_mode (current hash st stg kill now) =
     (case st of
        Settings_unreadable \<Rightarrow> M_off
      | Settings p set_here conf \<Rightarrow>
          if stopped kill \<or> p_mode p = None \<or> p_mode p = Some M_off
             \<or> map_option c_fingerprint conf \<noteq> Some (policy_fingerprint hash p) then M_off
          else if p_mode p = Some M_auto \<and> now < until_epoch p \<and> is_lab stg then M_auto
          else M_dry_run)"
  by (auto simp: current_def Let_def auto_refused_def split: settings.splits option.splits heal_mode.splits)

text \<open>AUTO runs exactly when the kill switch is read and off, the policy is read, its mode is
  AUTO, the values are the ones a person confirmed, AUTO's expiry is not past, and the network is
  marked lab; whatever else is the case, it does not.\<close>

lemma auto_in_force_iff:
  "m_mode (current hash st stg kill now) = M_auto \<longleftrightarrow>
     (\<exists>p set_here c. st = Settings p set_here (Some c) \<and> kill = Kill_off \<and> p_mode p = Some M_auto
        \<and> c_fingerprint c = policy_fingerprint hash p \<and> now < until_epoch p \<and> stg = Stage ''lab'')"
  by (auto simp: current_fields stopped_def is_lab_def split: settings.splits if_splits)

text \<open>Turn off, whether it writes or finds nothing to write, leaves self-healing off for the
  network at every later moment, whatever the stage and the kill switch: a policy that cannot be
  read is off as well.\<close>

lemma turn_off_is_off:
  assumes "turn_off nw actor written st = Inr (wrote, st')"
  shows "m_mode (current hash st' stg kill later) = M_off"
  using assms by (auto simp: turn_off_def current_fields split: settings.splits if_splits)

section \<open>Every policy that can be reached\<close>


definition within_tiers :: "policy \<Rightarrow> bool" where
  "within_tiers p \<longleftrightarrow> set (p_auto p) \<subseteq> set TIER1_KINDS \<and> set (p_propose p) \<subseteq> set TIER2_KINDS
     \<and> valid_values p"



lemma proposed_policy_ok:
  assumes "proposed_policy before ch now = Inr after"
  shows "within_tiers after
    \<and> (p_mode after = Some M_auto \<longrightarrow> now < until_epoch after \<and> until_epoch after \<le> now + MAX_AUTO_SECONDS)"
proof -
  let ?m = "merged_policy before ch"
  have after: "after = (if p_mode ?m \<noteq> Some M_auto then ?m\<lparr>p_until := None\<rparr> else ?m)"
    and auto: "p_mode ?m = Some M_auto \<Longrightarrow> now < until_epoch ?m \<and> until_epoch ?m - now \<le> MAX_AUTO_SECONDS"
    and kinds: "\<forall>k \<in> set (p_auto after). k \<in> set TIER1_KINDS" "\<forall>k \<in> set (p_propose after). k \<in> set TIER2_KINDS"
    and valid: "valid_values after"
    using assms by (auto simp: proposed_policy_def Let_def not_less not_le split: if_splits)
  from after have "p_mode after = Some M_auto \<Longrightarrow> after = ?m" by (auto split: if_splits)
  with auto kinds valid show ?thesis by (auto simp: within_tiers_def)
qed

lemma apply_changeE:
  assumes "apply_change hash hash_ops nw stg kill ch fp actor verified person reason written now st = Inr st'"
  obtains before s c after where "st = Settings before s c" "proposed_policy before ch now = Inr after"
    "st' = Settings after (\<lambda>k. s k \<or> ch_guard ch k \<noteq> None)
       (Some \<lparr>c_by = actor, c_verified = verified, c_at = iso now, c_reason = strip reason,
              c_fingerprint = policy_fingerprint hash after, c_until = p_until after\<rparr>)"
    "\<not> not_a_person actor verified person" "strip reason \<noteq> ''''" "written" "failed_gates before after
       (map_option c_fingerprint c = Some (policy_fingerprint hash before)) stg = []"
  using assms
  by (auto simp: apply_change_def plan_def bind_result_eq_Inr_iff Let_def
      split: if_splits settings.splits)



text \<open>A confirmed change allows at most one more Tier 1 kind AUTO than before it, and never AUTO
  on a network not marked lab or with no kind to heal.\<close>

lemma one_kind_at_a_time:
  assumes "apply_change hash hash_ops nw stg kill ch fp actor verified person reason written now
             (Settings before s c) = Inr (Settings after s' c')"
  shows "length (filter (\<lambda>k. k \<notin> set (p_auto before)) (p_auto after)) \<le> 1
    \<and> (p_mode after = Some M_auto \<longrightarrow> is_lab stg \<and> p_auto after \<noteq> [])"
  using assms by (rule apply_changeE) (auto simp: failed_gates_def auto_refused_def split: if_splits)

text \<open>A confirmed change is in force from the moment it is saved: the mode now is the mode
  confirmed, with nothing left to confirm.\<close>

lemma confirmed_is_in_force:
  assumes "apply_change hash hash_ops nw stg Kill_off ch fp actor verified person reason written now st = Inr st'"
  shows "\<exists>p s c. st' = Settings p s c \<and> p_mode p = Some (m_mode (current hash st' stg Kill_off now))"
  using assms
proof (rule apply_changeE)
  fix before s c after
  assume a: "proposed_policy before ch now = Inr after"
    "st' = Settings after (\<lambda>k. s k \<or> ch_guard ch k \<noteq> None)
       (Some \<lparr>c_by = actor, c_verified = verified, c_at = iso now, c_reason = strip reason,
              c_fingerprint = policy_fingerprint hash after, c_until = p_until after\<rparr>)"
    "failed_gates before after (map_option c_fingerprint c = Some (policy_fingerprint hash before)) stg = []"
  have some: "p_mode after \<noteq> None"
    using a(1) by (auto simp: proposed_policy_def Let_def split: if_splits)
  have "p_mode after = Some M_auto \<longrightarrow> now < until_epoch after \<and> is_lab stg"
    using proposed_policy_ok [OF a(1)] a(3) by (auto simp: failed_gates_def auto_refused_def split: if_splits)
  with some a(2) show ?thesis
    by (cases "p_mode after"; cases "the (p_mode after)") (auto simp: current_fields stopped_def)
qed

section \<open>A network being switched on, then off\<close>


definition ex_auto_policy :: policy where
  "ex_auto_policy = \<lparr>p_mode = Some M_auto, p_until = Some 90000, p_auto = [K_missing_line],
     p_propose = [K_qos_policy], p_guard = guard_default\<rparr>"



definition ex_auto_settings :: settings where
  "ex_auto_settings = Settings ex_auto_policy (\<lambda>k. False)
     (Some \<lparr>c_by = ''ann'', c_verified = ''password'', c_at = 3600, c_reason = ''lab week'', c_fingerprint = ''auto'',
            c_until = Some 90000\<rparr>)"







end
