(* ===== verification/Hold.thy ===== *)
theory Hold
  imports Attribution Policy
begin

text \<open>
  The topology hold (\<open>modules/heal/hold.py\<close>): a recent change of Mercury's on a device or on one
  committed intent names as its neighbour, an onboarding, a retirement or a link-set change in the
  network holds the device from healing for \<open>heal_topology_hold_minutes\<close>.

  Each source is read in a \<open>try\<close>: one that raises is \<open>Inl ()\<close> and is named in \<open>unreadable\<close>. Times
  are as in \<open>Attribution\<close>; a retirement's and the link set's is 0 where none is recorded. The
  sentences are not modelled.

  The lemmas: a device is held exactly when the minutes or a source cannot be read, or a recorded
  change is within the window; the hold names when it ends, and it ends then.
\<close>

section \<open>The hold\<close>

text \<open>\<open>minutes\<close>: the network's own policy's, the lab default included.\<close>

definition hold_minutes :: "policy_now \<Rightarrow> nat option" where
  "hold_minutes md = (if \<not> m_readable md then None
                      else map_option (\<lambda>g. g Topology_hold_minutes) (m_guards md))"

datatype what_changed =
  A_receipt device | A_rotation device | An_onboarding | A_retirement | The_link_set

datatype hold_source =
  Neighbours | Receipts_of device | Rotations | Onboarding | Retirements | Link_set

record hold_sources =
  hs_neighbours :: "device list source"
  hs_receipts :: "device \<Rightarrow> iso_time option list source"
  hs_rotations :: "(device \<Rightarrow> epoch option) source"
  hs_onboarding :: "iso_time option list source"
  hs_retirements :: "epoch list source"
  hs_link_set :: "epoch option source"

type_synonym hold_change = "epoch \<times> what_changed"

definition hold_devices :: "hold_sources \<Rightarrow> device \<Rightarrow> device list" where
  "hold_devices src d = d # or_empty (hs_neighbours src)"

fun names_unread :: "hold_source \<Rightarrow> 'a source \<Rightarrow> hold_source list" where
  "names_unread n (Inl _) = [n]" | "names_unread n (Inr _) = []"

text \<open>Every recorded change, and every source that could not be read, in the order they are read.\<close>

definition recorded :: "hold_sources \<Rightarrow> device \<Rightarrow> hold_change list" where
  "recorded src d =
     concat (map (\<lambda>x. map (\<lambda>r. (epoch_of r, A_receipt x)) (or_empty (hs_receipts src x)))
               (hold_devices src d))
     @ (case hs_rotations src of Inl _ \<Rightarrow> []
        | Inr rot \<Rightarrow> concat (map (\<lambda>x. case rot x of None \<Rightarrow> [] | Some t \<Rightarrow> [(t, A_rotation x)])
                              (hold_devices src d)))
     @ map (\<lambda>r. (epoch_of r, An_onboarding)) (or_empty (hs_onboarding src))
     @ map (\<lambda>t. (t, A_retirement)) (or_empty (hs_retirements src))
     @ (case or_none (hs_link_set src) of None \<Rightarrow> [] | Some t \<Rightarrow> [(t, The_link_set)])"

definition unread :: "hold_sources \<Rightarrow> device \<Rightarrow> hold_source list" where
  "unread src d =
     names_unread Neighbours (hs_neighbours src)
     @ concat (map (\<lambda>x. names_unread (Receipts_of x) (hs_receipts src x)) (hold_devices src d))
     @ names_unread Rotations (hs_rotations src)
     @ names_unread Onboarding (hs_onboarding src)
     @ names_unread Retirements (hs_retirements src)
     @ names_unread Link_set (hs_link_set src)"

definition in_hold :: "epoch \<Rightarrow> epoch \<Rightarrow> hold_change \<Rightarrow> bool" where
  "in_hold since now c \<longleftrightarrow> fst c \<noteq> 0 \<and> since \<le> fst c \<and> fst c \<le> now"

record hold_answer =
  ha_held :: bool
  ha_until :: "iso_time option"
  ha_changes :: "hold_change list"
  ha_unread :: "hold_source list"

definition hold_window :: "nat \<Rightarrow> epoch" where "hold_window mins = real mins * 60"

definition topology :: "nat option \<Rightarrow> hold_sources \<Rightarrow> device \<Rightarrow> epoch \<Rightarrow> hold_answer" where
  "topology minutes src d now =
     (case minutes of
        None \<Rightarrow> \<lparr>ha_held = True, ha_until = None, ha_changes = [], ha_unread = []\<rparr>
      | Some mins \<Rightarrow>
          (let window = hold_window mins;
               changes = sort_key (\<lambda>c. - fst c) (filter (in_hold (now - window) now) (recorded src d))
           in if unread src d \<noteq> []
              then \<lparr>ha_held = True, ha_until = None, ha_changes = changes, ha_unread = unread src d\<rparr>
              else case changes of
                c # _ \<Rightarrow> \<lparr>ha_held = True, ha_until = Some (iso (fst c + window)),
                           ha_changes = changes, ha_unread = []\<rparr>
              | [] \<Rightarrow> \<lparr>ha_held = False, ha_until = None, ha_changes = [], ha_unread = []\<rparr>))"

section \<open>When it holds, and until when\<close>

lemma topology_held_iff:
  "ha_held (topology minutes src d now) \<longleftrightarrow>
     (case minutes of None \<Rightarrow> True
      | Some mins \<Rightarrow> unread src d \<noteq> []
          \<or> (\<exists>c \<in> set (recorded src d). in_hold (now - hold_window mins) now c))"
proof (cases minutes)
  case (Some mins)
  let ?cs = "sort_key (\<lambda>c. - fst c) (filter (in_hold (now - hold_window mins) now) (recorded src d))"
  have e: "set ?cs = {c \<in> set (recorded src d). in_hold (now - hold_window mins) now c}"
    unfolding set_sort by auto
  show ?thesis using e Some by (cases ?cs) (auto simp: topology_def Let_def)
qed (simp add: topology_def)

lemma sorted_key_head:
  "sort_key f xs = y # ys \<Longrightarrow> x \<in> set xs \<Longrightarrow> f y \<le> f x"
proof -
  assume a: "sort_key f xs = y # ys" "x \<in> set xs"
  have "sorted (map f (sort_key f xs))" by simp
  moreover have "x \<in> set (y # ys)" using a set_sort [of f xs] by auto
  ultimately show ?thesis using a(1) by auto
qed

lemma topology_until:
  assumes "ha_until (topology (Some mins) src d now) = Some u"
  obtains c where "c \<in> set (recorded src d)" "in_hold (now - hold_window mins) now c"
    "\<And>c'. c' \<in> set (recorded src d) \<Longrightarrow> in_hold (now - hold_window mins) now c' \<Longrightarrow> fst c' \<le> fst c"
    "u = iso (fst c + hold_window mins)" "unread src d = []"
proof -
  let ?fs = "filter (in_hold (now - hold_window mins) now) (recorded src d)"
  let ?cs = "sort_key (\<lambda>c. - fst c) ?fs"
  have u: "unread src d = []" using assms by (auto simp: topology_def Let_def split: if_splits)
  with assms obtain c cs where c: "?cs = c # cs" by (cases ?cs) (auto simp: topology_def Let_def)
  have "set (c # cs) = set ?fs" unfolding c [symmetric] set_sort by simp
  then have m: "c \<in> set ?fs" by auto
  have le: "fst c' \<le> fst c" if "c' \<in> set ?fs" for c'
    using sorted_key_head [OF c that] by simp
  show ?thesis
  proof (rule that)
    show "c \<in> set (recorded src d)" "in_hold (now - hold_window mins) now c" using m by auto
    show "fst c' \<le> fst c" if "c' \<in> set (recorded src d)" "in_hold (now - hold_window mins) now c'" for c'
      using le that by simp
    show "u = iso (fst c + hold_window mins)" using assms u c by (simp add: topology_def Let_def)
  qed (rule u)
qed

text \<open>The hold fails closed: a device is free of it only when the policy's minutes and every
  record could be read (its committed neighbours, the receipts of it and of each of them, the
  rotations, onboardings, retirements and the link set), and no recorded change is within the
  window.\<close>

lemma not_held_iff:
  "\<not> ha_held (topology (hold_minutes md) src d now) \<longleftrightarrow>
     (\<exists>mins peers rot on ret ls. hold_minutes md = Some mins \<and> hs_neighbours src = Inr peers
        \<and> hs_rotations src = Inr rot \<and> hs_onboarding src = Inr on \<and> hs_retirements src = Inr ret
        \<and> hs_link_set src = Inr ls
        \<and> list_all (\<lambda>x. \<exists>rs. hs_receipts src x = Inr rs) (d # peers)
        \<and> list_all (\<lambda>c. \<not> in_hold (now - hold_window mins) now c) (recorded src d))"
proof -
  have n: "names_unread k s = [] \<longleftrightarrow> (\<exists>y. s = Inr y)" for k and s :: "'z source"
    by (cases s) auto
  have r: "unread src d = [] \<longleftrightarrow> (\<exists>peers rot on ret ls. hs_neighbours src = Inr peers
        \<and> hs_rotations src = Inr rot \<and> hs_onboarding src = Inr on \<and> hs_retirements src = Inr ret
        \<and> hs_link_set src = Inr ls \<and> (\<forall>x \<in> set (d # peers). \<exists>rs. hs_receipts src x = Inr rs))"
    by (cases "hs_neighbours src") (auto simp: unread_def hold_devices_def n)
  show ?thesis unfolding topology_held_iff using r
    by (cases "hold_minutes md") (simp_all add: list_all_iff, blast)
qed

text \<open>A hold that names its end holds until then and no longer: it is the newest change's
  window, and with the same records, none of them dated later, the device is held at every moment
  until a second before the end named, and free a second after it.\<close>

lemma hold_ends:
  assumes "ha_until (topology (Some mins) src d now) = Some u"
    and "list_all (\<lambda>c. fst c \<le> now) (recorded src d)" and "now \<le> later"
  shows "(later \<le> epoch_of (Some u) \<longrightarrow> ha_held (topology (Some mins) src d later))
    \<and> (epoch_of (Some u) + 1 < later \<longrightarrow> \<not> ha_held (topology (Some mins) src d later))"
proof -
  from assms(1) obtain c where c: "c \<in> set (recorded src d)" "in_hold (now - hold_window mins) now c"
    "\<And>c'. c' \<in> set (recorded src d) \<Longrightarrow> in_hold (now - hold_window mins) now c' \<Longrightarrow> fst c' \<le> fst c"
    "u = iso (fst c + hold_window mins)" "unread src d = []" by (rule topology_until) blast
  have u: "epoch_of (Some u) \<le> fst c + hold_window mins"
    "fst c + hold_window mins < epoch_of (Some u) + 1"
    unfolding c(4) using epoch_of_iso_le epoch_of_iso_gt [of "fst c + hold_window mins"] by auto
  have "ha_held (topology (Some mins) src d later)" if "later \<le> epoch_of (Some u)"
  proof -
    have "in_hold (later - hold_window mins) later c" using c(2) u that assms(3) by (simp add: in_hold_def)
    with c(1) show ?thesis unfolding topology_held_iff by auto
  qed
  moreover have "\<not> ha_held (topology (Some mins) src d later)" if l: "epoch_of (Some u) + 1 < later"
  proof -
    have "\<not> in_hold (later - hold_window mins) later c'" if c': "c' \<in> set (recorded src d)" for c'
    proof
      assume w: "in_hold (later - hold_window mins) later c'"
      have "fst c' \<le> now" using assms(2) c' by (simp add: list_all_iff)
      with w assms(3) have "in_hold (now - hold_window mins) now c'" by (auto simp: in_hold_def)
      then have "fst c' \<le> fst c" using c(3) c' by blast
      with w u l show False by (simp add: in_hold_def)
    qed
    with c(5) show ?thesis unfolding topology_held_iff by auto
  qed
  ultimately show ?thesis by blast
qed

definition ex_hold_sources :: hold_sources where
  "ex_hold_sources = \<lparr>hs_neighbours = Inr [''R2''],
     hs_receipts = (\<lambda>x. Inr (if x = ''R2'' then [Some 1000, Some 4000] else [None])),
     hs_rotations = Inr (\<lambda>x. if x = ''R1'' then Some 3000 else None),
     hs_onboarding = Inr [], hs_retirements = Inr [0], hs_link_set = Inr None\<rparr>"

lemma ex_hold_recorded: "recorded ex_hold_sources ''R1'' =
    [(0, A_receipt ''R1''), (1000, A_receipt ''R2''), (4000, A_receipt ''R2''),
     (3000, A_rotation ''R1''), (0, A_retirement)]"
  by (simp add: recorded_def ex_hold_sources_def hold_devices_def epoch_of_def)

lemma ex_hold_until: "ha_until (topology (Some 60) ex_hold_sources ''R1'' 5000) = Some 7600"
proof -
  have "unread ex_hold_sources ''R1'' = []"
    by (simp add: unread_def ex_hold_sources_def hold_devices_def)
  then show ?thesis
    by (simp add: topology_def Let_def ex_hold_recorded in_hold_def hold_window_def iso_def)
qed

end
