(* ===== verification/Guards.thy ===== *)
theory Guards
  imports Hold Kinds
begin

text \<open>
  The hard stops and guards (\<open>modules/heal/guards.py\<close>), in section 6's order. Each answers nothing
  (it does not apply) or a hit: its number, what the decision does, and until when. A guard that
  cannot be read applies. The sentences and the operands they show are not modelled, the numbers
  compared are.

  Planned work (guard 3) is answered by \<open>restarts.explained_by\<close> (the end of the window that explains
  the device, or nothing), \<open>device_ops.holder\<close> (is it held?) and \<open>change_windows.holding\<close>, which are
  arguments. The tier (guard 13) is \<open>Decide\<close>'s last step.

  The locale \<open>guard\<close> is what the decision asks of every guard: it answers exactly when its condition
  applies, under its own number, with one of the outcomes the module's table gives it. Each guard
  interprets it.
\<close>

section \<open>A guard's answer\<close>

record hit =
  hit_guard :: nat
  hit_outcome :: outcome
  hit_until :: "epoch option"

definition hit_of :: "nat \<Rightarrow> outcome \<Rightarrow> epoch option \<Rightarrow> hit" where
  "hit_of n out until = \<lparr>hit_guard = n, hit_outcome = out, hit_until = until\<rparr>"

lemma hit_of_simps [simp]:
  "hit_guard (hit_of n out until) = n" "hit_outcome (hit_of n out until) = out"
  "hit_until (hit_of n out until) = until"
  by (simp_all add: hit_of_def)

text \<open>The first of several guards that applies.\<close>

fun first_hit :: "hit option list \<Rightarrow> hit option" where
  "first_hit [] = None"
| "first_hit (None # hs) = first_hit hs"
| "first_hit (Some h # hs) = Some h"

lemma first_hit_None: "first_hit hs = None \<longleftrightarrow> (\<forall>h \<in> set hs. h = None)"
  by (induction hs rule: first_hit.induct) auto

lemma first_hit_Some:
  "first_hit hs = Some h \<longleftrightarrow> (\<exists>i < length hs. hs ! i = Some h \<and> (\<forall>j < i. hs ! j = None))"
proof (induction hs rule: first_hit.induct)
  case (2 hs)
  show ?case
  proof
    assume "first_hit (None # hs) = Some h"
    with 2 obtain i where "i < length hs" "hs ! i = Some h" "\<forall>j < i. hs ! j = None" by auto
    then show "\<exists>i < length (None # hs). (None # hs) ! i = Some h \<and> (\<forall>j < i. (None # hs) ! j = None)"
      by (intro exI [of _ "Suc i"]) (auto simp: less_Suc_eq_0_disj)
  next
    assume "\<exists>i < length (None # hs). (None # hs) ! i = Some h \<and> (\<forall>j < i. (None # hs) ! j = None)"
    then obtain i where i: "i < length (None # hs)" "(None # hs) ! i = Some h" "\<forall>j < i. (None # hs) ! j = None"
      by blast
    then obtain k where k: "i = Suc k" by (cases i) auto
    have "\<forall>j < k. hs ! j = None" using i(3) k by (auto dest: spec [of _ "Suc _"])
    with i k 2 show "first_hit (None # hs) = Some h" by auto
  qed
next
  case (3 g hs)
  show ?case
  proof
    assume "first_hit (Some g # hs) = Some h"
    then show "\<exists>i < length (Some g # hs). (Some g # hs) ! i = Some h \<and> (\<forall>j < i. (Some g # hs) ! j = None)"
      by (intro exI [of _ 0]) simp
  next
    assume "\<exists>i < length (Some g # hs). (Some g # hs) ! i = Some h \<and> (\<forall>j < i. (Some g # hs) ! j = None)"
    then obtain i where i: "(Some g # hs) ! i = Some h" "\<forall>j < i. (Some g # hs) ! j = None" by blast
    then show "first_hit (Some g # hs) = Some h" by (cases i) auto
  qed
qed simp

section \<open>What the decision asks of a guard\<close>

locale guard =
  fixes number :: nat and outs :: "outcome set"
    and applies :: "'s \<Rightarrow> bool" and answer :: "'s \<Rightarrow> hit option"
  assumes answers_iff: "answer s \<noteq> None \<longleftrightarrow> applies s"
    and named: "answer s = Some h \<Longrightarrow> hit_guard h = number \<and> hit_outcome h \<in> outs"
begin

lemma passes_iff: "answer s = None \<longleftrightarrow> \<not> applies s"
  using answers_iff by blast

lemma stops: "answer s = Some h \<Longrightarrow> applies s \<and> hit_guard h = number \<and> hit_outcome h \<in> outs"
  using answers_iff [of s] named by simp

lemma first_in_chain:
  "first_hit (map (\<lambda>g. g s) gs @ answer s # rest) = Some h \<Longrightarrow> \<forall>g \<in> set gs. g s = None \<Longrightarrow> applies s
     \<Longrightarrow> hit_guard h = number"
proof (induction gs)
  case Nil
  then show ?case by (cases "answer s") (auto simp: answers_iff [symmetric] dest: named)
qed simp

end

section \<open>Before any read: guards 1 to 3\<close>

definition g1_kill_switch :: "policy_now \<Rightarrow> hit option" where
  "g1_kill_switch md = (if m_stopped md then Some (hit_of 1 O_off None) else None)"

definition g2_mode :: "policy_now \<Rightarrow> heal_error + halt option \<Rightarrow> hit option" where
  "g2_mode md hlt =
     (if m_mode md = M_off then Some (hit_of 2 O_off None)
      else case hlt of
        Inl _ \<Rightarrow> Some (hit_of 2 O_halted None)
      | Inr (Some h) \<Rightarrow> Some (hit_of 2 O_halted None)
      | Inr None \<Rightarrow> None)"

definition SETTLE_SECONDS :: epoch where "SETTLE_SECONDS = 1140"

record planned =
  pl_explained :: "epoch option source"   \<comment> \<open>the end of the window that explains the device\<close>
  pl_holder :: "bool source"
  pl_window :: bool

definition g3_planned :: "planned \<Rightarrow> epoch \<Rightarrow> hit option" where
  "g3_planned pl now =
     (case pl_explained pl of
        Inl _ \<Rightarrow> Some (hit_of 3 O_held (Some (now + 60)))
      | Inr (Some e) \<Rightarrow> Some (hit_of 3 O_held (Some (e + SETTLE_SECONDS)))
      | Inr None \<Rightarrow>
     (case pl_holder pl of
        Inl _ \<Rightarrow> Some (hit_of 3 O_held (Some (now + 60)))
      | Inr True \<Rightarrow> Some (hit_of 3 O_held (Some (now + 60)))
      | Inr False \<Rightarrow>
          (if pl_window pl then Some (hit_of 3 O_held (Some (now + 15 * 60))) else None)))"

definition no_planned_work :: "planned \<Rightarrow> bool" where
  "no_planned_work pl \<longleftrightarrow> pl_explained pl = Inr None \<and> pl_holder pl = Inr False \<and> \<not> pl_window pl"

section \<open>The approved state and the hold: guards 4 and 5\<close>

datatype golden_state = G_at_intent | G_departs | G_unknown

definition g4_golden :: "golden_state \<Rightarrow> hit option" where
  "g4_golden st = (if st = G_at_intent then None else Some (hit_of 4 O_held None))"

definition g5_topology :: "hold_answer \<Rightarrow> epoch \<Rightarrow> hit option" where
  "g5_topology ha now =
     (if \<not> ha_held ha then None
      else Some (hit_of 5 O_held (Some (or_num (epoch_of (ha_until ha)) (now + 15 * 60)))))"

section \<open>Many devices, a person, the grace period: guards 6 to 8\<close>

definition departing :: "incident list \<Rightarrow> epoch \<Rightarrow> epoch \<Rightarrow> device list" where
  "departing incs now grace_s =
     remdups (map i_device (filter (\<lambda>i. i_cause i = Change \<and> now - grace_s \<le> i_opened_epoch i
                                         \<and> i_opened_epoch i \<le> now) incs))"

definition g6_many :: "incident list \<Rightarrow> epoch \<Rightarrow> epoch \<Rightarrow> nat \<Rightarrow> hit option" where
  "g6_many incs now grace_s most =
     (if most < length (departing incs now grace_s) then Some (hit_of 6 O_held None) else None)"

definition recent_changes :: "incident \<Rightarrow> epoch \<Rightarrow> nat \<Rightarrow> epoch list" where
  "recent_changes inc now mins =
     filter (\<lambda>t. now - real mins * 60 \<le> t \<and> t \<le> now) (outside_changes (inc\<lparr>i_defer_until := None\<rparr>))"

text \<open>At least one change holds it (the schema's minimum), so the newest is one of them.\<close>

definition g7_person :: "incident \<Rightarrow> epoch \<Rightarrow> nat \<Rightarrow> nat \<Rightarrow> hit option" where
  "g7_person inc now changes mins =
     (if changes \<le> length (recent_changes inc now mins)
      then Some (hit_of 7 O_held (Some (Max (set (recent_changes inc now mins)) + real mins * 60)))
      else None)"

definition g8_grace :: "incident \<Rightarrow> epoch \<Rightarrow> hit option" where
  "g8_grace inc clock =
     (case map_option s_how (i_settled inc) of
        Some Persisted \<Rightarrow> None
      | Some At_golden \<Rightarrow> None
      | Some Not_checkable \<Rightarrow> Some (hit_of 8 O_cant_fix None)
      | Some Unreadable \<Rightarrow> Some (hit_of 8 O_cant_fix None)
      | _ \<Rightarrow> Some (hit_of 8 O_held (Some (clock + 60))))"

section \<open>The rates: guards 9 to 11\<close>

definition counted :: "dview list \<Rightarrow> outcome \<Rightarrow> epoch \<Rightarrow> dview list" where
  "counted ds out since = filter (\<lambda>d. d_outcome d = out \<and> since \<le> d_epoch d) ds"

definition g9_device_rate :: "dview list \<Rightarrow> device \<Rightarrow> outcome \<Rightarrow> epoch \<Rightarrow> nat \<Rightarrow> hit option" where
  "g9_device_rate ds dev out now most =
     (if most \<le> length (filter (\<lambda>d. d_device d = dev) (counted ds out (now - 3600)))
      then Some (hit_of 9 O_held None) else None)"

definition g10_network_rate :: "dview list \<Rightarrow> outcome \<Rightarrow> epoch \<Rightarrow> nat \<Rightarrow> hit option" where
  "g10_network_rate ds out now most =
     (if most \<le> length (counted ds out (now - 3600)) then Some (hit_of 10 O_halted None) else None)"

definition healed_before :: "dview list \<Rightarrow> device \<Rightarrow> string \<Rightarrow> outcome \<Rightarrow> epoch \<Rightarrow> nat \<Rightarrow> bool" where
  "healed_before ds dev dep out now hours \<longleftrightarrow> dep \<noteq> ''''
     \<and> filter (\<lambda>d. d_device d = dev \<and> d_departure d = dep) (counted ds out (now - real hours * 3600)) \<noteq> []"

definition g11_repeat :: "dview list \<Rightarrow> device \<Rightarrow> string \<Rightarrow> outcome \<Rightarrow> epoch \<Rightarrow> nat \<Rightarrow> hit option" where
  "g11_repeat ds dev dep out now hours =
     (if healed_before ds dev dep out now hours then Some (hit_of 11 O_halted None) else None)"

section \<open>The program's size and a rolled-back heal: guards 12 and 14\<close>

definition unit_section :: "'a dunit_scheme \<Rightarrow> string" where
  "unit_section u = (if u_chain u \<noteq> [] then hd (u_chain u)
                     else if u_stanza u then hd (u_lines u) else ''the global configuration'')"

definition g12_size :: "'a dunit_scheme list \<Rightarrow> nat \<Rightarrow> nat \<Rightarrow> hit option" where
  "g12_size us most_removed most_sections =
     (if most_removed < length (filter (\<lambda>u. u_op u = Op_remove) us)
      then Some (hit_of 12 O_cant_fix None)
      else if most_sections < length (remdups (map unit_section us))
      then Some (hit_of 12 O_cant_fix None)
      else None)"

definition rolled_back_since :: "dview \<Rightarrow> device \<Rightarrow> epoch \<Rightarrow> bool" where
  "rolled_back_since d dev last_halt \<longleftrightarrow> d_device d = dev
     \<and> (case v_applied d of None \<Rightarrow> False
        | Some (res, by, t) \<Rightarrow> res = ROLLED_BACK \<and> last_halt < epoch_of (Some t))"

definition g14_rolled_back :: "dview list \<Rightarrow> device \<Rightarrow> epoch \<Rightarrow> hit option" where
  "g14_rolled_back ds dev last_halt =
     (if filter (\<lambda>d. rolled_back_since d dev last_halt) ds \<noteq> [] then Some (hit_of 14 O_halted None)
      else None)"

section \<open>Every guard keeps the contract\<close>

interpretation g1: guard 1 "{O_off}" m_stopped g1_kill_switch
  by unfold_locales (auto simp: g1_kill_switch_def split: if_splits)

interpretation g2: guard 2 "{O_off, O_halted}"
  "\<lambda>(md, hlt). m_mode md = M_off \<or> hlt \<noteq> Inr None" "\<lambda>(md, hlt). g2_mode md hlt"
  by unfold_locales (auto simp: g2_mode_def split: if_splits sum.splits option.splits)

interpretation g3: guard 3 "{O_held}" "\<lambda>(pl, now). \<not> no_planned_work pl" "\<lambda>(pl, now). g3_planned pl now"
  by unfold_locales (auto simp: g3_planned_def no_planned_work_def split: if_splits sum.splits option.splits bool.splits)

interpretation g4: guard 4 "{O_held}" "\<lambda>st. st \<noteq> G_at_intent" g4_golden
  by unfold_locales (auto simp: g4_golden_def split: if_splits)

interpretation g5: guard 5 "{O_held}" "\<lambda>(ha, now). ha_held ha" "\<lambda>(ha, now). g5_topology ha now"
  by unfold_locales (auto simp: g5_topology_def split: if_splits)

interpretation g6: guard 6 "{O_held}"
  "\<lambda>(incs, now, grace_s, most). most < length (departing incs now grace_s)"
  "\<lambda>(incs, now, grace_s, most). g6_many incs now grace_s most"
  by unfold_locales (auto simp: g6_many_def split: if_splits)

interpretation g7: guard 7 "{O_held}"
  "\<lambda>(inc, now, changes, mins). changes \<le> length (recent_changes inc now mins)"
  "\<lambda>(inc, now, changes, mins). g7_person inc now changes mins"
  by unfold_locales (auto simp: g7_person_def split: if_splits)

interpretation g8: guard 8 "{O_held, O_cant_fix}"
  "\<lambda>(inc, clock). map_option s_how (i_settled inc) \<notin> {Some Persisted, Some At_golden}"
  "\<lambda>(inc, clock). g8_grace inc clock"
  by unfold_locales (auto simp: g8_grace_def split: option.splits grace_state.splits)

interpretation g9: guard 9 "{O_held}"
  "\<lambda>(ds, dev, out, now, most). most \<le> length (filter (\<lambda>d. d_device d = dev) (counted ds out (now - 3600)))"
  "\<lambda>(ds, dev, out, now, most). g9_device_rate ds dev out now most"
  by unfold_locales (auto simp: g9_device_rate_def split: if_splits)

interpretation g10: guard 10 "{O_halted}"
  "\<lambda>(ds, out, now, most). most \<le> length (counted ds out (now - 3600))"
  "\<lambda>(ds, out, now, most). g10_network_rate ds out now most"
  by unfold_locales (auto simp: g10_network_rate_def split: if_splits)

interpretation g11: guard 11 "{O_halted}"
  "\<lambda>(ds, dev, dep, out, now, hours). healed_before ds dev dep out now hours"
  "\<lambda>(ds, dev, dep, out, now, hours). g11_repeat ds dev dep out now hours"
  by unfold_locales (auto simp: g11_repeat_def split: if_splits)

interpretation g12: guard 12 "{O_cant_fix}"
  "\<lambda>(us, most_removed, most_sections).
     most_removed < length (filter (\<lambda>u. u_op u = Op_remove) us)
     \<or> most_sections < length (remdups (map unit_section us))"
  "\<lambda>(us, most_removed, most_sections). g12_size us most_removed most_sections"
  by unfold_locales (auto simp: g12_size_def split: if_splits)

interpretation g14: guard 14 "{O_halted}"
  "\<lambda>(ds, dev, last_halt). \<exists>d \<in> set ds. rolled_back_since d dev last_halt"
  "\<lambda>(ds, dev, last_halt). g14_rolled_back ds dev last_halt"
  by unfold_locales (auto simp: g14_rolled_back_def filter_empty_conv split: if_splits)

text \<open>What passing each guard means, and what stopping at one does.\<close>

lemmas guards_pass =
  g1.passes_iff g2.passes_iff [of "(md, hlt)" for md hlt, simplified]
  g3.passes_iff [of "(pl, now)" for pl now, simplified] g4.passes_iff
  g5.passes_iff [of "(ha, now)" for ha now, simplified]
  g6.passes_iff [of "(incs, now, grace_s, most)" for incs now grace_s most, simplified]
  g7.passes_iff [of "(inc, now, changes, mins)" for inc now changes mins, simplified]
  g8.passes_iff [of "(inc, clock)" for inc clock, simplified]
  g9.passes_iff [of "(ds, dev, out, now, most)" for ds dev out now most, simplified]
  g10.passes_iff [of "(ds, out, now, most)" for ds out now most, simplified]
  g11.passes_iff [of "(ds, dev, dep, out, now, hours)" for ds dev dep out now hours, simplified]
  g12.passes_iff [of "(us, most_removed, most_sections)" for us most_removed most_sections, simplified]
  g14.passes_iff [of "(ds, dev, last_halt)" for ds dev last_halt, simplified]

end
