(* ===== verification/Recreate.thy ===== *)
theory Recreate
  imports Removal "HOL-Library.Sublist"
begin

text \<open>
  Changing an IP SLA operation that is running (\<open>nsot/recreate.py\<close>): IOS refuses to modify one in
  place, so the program deletes it, defines it again from intent and schedules it, and the ordinary
  merge never sees it.

  A configuration is its lines. What the source asks elsewhere are arguments: whether the delete is
  measured for the platform (\<open>_unmeasured\<close>), whether a line of the device names an operation (the
  patterns of \<open>_dependents\<close>), and, as for every merge, the canonical form of a line and the lines held at a default.

  The lemmas: the operations planned are the ones both sides define differently; what is left for
  the merge defines none of them; what is left out is only those operations' lines.
\<close>

section \<open>An operation's lines\<close>

text \<open>\<open>HEADER\<close> and \<open>SCHEDULE\<close>.\<close>

definition sla_number :: "line \<Rightarrow> string option" where
  "sla_number l =
     (let d = drop 7 l in
      if starts ''ip sla '' l \<and> d \<noteq> [] \<and> list_all is_digit d then Some d else None)"

definition sla_schedule :: "line \<Rightarrow> string option" where
  "sla_schedule l =
     (let r = drop 16 l; d = takeWhile is_digit r; rest = dropWhile is_digit r in
      if starts ''ip sla schedule '' l \<and> d \<noteq> [] \<and> (rest = [] \<or> \<not> word_char (hd rest))
      then Some d else None)"

definition indented :: "line \<Rightarrow> bool" where "indented l \<longleftrightarrow> starts '' '' l"

record sla =
  op_body :: "line list"
  op_schedule :: "line list"

definition no_sla :: sla where "no_sla = \<lparr>op_body = [], op_schedule = []\<rparr>"

fun op_update :: "string \<Rightarrow> (sla \<Rightarrow> sla) \<Rightarrow> (string \<times> sla) list \<Rightarrow> (string \<times> sla) list" where
  "op_update n f [] = [(n, f no_sla)]"
| "op_update n f ((m, x) # xs) = (if m = n then (m, f x) # xs else (m, x) # op_update n f xs)"

fun ops_loop :: "line list \<Rightarrow> string option \<Rightarrow> (string \<times> sla) list \<Rightarrow> (string \<times> sla) list" where
  "ops_loop [] current ops = ops"
| "ops_loop (raw # raws) current ops =
     (let l = rstrip raw in
      if strip l = '''' then ops_loop raws current ops
      else if strip l = ''!'' then ops_loop raws None ops
      else if \<not> indented l then
        (case sla_number l of
           Some n \<Rightarrow> ops_loop raws (Some n) (op_update n (\<lambda>x. x) ops)
         | None \<Rightarrow>
        (case sla_schedule l of
           Some n \<Rightarrow> ops_loop raws None (op_update n (\<lambda>x. x\<lparr>op_schedule := op_schedule x @ [l]\<rparr>) ops)
         | None \<Rightarrow> ops_loop raws None ops))
      else
        (case current of
           Some n \<Rightarrow> ops_loop raws current (op_update n (\<lambda>x. x\<lparr>op_body := op_body x @ [l]\<rparr>) ops)
         | None \<Rightarrow> ops_loop raws None ops))"

definition operations :: "line list \<Rightarrow> (string \<times> sla) list" where
  "operations ls = ops_loop ls None []"

definition same_sla :: "sla \<Rightarrow> sla \<Rightarrow> bool" where
  "same_sla a b \<longleftrightarrow> map strip (op_body a) = map strip (op_body b)
     \<and> map strip (op_schedule a) = map strip (op_schedule b)"

definition sla_fragment :: "string \<Rightarrow> sla \<Rightarrow> line list" where
  "sla_fragment n x = [''ip sla '' @ n] @ op_body x @ op_schedule x"

section \<open>The plan\<close>

fun digits_value :: "nat \<Rightarrow> string \<Rightarrow> nat" where
  "digits_value v [] = v"
| "digits_value v (c # cs) = digits_value (10 * v + (of_char c - 48)) cs"

definition changed_running :: "line list \<Rightarrow> line list \<Rightarrow> string \<Rightarrow> bool" where
  "changed_running intended captured n \<longleftrightarrow>
     (case (map_of (operations intended) n, map_of (operations captured) n) of
        (Some new, Some old) \<Rightarrow> op_body new \<noteq> [] \<and> op_body old \<noteq> [] \<and> \<not> same_sla new old
      | _ \<Rightarrow> False)"

record recreate_plan =
  rc_units :: "string list"
  rc_refused :: "string list"
  rc_commands :: "line list"

record recreate_env =
  re_unmeasured :: "string \<Rightarrow> bool"
  re_names :: "string \<Rightarrow> line \<Rightarrow> bool"

text \<open>\<open>merge_commands\<close> over two configurations: their chains, and the lines held at a default.\<close>

definition merge_of ::
    "(line \<Rightarrow> line) \<Rightarrow> (path list \<Rightarrow> path list \<Rightarrow> path set) \<Rightarrow> line list \<Rightarrow> line list \<Rightarrow> line list" where
  "merge_of canon holds intended captured =
     (let i = section_chains canon intended; c = section_chains canon captured in merge_commands i c (holds i c))"

definition definition_program ::
    "(line \<Rightarrow> line) \<Rightarrow> (path list \<Rightarrow> path list \<Rightarrow> path set) \<Rightarrow> string \<Rightarrow> sla \<Rightarrow> line list" where
  "definition_program canon holds n x = merge_of canon holds (sla_fragment n x) []"

definition recreate_refused :: "recreate_env \<Rightarrow> line list \<Rightarrow> string \<Rightarrow> bool" where
  "recreate_refused env captured n \<longleftrightarrow> re_unmeasured env n
     \<or> (\<exists>l \<in> set (map rstrip (filter (\<lambda>l. l \<noteq> '''' \<and> \<not> indented l) captured)). re_names env n l)"

definition recreate_plan ::
    "recreate_env \<Rightarrow> (line \<Rightarrow> line) \<Rightarrow> (path list \<Rightarrow> path list \<Rightarrow> path set) \<Rightarrow> line list \<Rightarrow> line list
     \<Rightarrow> recreate_plan" where
  "recreate_plan env canon holds intended captured =
     (let both = sort_key (digits_value 0)
                   (filter (\<lambda>n. n \<in> fst ` set (operations captured)) (map fst (operations intended)));
          changed = filter (changed_running intended captured) both;
          units = filter (\<lambda>n. \<not> recreate_refused env captured n) changed
      in \<lparr>rc_units = units, rc_refused = filter (recreate_refused env captured) changed,
          rc_commands = concat (map (\<lambda>n. (''no ip sla '' @ n)
             # definition_program canon holds n (the (map_of (operations intended) n))) units)\<rparr>)"

section \<open>What is left for the merge\<close>

fun exclude_loop :: "string set \<Rightarrow> line list \<Rightarrow> bool \<Rightarrow> line list" where
  "exclude_loop numbers [] skipping = []"
| "exclude_loop numbers (raw # raws) skipping =
     (if raw \<noteq> '''' \<and> \<not> indented raw then
        (let skip = (case sla_number (rstrip raw) of Some n \<Rightarrow> n \<in> numbers | None \<Rightarrow> False) in
         if skip \<or> (case sla_schedule (rstrip raw) of Some n \<Rightarrow> n \<in> numbers | None \<Rightarrow> False)
         then exclude_loop numbers raws skip
         else raw # exclude_loop numbers raws skip)
      else if skipping then exclude_loop numbers raws skipping
      else raw # exclude_loop numbers raws skipping)"

definition exclude :: "line list \<Rightarrow> string list \<Rightarrow> line list" where
  "exclude ls numbers = (if numbers = [] then ls else exclude_loop (set numbers) ls False)"

section \<open>What they promise\<close>

lemma exclude_loop_subseq: "subseq (exclude_loop ns ls skipping) ls"
proof (induction ls arbitrary: skipping)
  case (Cons raw raws)
  have "subseq (exclude_loop ns raws b) (raw # raws)" "subseq (raw # exclude_loop ns raws b) (raw # raws)" for b
    using Cons by (simp_all add: list_emb_Cons)
  then show ?case by (cases raw) (simp_all add: Let_def)
qed simp

lemma exclude_subseq: "subseq (exclude ls ns) ls"
  by (simp add: exclude_def exclude_loop_subseq)

definition names_sla :: "string set \<Rightarrow> line \<Rightarrow> bool" where
  "names_sla ns l \<longleftrightarrow> (\<exists>n \<in> ns. sla_number l = Some n \<or> sla_schedule l = Some n)"

lemma starts_indented: "indented l \<Longrightarrow> sla_number l = None \<and> sla_schedule l = None"
  by (cases l) (auto simp: indented_def starts_def sla_number_def sla_schedule_def Let_def)

lemma rstrip_Nil: "rstrip [] = []"
  by (simp add: rstrip_def)

lemma rstrip_keeps_head:
  assumes "rstrip l \<noteq> []"
  shows "\<exists>t. l = rstrip l @ t"
proof -
  have "rev (takeWhile is_space (rev l) @ dropWhile is_space (rev l)) = l" by simp
  then have "l = rstrip l @ rev (takeWhile is_space (rev l))" by (simp only: rev_append rstrip_def)
  then show ?thesis by blast
qed

lemma sla_of_rstrip:
  "\<not> (raw \<noteq> [] \<and> \<not> indented raw) \<Longrightarrow> sla_number (rstrip raw) = None \<and> sla_schedule (rstrip raw) = None"
proof (cases "rstrip raw = []")
  case True
  then show ?thesis by (simp add: sla_number_def sla_schedule_def starts_def)
next
  case False
  assume a: "\<not> (raw \<noteq> [] \<and> \<not> indented raw)"
  from rstrip_keeps_head [OF False] obtain t where t: "raw = rstrip raw @ t" by blast
  with False a have i: "indented raw" by (auto simp: rstrip_Nil)
  have "indented (rstrip raw)"
  proof (cases "rstrip raw")
    case (Cons c cs)
    with t have "hd raw = c" "raw \<noteq> []" by (metis append_Cons list.sel(1), auto)
    with i Cons show ?thesis by (cases raw) (auto simp: indented_def starts_def)
  qed (use False in simp)
  then show ?thesis by (rule starts_indented)
qed

lemma exclude_loop_names:
  "l \<in> set (exclude_loop ns ls skipping) \<Longrightarrow> \<not> names_sla ns (rstrip l)"
proof (induction ns ls skipping rule: exclude_loop.induct)
  case (2 ns raw raws skipping)
  show ?case
  proof (cases "raw \<noteq> [] \<and> \<not> indented raw")
    case True
    with 2 show ?thesis
      by (cases "sla_number (rstrip raw)"; cases "sla_schedule (rstrip raw)")
        (auto simp: names_sla_def Let_def split: if_splits)
  next
    case False
    with 2 sla_of_rstrip [OF False] show ?thesis by (auto simp: names_sla_def split: if_splits)
  qed
qed simp

lemma op_update_keys: "fst ` set (op_update n f ops) = insert n (fst ` set ops)"
  by (induction n f ops rule: op_update.induct) auto

lemma ops_loop_keys:
  "\<lbrakk>n \<in> fst ` set (ops_loop ls current ops); \<forall>c. current = Some c \<longrightarrow> c \<in> fst ` set ops\<rbrakk>
   \<Longrightarrow> n \<in> fst ` set ops \<or> (\<exists>l \<in> set ls. names_sla {n} (rstrip l))"
proof (induction ls arbitrary: current ops)
  case (Cons raw raws)
  let ?l = "rstrip raw"
  have keys: "\<forall>c. current = Some c \<longrightarrow> c \<in> fst ` set ops" by (rule Cons.prems(2))
  let ?goal = "n \<in> fst ` set ops \<or> (\<exists>l \<in> set (raw # raws). names_sla {n} (rstrip l))"
  have no: "?goal" if "n \<in> fst ` set (ops_loop raws None ops)" using Cons.IH [OF that] by auto
  have same: "?goal" if "n \<in> fst ` set (ops_loop raws current ops)" using Cons.IH [OF that keys] by auto
  have upd: "?goal" if "n \<in> fst ` set (ops_loop raws cur (op_update m f ops))"
    "cur = Some m \<or> cur = None" "names_sla {m} ?l \<or> m \<in> fst ` set ops" for m f cur
    using Cons.IH [OF that(1)] that(2,3) by (auto simp: op_update_keys)
  have num: "names_sla {m} ?l" if "sla_number ?l = Some m \<or> sla_schedule ?l = Some m" for m
    using that by (simp add: names_sla_def)
  note p = Cons.prems(1) [unfolded ops_loop.simps Let_def]
  show ?case
  proof (cases "strip ?l = '''' \<or> strip ?l = ''!''")
    case outer: True
    show ?thesis
    proof (cases "strip ?l = ''''")
      case True with p show ?thesis by (intro same) simp
    next
      case False with outer p show ?thesis by (intro no) simp
    qed
  next
    case blank: False
    show ?thesis
    proof (cases "indented ?l")
      case i: True
      show ?thesis
      proof (cases current)
        case None with blank i p no show ?thesis by simp
      next
        case (Some m)
        with keys have "m \<in> fst ` set ops" by simp
        with Some blank i p show ?thesis by (intro upd [of current m]) simp_all
      qed
    next
      case i: False
      show ?thesis
      proof (cases "sla_number ?l")
        case n: None
        show ?thesis
        proof (cases "sla_schedule ?l")
          case None with n blank i p no show ?thesis by simp
        next
          case s: (Some m)
          with n blank i p num show ?thesis by (intro upd [of None m]) simp_all
        qed
      next
        case (Some m)
        with blank i p num show ?thesis by (intro upd [of "Some m" m]) simp_all
      qed
    qed
  qed
qed simp

text \<open>The ordinary merge never edits a running operation in place: an operation that both intent
  and the device define, differently, is deleted and defined again or refused with its reason, and
  what is left for the merge defines it no more. Everything else is left as it was written, in its
  order.\<close>

lemma in_place_edit_never_merged:
  assumes "map_of (operations intended) n = Some new" "map_of (operations captured) n = Some old"
    and "op_body new \<noteq> []" "op_body old \<noteq> []" "\<not> same_sla new old"
  shows "(n \<in> set (rc_units (recreate_plan env canon holds intended captured))
            \<longleftrightarrow> n \<notin> set (rc_refused (recreate_plan env canon holds intended captured)))
    \<and> n \<notin> fst ` set (operations (exclude intended
          (rc_units (recreate_plan env canon holds intended captured)
           @ rc_refused (recreate_plan env canon holds intended captured))))
    \<and> subseq (exclude intended (rc_units (recreate_plan env canon holds intended captured)
           @ rc_refused (recreate_plan env canon holds intended captured))) intended"
proof -
  let ?p = "recreate_plan env canon holds intended captured"
  have "n \<in> fst ` set (operations intended)" "n \<in> fst ` set (operations captured)"
    using assms(1,2) by (auto dest!: map_of_SomeD intro: rev_image_eqI)
  moreover have "changed_running intended captured n" using assms by (simp add: changed_running_def)
  ultimately have p: "n \<in> set (rc_units ?p) \<longleftrightarrow> n \<notin> set (rc_refused ?p)"
    by (auto simp: recreate_plan_def Let_def)
  let ?ns = "rc_units ?p @ rc_refused ?p"
  have "n \<notin> fst ` set (operations (exclude intended ?ns))"
  proof
    assume "n \<in> fst ` set (operations (exclude intended ?ns))"
    then obtain l where l: "l \<in> set (exclude intended ?ns)" "names_sla {n} (rstrip l)"
      using ops_loop_keys [of n "exclude intended ?ns" None "[]"] by (auto simp: operations_def)
    have ns: "?ns \<noteq> []" "n \<in> set ?ns" using p by auto
    from l(1) ns(1) have "l \<in> set (exclude_loop (set ?ns) intended False)"
      by (simp only: exclude_def if_False)
    then have "\<not> names_sla (set ?ns) (rstrip l)" by (rule exclude_loop_names)
    with l(2) ns(2) show False by (auto simp: names_sla_def)
  qed
  with p exclude_subseq show ?thesis by blast
qed

text \<open>The lines of an operation are the configuration's own: its header is there when it has a body.\<close>

definition op_from :: "line set \<Rightarrow> string \<Rightarrow> sla \<Rightarrow> bool" where
  "op_from L n x \<longleftrightarrow> set (op_body x) \<subseteq> L \<and> set (op_schedule x) \<subseteq> L
     \<and> (op_body x \<noteq> [] \<longrightarrow> ''ip sla '' @ n \<in> L)"

definition ops_from :: "line set \<Rightarrow> (string \<times> sla) list \<Rightarrow> bool" where
  "ops_from L ops \<longleftrightarrow> list_all (\<lambda>(n, x). op_from L n x) ops"

lemma sla_number_line:
  assumes "sla_number l = Some n"
  shows "l = ''ip sla '' @ n"
proof -
  have "starts ''ip sla '' l" "n = drop 7 l"
    using assms unfolding sla_number_def Let_def by (metis option.distinct(1), metis option.distinct(1) option.inject)
  moreover from this(1) have "take 7 l = ''ip sla ''" by (simp add: starts_def eval_nat_numeral)
  ultimately show ?thesis by (metis append_take_drop_id)
qed

lemma op_update_from:
  assumes "ops_from L ops" and "\<And>x. op_from L n x \<Longrightarrow> op_from L n (f x)"
  shows "ops_from L (op_update n f ops)"
proof -
  have "op_from L n no_sla" by (simp add: op_from_def no_sla_def)
  with assms show ?thesis by (induction n f ops rule: op_update.induct) (auto simp: ops_from_def)
qed

lemma ops_loop_from:
  assumes "ops_from L ops" "\<forall>c. current = Some c \<longrightarrow> ''ip sla '' @ c \<in> L" "rstrip ` set ls \<subseteq> L"
  shows "ops_from L (ops_loop ls current ops)"
  using assms
proof (induction ls arbitrary: current ops)
  case (Cons raw raws)
  let ?l = "rstrip raw"
  have l: "?l \<in> L" and raws: "rstrip ` set raws \<subseteq> L" using Cons.prems(3) by auto
  note ih = Cons.IH [OF _ _ raws]
  have none: "ops_from L (ops_loop raws None ops)" by (rule ih [OF Cons.prems(1)]) simp
  have same: "ops_from L (ops_loop raws current ops)" by (rule ih [OF Cons.prems(1,2)])
  have num: "ops_from L (ops_loop raws (Some m) (op_update m (\<lambda>x. x) ops))" if "sla_number ?l = Some m" for m
  proof (rule ih)
    show "ops_from L (op_update m (\<lambda>x. x) ops)" by (rule op_update_from [OF Cons.prems(1)])
    show "\<forall>c. Some m = Some c \<longrightarrow> ''ip sla '' @ c \<in> L" using l sla_number_line [OF that] by simp
  qed
  have sched: "ops_from L (ops_loop raws None (op_update m (\<lambda>x. x\<lparr>op_schedule := op_schedule x @ [?l]\<rparr>) ops))" for m
    by (rule ih [OF op_update_from [OF Cons.prems(1)]]) (use l in \<open>auto simp: op_from_def\<close>)
  have body: "ops_from L (ops_loop raws current (op_update n (\<lambda>x. x\<lparr>op_body := op_body x @ [?l]\<rparr>) ops))"
    if "current = Some n" for n
  proof (rule ih [OF op_update_from [OF Cons.prems(1)] Cons.prems(2)])
    fix x assume x: "op_from L n x"
    have "''ip sla '' @ n \<in> L" using Cons.prems(2) that by blast
    with x l show "op_from L n (x\<lparr>op_body := op_body x @ [?l]\<rparr>)" by (simp add: op_from_def)
  qed
  show ?case
    unfolding ops_loop.simps Let_def using none same num sched body by (simp split: option.split)
qed simp

lemma operation_lines:
  assumes "map_of (operations ls) n = Some x" "op_body x \<noteq> []"
  shows "set (sla_fragment n x) \<subseteq> rstrip ` set ls"
proof -
  have "ops_from (rstrip ` set ls) (operations ls)"
    unfolding operations_def by (rule ops_loop_from) (simp_all add: ops_from_def)
  with map_of_SomeD [OF assms(1)] have "op_from (rstrip ` set ls) n x" by (auto simp: ops_from_def list_all_iff)
  with assms(2) show ?thesis by (auto simp: op_from_def sla_fragment_def)
qed

lemma recreate_command:
  assumes "x \<in> set (rc_commands (recreate_plan env canon holds intended captured))"
  obtains n op where "changed_running intended captured n" "map_of (operations intended) n = Some op" "op_body op \<noteq> []"
    "x = ''no ip sla '' @ n \<or> x \<in> set (definition_program canon holds n op)"
proof -
  from assms obtain n where n: "changed_running intended captured n"
    "x = ''no ip sla '' @ n \<or> x \<in> set (definition_program canon holds n (the (map_of (operations intended) n)))"
    by (auto simp: recreate_plan_def Let_def)
  from n(1) obtain op where "map_of (operations intended) n = Some op" "op_body op \<noteq> []"
    by (auto simp: changed_running_def split: option.splits)
  with n that show thesis by simp
qed

definition ex_recreate_env :: recreate_env where
  "ex_recreate_env = \<lparr>re_unmeasured = (\<lambda>_. False), re_names = (\<lambda>_ _. False)\<rparr>"

end
