(* ===== verification/Program.thy ===== *)
theory Program
  imports Kinds Recreate
begin

text \<open>
  The heal's program (\<open>program\<close> of \<open>modules/heal/decide.py\<close>, \<open>_program\<close> of \<open>routes/deploy.py\<close>,
  \<open>_subtree_fragment\<close> of \<open>nsot/removal.py\<close>): the golden's own lines for each missing or changed
  unit, merged, then the running operations defined again, then the removals the units name.

  A configuration is its lines. \<open>pe_stored\<close> is \<open>strip_for_repo\<close>, \<open>pe_held\<close> the lines the device
  holds at a default it never prints (\<open>classify_diff\<close>), \<open>pe_hash\<close> the fingerprint of the commands
  and the ids selected; the rest are the arguments of the components.

  The lemmas: every line of the program is the golden's own, leaves a level, or takes back a line
  the device holds; nothing is made up.
\<close>

section \<open>The golden's own lines under the units\<close>

definition covered :: "chain list \<Rightarrow> path \<Rightarrow> bool" where
  "covered heads p \<longleftrightarrow> (\<exists>h \<in> set heads. take (length h) (full_path p) = h)"

definition new_heads :: "chain \<Rightarrow> chain list \<Rightarrow> chain list" where
  "new_heads c seen = filter (\<lambda>h. h \<notin> set seen) (map (\<lambda>k. take (Suc k) c) [0..<length c])"

fun fragment_loop :: "chain list \<Rightarrow> path list \<Rightarrow> chain list \<Rightarrow> line list" where
  "fragment_loop heads [] seen = []"
| "fragment_loop heads (p # ps) seen =
     (if \<not> covered heads p then fragment_loop heads ps seen
      else let hs = new_heads (fst p) seen; seen = seen @ hs in
        map last hs @ (if full_path p \<in> set seen then fragment_loop heads ps seen
                       else snd p # fragment_loop heads ps (seen @ [full_path p])))"

definition subtree_fragment :: "(line \<Rightarrow> line) \<Rightarrow> path list \<Rightarrow> line list \<Rightarrow> line list" where
  "subtree_fragment canon us config =
     fragment_loop (map (\<lambda>u. map canon (full_path u)) us) (section_chains canon config) []"

section \<open>The program\<close>

record program_env =
  pe_removal :: removal_env
  pe_recreate :: recreate_env
  pe_stored :: "line list \<Rightarrow> line list"
  pe_held :: "path list \<Rightarrow> path list \<Rightarrow> path set"
  pe_hash :: "line list \<Rightarrow> string list \<Rightarrow> string"

definition paths_in :: "program_env \<Rightarrow> line list \<Rightarrow> path list" where
  "paths_in env ls = section_chains (e_canon (pe_removal env)) ls"

definition merge_text :: "program_env \<Rightarrow> line list \<Rightarrow> line list \<Rightarrow> line list" where
  "merge_text env intended captured =
     merge_of (e_canon (pe_removal env)) (pe_held env) intended captured"

text \<open>\<open>_program\<close>.\<close>

definition deploy_program_of ::
    "program_env \<Rightarrow> line list \<Rightarrow> line list \<Rightarrow> string list \<Rightarrow> string \<Rightarrow> deploy_program" where
  "deploy_program_of env intended captured selected mgmt_ip =
     (let rc = recreate_plan (pe_recreate env) (e_canon (pe_removal env)) (pe_held env) intended captured;
          merge = merge_text env (exclude intended (rc_units rc @ rc_refused rc)) captured;
          full = with_removals (pe_removal env) merge (paths_in env captured)
                   (map Id_of selected) mgmt_ip
      in full\<lparr>dp_commands := merge @ rc_commands rc @ dp_removals full\<rparr>)"

record heal_program =
  hp_commands :: "line list"
  hp_removals :: "line list"
  hp_refused :: "(path \<times> refusal) list"
  hp_fragment :: "line list"
  hp_ids :: "string list"
  hp_hash :: string

definition unit_adds :: "'a dunit_scheme \<Rightarrow> path list" where
  "unit_adds u = (if u_op u \<in> {Op_add, Op_change}
                  then (if u_stanza u then take 1 (u_add u) else u_add u) else [])"

definition program_of ::
    "program_env \<Rightarrow> line list \<Rightarrow> line list \<Rightarrow> cunit list \<Rightarrow> string list \<Rightarrow> string \<Rightarrow> heal_program" where
  "program_of env golden running units removal_ids mgmt_ip =
     (let adds = concat (map unit_adds units);
          fragment = (if adds = [] then []
                      else subtree_fragment (e_canon (pe_removal env)) adds golden);
          got = deploy_program_of env fragment (pe_stored env running) removal_ids mgmt_ip
      in \<lparr>hp_commands = dp_commands got, hp_removals = dp_removals got,
          hp_refused = dp_refused got, hp_fragment = fragment, hp_ids = dp_ids got,
          hp_hash = pe_hash env (dp_commands got) removal_ids\<rparr>)"

section \<open>Where its lines come from\<close>

definition chain_lines :: "path list \<Rightarrow> line set" where
  "chain_lines ps = (\<Union>p \<in> set ps. set (full_path p))"

lemma chain_lines_simps [simp]:
  "chain_lines [] = {}" "chain_lines (p # ps) = set (full_path p) \<union> chain_lines ps"
  by (simp_all add: chain_lines_def)

lemma chains_loop_lines:
  "p \<in> set (chains_loop nf ls stack) \<Longrightarrow>
     set (full_path p) \<subseteq> (\<lambda>l. nf (rstrip l)) ` set ls \<union> snd ` set stack"
proof (induction nf ls stack rule: chains_loop.induct)
  case (2 nf raw raws stack)
  let ?l = "rstrip raw"
  let ?st = "dropWhile (\<lambda>e. indent_of ?l \<le> fst e) stack"
  show ?case
  proof (cases "skipped ?l")
    case True
    with 2(1) [OF refl True] 2(3) show ?thesis by auto
  next
    case False
    have st: "set ?st \<subseteq> set stack" by (auto dest: set_dropWhileD)
    show ?thesis
    proof (cases "p = (rev (map snd ?st), nf ?l)")
      case True
      with st show ?thesis by (auto simp: full_path_def)
    next
      case p: False
      with 2(3) False have m: "p \<in> set (chains_loop nf raws ((indent_of ?l, nf ?l) # ?st))"
        by (simp add: Let_def)
      have "snd ` set ?st \<subseteq> snd ` set stack" using st by (rule image_mono)
      with 2(2) [OF refl False refl m] show ?thesis by simp blast
    qed
  qed
qed simp

lemma section_chains_lines:
  "chain_lines (section_chains canon ls) \<subseteq> (\<lambda>l. canon (rstrip l)) ` set ls"
  using chains_loop_lines [of _ canon ls "[]"] by (fastforce simp: chain_lines_def section_chains_def)

lemma new_heads_last: "h \<in> set (new_heads (fst p) seen) \<Longrightarrow> last h \<in> set (full_path p)"
proof -
  assume "h \<in> set (new_heads (fst p) seen)"
  then obtain k where k: "k < length (fst p)" "h = take (Suc k) (fst p)"
    by (auto simp: new_heads_def)
  then have "last h = fst p ! k" by (simp add: take_Suc_conv_app_nth)
  with k show ?thesis by (simp add: full_path_def)
qed

lemma full_path_snd: "snd p \<in> set (full_path p)" "y \<in> set (full_path (c, y))"
  by (simp_all add: full_path_def)

lemma fragment_loop_lines: "x \<in> set (fragment_loop heads ps seen) \<Longrightarrow> x \<in> chain_lines ps"
  by (induction heads ps seen rule: fragment_loop.induct)
    (auto simp: Let_def new_heads_last full_path_snd split: if_splits)

lemma merge_loop_lines:
  "x \<in> set (merge_loop entries es rem oc) \<Longrightarrow> x = ''exit'' \<or> x \<in> chain_lines es"
  by (induction entries es rem oc rule: merge_loop.induct)
    (auto simp: exits_def full_path_def split: if_splits)

lemma merge_commands_lines:
  "x \<in> set (merge_commands intended running held) \<Longrightarrow> x = ''exit'' \<or> x \<in> chain_lines intended"
  using merge_loop_lines [of x intended intended] by (auto simp: merge_commands_def Let_def split: if_splits)

lemma negation_loop_lines:
  "x \<in> set (negation_loop neg us oc) \<Longrightarrow> x = ''exit'' \<or> (\<exists>u \<in> set us. x = neg u \<or> x \<in> set (fst u))"
  by (induction us arbitrary: oc) (auto simp: exits_def split: if_splits)

lemma rstrip_rstrip: "rstrip (rstrip l) = rstrip l"
  by (simp add: rstrip_def)

lemma merge_of_lines:
  "x \<in> set (merge_of canon holds intended captured) \<Longrightarrow> x = ''exit'' \<or> x \<in> (\<lambda>l. canon (rstrip l)) ` set intended"
  using merge_commands_lines section_chains_lines [of canon intended] by (fastforce simp: merge_of_def Let_def)

lemma resolved_ids:
  assumes "w \<in> set (fst (resolve env captured (map Id_of ids)))"
  shows "w \<in> set captured \<and> e_unit_id env w \<in> set ids"
proof -
  from assms obtain x where x: "x \<in> set ids" "resolve_one env captured (Id_of x) = Inr w"
    by (auto simp: resolve_def split: sum.splits)
  then obtain k where k: "find_idx (\<lambda>p. e_unit_id env p = x) (rev captured) = Some k" "w = rev captured ! k"
    by (auto split: option.splits)
  from find_idx_SomeD [OF k(1)] k(2) have "k < length (rev captured)" "e_unit_id env w = x" by simp_all
  moreover from this(1) have "w \<in> set (rev captured)" unfolding k(2) by (rule nth_mem)
  ultimately show ?thesis using x(1) by simp
qed

lemma removals_lines:
  assumes "x \<in> set (dp_removals (with_removals env merge captured (map Id_of ids) mgmt_ip))"
  shows "x = ''exit'' \<or> (\<exists>w \<in> set captured. e_unit_id env w \<in> set ids \<and> canon_path env w \<in> set captured
    \<and> (x = negated env (canon_path env w) \<or> x \<in> set (fst (canon_path env w))))"
proof -
  let ?sel = "fst (resolve env captured (map Id_of ids))"
  let ?rm = "removal_program env captured ?sel mgmt_ip"
  have "x \<in> set (rm_commands ?rm)"
    using assms by (auto simp: with_removals_def Let_def split_beta split: if_splits)
  then have "x \<in> set (negation_loop (negated env) (rm_removed ?rm) [])"
    by (simp add: removal_program_def Let_def negation_program_def)
  then have "x = ''exit'' \<or> (\<exists>u \<in> set (rm_removed ?rm). x = negated env u \<or> x \<in> set (fst u))"
    by (rule negation_loop_lines)
  moreover have "\<exists>w \<in> set ?sel. u = canon_path env w \<and> u \<in> set captured" if "u \<in> set (rm_removed ?rm)" for u
  proof -
    from that [unfolded removed_iff] have "u \<in> canon_path env ` set ?sel" by (rule conjunct1)
    moreover have "u \<in> set captured" by (rule conjunct1 [OF judge_unit_RemoveD [OF conjunct2 [OF that [unfolded removed_iff]]]])
    ultimately show ?thesis by blast
  qed
  ultimately show ?thesis using resolved_ids [of _ env captured ids] by metis
qed

text \<open>C23: a heal sends nothing it made up: each line of its program is the golden's own (as the device
  writes it), an \<open>exit\<close>, the delete of an IP SLA operation that the device runs and the golden's lines define
  differently, or, for a line the device holds whose id the units name, its negation or a header
  above it.\<close>

theorem heal_sends_nothing_made_up:
  assumes "\<And>l. e_canon (pe_removal env) (rstrip (e_canon (pe_removal env) (rstrip l)))
            = e_canon (pe_removal env) (rstrip l)"
    and "x \<in> set (hp_commands (program_of env golden running units removal_ids mgmt_ip))"
  shows "x = ''exit''
    \<or> x \<in> (\<lambda>l. e_canon (pe_removal env) (rstrip l)) ` set golden
    \<or> (\<exists>n. x = ''no ip sla '' @ n \<and> changed_running (hp_fragment (program_of env golden running units removal_ids mgmt_ip))
          (pe_stored env running) n)
    \<or> (\<exists>w \<in> set (paths_in env (pe_stored env running)). e_unit_id (pe_removal env) w \<in> set removal_ids
          \<and> canon_path (pe_removal env) w \<in> set (paths_in env (pe_stored env running))
          \<and> (x = negated (pe_removal env) (canon_path (pe_removal env) w) \<or> x \<in> set (fst (canon_path (pe_removal env) w))))"
proof -
  let ?c = "e_canon (pe_removal env)" and ?r = "pe_stored env running"
  define fragment where "fragment = hp_fragment (program_of env golden running units removal_ids mgmt_ip)"
  let ?rc = "recreate_plan (pe_recreate env) ?c (pe_held env) fragment ?r"
  let ?kept = "exclude fragment (rc_units ?rc @ rc_refused ?rc)"
  let ?merge = "merge_text env ?kept ?r"
  let ?own = "\<lambda>x. x = ''exit'' \<or> x \<in> (\<lambda>l. ?c (rstrip l)) ` set golden"
  have frag: "set fragment \<subseteq> (\<lambda>l. ?c (rstrip l)) ` set golden"
    using section_chains_lines [of ?c golden] fragment_loop_lines
    by (fastforce simp: fragment_def program_of_def Let_def subtree_fragment_def split: if_splits)
  have own: "?own y" if "y \<in> set (merge_of ?c (pe_held env) ls cap)" "rstrip ` set ls \<subseteq> rstrip ` set fragment" for y ls cap
  proof -
    from merge_of_lines [OF that(1)] consider "y = ''exit''" | l where "l \<in> set ls" "y = ?c (rstrip l)" by blast
    then show ?thesis
    proof cases
      case 2
      from 2(1) that(2) obtain f where f: "f \<in> set fragment" "rstrip l = rstrip f" by blast
      from frag f(1) obtain g where g: "g \<in> set golden" "f = ?c (rstrip g)" by blast
      have "y = ?c (rstrip g)" unfolding 2(2) f(2) g(2) by (rule assms(1))
      with g(1) show ?thesis by (intro disjI2 image_eqI)
    qed simp
  qed
  have kept: "set ?kept \<subseteq> set fragment"
    using exclude_subseq [of fragment "rc_units ?rc @ rc_refused ?rc"] by (auto dest: list_emb_set)
  from assms(2) consider "x \<in> set ?merge" | "x \<in> set (rc_commands ?rc)"
    | "x \<in> set (dp_removals (with_removals (pe_removal env) ?merge (paths_in env ?r) (map Id_of removal_ids) mgmt_ip))"
    by (auto simp: program_of_def deploy_program_of_def Let_def fragment_def)
  then have "x = ''exit'' \<or> x \<in> (\<lambda>l. ?c (rstrip l)) ` set golden
    \<or> (\<exists>n. x = ''no ip sla '' @ n \<and> changed_running fragment ?r n)
    \<or> (\<exists>w \<in> set (paths_in env ?r). e_unit_id (pe_removal env) w \<in> set removal_ids
          \<and> canon_path (pe_removal env) w \<in> set (paths_in env ?r)
          \<and> (x = negated (pe_removal env) (canon_path (pe_removal env) w) \<or> x \<in> set (fst (canon_path (pe_removal env) w))))"
  proof cases
    case 1
    with own [of x ?kept ?r] kept show ?thesis by (auto simp: merge_text_def)
  next
    case 2
    then obtain n op where n: "changed_running fragment ?r n" "map_of (operations fragment) n = Some op" "op_body op \<noteq> []"
      "x = ''no ip sla '' @ n \<or> x \<in> set (definition_program ?c (pe_held env) n op)" by (rule recreate_command)
    have "rstrip ` set (sla_fragment n op) \<subseteq> rstrip ` set fragment"
    proof
      fix y assume "y \<in> rstrip ` set (sla_fragment n op)"
      with operation_lines [OF n(2,3)] obtain l where "l \<in> set fragment" "y = rstrip (rstrip l)" by blast
      then show "y \<in> rstrip ` set fragment" by (simp add: rstrip_rstrip)
    qed
    with n own [of x "sla_fragment n op" "[]"] show ?thesis by (auto simp: definition_program_def)
  next
    case 3
    from removals_lines [OF 3] show ?thesis by blast
  qed
  then show ?thesis by (simp only: fragment_def)
qed

section \<open>A heal of one missing line\<close>

definition ex_program_env :: program_env where
  "ex_program_env = \<lparr>pe_removal = ex_env, pe_recreate = ex_recreate_env, pe_stored = (\<lambda>ls. ls),
     pe_held = (\<lambda>_ _. {}), pe_hash = (\<lambda>cs ids. concat cs)\<rparr>"

definition ex_unit :: cunit where
  "ex_unit = dunit.extend \<lparr>u_op = Op_add, u_chain = [''interface Gi1''], u_stanza = False,
       u_feature = [], u_add = [([''interface Gi1''], '' shutdown'')], u_remove = []\<rparr>
     \<lparr>u_kind = K_missing_line, u_tier = 1, u_blocked = None, u_ids = []\<rparr>"

lemma ex_program: "hp_commands (program_of ex_program_env [''interface Gi1'', '' shutdown'']
    [''interface Gi1''] [ex_unit] [] ''10.0.0.1'') = [''interface Gi1'', '' shutdown'', ''exit'']"
  by code_simp

lemma ex_program_rc: "operations [''interface Gi1''] = []"
  by code_simp

theorem heal_sends_nothing_made_up_witness:
  "'' shutdown'' \<in> rstrip ` {''interface Gi1'', '' shutdown''}"
proof -
  have c: "e_canon (pe_removal ex_program_env) = id" "pe_stored ex_program_env ls = ls" for ls
    by (simp_all add: ex_program_env_def ex_env_def)
  have idem: "e_canon (pe_removal ex_program_env) (rstrip (e_canon (pe_removal ex_program_env) (rstrip l)))
      = e_canon (pe_removal ex_program_env) (rstrip l)" for l
    by (simp add: c rstrip_rstrip)
  have m: "'' shutdown'' \<in> set (hp_commands (program_of ex_program_env [''interface Gi1'', '' shutdown'']
    [''interface Gi1''] [ex_unit] [] ''10.0.0.1''))"
    by (simp add: ex_program)
  have "\<not> changed_running f [''interface Gi1''] n" for f n
    by (simp add: changed_running_def ex_program_rc split: option.splits)
  with heal_sends_nothing_made_up [OF idem m] show ?thesis by (simp add: c)
qed

end
