(* ===== verification/Decide.thy ===== *)
theory Decide
  imports Guards Program
begin

text \<open>
  The decision (\<open>modules/heal/decide.py\<close>): each ready incident is claimed, judged in section 6's
  order, recorded, and sent on: kept claimed for the heal or the proposal, back to watching, or
  closed. \<open>decide_one\<close> is cut where its steps end, and each step either ends the decision, raises,
  or hands on what it read.

  What a device's sources answer is a record (\<open>device_sources\<close>): the planned work, whether the
  inventory refuses to manage it, its golden with the trailer and the comparison with intent, the
  records of the topology hold, the lines read (none when the read failed) and the lines intent
  renders (none when it cannot). The departure's fingerprint (\<open>drift_check\<close>), the feature of a
  line and what a program cuts of Mercury's reach (\<open>expected_effects\<close>) are arguments. The words,
  the step log and the announcement are not modelled; a blank why is never given.

  The lemmas: a heal has passed every guard; what it heals is allowed, of Tier 1, unblocked and
  bound to its very program by the hash; a run leaves no incident ready; heals never exceed the
  network's rate; a halted network heals nothing.
\<close>

section \<open>Sources\<close>

datatype trailer = T_at_intent | T_departs | T_unrecorded
datatype intent_match = IM_match | IM_differs | IM_unknown

record device_sources =
  ds_planned :: planned
  ds_refused :: bool
  ds_golden :: "line list option"
  ds_trailer :: trailer
  ds_match :: intent_match
  ds_hold :: hold_sources
  ds_read :: "line list"
  ds_intended :: "line list"
  ds_mgmt_ip :: string

definition golden_text :: "device_sources \<Rightarrow> line list" where
  "golden_text src = (case ds_golden src of None \<Rightarrow> [] | Some t \<Rightarrow> t)"

text \<open>\<open>Sources.golden\<close>.\<close>

definition golden_state_of :: "device_sources \<Rightarrow> golden_state" where
  "golden_state_of src =
     (case ds_golden src of
        None \<Rightarrow> G_unknown
      | Some _ \<Rightarrow>
     (case ds_trailer src of
        T_at_intent \<Rightarrow> G_at_intent
      | T_departs \<Rightarrow> G_departs
      | T_unrecorded \<Rightarrow>
          (case ds_match src of IM_match \<Rightarrow> G_at_intent | IM_differs \<Rightarrow> G_departs | IM_unknown \<Rightarrow> G_unknown)))"

record heal_env =
  he_program :: program_env
  he_feature :: "chain \<Rightarrow> line \<Rightarrow> feature \<times> bool"
  he_departure :: "line list \<Rightarrow> line list \<Rightarrow> string"
  he_reach_lost :: "device \<Rightarrow> line list \<Rightarrow> bool"

section \<open>Steps\<close>

datatype ending = Ends decision | Raises heal_error

type_synonym 'a step = "ending + 'a"

text \<open>Every ending sets the outcome; the base's is not yet one.\<close>

definition base_decision :: "policy_now \<Rightarrow> incident \<Rightarrow> decision" where
  "base_decision md inc =
     \<lparr>d_id = '''', d_at = 0, d_epoch = 0, d_incident = i_id inc, d_device = i_device inc,
      d_outcome = O_nothing, d_mode = m_mode md,
      d_policy = (m_fingerprint md, case m_confirmed md of None \<Rightarrow> '''' | Some c \<Rightarrow> c_by c), d_guard = None, d_units = [], d_kind = None,
      d_tier = 0, d_program_hash = '''', d_removal_ids = [], d_departure = '''', d_until = None\<rparr>"

definition stop_at :: "decision \<Rightarrow> hit \<Rightarrow> decision" where
  "stop_at base h = base\<lparr>d_outcome := hit_outcome h, d_guard := Some (hit_guard h), d_until := hit_until h\<rparr>"

definition check :: "decision \<Rightarrow> hit option list \<Rightarrow> unit step" where
  "check base hs = (case first_hit hs of None \<Rightarrow> Inr () | Some h \<Rightarrow> Inl (Ends (stop_at base h)))"

definition ends :: "decision \<Rightarrow> 'a step" where "ends d = Inl (Ends d)"

section \<open>Guards 1 to 11\<close>

definition step_stops ::
    "policy_now \<Rightarrow> device_sources \<Rightarrow> log \<Rightarrow> epoch \<Rightarrow> decision \<Rightarrow> unit step" where
  "step_stops md src lg now base =
     (let hlt = bind_result (rows_of lg) (\<lambda>rs. Inr (halted rs)) in
      check base [g1_kill_switch md, g2_mode md hlt, g3_planned (ds_planned src) now])"

definition step_approved :: "device_sources \<Rightarrow> decision \<Rightarrow> unit step" where
  "step_approved src base =
     (if ds_refused src then ends (stop_at base (hit_of 4 O_held None))
      else check base [g4_golden (golden_state_of src)])"

definition settled_departure :: "incident \<Rightarrow> string" where
  "settled_departure inc = (case i_settled inc of None \<Rightarrow> '''' | Some s \<Rightarrow> s_departure s)"

definition outcome_counted :: "policy_now \<Rightarrow> outcome" where
  "outcome_counted md = (if m_mode md = M_auto then O_heal else O_would_heal)"

definition grace_seconds :: "(guard_key \<Rightarrow> nat) \<Rightarrow> epoch" where
  "grace_seconds g = or_num (real (g Grace_seconds)) 900"

definition guards_5_to_11 ::
    "policy_now \<Rightarrow> (guard_key \<Rightarrow> nat) \<Rightarrow> device_sources \<Rightarrow> incident list \<Rightarrow> dview list \<Rightarrow> incident
     \<Rightarrow> epoch \<Rightarrow> epoch \<Rightarrow> hit option list" where
  "guards_5_to_11 md g src incs ds inc now clock =
     (let dev = i_device inc; out = outcome_counted md in
      [g5_topology (topology (hold_minutes md) (ds_hold src) dev now) now,
       g6_many incs now (grace_seconds g) (g Max_devices_drifting),
       g7_person inc now (g Person_working_changes) (g Person_working_minutes),
       g8_grace inc clock,
       g9_device_rate ds dev out now (g Max_per_device_hour),
       g10_network_rate ds out now (g Max_per_network_hour),
       g11_repeat ds dev (settled_departure inc) out now (g Repeat_halts_hours)])"

definition step_guards ::
    "policy_now \<Rightarrow> device_sources \<Rightarrow> incident list \<Rightarrow> log \<Rightarrow> incident \<Rightarrow> epoch \<Rightarrow> epoch \<Rightarrow> decision
     \<Rightarrow> (log_row list \<times> (guard_key \<Rightarrow> nat)) step" where
  "step_guards md src incs lg inc now clock base =
     (case rows_of lg of
        Inl _ \<Rightarrow> ends (stop_at base (hit_of 10 O_halted None))
      | Inr rs \<Rightarrow>
     (case m_guards md of
        None \<Rightarrow> Inl (Raises Raised)                            \<comment> \<open>a value that is None is no number\<close>
      | Some g \<Rightarrow>
          bind_result (check base (guards_5_to_11 md g src incs (decisions rs) inc now clock))
            (\<lambda>_. Inr (rs, g))))"

section \<open>The read\<close>

definition is_link :: "trigger \<Rightarrow> bool" where
  "is_link t \<longleftrightarrow> t_kind t = Adjacency \<or> t_interface t \<noteq> ''''"

definition symptom_kind :: "incident \<Rightarrow> fix_kind option" where
  "symptom_kind inc =
     (if \<exists>t \<in> set (i_triggers inc). is_link t then Some K_physical
      else if \<exists>t \<in> set (i_triggers inc). t_kind t \<in> {Alert, Adjacency_log, Duplicate_router_id}
      then Some K_unknown_cause else None)"

definition step_at_golden :: "incident \<Rightarrow> decision \<Rightarrow> unit step" where
  "step_at_golden inc base =
     (if map_option s_how (i_settled inc) = Some At_golden
      then (case symptom_kind inc of
              Some k \<Rightarrow> ends (base\<lparr>d_kind := Some k, d_tier := 3, d_outcome := O_cant_fix\<rparr>)
            | None \<Rightarrow> ends (base\<lparr>d_outcome := O_nothing\<rparr>))
      else Inr ())"

definition step_read ::
    "heal_env \<Rightarrow> device_sources \<Rightarrow> incident \<Rightarrow> epoch \<Rightarrow> decision \<Rightarrow> decision step" where
  "step_read env src inc now base =
     (if ds_read src = [] then ends (base\<lparr>d_outcome := O_deferred, d_until := Some (now + 60)\<rparr>)
      else let dep = he_departure env (golden_text src) (ds_read src);
               base = base\<lparr>d_departure := dep\<rparr>
           in if settled_departure inc \<noteq> '''' \<and> dep \<noteq> settled_departure inc
              then ends (base\<lparr>d_outcome := O_deferred, d_until := Some now\<rparr>)
              else Inr base)"

section \<open>The units, the program and the tier\<close>

definition classified_of :: "heal_env \<Rightarrow> device_sources \<Rightarrow> incident \<Rightarrow> classified" where
  "classified_of env src inc =
     (let pe = he_program env in
      classify (pe_removal pe) (he_feature env) (paths_in pe (golden_text src))
        (paths_in pe (pe_stored pe (ds_read src))) (paths_in pe (ds_intended src))
        (ds_mgmt_ip src) (i_related inc \<noteq> []))"

definition step_classify ::
    "heal_env \<Rightarrow> device_sources \<Rightarrow> incident \<Rightarrow> log_row list \<Rightarrow> (guard_key \<Rightarrow> nat) \<Rightarrow> decision
     \<Rightarrow> (classified \<times> decision) step" where
  "step_classify env src inc rs g base =
     (if ds_intended src = [] then ends (base\<lparr>d_outcome := O_cant_fix\<rparr>)
      else let c = classified_of env src inc;
               base = base\<lparr>d_units := map masked_unit (cl_units c), d_kind := cl_kind c,
                           d_tier := cl_tier c\<rparr>
           in if cl_units c = [] then ends (base\<lparr>d_outcome := O_nothing\<rparr>)
              else bind_result (check base
                     [g12_size (cl_units c) (g Max_removed_units) (g Max_units),
                      g14_rolled_back (decisions rs) (i_device inc) (last_halt_epoch rs)])
                   (\<lambda>_. Inr (c, base)))"

definition heal_program_of :: "heal_env \<Rightarrow> device_sources \<Rightarrow> classified \<Rightarrow> heal_program" where
  "heal_program_of env src c =
     program_of (he_program env) (golden_text src) (ds_read src) (cl_units c) (cl_removal_ids c)
       (ds_mgmt_ip src)"

definition step_program ::
    "heal_env \<Rightarrow> device_sources \<Rightarrow> incident \<Rightarrow> classified \<Rightarrow> decision \<Rightarrow> decision step" where
  "step_program env src inc c base =
     (if cl_tier c < 3 \<and> cl_blocked c = None then
        (let prog = heal_program_of env src c;
             base = base\<lparr>d_program_hash := hp_hash prog, d_removal_ids := cl_removal_ids c\<rparr>
         in if hp_refused prog \<noteq> [] then ends (base\<lparr>d_outcome := O_cant_fix\<rparr>)
            else if he_reach_lost env (i_device inc) (hp_commands prog)
            then ends (base\<lparr>d_kind := Some K_management_path, d_tier := 4, d_outcome := O_cant_fix\<rparr>)
            else Inr base)
      else Inr base)"

text \<open>\<open>_outcome\<close>, guard 13.\<close>

definition outcome_of :: "heal_mode \<Rightarrow> classified \<Rightarrow> fix_kind list \<Rightarrow> fix_kind list \<Rightarrow> outcome" where
  "outcome_of md c auto propose =
     (let kinds = map u_kind (cl_units c) in
      if 3 \<le> cl_tier c then O_cant_fix
      else if cl_blocked c \<noteq> None then O_cant_fix
      else if cl_tier c = 2 then
        (if \<exists>k \<in> set kinds. k \<notin> set propose \<and> TIER k = 2 then O_cant_fix else O_propose)
      else if md = M_auto \<and> (\<forall>k \<in> set kinds. k \<in> set auto) then O_heal
      else O_would_heal)"

definition judged ::
    "heal_env \<Rightarrow> policy_now \<Rightarrow> device_sources \<Rightarrow> incident list \<Rightarrow> log \<Rightarrow> epoch \<Rightarrow> epoch \<Rightarrow> incident
     \<Rightarrow> decision step" where
  "judged env md src incs lg now clock inc =
     (let base = base_decision md inc in
      bind_result (step_stops md src lg now base) (\<lambda>_.
      bind_result (step_approved src base) (\<lambda>_.
      bind_result (step_guards md src incs lg inc now clock base) (\<lambda>(rs, g).
      bind_result (step_at_golden inc base) (\<lambda>_.
      bind_result (step_read env src inc now base) (\<lambda>base.
      bind_result (step_classify env src inc rs g base) (\<lambda>(c, base).
      bind_result (step_program env src inc c base) (\<lambda>base.
      Inr (base\<lparr>d_outcome := outcome_of (m_mode md) c (m_auto md) (m_propose md)\<rparr>)))))))))"

definition decide_one ::
    "heal_env \<Rightarrow> policy_now \<Rightarrow> device_sources \<Rightarrow> incident list \<Rightarrow> log \<Rightarrow> epoch \<Rightarrow> epoch \<Rightarrow> incident
     \<Rightarrow> heal_error + decision" where
  "decide_one env md src incs lg now clock inc =
     (case judged env md src incs lg now clock inc of
        Inr d \<Rightarrow> Inr d | Inl (Ends d) \<Rightarrow> Inr d | Inl (Raises e) \<Rightarrow> Inl e)"

section \<open>What the decision does, and the run\<close>

type_synonym heal_store = "store \<times> log"

text \<open>\<open>rn_others\<close> is what other processes did to the two stores before an incident's turn in a run (a
  person's lift, a sighting, an act's rows).\<close>

record run_env =
  rn_exists :: bool
  rn_by :: string
  rn_source :: "device \<Rightarrow> device_sources"
  rn_id :: "incident_id \<Rightarrow> decision_id"
  rn_halt_id :: "incident_id \<Rightarrow> string"
  rn_others :: "incident_id \<Rightarrow> heal_store \<Rightarrow> heal_store"

definition halts_network :: "decision \<Rightarrow> bool" where
  "halts_network d \<longleftrightarrow> d_outcome d = O_halted \<and> d_mode d = M_auto \<and> d_guard d \<in> {Some 10, Some 11, Some 14}"

definition sent_back :: "decision \<Rightarrow> epoch option" where
  "sent_back d = (if d_outcome d \<in> {O_deferred, O_held}
                  then (case d_until d of Some u \<Rightarrow> if u = 0 then None else Some u | None \<Rightarrow> None)
                  else None)"

definition why_words :: "decision \<Rightarrow> string" where "why_words d = ''decision '' @ d_id d"

definition act_on_incident :: "run_env \<Rightarrow> incident_id \<Rightarrow> decision \<Rightarrow> epoch \<Rightarrow> store \<Rightarrow> heal_error + store" where
  "act_on_incident rn x d now st =
     (if d_outcome d \<in> {O_heal, O_propose} then Inr st
      else bind_result (case sent_back d of
                          Some u \<Rightarrow> defer_incident (rn_exists rn) x u (why_words d) now st
                        | None \<Rightarrow> close_incident (rn_exists rn) x (why_words d) now st)
             (\<lambda>(_, st'). Inr st'))"

text \<open>\<open>_act\<close>: what was done before it raised stays done.\<close>

definition act ::
    "run_env \<Rightarrow> incident_id \<Rightarrow> decision \<Rightarrow> epoch \<Rightarrow> heal_store \<Rightarrow> (heal_error + unit) \<times> heal_store" where
  "act rn x d now s =
     (let (st, lg) = s in
      case (if halts_network d
            then bind_result (halt_network (rn_exists rn) (rn_halt_id rn x) (the (d_guard d)) now lg)
                   (\<lambda>(_, lg'). Inr lg')
            else Inr lg) of
        Inl e \<Rightarrow> (Inl e, (st, lg))
      | Inr lg' \<Rightarrow>
     (case act_on_incident rn x d now st of
        Inl e \<Rightarrow> (Inl e, (st, lg'))
      | Inr st' \<Rightarrow> (Inr (), (st', lg'))))"

text \<open>The body of the \<open>try\<close>: decided, recorded, acted on.\<close>

definition decide_claimed ::
    "heal_env \<Rightarrow> policy_now \<Rightarrow> run_env \<Rightarrow> epoch \<Rightarrow> epoch \<Rightarrow> incident \<Rightarrow> heal_store
     \<Rightarrow> (heal_error + decision) \<times> heal_store" where
  "decide_claimed env md rn now clock inc s =
     (let (st, lg) = s in
      case decide_one env md (rn_source rn (i_device inc)) (held st) lg now clock inc of
        Inl e \<Rightarrow> (Inl e, s)
      | Inr made \<Rightarrow>
     (case record_decision (rn_exists rn) (rn_id rn (i_id inc)) made now lg of
        Inl e \<Rightarrow> (Inl e, s)
      | Inr (d, lg') \<Rightarrow>
     (case act rn (i_id inc) d now (st, lg') of
        (Inl e, s') \<Rightarrow> (Inl e, s')
      | (Inr _, s') \<Rightarrow> (Inr d, s'))))"

definition FAILED_WORDS :: string where "FAILED_WORDS = ''the decision failed''"

record run_out =
  ro_decided :: "(incident_id \<times> decision) list"
  ro_failed :: "device list"

text \<open>One incident, under the policy read for it (\<open>pol\<close>): a claim or a deferral that raises ends the run,
  what was written staying written; a decision that fails sends the incident back to watching.\<close>

definition run_one ::
    "heal_env \<Rightarrow> (incident_id \<Rightarrow> policy_now) \<Rightarrow> run_env \<Rightarrow> epoch \<Rightarrow> epoch \<Rightarrow> incident
     \<Rightarrow> run_out \<times> heal_store \<Rightarrow> (heal_error + run_out) \<times> heal_store" where
  "run_one env pol rn now clock inc os =
     (let (out, s) = os; x = i_id inc; (st, lg) = rn_others rn x s in
      case claim (rn_exists rn) x (rn_by rn) now st of
        Inl e \<Rightarrow> (Inl e, (st, lg))
      | Inr (claimed, st') \<Rightarrow>
     (case decide_claimed env (pol x) rn now clock claimed (st', lg) of
        (Inr d, s') \<Rightarrow> (Inr (out\<lparr>ro_decided := ro_decided out @ [(x, d)]\<rparr>), s')
      | (Inl _, (st'', lg'')) \<Rightarrow>
     (case defer_incident (rn_exists rn) x (now + 60) FAILED_WORDS now st'' of
        Inl e \<Rightarrow> (Inl e, (st'', lg''))
      | Inr (_, st3) \<Rightarrow> (Inr (out\<lparr>ro_failed := ro_failed out @ [i_device inc]\<rparr>), (st3, lg'')))))"

fun run_loop ::
    "heal_env \<Rightarrow> (incident_id \<Rightarrow> policy_now) \<Rightarrow> run_env \<Rightarrow> epoch \<Rightarrow> epoch \<Rightarrow> incident list
     \<Rightarrow> run_out \<times> heal_store \<Rightarrow> (heal_error + run_out) \<times> heal_store" where
  "run_loop env pol rn now clock [] (out, s) = (Inr out, s)"
| "run_loop env pol rn now clock (inc # incs) os =
     (case run_one env pol rn now clock inc os of
        (Inl e, s) \<Rightarrow> (Inl e, s)
      | (Inr out, s) \<Rightarrow> run_loop env pol rn now clock incs (out, s))"

datatype ran = Ran run_out | Busy_elsewhere | Not_readable

text \<open>\<open>free\<close> is whether the heal lock of the network is taken by this run.\<close>

definition run ::
    "heal_env \<Rightarrow> (incident_id \<Rightarrow> policy_now) \<Rightarrow> run_env \<Rightarrow> bool \<Rightarrow> epoch \<Rightarrow> epoch \<Rightarrow> heal_store
     \<Rightarrow> (heal_error + ran) \<times> heal_store" where
  "run env pol rn free now clock s =
     (if \<not> rn_exists rn then (Inl Refused_no_network, s)
      else if \<not> free then (Inr Busy_elsewhere, s)
      else case ready (fst s) of
        Inl _ \<Rightarrow> (Inr Not_readable, s)
      | Inr incs \<Rightarrow>
          (case run_loop env pol rn now clock incs (\<lparr>ro_decided = [], ro_failed = []\<rparr>, s) of
             (Inl e, s') \<Rightarrow> (Inl e, s')
           | (Inr out, s') \<Rightarrow> (Inr (Ran out), s')))"

section \<open>A heal has passed every guard\<close>

lemma check_Inr: "check base hs = Inr u \<longleftrightarrow> (\<forall>h \<in> set hs. h = None)"
  using first_hit_None [of hs] by (cases "first_hit hs") (simp_all add: check_def)

lemma check_Inl:
  "check base hs = Inl e \<longleftrightarrow> (\<exists>h. first_hit hs = Some h \<and> e = Ends (stop_at base h))"
  by (auto simp: check_def split: option.splits)

lemma first_hit_in: "first_hit hs = Some h \<Longrightarrow> Some h \<in> set hs"
  by (induction hs rule: first_hit.induct) auto

text \<open>A check never ends in a heal or a proposal.\<close>

definition quiet_hit :: "hit option \<Rightarrow> bool" where
  "quiet_hit h \<longleftrightarrow> (case h of None \<Rightarrow> True | Some h \<Rightarrow> hit_outcome h \<notin> {O_heal, O_propose, O_would_heal})"

lemma check_quiet:
  assumes "check base hs = Inl (Ends d)" "\<forall>h \<in> set hs. quiet_hit h"
  shows "d_outcome d \<notin> {O_heal, O_propose, O_would_heal}"
proof -
  from assms(1) obtain h where h: "first_hit hs = Some h" "d = stop_at base h" by (auto simp: check_Inl)
  have "quiet_hit (Some h)" using assms(2) first_hit_in [OF h(1)] by blast
  with h(2) show ?thesis by (simp add: quiet_hit_def stop_at_def)
qed


lemma quiet_guards [simp]:
  "quiet_hit (g1_kill_switch md)" "quiet_hit (g2_mode md hlt)" "quiet_hit (g3_planned pl now)"
  "quiet_hit (g4_golden gs)" "quiet_hit (g5_topology ha now)" "quiet_hit (g6_many incs now s most)"
  "quiet_hit (g7_person inc now c m)" "quiet_hit (g8_grace inc clock)"
  "quiet_hit (g9_device_rate ds dev out now most)" "quiet_hit (g10_network_rate ds out now most)"
  "quiet_hit (g11_repeat ds dev dep out now h)" "quiet_hit (g12_size us r m)"
  "quiet_hit (g14_rolled_back ds dev t)"
  using g1.stops g2.stops [of "(md, hlt)"] g3.stops [of "(pl, now)"] g4.stops g5.stops [of "(ha, now)"]
    g6.stops [of "(incs, now, s, most)"] g7.stops [of "(inc, now, c, m)"] g8.stops [of "(inc, clock)"]
    g9.stops [of "(ds, dev, out, now, most)"] g10.stops [of "(ds, out, now, most)"]
    g11.stops [of "(ds, dev, dep, out, now, h)"] g12.stops [of "(us, r, m)"] g14.stops [of "(ds, dev, t)"]
  by (auto simp: quiet_hit_def split: option.splits)

text \<open>Where a decision that heals or proposes comes from.\<close>

definition acts :: "outcome \<Rightarrow> bool" where "acts out \<longleftrightarrow> out \<in> {O_heal, O_propose, O_would_heal}"

lemma step_quiet:
  "step_stops md src lg now base = Inl (Ends d) \<Longrightarrow> \<not> acts (d_outcome d)"
  "step_approved src base = Inl (Ends d) \<Longrightarrow> \<not> acts (d_outcome d)"
  "step_guards md src incs lg inc now clock base = Inl (Ends d) \<Longrightarrow> \<not> acts (d_outcome d)"
  "step_at_golden inc base = Inl (Ends d) \<Longrightarrow> \<not> acts (d_outcome d)"
  "step_read env src inc now base = Inl (Ends d) \<Longrightarrow> \<not> acts (d_outcome d)"
  "step_classify env src inc rs g base = Inl (Ends d) \<Longrightarrow> \<not> acts (d_outcome d)"
  "step_program env src inc c base = Inl (Ends d) \<Longrightarrow> \<not> acts (d_outcome d)"
proof -
  show "\<not> acts (d_outcome d)" if "step_stops md src lg now base = Inl (Ends d)"
    using check_quiet [OF that [unfolded step_stops_def Let_def]] by (simp add: acts_def)
  show "\<not> acts (d_outcome d)" if "step_approved src base = Inl (Ends d)"
    using that check_quiet [of base "[g4_golden (golden_state_of src)]" d]
    by (auto simp: step_approved_def ends_def stop_at_def acts_def split: if_splits)
  show "\<not> acts (d_outcome d)" if "step_guards md src incs lg inc now clock base = Inl (Ends d)"
  proof (cases "rows_of lg")
    case (Inl e)
    with that show ?thesis by (auto simp: step_guards_def ends_def stop_at_def acts_def)
  next
    case (Inr rs)
    with that obtain g where g: "m_guards md = Some g"
      "check base (guards_5_to_11 md g src incs (decisions rs) inc now clock) = Inl (Ends d)"
      by (auto simp: step_guards_def bind_result_def split: option.splits sum.splits)
    from check_quiet [OF g(2)] show ?thesis by (simp add: guards_5_to_11_def Let_def acts_def)
  qed
  show "\<not> acts (d_outcome d)" if "step_at_golden inc base = Inl (Ends d)"
    using that by (auto simp: step_at_golden_def ends_def acts_def split: if_splits option.splits)
  show "\<not> acts (d_outcome d)" if "step_read env src inc now base = Inl (Ends d)"
    using that by (auto simp: step_read_def ends_def acts_def Let_def split: if_splits)
  show "\<not> acts (d_outcome d)" if "step_classify env src inc rs g base = Inl (Ends d)"
    using that check_quiet
    by (auto simp: step_classify_def ends_def acts_def Let_def bind_result_def split: if_splits sum.splits)
  show "\<not> acts (d_outcome d)" if "step_program env src inc c base = Inl (Ends d)"
    using that by (auto simp: step_program_def ends_def acts_def Let_def split: if_splits)
qed

lemma decide_one_acts:
  assumes "decide_one env md src incs lg now clock inc = Inr d" "acts (d_outcome d)"
  obtains rs g base1 c base2 base3 where
    "step_stops md src lg now (base_decision md inc) = Inr ()"
    "step_approved src (base_decision md inc) = Inr ()"
    "step_guards md src incs lg inc now clock (base_decision md inc) = Inr (rs, g)"
    "step_at_golden inc (base_decision md inc) = Inr ()"
    "step_read env src inc now (base_decision md inc) = Inr base1"
    "step_classify env src inc rs g base1 = Inr (c, base2)"
    "step_program env src inc c base2 = Inr base3"
    "d = base3\<lparr>d_outcome := outcome_of (m_mode md) c (m_auto md) (m_propose md)\<rparr>"
proof -
  have "judged env md src incs lg now clock inc \<noteq> Inl (Ends d)"
  proof
    assume "judged env md src incs lg now clock inc = Inl (Ends d)"
    then show False
      using step_quiet assms(2)
      by (auto simp: judged_def Let_def bind_result_Inl split: prod.splits)
  qed
  with assms(1) have "judged env md src incs lg now clock inc = Inr d"
    by (auto simp: decide_one_def split: sum.splits ending.splits)
  then show thesis
    by (auto simp: judged_def Let_def bind_result_eq_Inr_iff split: prod.splits intro: that)
qed

lemma step_guards_InrD:
  "step_guards md src incs lg inc now clock base = Inr (rs, g) \<Longrightarrow>
     rows_of lg = Inr rs \<and> m_guards md = Some g
     \<and> (\<forall>h \<in> set (guards_5_to_11 md g src incs (decisions rs) inc now clock). h = None)"
  by (auto simp: step_guards_def ends_def bind_result_eq_Inr_iff check_Inr split: sum.splits option.splits)

lemma step_stops_InrD:
  "step_stops md src lg now base = Inr u \<Longrightarrow> rows_of lg = Inr rs \<Longrightarrow>
     \<not> m_stopped md \<and> m_mode md \<noteq> M_off \<and> halted rs = None \<and> no_planned_work (ds_planned src)"
  by (simp add: step_stops_def check_Inr guards_pass bind_result_def)

lemma step_approved_InrD:
  "step_approved src base = Inr u \<Longrightarrow> \<not> ds_refused src \<and> golden_state_of src = G_at_intent"
  by (auto simp: step_approved_def ends_def check_Inr guards_pass split: if_splits)

lemma step_classify_InrD:
  "step_classify env src inc rs g base = Inr (c, base') \<Longrightarrow>
     c = classified_of env src inc \<and> cl_units c \<noteq> []
     \<and> base' = base\<lparr>d_units := map masked_unit (cl_units c), d_kind := cl_kind c, d_tier := cl_tier c\<rparr>
     \<and> length (filter (\<lambda>u. u_op u = Op_remove) (cl_units c)) \<le> g Max_removed_units
     \<and> length (remdups (map unit_section (cl_units c))) \<le> g Max_units
     \<and> (\<forall>d \<in> set (decisions rs). \<not> rolled_back_since d (i_device inc) (last_halt_epoch rs))"
  by (auto simp: step_classify_def ends_def Let_def bind_result_eq_Inr_iff check_Inr guards_pass not_less
      split: if_splits)

lemma step_read_InrD:
  "step_read env src inc now base = Inr base' \<Longrightarrow>
     ds_read src \<noteq> [] \<and> base' = base\<lparr>d_departure := he_departure env (golden_text src) (ds_read src)\<rparr>
     \<and> (settled_departure inc = '''' \<or> settled_departure inc = he_departure env (golden_text src) (ds_read src))"
  by (auto simp: step_read_def ends_def Let_def split: if_splits)

lemma step_program_InrD:
  "step_program env src inc c base = Inr base' \<Longrightarrow> cl_tier c < 3 \<Longrightarrow> cl_blocked c = None \<Longrightarrow>
     hp_refused (heal_program_of env src c) = []
     \<and> \<not> he_reach_lost env (i_device inc) (hp_commands (heal_program_of env src c))
     \<and> base' = base\<lparr>d_program_hash := hp_hash (heal_program_of env src c), d_removal_ids := cl_removal_ids c\<rparr>"
  by (auto simp: step_program_def ends_def Let_def split: if_splits)

lemma at_golden_InrD:
  "step_at_golden inc base = Inr u \<Longrightarrow> map_option s_how (i_settled inc) \<noteq> Some At_golden"
  by (auto simp: step_at_golden_def ends_def split: if_splits option.splits)

lemma cl_units_eq:
  "cl_units (classify env feature_of golden running intended mgmt_ip related)
   = map (classify_unit env running mgmt_ip related)
       (units_of feature_of (dp_missing (departures golden running intended))
          (dp_added (departures golden running intended)))"
  by (simp add: classify_def Let_def)

lemma cl_tier_ge:
  assumes "u \<in> set (cl_units (classify env feature_of golden running intended mgmt_ip related))"
  shows "u_tier u \<le> cl_tier (classify env feature_of golden running intended mgmt_ip related)"
proof -
  obtain v vs where us: "cl_units (classify env feature_of golden running intended mgmt_ip related) = v # vs"
    using assms by (cases "cl_units (classify env feature_of golden running intended mgmt_ip related)") auto
  then have "cl_tier (classify env feature_of golden running intended mgmt_ip related) = u_tier (strictest v vs)"
    by (simp add: classify_def Let_def)
  with us assms strictest_ge [of u v vs] show ?thesis by simp
qed

lemma cl_blocked_None:
  assumes "cl_blocked (classify env feature_of golden running intended mgmt_ip related) = None"
    and "u \<in> set (cl_units (classify env feature_of golden running intended mgmt_ip related))"
  shows "u_blocked u = None"
proof -
  have "find_idx (\<lambda>u. u_blocked u \<noteq> None)
      (cl_units (classify env feature_of golden running intended mgmt_ip related)) = None"
    using assms(1) by (simp add: classify_def Let_def)
  with assms(2) show ?thesis by (auto simp: find_idx_None_iff)
qed

text \<open>What a heal heals is allowed and bound: each unit is of Tier 1, of a kind the policy allows
  AUTO, not blocked, and holds no line of an ACL or a credential nor anything Mercury reaches the
  device by; the program refuses no unit and cuts no path of Mercury's; and the decision carries
  the hash of that very program and the removals it names.\<close>

lemma heal_is_its_program:
  assumes "decide_one env md src incs lg now clock inc = Inr d" and "d_outcome d = O_heal"
  shows "cl_units (classified_of env src inc) \<noteq> []
    \<and> d_units d = map masked_unit (cl_units (classified_of env src inc))
    \<and> list_all (\<lambda>u. u_tier u < 2 \<and> u_kind u \<in> set (m_auto md) \<and> u_blocked u = None
          \<and> \<not> touches_management
                (management_interfaces (paths_in (he_program env) (pe_stored (he_program env) (ds_read src)))
                   (ds_mgmt_ip src))
                (management_routes (e_route_of (pe_removal (he_program env)))
                   (e_addresses (pe_removal (he_program env)))
                   (paths_in (he_program env) (pe_stored (he_program env) (ds_read src)))) u
          \<and> list_all (\<lambda>t. \<not> is_acl t \<and> \<not> is_credential t) (unit_texts u))
        (cl_units (classified_of env src inc))
    \<and> hp_refused (heal_program_of env src (classified_of env src inc)) = []
    \<and> \<not> he_reach_lost env (i_device inc) (hp_commands (heal_program_of env src (classified_of env src inc)))
    \<and> d_program_hash d = hp_hash (heal_program_of env src (classified_of env src inc))
    \<and> d_removal_ids d = cl_removal_ids (classified_of env src inc)"
proof -
  have "acts (d_outcome d)" using assms(2) by (simp add: acts_def)
  from decide_one_acts [OF assms(1) this] obtain rs g base1 c base2 base3 where
    s: "step_classify env src inc rs g base1 = Inr (c, base2)"
    "step_program env src inc c base2 = Inr base3"
    "d = base3\<lparr>d_outcome := outcome_of (m_mode md) c (m_auto md) (m_propose md)\<rparr>" by metis
  have out: "cl_tier c < 2" "cl_blocked c = None" "\<forall>u \<in> set (cl_units c). u_kind u \<in> set (m_auto md)"
    using assms(2) s(3) by (auto simp: outcome_of_def Let_def split: if_splits)
  note cl = step_classify_InrD [OF s(1)]
  have c: "c = classified_of env src inc" using cl by simp
  note pr = step_program_InrD [OF s(2) _ out(2)]
  let ?pe = "he_program env"
  let ?run = "paths_in ?pe (pe_stored ?pe (ds_read src))"
  have unit: "u_tier u < 2 \<and> u_kind u \<in> set (m_auto md) \<and> u_blocked u = None
      \<and> \<not> touches_management (management_interfaces ?run (ds_mgmt_ip src))
          (management_routes (e_route_of (pe_removal ?pe)) (e_addresses (pe_removal ?pe)) ?run) u
      \<and> list_all (\<lambda>t. \<not> is_acl t \<and> \<not> is_credential t) (unit_texts u)"
    if u: "u \<in> set (cl_units c)" for u
  proof -
    have t: "u_tier u < 2"
      using le_less_trans [OF cl_tier_ge] u out(1) unfolding c classified_of_def Let_def by blast
    moreover have "u_blocked u = None"
      using cl_blocked_None u out(2) unfolding c classified_of_def Let_def by blast
    moreover from u obtain x where x: "u = classify_unit (pe_removal ?pe) ?run (ds_mgmt_ip src) (i_related inc \<noteq> []) x"
      unfolding c classified_of_def Let_def cl_units_eq by auto
    moreover have "u_tier u < 3" using t by simp
    then have "\<not> touches_management (management_interfaces ?run (ds_mgmt_ip src))
          (management_routes (e_route_of (pe_removal ?pe)) (e_addresses (pe_removal ?pe)) ?run) u
        \<and> list_all (\<lambda>t. \<not> is_acl t \<and> \<not> is_credential t) (unit_texts u)"
      using classify_unit_low [of "pe_removal ?pe" ?run "ds_mgmt_ip src" "i_related inc \<noteq> []" x]
      unfolding x list_all_iff by blast
    ultimately show ?thesis using out(3) u by blast
  qed
  have "list_all (\<lambda>u. u_tier u < 2 \<and> u_kind u \<in> set (m_auto md) \<and> u_blocked u = None
      \<and> \<not> touches_management (management_interfaces ?run (ds_mgmt_ip src))
          (management_routes (e_route_of (pe_removal ?pe)) (e_addresses (pe_removal ?pe)) ?run) u
      \<and> list_all (\<lambda>t. \<not> is_acl t \<and> \<not> is_credential t) (unit_texts u)) (cl_units c)"
    by (subst list_all_iff) (use unit in blast)
  with cl pr out(1) s(3) show ?thesis unfolding c by simp
qed

text \<open>C1: a heal has passed every guard, each by its own condition: the kill switch off, AUTO in force,
  no halt, no planned work, a managed device whose golden matches its intent, no hold, few devices
  departing, no person working, a departure that persisted, the rates below their limits, the same
  departure not healed before, none rolled back since the last halt, the device read now and still
  departing the same way, a program of allowed size, and the tier (guard 13): something to heal, every
  unit of Tier 1, of a kind the policy allows AUTO and not blocked, the program computed from them
  refused nothing and cutting nothing of Mercury's reach, its hash the decision's. A record that
  cannot be read heals nothing.\<close>

theorem heal_passed_every_guard:
  assumes "decide_one env md src incs lg now clock inc = Inr d" and "d_outcome d = O_heal"
  shows "\<exists>rs g. rows_of lg = Inr rs \<and> m_guards md = Some g
    \<and> \<not> m_stopped md \<and> m_mode md = M_auto \<and> halted rs = None
    \<and> no_planned_work (ds_planned src) \<and> \<not> ds_refused src \<and> golden_state_of src = G_at_intent
    \<and> \<not> ha_held (topology (hold_minutes md) (ds_hold src) (i_device inc) now)
    \<and> length (departing incs now (grace_seconds g)) \<le> g Max_devices_drifting
    \<and> length (recent_changes inc now (g Person_working_minutes)) < g Person_working_changes
    \<and> map_option s_how (i_settled inc) = Some Persisted
    \<and> length (filter (\<lambda>d. d_device d = i_device inc) (counted (decisions rs) O_heal (now - 3600)))
        < g Max_per_device_hour
    \<and> length (counted (decisions rs) O_heal (now - 3600)) < g Max_per_network_hour
    \<and> \<not> healed_before (decisions rs) (i_device inc) (settled_departure inc) O_heal now (g Repeat_halts_hours)
    \<and> list_all (\<lambda>d. \<not> rolled_back_since d (i_device inc) (last_halt_epoch rs)) (decisions rs)
    \<and> ds_read src \<noteq> []
    \<and> settled_departure inc \<in> {'''', he_departure env (golden_text src) (ds_read src)}
    \<and> length (filter (\<lambda>u. u_op u = Op_remove) (cl_units (classified_of env src inc))) \<le> g Max_removed_units
    \<and> length (remdups (map unit_section (cl_units (classified_of env src inc)))) \<le> g Max_units
    \<and> cl_units (classified_of env src inc) \<noteq> []
    \<and> list_all (\<lambda>u. u_tier u \<le> 1 \<and> u_kind u \<in> set (m_auto md) \<and> u_blocked u = None)
        (cl_units (classified_of env src inc))
    \<and> hp_refused (heal_program_of env src (classified_of env src inc)) = []
    \<and> \<not> he_reach_lost env (i_device inc) (hp_commands (heal_program_of env src (classified_of env src inc)))
    \<and> d_program_hash d = hp_hash (heal_program_of env src (classified_of env src inc))"
proof -
  have "acts (d_outcome d)" using assms(2) by (simp add: acts_def)
  from decide_one_acts [OF assms(1) this] obtain rs g base1 c base2 base3 where
    s: "step_stops md src lg now (base_decision md inc) = Inr ()"
    "step_approved src (base_decision md inc) = Inr ()"
    "step_guards md src incs lg inc now clock (base_decision md inc) = Inr (rs, g)"
    "step_at_golden inc (base_decision md inc) = Inr ()"
    "step_read env src inc now (base_decision md inc) = Inr base1"
    "step_classify env src inc rs g base1 = Inr (c, base2)"
    "d = base3\<lparr>d_outcome := outcome_of (m_mode md) c (m_auto md) (m_propose md)\<rparr>" by metis
  have auto: "m_mode md = M_auto"
    using assms(2) s(7) by (auto simp: outcome_of_def Let_def split: if_splits)
  note gs = step_guards_InrD [OF s(3)]
  note st = step_stops_InrD [OF s(1) conjunct1 [OF gs]]
  have g: "\<not> ha_held (topology (hold_minutes md) (ds_hold src) (i_device inc) now)
    \<and> length (departing incs now (grace_seconds g)) \<le> g Max_devices_drifting
    \<and> length (recent_changes inc now (g Person_working_minutes)) < g Person_working_changes
    \<and> map_option s_how (i_settled inc) \<in> {Some Persisted, Some At_golden}
    \<and> length (filter (\<lambda>d. d_device d = i_device inc) (counted (decisions rs) O_heal (now - 3600)))
        < g Max_per_device_hour
    \<and> length (counted (decisions rs) O_heal (now - 3600)) < g Max_per_network_hour
    \<and> \<not> healed_before (decisions rs) (i_device inc) (settled_departure inc) O_heal now (g Repeat_halts_hours)"
    using gs by (simp add: guards_5_to_11_def Let_def guards_pass outcome_counted_def auto not_less not_le)
  note pr = heal_is_its_program [OF assms]
  have tier: "list_all (\<lambda>u. u_tier u \<le> 1 \<and> u_kind u \<in> set (m_auto md) \<and> u_blocked u = None)
      (cl_units (classified_of env src inc))"
    using pr by (auto simp: list_all_iff)
  have "map_option s_how (i_settled inc) = Some Persisted"
    using g at_golden_InrD [OF s(4)] by auto
  moreover have "list_all (\<lambda>d. \<not> rolled_back_since d (i_device inc) (last_halt_epoch rs)) (decisions rs)"
    using step_classify_InrD [OF s(6)] by (simp add: list_all_iff)
  moreover have "ds_read src \<noteq> []"
    "settled_departure inc \<in> {'''', he_departure env (golden_text src) (ds_read src)}"
    using step_read_InrD [OF s(5)] by auto
  moreover have "length (filter (\<lambda>u. u_op u = Op_remove) (cl_units (classified_of env src inc))) \<le> g Max_removed_units"
    "length (remdups (map unit_section (cl_units (classified_of env src inc)))) \<le> g Max_units"
    using step_classify_InrD [OF s(6)] by auto
  moreover have "rows_of lg = Inr rs" "m_guards md = Some g" using gs by auto
  moreover note g st auto step_approved_InrD [OF s(2)] pr tier
  ultimately show ?thesis by (intro exI [of _ rs] exI [of _ g] conjI) simp_all
qed

section \<open>A heal of one device\<close>

definition ex_env_heal :: heal_env where
  "ex_env_heal = \<lparr>he_program = ex_program_env, he_feature = ex_feature_of,
     he_departure = (\<lambda>g r. if g = r then '''' else ''dep''), he_reach_lost = (\<lambda>_ _. False)\<rparr>"

definition ex_quiet :: hold_sources where
  "ex_quiet = \<lparr>hs_neighbours = Inr [], hs_receipts = (\<lambda>_. Inr []), hs_rotations = Inr Map.empty,
     hs_onboarding = Inr [], hs_retirements = Inr [], hs_link_set = Inr None\<rparr>"

definition ex_src :: device_sources where
  "ex_src = \<lparr>ds_planned = \<lparr>pl_explained = Inr None, pl_holder = Inr False, pl_window = False\<rparr>,
     ds_refused = False, ds_golden = Some [''interface Gi1'', '' shutdown''], ds_trailer = T_at_intent,
     ds_match = IM_unknown, ds_hold = ex_quiet, ds_read = [''interface Gi1''],
     ds_intended = [''interface Gi1'', '' shutdown''], ds_mgmt_ip = ''10.0.0.1''\<rparr>"

definition ex_md :: policy_now where
  "ex_md = \<lparr>m_mode = M_auto, m_readable = True, m_expired = False, m_suspended = False,
     m_stopped = False, m_auto = [K_missing_line], m_propose = [], m_guards = Some guard_default,
     m_fingerprint = ''auto'', m_confirmed = None\<rparr>"

definition ex_ready :: incident where
  "ex_ready = (new_incident ''i1'' ''net'' ''r1'' (ex_trigger Drift ''k1'' []) 100)
     \<lparr>i_state := Ready,
      i_settled := Some \<lparr>s_how = Persisted, s_at = 1000, s_first = Some 0, s_second = Some 1,
                         s_departure = ''dep''\<rparr>\<rparr>"

definition ex_claimed :: incident where
  "ex_claimed = ex_ready\<lparr>i_state := Claimed, i_claimed := Some (''heal'', 10000), i_updated_at := 10000\<rparr>"

lemma ex_claimed_simps [simp]:
  "i_id ex_claimed = ''i1''" "i_device ex_claimed = ''r1''" "i_related ex_claimed = []"
  "i_settled ex_claimed = Some \<lparr>s_how = Persisted, s_at = 1000, s_first = Some 0, s_second = Some 1,
                         s_departure = ''dep''\<rparr>"
  "i_opened_epoch ex_claimed = 100"
  by (simp_all add: ex_claimed_def ex_ready_def new_incident_def)

lemma ex_classified:
  "map u_tier (cl_units (classified_of ex_env_heal ex_src ex_claimed)) = [1]"
  "map u_kind (cl_units (classified_of ex_env_heal ex_src ex_claimed)) = [K_missing_line]"
  "map u_op (cl_units (classified_of ex_env_heal ex_src ex_claimed)) = [Op_add]"
  "cl_tier (classified_of ex_env_heal ex_src ex_claimed) = 1"
  "cl_blocked (classified_of ex_env_heal ex_src ex_claimed) = None"
  "hp_refused (heal_program_of ex_env_heal ex_src (classified_of ex_env_heal ex_src ex_claimed)) = []"
  by code_simp+

lemma ex_recent: "recent_changes ex_claimed 10000 m = []"
  by (auto simp: recent_changes_def outside_changes_def ex_claimed_def ex_ready_def new_incident_def filter_empty_conv)

lemma ex_held_free: "\<not> ha_held (topology (hold_minutes ex_md) (ds_hold ex_src) ''r1'' 10000)"
  by (simp add: topology_held_iff hold_minutes_def ex_md_def ex_src_def ex_quiet_def unread_def
      recorded_def hold_devices_def)

lemma ex_guards_pass:
  "\<forall>h \<in> set (guards_5_to_11 ex_md guard_default ex_src [ex_claimed] [] ex_claimed 10000 10000). h = None"
  using ex_held_free ex_recent
  by (simp add: guards_5_to_11_def Let_def guards_pass departing_def grace_seconds_def or_num_def
      counted_def healed_before_def)

lemma ex_units: "\<exists>u. cl_units (classified_of ex_env_heal ex_src ex_claimed) = [u] \<and> u_tier u = 1
    \<and> u_kind u = K_missing_line \<and> u_op u = Op_add"
  using ex_classified(1-3) by (cases "cl_units (classified_of ex_env_heal ex_src ex_claimed)") auto

lemma ex_heals: "\<exists>d. decide_one ex_env_heal ex_md ex_src [ex_claimed] No_log 10000 10000 ex_claimed = Inr d
    \<and> d_outcome d = O_heal"
proof -
  let ?c = "classified_of ex_env_heal ex_src ex_claimed"
  obtain u where u: "cl_units ?c = [u]" "u_tier u = 1" "u_kind u = K_missing_line" "u_op u = Op_add"
    using ex_units by blast
  have s1: "step_stops ex_md ex_src No_log 10000 base = Inr ()" for base
    by (simp add: step_stops_def Let_def check_Inr guards_pass ex_md_def ex_src_def no_planned_work_def
        halted_def bind_result_def)
  have s2: "step_approved ex_src base = Inr ()" for base
    by (simp add: step_approved_def check_Inr guards_pass ex_src_def golden_state_of_def)
  have s3: "step_guards ex_md ex_src [ex_claimed] No_log ex_claimed 10000 10000 base = Inr ([], guard_default)" for base
  proof -
    have "check base (guards_5_to_11 ex_md guard_default ex_src [ex_claimed] (decisions []) ex_claimed 10000 10000)
        = Inr ()"
      unfolding check_Inr using ex_guards_pass by (simp add: decisions_def)
    then show ?thesis by (simp add: step_guards_def ex_md_def bind_result_def)
  qed
  have s4: "step_at_golden ex_claimed base = Inr ()" for base by (simp add: step_at_golden_def)
  have s5: "step_read ex_env_heal ex_src ex_claimed 10000 base = Inr (base\<lparr>d_departure := ''dep''\<rparr>)" for base
    by (simp add: step_read_def Let_def ex_src_def ex_env_heal_def settled_departure_def golden_text_def)
  have s6: "\<exists>b. step_classify ex_env_heal ex_src ex_claimed [] guard_default base = Inr (?c, b)" for base
  proof -
    have "ds_intended ex_src \<noteq> []" by (simp add: ex_src_def)
    moreover have "check b [g12_size (cl_units ?c) (guard_default Max_removed_units) (guard_default Max_units),
        g14_rolled_back (decisions []) (i_device ex_claimed) (last_halt_epoch [])] = Inr ()" for b
      unfolding check_Inr u(1) by (simp add: guards_pass u(4) decisions_def)
    ultimately show ?thesis by (simp add: step_classify_def Let_def u(1) [symmetric, THEN arg_cong])
      (simp add: u(1) bind_result_def)
  qed
  have s7: "\<exists>b. step_program ex_env_heal ex_src ex_claimed ?c base = Inr b" for base
    using ex_classified(4-6) by (simp add: step_program_def Let_def ex_env_heal_def [THEN arg_cong [where f = he_reach_lost]])
  have out: "outcome_of M_auto ?c [K_missing_line] [] = O_heal"
    using ex_classified(4,5) u by (simp add: outcome_of_def)
  obtain b6 where b6: "step_classify ex_env_heal ex_src ex_claimed [] guard_default
      ((base_decision ex_md ex_claimed)\<lparr>d_departure := ''dep''\<rparr>) = Inr (?c, b6)" using s6 by blast
  obtain b7 where b7: "step_program ex_env_heal ex_src ex_claimed ?c b6 = Inr b7" using s7 by blast
  have "judged ex_env_heal ex_md ex_src [ex_claimed] No_log 10000 10000 ex_claimed = Inr (b7\<lparr>d_outcome := O_heal\<rparr>)"
    by (simp add: judged_def Let_def s1 s2 s3 s4 s5 b6 b7 bind_result_def)
      (simp add: ex_md_def out)
  then show ?thesis by (simp add: decide_one_def)
qed

theorem heal_passed_every_guard_witness:
  "length (departing [ex_claimed] 10000 (grace_seconds guard_default)) \<le> guard_default Max_devices_drifting
   \<and> \<not> ha_held (topology (hold_minutes ex_md) (ds_hold ex_src) ''r1'' 10000)
   \<and> list_all (\<lambda>u. u_kind u = K_missing_line \<and> u_tier u \<le> 1) (cl_units (classified_of ex_env_heal ex_src ex_claimed))"
proof -
  from ex_heals obtain d where d: "decide_one ex_env_heal ex_md ex_src [ex_claimed] No_log 10000 10000 ex_claimed
      = Inr d" "d_outcome d = O_heal" by blast
  from heal_passed_every_guard [OF d] show ?thesis by (auto simp: ex_md_def list_all_iff)
qed

end
