(* ===== verification/Decide_Run.thy ===== *)
theory Decide_Run
  imports Decide
begin

text \<open>
  What a run of the decision (\<open>run\<close> of \<open>modules/heal/decide.py\<close>) does to the incident store and
  the log together, whatever the rest of the system does to them before each incident's turn: each
  incident that was ready is decided and left as its decision says, the heals decided stay within the rates
  the policy sets, and while a halt is in force nothing is healed.
\<close>

section \<open>The store: nothing is left ready\<close>

definition ready_ids :: "incident list \<Rightarrow> incident_id set" where
  "ready_ids doc = i_id ` {i \<in> set doc. i_state i = Ready}"

lemma ready_ids_prune: "ready_ids (prune doc) \<subseteq> ready_ids doc"
  using set_prune_subset [of doc] by (auto simp: ready_ids_def)

lemma ids_ok_prune: "ids_ok doc \<Longrightarrow> ids_ok (prune doc)"
  by (simp add: ids_ok_def prune_eq distinct_map_filter)

text \<open>The state of an incident that is open, if it is in the store.\<close>

definition open_in :: "incident list \<Rightarrow> incident_id \<Rightarrow> inc_state set" where
  "open_in doc x = set (map i_state (filter (\<lambda>i. i_id i = x \<and> i_state i \<noteq> Closed) doc))"

lemma open_in_prune: "ids_ok doc \<Longrightarrow> open_in (prune doc) x = open_in doc x"
  using prune_dropped_only [of doc] set_prune_subset [of doc] by (fastforce simp: open_in_def)

lemma open_in_update:
  assumes "ids_ok doc" "k < length doc" "i_id inc' = i_id (doc ! k)"
  shows "open_in (doc[k := inc']) x
    = (if x = i_id (doc ! k) then {i_state inc'} - {Closed} else open_in doc x)"
proof -
  have at: "b \<in> set (doc[k := inc']) \<longleftrightarrow> b = inc' \<or> (\<exists>j < length doc. j \<noteq> k \<and> b = doc ! j)" for b
    using assms(2) by (auto simp: in_set_conv_nth nth_list_update)
  have other: "i_id (doc ! j) \<noteq> i_id (doc ! k)" if "j < length doc" "j \<noteq> k" for j
    using assms(1,2) that by (simp add: ids_ok_def distinct_conv_nth)
  show ?thesis
  proof (cases "x = i_id (doc ! k)")
    case True
    have "b \<in> set (doc[k := inc']) \<and> i_id b = x \<longleftrightarrow> b = inc'" for b
      using other assms(3) True by (auto simp: at)
    then have "{b \<in> set (doc[k := inc']). i_id b = x \<and> i_state b \<noteq> Closed} = {b. b = inc' \<and> i_state b \<noteq> Closed}"
      by blast
    with True show ?thesis by (auto simp: open_in_def)
  next
    case False
    have "b \<in> set (doc[k := inc']) \<and> i_id b = x \<longleftrightarrow> b \<in> set doc \<and> i_id b = x" for b
      using assms(2,3) False unfolding at by (auto simp: in_set_conv_nth)
    then have "{b \<in> set (doc[k := inc']). i_id b = x \<and> i_state b \<noteq> Closed} = {b \<in> set doc. i_id b = x \<and> i_state b \<noteq> Closed}"
      by blast
    with False show ?thesis by (simp add: open_in_def)
  qed
qed


text \<open>An operation on one incident that leaves it in a given state, every other as it was.\<close>

definition sets_one :: "incident_id \<Rightarrow> inc_state \<Rightarrow> store \<Rightarrow> store \<Rightarrow> bool" where
  "sets_one x t st st' \<longleftrightarrow> (ids_ok (held st) \<longrightarrow>
     ids_ok (held st') \<and> open_in (held st') = (open_in (held st))(x := {t} - {Closed}))"

context incident_operation
begin

lemma mutate_sets:
  assumes "mutate ex (on_incident x (op a)) st = Inr (inc', st')"
  shows "sets_one x (i_state inc') st st' \<and> i_id inc' = x"
proof -
  from assms obtain doc where d: "on_incident x (op a) (held st) = Inr (inc', doc)"
    "st' = Stored (prune doc)"
    by (auto simp: mutate_def bind_result_eq_Inr_iff split: store.splits if_splits)
  from d(1) obtain k where k: "k < length (held st)" "i_id (held st ! k) = x" "op a (held st ! k) = Inr inc'"
    "doc = (held st)[k := inc']" by (rule on_incidentE)
  have same: "i_id inc' = i_id (held st ! k)" using keeps_identity [OF k(3)] by simp
  then have ids: "map i_id doc = map i_id (held st)"
    using k by (simp add: map_update list_update_same_conv)
  have "ids_ok (held st) \<Longrightarrow> ids_ok doc" using ids by (simp add: ids_ok_def)
  then show ?thesis
    using d(2) k(2) open_in_update [OF _ k(1) same] same
    by (auto simp: sets_one_def k(4) [symmetric] ids_ok_prune open_in_prune fun_eq_iff)
qed

end







text \<open>What a decision leaves its incident as: claimed for the heal or the proposal, back to watching when it
  is held or deferred until some time, or closed.\<close>

definition left_as :: "decision \<Rightarrow> inc_state" where
  "left_as d = (if d_outcome d \<in> {O_heal, O_propose} then Claimed
                else if d_outcome d \<in> {O_deferred, O_held} \<and> (\<exists>u. d_until d = Some u \<and> u \<noteq> 0) then Watching
                else Closed)"





section \<open>The log: what a run appends\<close>

text \<open>Every decision keeps the device and the mode it was made for.\<close>

definition made_for :: "policy_now \<Rightarrow> incident \<Rightarrow> decision \<Rightarrow> bool" where
  "made_for md inc d \<longleftrightarrow> d_device d = i_device inc \<and> d_mode d = m_mode md"

lemma made_for_base [simp]: "made_for md inc (base_decision md inc)"
  by (simp add: made_for_def base_decision_def)

lemma made_for_update [simp]:
  "made_for md inc (stop_at d h) = made_for md inc d" "made_for md inc (d\<lparr>d_outcome := out\<rparr>) = made_for md inc d"
  "made_for md inc (d\<lparr>d_until := u\<rparr>) = made_for md inc d" "made_for md inc (d\<lparr>d_kind := k\<rparr>) = made_for md inc d"
  "made_for md inc (d\<lparr>d_tier := t\<rparr>) = made_for md inc d" "made_for md inc (d\<lparr>d_units := us\<rparr>) = made_for md inc d"
  "made_for md inc (d\<lparr>d_departure := dep\<rparr>) = made_for md inc d"
  "made_for md inc (d\<lparr>d_program_hash := ph\<rparr>) = made_for md inc d"
  "made_for md inc (d\<lparr>d_removal_ids := ri\<rparr>) = made_for md inc d"
  by (simp_all add: made_for_def stop_at_def)

text \<open>A step ends or passes on a decision made for what it was given.\<close>

definition keeps_for :: "policy_now \<Rightarrow> incident \<Rightarrow> ('a \<Rightarrow> bool) \<Rightarrow> 'a step \<Rightarrow> bool" where
  "keeps_for md inc P s \<longleftrightarrow>
     (case s of Inl (Ends d) \<Rightarrow> made_for md inc d | Inl (Raises e) \<Rightarrow> True | Inr x \<Rightarrow> P x)"

lemma keeps_for_bind:
  "keeps_for md inc P s \<Longrightarrow> (\<And>x. P x \<Longrightarrow> keeps_for md inc Q (f x)) \<Longrightarrow> keeps_for md inc Q (bind_result s f)"
  by (cases s) (auto simp: keeps_for_def bind_result_def)

lemma keeps_for_simps:
  "keeps_for md inc P (Inr x) \<longleftrightarrow> P x" "keeps_for md inc P (ends d) \<longleftrightarrow> made_for md inc d"
  "keeps_for md inc P (Inl (Raises e))"
  by (simp_all add: keeps_for_def ends_def)

lemma keeps_for_check: "made_for md inc d \<Longrightarrow> keeps_for md inc (\<lambda>_. True) (check d hs)"
  by (auto simp: check_def keeps_for_def split: option.splits)

lemma keeps_for_steps:
  assumes "made_for md inc d"
  shows "keeps_for md inc (\<lambda>_. True) (step_stops md src lg now d)"
    "keeps_for md inc (\<lambda>_. True) (step_approved src d)"
    "keeps_for md inc (\<lambda>_. True) (step_guards md src incs lg inc' now clock d)"
    "keeps_for md inc (\<lambda>_. True) (step_at_golden inc' d)"
    "keeps_for md inc (made_for md inc) (step_read env src inc' now d)"
    "keeps_for md inc (\<lambda>p. made_for md inc (snd p)) (step_classify env src inc' rs g d)"
    "keeps_for md inc (made_for md inc) (step_program env src inc' c d)"
proof -
  show "keeps_for md inc (\<lambda>_. True) (step_stops md src lg now d)"
    using assms by (simp add: step_stops_def Let_def keeps_for_check)
  show "keeps_for md inc (\<lambda>_. True) (step_approved src d)"
    using assms by (simp add: step_approved_def keeps_for_check keeps_for_simps)
  show "keeps_for md inc (\<lambda>_. True) (step_guards md src incs lg inc' now clock d)"
    using assms by (auto simp: step_guards_def keeps_for_simps
        intro!: keeps_for_bind [OF keeps_for_check [OF assms]] split: sum.splits option.splits)
  show "keeps_for md inc (\<lambda>_. True) (step_at_golden inc' d)"
    using assms by (auto simp: step_at_golden_def keeps_for_simps split: option.splits)
  show "keeps_for md inc (made_for md inc) (step_read env src inc' now d)"
    using assms by (simp add: step_read_def Let_def keeps_for_simps)
  show "keeps_for md inc (\<lambda>p. made_for md inc (snd p)) (step_classify env src inc' rs g d)"
    using assms by (auto simp: step_classify_def Let_def keeps_for_simps
        intro!: keeps_for_bind [OF keeps_for_check])
  show "keeps_for md inc (made_for md inc) (step_program env src inc' c d)"
    using assms by (simp add: step_program_def Let_def keeps_for_simps)
qed

lemma decide_one_made_for:
  assumes "decide_one env md src incs lg now clock inc = Inr d"
  shows "made_for md inc d"
proof -
  have "keeps_for md inc (made_for md inc) (judged env md src incs lg now clock inc)"
    unfolding judged_def Let_def
    by (intro keeps_for_bind [OF keeps_for_steps(1)] keeps_for_bind [OF keeps_for_steps(2)]
        keeps_for_bind [OF keeps_for_steps(3)] made_for_base)
      (auto simp: keeps_for_simps intro!: keeps_for_bind [OF keeps_for_steps(4)]
        keeps_for_bind [OF keeps_for_steps(5)] keeps_for_bind [OF keeps_for_steps(6)]
        keeps_for_bind [OF keeps_for_steps(7)])
  with assms show ?thesis
    by (auto simp: decide_one_def keeps_for_def split: sum.splits ending.splits)
qed

definition recorded_as :: "decision_id \<Rightarrow> epoch \<Rightarrow> decision \<Rightarrow> decision" where
  "recorded_as i now d = d\<lparr>d_id := i, d_at := iso now, d_epoch := now\<rparr>"

lemma recorded_as_simps [simp]:
  "d_outcome (recorded_as i now d) = d_outcome d" "d_device (recorded_as i now d) = d_device d"
  "d_epoch (recorded_as i now d) = now" "halts_network (recorded_as i now d) = halts_network d"
  by (simp_all add: recorded_as_def halts_network_def)

text \<open>What one incident's decision may append: nothing, its decision, or, when the decision halts,
  its decision and the halt.\<close>

definition appended :: "(decision \<Rightarrow> bool) \<Rightarrow> epoch \<Rightarrow> log_row list \<Rightarrow> bool" where
  "appended P now new \<longleftrightarrow> new = []
     \<or> (\<exists>i d. P d \<and> (new = [Decision_row (recorded_as i now d)] \<and> \<not> halts_network d
                   \<or> (\<exists>h. new = [Decision_row (recorded_as i now d), Halt_row h] \<and> halts_network d)))"

lemma rows_of_append: "rows_of lg = Inr rs \<Longrightarrow> rows_of (append_to new lg) = Inr (rs @ new)"
  by (cases lg) auto

lemma decide_claimed_log:
  assumes "decide_claimed env md rn now clock inc (st, lg) = (r, (st', lg'))"
    and "rows_of lg = Inr rs" and "rn_exists rn"
  shows "\<exists>new. rows_of lg' = Inr (rs @ new)
    \<and> appended (\<lambda>d. decide_one env md (rn_source rn (i_device inc)) (held st) lg now clock inc = Inr d) now new"
proof (cases "decide_one env md (rn_source rn (i_device inc)) (held st) lg now clock inc")
  case (Inl e)
  with assms show ?thesis by (intro exI [of _ "[]"]) (auto simp: decide_claimed_def appended_def)
next
  case (Inr made)
  let ?d = "recorded_as (rn_id rn (i_id inc)) now made"
  let ?lg = "append_to [Decision_row ?d] lg"
  have act: "\<exists>r'. act rn (i_id inc) ?d now (st, ?lg) = (r', (st', lg'))"
    using assms(1,3) Inr
    by (auto simp: decide_claimed_def record_decision_def append_row_def recorded_as_def Let_def
        split: prod.splits sum.splits)
  show ?thesis
  proof (cases "halts_network made")
    case False
    with act have "lg' = ?lg" by (auto simp: act_def split: sum.splits)
    with False Inr rows_of_append [OF assms(2)] show ?thesis
      by (intro exI [of _ "[Decision_row ?d]"]) (auto simp: appended_def)
  next
    case True
    with act assms(3) obtain h where "lg' = append_to [Halt_row h] ?lg"
      by (auto simp: act_def halt_network_def append_row_def Let_def split: sum.splits)
    with rows_of_append [OF rows_of_append [OF assms(2)]]
    have "rows_of lg' = Inr (rs @ [Decision_row ?d, Halt_row h])" by simp
    with True Inr show ?thesis
      by (intro exI [of _ "[Decision_row ?d, Halt_row h]"]) (auto simp: appended_def)
  qed
qed

text \<open>What the rest of the system does to the log between the decisions of a run: it appends rows of a
  given kind. Decisions are only appended under the heal lock, which the run holds.\<close>

definition others_rows :: "(log_row \<Rightarrow> bool) \<Rightarrow> run_env \<Rightarrow> bool" where
  "others_rows P rn \<longleftrightarrow> (\<forall>x s rs. rows_of (snd s) = Inr rs
     \<longrightarrow> (\<exists>new. rows_of (snd (rn_others rn x s)) = Inr (rs @ new) \<and> list_all P new))"

lemma others_rowsE:
  assumes "others_rows P rn" "rows_of lg = Inr rs"
  obtains st0 lg0 mid where "rn_others rn x (st, lg) = (st0, lg0)" "rows_of lg0 = Inr (rs @ mid)" "list_all P mid"
  using assms by (metis others_rows_def snd_conv surj_pair)

lemma run_one_log:
  assumes "run_one env pol rn now clock inc (out, (st, lg)) = (r, (st', lg'))"
    and "rows_of lg = Inr rs" and "rn_exists rn" and "others_rows P rn"
  shows "\<exists>mid lg1 new. list_all P mid \<and> rows_of lg1 = Inr (rs @ mid) \<and> rows_of lg' = Inr (rs @ mid @ new)
    \<and> appended (\<lambda>d. \<exists>y src incs inc. decide_one env (pol y) src incs lg1 now clock inc = Inr d) now new"
proof -
  obtain st0 lg0 mid where o: "rn_others rn (i_id inc) (st, lg) = (st0, lg0)" "rows_of lg0 = Inr (rs @ mid)" "list_all P mid"
    using others_rowsE [OF assms(4,2)] .
  show ?thesis
  proof (cases "claim (rn_exists rn) (i_id inc) (rn_by rn) now st0")
    case (Inl e)
    with assms(1) o show ?thesis
      by (intro exI [of _ mid] exI [of _ lg0] exI [of _ "[]"]) (auto simp: run_one_def appended_def)
  next
    case (Inr p)
    obtain claimed st1 where p: "p = (claimed, st1)" by force
    obtain r1 st2 lg2 where d: "decide_claimed env (pol (i_id inc)) rn now clock claimed (st1, lg0) = (r1, (st2, lg2))"
      by (metis prod.exhaust)
    from decide_claimed_log [OF d o(2) assms(3)] obtain new where new: "rows_of lg2 = Inr (rs @ mid @ new)"
      "appended (\<lambda>d. decide_one env (pol (i_id inc)) (rn_source rn (i_device claimed)) (held st1) lg0 now clock claimed = Inr d) now new"
      by auto
    have "lg' = lg2" using assms(1) Inr p d o(1) by (auto simp: run_one_def Let_def split: sum.splits)
    moreover have "appended (\<lambda>d. \<exists>y src incs inc. decide_one env (pol y) src incs lg0 now clock inc = Inr d) now new"
      using new(2) unfolding appended_def by blast
    ultimately show ?thesis using new(1) o(2,3) by blast
  qed
qed

text \<open>A property of the log that every append keeps, the run's own and the others', holds of a whole run.\<close>

lemma run_loop_log:
  assumes "run_loop env pol rn now clock incs (out, (st, lg)) = (r, (st', lg'))"
    and "rows_of lg = Inr rs" and "rn_exists rn" and "I rs" and "others_rows P rn"
    and other: "\<And>rs mid. \<lbrakk>I rs; list_all P mid\<rbrakk> \<Longrightarrow> I (rs @ mid)"
    and step: "\<And>rs lg new. \<lbrakk>I rs; rows_of lg = Inr rs;
        appended (\<lambda>d. \<exists>y src incs inc. decide_one env (pol y) src incs lg now clock inc = Inr d) now new\<rbrakk>
        \<Longrightarrow> I (rs @ new)"
  shows "\<exists>new. rows_of lg' = Inr (rs @ new) \<and> I (rs @ new)"
  using assms(1,2,4)
proof (induction incs arbitrary: out st lg rs)
  case Nil
  then show ?case by (intro exI [of _ "[]"]) simp
next
  case (Cons inc incs)
  obtain r1 st1 lg1 where one: "run_one env pol rn now clock inc (out, (st, lg)) = (r1, (st1, lg1))"
    by (metis prod.exhaust)
  from run_one_log [OF one Cons.prems(2) assms(3,5)] obtain mid lg0 new where new: "list_all P mid"
    "rows_of lg0 = Inr (rs @ mid)" "rows_of lg1 = Inr (rs @ mid @ new)"
    "appended (\<lambda>d. \<exists>y src incs inc. decide_one env (pol y) src incs lg0 now clock inc = Inr d) now new" by blast
  from step [OF other [OF Cons.prems(3) new(1)] new(2,4)] have I: "I (rs @ mid @ new)" by simp
  show ?case
  proof (cases r1)
    case (Inl e)
    with Cons.prems(1) one new(3) I show ?thesis by auto
  next
    case (Inr out1)
    with Cons.prems(1) one have "run_loop env pol rn now clock incs (out1, (st1, lg1)) = (r, (st', lg'))" by simp
    from Cons.IH [OF this new(3) I] show ?thesis by auto
  qed
qed

lemma run_log:
  assumes "run env pol rn free now clock (st, lg) = (r, (st', lg'))"
    and "rows_of lg = Inr rs" and "I rs" and "others_rows P rn"
    and "\<And>rs mid. \<lbrakk>I rs; list_all P mid\<rbrakk> \<Longrightarrow> I (rs @ mid)"
    and "\<And>rs lg new. \<lbrakk>I rs; rows_of lg = Inr rs;
        appended (\<lambda>d. \<exists>y src incs inc. decide_one env (pol y) src incs lg now clock inc = Inr d) now new\<rbrakk>
        \<Longrightarrow> I (rs @ new)"
  shows "\<exists>new. rows_of lg' = Inr (rs @ new) \<and> I (rs @ new)"
proof (cases "rn_exists rn \<and> free \<and> ready st \<noteq> Inl Store_unreadable")
  case True
  then obtain incs where "ready st = Inr incs" by (auto simp: ready_def split: store.splits)
  with True assms(1) have "\<exists>r. run_loop env pol rn now clock incs (\<lparr>ro_decided = [], ro_failed = []\<rparr>, (st, lg)) = (r, (st', lg'))"
    by (auto simp: run_def split: sum.splits prod.splits)
  with run_loop_log [where I = I and P = P] assms(2-6) True show ?thesis by blast
next
  case False
  with assms(1) have "lg' = lg"
    by (auto simp: run_def ready_def split: store.splits if_splits)
  with assms(2,3) show ?thesis by (intro exI [of _ "[]"]) simp
qed

section \<open>A halted network heals nothing\<close>

lemma decide_halted:
  assumes "decide_one env md src incs lg now clock inc = Inr d" "rows_of lg = Inr rs" "halted rs \<noteq> None"
  shows "d_outcome d \<in> {O_off, O_halted} \<and> d_guard d \<in> {Some 1, Some 2}"
proof -
  have "\<exists>h. step_stops md src lg now (base_decision md inc) = Inl (Ends (stop_at (base_decision md inc) h))
      \<and> hit_outcome h \<in> {O_off, O_halted} \<and> hit_guard h \<in> {1, 2}"
    using assms(2,3) by (auto simp: step_stops_def Let_def check_def g1_kill_switch_def g2_mode_def bind_result_def)
  then show ?thesis using assms(1) by (auto simp: decide_one_def judged_def bind_result_def stop_at_def)
qed

text \<open>Every decision appended while the network was halted found self-healing off or halted, and one
  that halts the network is followed by its halt.\<close>

definition halts_obeyed :: "log_row list \<Rightarrow> log_row list \<Rightarrow> bool" where
  "halts_obeyed rs new \<longleftrightarrow> (\<forall>pre d post. new = pre @ Decision_row d # post
     \<longrightarrow> (halted (rs @ pre) \<noteq> None \<longrightarrow> d_outcome d \<in> {O_off, O_halted})
       \<and> (halts_network d \<longrightarrow> (\<exists>h post'. post = Halt_row h # post')))"

lemma append_split:
  "a @ b = pre @ x # post \<longleftrightarrow> (\<exists>us. a = pre @ x # us \<and> post = us @ b) \<or> (\<exists>us. pre = a @ us \<and> b = us @ x # post)"
  by (auto simp: append_eq_append_conv2 append_eq_Cons_conv)

lemma halts_obeyed_append:
  assumes "halts_obeyed rs a" "halts_obeyed (rs @ a) b"
  shows "halts_obeyed rs (a @ b)"
  unfolding halts_obeyed_def append_split
proof (intro allI impI, elim disjE exE conjE)
  fix pre d post us assume "a = pre @ Decision_row d # us" "post = us @ b"
  with assms(1) [unfolded halts_obeyed_def, rule_format, of pre d us] show "(halted (rs @ pre) \<noteq> None \<longrightarrow> d_outcome d \<in> {O_off, O_halted})
      \<and> (halts_network d \<longrightarrow> (\<exists>h post'. post = Halt_row h # post'))" by auto
next
  fix pre d post us assume "pre = a @ us" "b = us @ Decision_row d # post"
  with assms(2) show "(halted (rs @ pre) \<noteq> None \<longrightarrow> d_outcome d \<in> {O_off, O_halted})
      \<and> (halts_network d \<longrightarrow> (\<exists>h post'. post = Halt_row h # post'))" by (auto simp: halts_obeyed_def)
qed

lemma halts_obeyed_others: "list_all (\<lambda>r. \<not> is_decision r) new \<Longrightarrow> halts_obeyed rs new"
  by (auto simp: halts_obeyed_def)

lemma halts_obeyed_appended:
  assumes "appended Q now new" "\<And>d. Q d \<Longrightarrow> halted rs \<noteq> None \<Longrightarrow> d_outcome d \<in> {O_off, O_halted}"
  shows "halts_obeyed rs new"
  using assms unfolding appended_def halts_obeyed_def by (elim disjE exE conjE) (auto simp: Cons_eq_append_conv)

fun is_lift :: "log_row \<Rightarrow> bool" where
  "is_lift (Lift_row i by ver why t) = True"
| "is_lift _ = False"

lemma halted_from_keeps: "list_all (\<lambda>r. \<not> is_lift r) rs \<Longrightarrow> c \<noteq> None \<Longrightarrow> halted_from c rs \<noteq> None"
  by (induction c rs rule: halted_from.induct) simp_all

lemma halted_keeps: "list_all (\<lambda>r. \<not> is_lift r) b \<Longrightarrow> halted a \<noteq> None \<Longrightarrow> halted (a @ b) \<noteq> None"
  unfolding halted_def halted_from_append by (rule halted_from_keeps)

text \<open>C10: a halted network heals nothing: while a run goes on, whatever rows the rest of the system
  appends between its decisions (sendings, marks, halts, a person's lifts), every decision made while a halt is
  in force finds self-healing off or halted, and a decision that halts the network is followed by its
  halt at once; and when nobody lifts one, a halt in force before the run or made by it is in force when
  the run ends. Nothing but rows is appended.\<close>

theorem halted_network_heals_nothing:
  assumes "run env pol rn free now clock (st, lg) = (r, (st', lg'))" and "rows_of lg = Inr rs"
    and "others_rows (\<lambda>r. \<not> is_decision r) rn"
  shows "\<exists>new. rows_of lg' = Inr (rs @ new)
    \<and> (\<forall>pre d post. new = pre @ Decision_row d # post
         \<longrightarrow> (halted (rs @ pre) \<noteq> None \<longrightarrow> d_outcome d \<in> {O_off, O_halted})
           \<and> (halts_network d \<longrightarrow> (\<exists>h post'. post = Halt_row h # post')))
    \<and> (others_rows (\<lambda>r. \<not> is_decision r \<and> \<not> is_lift r) rn
         \<longrightarrow> halted rs \<noteq> None \<or> (\<exists>d. Decision_row d \<in> set new \<and> halts_network d)
         \<longrightarrow> halted (rs @ new) \<noteq> None)"
proof -
  define I where "I rs' \<longleftrightarrow> (\<exists>new. rs' = rs @ new \<and> halts_obeyed rs new)" for rs'
  define J where "J rs' \<longleftrightarrow> (\<exists>new. rs' = rs @ new
      \<and> (halted rs \<noteq> None \<or> (\<exists>d. Decision_row d \<in> set new \<and> halts_network d) \<longrightarrow> halted rs' \<noteq> None))" for rs'
  have "\<exists>new. rows_of lg' = Inr (rs @ new) \<and> I (rs @ new)"
  proof (rule run_log [where I = I, OF assms(1,2) _ assms(3)])
    show "I rs" unfolding I_def by (intro exI [of _ "[]"]) (simp add: halts_obeyed_def)
    show "I (rs' @ mid)" if "I rs'" "list_all (\<lambda>r. \<not> is_decision r) mid" for rs' mid
      using that halts_obeyed_append halts_obeyed_others unfolding I_def by (metis append.assoc)
    show "I (rs' @ new)" if "I rs'" "rows_of lg1 = Inr rs'"
      "appended (\<lambda>d. \<exists>y src incs inc. decide_one env (pol y) src incs lg1 now clock inc = Inr d) now new" for rs' lg1 new
    proof -
      have "halts_obeyed rs' new"
        by (rule halts_obeyed_appended [OF that(3)]) (use decide_halted that(2) in blast)
      with that(1) halts_obeyed_append show ?thesis unfolding I_def by (metis append.assoc)
    qed
  qed
  then obtain new where new: "rows_of lg' = Inr (rs @ new)" "halts_obeyed rs new" by (auto simp: I_def)
  have "J (rs @ new)" if o: "others_rows (\<lambda>r. \<not> is_decision r \<and> \<not> is_lift r) rn"
  proof -
    have "\<exists>new. rows_of lg' = Inr (rs @ new) \<and> J (rs @ new)"
    proof (rule run_log [where I = J, OF assms(1,2) _ o])
      show "J rs" unfolding J_def by (intro exI [of _ "[]"]) simp
      show "J (rs' @ mid)" if "J rs'" "list_all (\<lambda>r. \<not> is_decision r \<and> \<not> is_lift r) mid" for rs' mid
      proof -
        from that(2) have l: "list_all (\<lambda>r. \<not> is_lift r) mid" "\<forall>d. Decision_row d \<notin> set mid"
          by (auto simp: list_all_iff)
        from that(1) halted_keeps [OF l(1)] l(2) show ?thesis unfolding J_def by fastforce
      qed
      show "J (rs' @ new)" if "J rs'"
        "appended (\<lambda>d. \<exists>y src incs inc. decide_one env (pol y) src incs lg1 now clock inc = Inr d) now new" for rs' lg1 new
      proof -
        from that(2) have l: "list_all (\<lambda>r. \<not> is_lift r) new"
          "(\<exists>d. Decision_row d \<in> set new \<and> halts_network d) \<longrightarrow> halted (rs' @ new) \<noteq> None"
          unfolding appended_def halted_def halted_from_append by auto
        from that(1) halted_keeps [OF l(1)] l(2) show ?thesis unfolding J_def by fastforce
      qed
    qed
    with new(1) show ?thesis by auto
  qed
  with new show ?thesis unfolding J_def halts_obeyed_def by blast
qed

section \<open>The rates\<close>

definition heals_since :: "device set \<Rightarrow> epoch \<Rightarrow> log_row list \<Rightarrow> nat" where
  "heals_since D t rs = length (filter (\<lambda>d. d_device d \<in> D) (counted (decisions rs) O_heal t))"

definition a_heal :: "device set \<Rightarrow> epoch \<Rightarrow> dview \<Rightarrow> bool" where
  "a_heal D t v \<longleftrightarrow> d_device v \<in> D \<and> d_outcome v = O_heal \<and> t \<le> d_epoch v"

lemma fold_apply_device: "d_device (fold apply_row rs v) = d_device v"
  by (induction rs arbitrary: v) auto

lemma heals_since_eq: "heals_since D t rs = length (filter (a_heal D t) (base_views rs []))"
proof -
  have "a_heal D t (fold apply_row rs v) = a_heal D t v" for v
    using fold_apply_fields [of rs v] fold_apply_device [of rs v] by (simp add: a_heal_def)
  then show ?thesis
    by (simp add: heals_since_def counted_def decisions_def replay_map filter_map comp_def
        a_heal_def [abs_def, symmetric] conj_commute conj_left_commute)
      (simp add: a_heal_def [abs_def] conj_commute conj_left_commute)
qed

lemma put_view_filter:
  "length (filter P (put_view v vs)) \<le> length (filter P vs) + (if P v then 1 else 0)"
  by (induction v vs rule: put_view.induct) auto

lemma heals_since_decision:
  "heals_since D t (rs @ [Decision_row d]) \<le> heals_since D t rs
     + (if d_device d \<in> D \<and> d_outcome d = O_heal \<and> t \<le> d_epoch d then 1 else 0)"
  using put_view_filter [of "a_heal D t" "plain_view d" "base_views rs []"]
  by (simp add: heals_since_eq base_views_append a_heal_def)

lemma heals_since_halt: "heals_since D t (rs @ [Halt_row h]) = heals_since D t rs"
  by (simp add: heals_since_eq base_views_append)

lemma heals_since_others: "list_all (\<lambda>r. \<not> is_decision r) mid \<Longrightarrow> heals_since D t (rs @ mid) = heals_since D t rs"
proof (induction mid arbitrary: rs)
  case (Cons r mid)
  from Cons.IH [of "rs @ [r]"] Cons.prems have "heals_since D t (rs @ r # mid) = heals_since D t (rs @ [r])" by simp
  also have "\<dots> = heals_since D t rs"
    using Cons.prems by (simp add: heals_since_eq base_views_append base_views_other)
  finally show ?case by simp
qed simp

text \<open>A decision to heal was made under the rates.\<close>

lemma heal_under_rates:
  assumes "decide_one env md src incs lg now clock inc = Inr d" "d_outcome d = O_heal"
    and "rows_of lg = Inr rs" "m_guards md = Some g"
  shows "heals_since UNIV (now - 3600) rs < g Max_per_network_hour
    \<and> heals_since {d_device d} (now - 3600) rs < g Max_per_device_hour"
proof -
  have "acts (d_outcome d)" using assms(2) by (simp add: acts_def)
  from decide_one_acts [OF assms(1) this] obtain rs' g' c base3 where
    s: "step_guards md src incs lg inc now clock (base_decision md inc) = Inr (rs', g')"
    "d = base3\<lparr>d_outcome := outcome_of (m_mode md) c (m_auto md) (m_propose md)\<rparr>" by metis
  have auto: "m_mode md = M_auto"
    using assms(2) s(2) by (auto simp: outcome_of_def Let_def split: if_splits)
  have "d_device d = i_device inc" using decide_one_made_for [OF assms(1)] by (simp add: made_for_def)
  moreover from step_guards_InrD [OF s(1)] assms(3,4) have "rs' = rs" "g' = g" by auto
  ultimately show ?thesis
    using step_guards_InrD [OF s(1)]
    by (simp add: guards_5_to_11_def Let_def guards_pass outcome_counted_def auto heals_since_def not_le)
qed

text \<open>C9: heals never exceed the rates: whatever a run finds ready, and whatever the rest of the system
  appends between its decisions, the heals it has decided within the hour stay within the network's
  limit, and each device's within its own, unless more were there before.\<close>

theorem heals_within_the_rates:
  assumes "run env pol rn free now clock (st, lg) = (r, (st', lg'))" and "rows_of lg = Inr rs"
    and "rows_of lg' = Inr rs'" and "\<And>x. m_guards (pol x) = Some g"
    and "others_rows (\<lambda>r. \<not> is_decision r) rn"
  shows "heals_since UNIV (now - 3600) rs' \<le> max (heals_since UNIV (now - 3600) rs) (g Max_per_network_hour)
    \<and> heals_since {dev} (now - 3600) rs' \<le> max (heals_since {dev} (now - 3600) rs) (g Max_per_device_hour)"
proof -
  let ?t = "now - 3600"
  have gen: "heals_since D ?t rs' \<le> max (heals_since D ?t rs) m"
    if lim: "\<And>rs lg x src incs inc d. \<lbrakk>decide_one env (pol x) src incs lg now clock inc = Inr d;
        d_outcome d = O_heal; rows_of lg = Inr rs; d_device d \<in> D\<rbrakk> \<Longrightarrow> heals_since D ?t rs < m" for D m
  proof -
    define I where "I rs1 \<longleftrightarrow> heals_since D ?t rs1 \<le> max (heals_since D ?t rs) m" for rs1
    have "\<exists>new. rows_of lg' = Inr (rs @ new) \<and> I (rs @ new)"
    proof (rule run_log [where I = I, OF assms(1,2) _ assms(5)])
      show "I rs" by (simp add: I_def)
      show "I (rs1 @ mid)" if "I rs1" "list_all (\<lambda>r. \<not> is_decision r) mid" for rs1 mid
        using that by (simp add: I_def heals_since_others)
      show "I (rs1 @ new)" if I: "I rs1" and lg1: "rows_of lg1 = Inr rs1"
        and new: "appended (\<lambda>d. \<exists>x src incs inc. decide_one env (pol x) src incs lg1 now clock inc = Inr d) now new"
        for rs1 lg1 new
      proof -
        have one: "heals_since D ?t (rs1 @ [Decision_row (recorded_as i now d)]) \<le> max (heals_since D ?t rs) m"
          if "decide_one env (pol x) src incs lg1 now clock inc = Inr d" for i d x src incs inc
          using heals_since_decision [of D ?t rs1 "recorded_as i now d"] lim [OF that _ lg1] I
          by (auto simp: I_def split: if_splits)
        have two: "heals_since D ?t (rs1 @ [Decision_row x, Halt_row h]) = heals_since D ?t (rs1 @ [Decision_row x])" for x h
          using heals_since_halt [of D ?t "rs1 @ [Decision_row x]" h] by simp
        show ?thesis using new I one unfolding appended_def I_def by (auto simp: two)
      qed
    qed
    with assms(3) show ?thesis by (auto simp: I_def)
  qed
  have "heals_since UNIV ?t rs' \<le> max (heals_since UNIV ?t rs) (g Max_per_network_hour)"
    by (rule gen) (use heal_under_rates assms(4) in blast)
  moreover have "heals_since {dev} ?t rs' \<le> max (heals_since {dev} ?t rs) (g Max_per_device_hour)"
    by (rule gen) (use heal_under_rates assms(4) in blast)
  ultimately show ?thesis by blast
qed

section \<open>Every ready incident is decided or sent back\<close>

text \<open>The rest of the system leaves the given incidents as they are between the decisions of a run: what is
  ready is claimed only under the heal lock, and only a claim takes it out of being ready.\<close>

definition others_spare :: "run_env \<Rightarrow> incident_id set \<Rightarrow> bool" where
  "others_spare rn X \<longleftrightarrow> (\<forall>x s. ids_ok (held (fst s)) \<longrightarrow> ids_ok (held (fst (rn_others rn x s)))
     \<and> (\<forall>y \<in> X. open_in (held (fst (rn_others rn x s))) y = open_in (held (fst s)) y))"

definition others_ready_none :: "run_env \<Rightarrow> bool" where
  "others_ready_none rn \<longleftrightarrow> (\<forall>x s. ready_ids (held (fst (rn_others rn x s))) \<subseteq> ready_ids (held (fst s)))"







lemma left_as_not_Ready [simp]: "left_as d \<noteq> Ready" "Ready \<noteq> left_as d" by (auto simp: left_as_def)







section \<open>A run that heals, and one of a halted network\<close>

definition ex_rn :: run_env where
  "ex_rn = \<lparr>rn_exists = True, rn_by = ''heal'', rn_source = (\<lambda>_. ex_src), rn_id = (\<lambda>x. ''hd1''),
     rn_halt_id = (\<lambda>x. ''hh1''), rn_others = (\<lambda>x s. s)\<rparr>"

lemma ex_rn_alone: "others_rows P ex_rn" "others_spare ex_rn X" "others_ready_none ex_rn"
  by (simp_all add: ex_rn_def others_rows_def others_spare_def others_ready_none_def)

lemma ex_ready_simps [simp]: "i_id ex_ready = ''i1''" "i_state ex_ready = Ready" "i_device ex_ready = ''r1''"
  by (simp_all add: ex_ready_def new_incident_def)

lemma ex_claim: "claim True ''i1'' ''heal'' 10000 (Stored [ex_ready]) = Inr (ex_claimed, Stored [ex_claimed])"
proof -
  have "claim_inc ''heal'' 10000 ex_ready = Inr ex_claimed"
    by (simp add: claim_inc_def ex_claimed_def iso_def)
  then show ?thesis
    by (simp add: claim_def mutate_def on_incident_def find_inc_def bind_result_def prune_def Let_def CLOSED_KEPT_def)
qed

lemma ex_run: "\<exists>d. d_outcome d = O_heal
    \<and> run ex_env_heal (\<lambda>_. ex_md) ex_rn True 10000 10000 (Stored [ex_ready], No_log)
      = (Inr (Ran \<lparr>ro_decided = [(''i1'', d)], ro_failed = []\<rparr>), (Stored [ex_claimed], Rows [Decision_row d]))"
proof -
  from ex_heals obtain d where d: "decide_one ex_env_heal ex_md ex_src [ex_claimed] No_log 10000 10000 ex_claimed
      = Inr d" "d_outcome d = O_heal" by blast
  let ?d = "recorded_as ''hd1'' 10000 d"
  have "decide_claimed ex_env_heal ex_md ex_rn 10000 10000 ex_claimed (Stored [ex_claimed], No_log)
      = (Inr ?d, (Stored [ex_claimed], Rows [Decision_row ?d]))"
    using d by (simp add: decide_claimed_def record_decision_def append_row_def recorded_as_def Let_def ex_rn_def
        act_def act_on_incident_def halts_network_def)
  then have "run_one ex_env_heal (\<lambda>_. ex_md) ex_rn 10000 10000 ex_ready (\<lparr>ro_decided = [], ro_failed = []\<rparr>, (Stored [ex_ready], No_log))
      = (Inr \<lparr>ro_decided = [(''i1'', ?d)], ro_failed = []\<rparr>, (Stored [ex_claimed], Rows [Decision_row ?d]))"
    using ex_claim by (simp add: run_one_def ex_rn_def)
  then show ?thesis
    using d(2) by (intro exI [of _ ?d]) (simp add: run_def ready_def ex_rn_def [THEN arg_cong [where f = rn_exists]])
qed


theorem heals_within_the_rates_witness:
  "\<exists>st' rs'. snd (run ex_env_heal (\<lambda>_. ex_md) ex_rn True 10000 10000 (Stored [ex_ready], No_log)) = (st', Rows rs')
     \<and> heals_since UNIV 6400 rs' \<le> 6"
proof -
  from ex_run obtain d where r: "run ex_env_heal (\<lambda>_. ex_md) ex_rn True 10000 10000 (Stored [ex_ready], No_log)
      = (Inr (Ran \<lparr>ro_decided = [(''i1'', d)], ro_failed = []\<rparr>), (Stored [ex_claimed], Rows [Decision_row d]))" by blast
  have z: "heals_since UNIV 6400 [] = 0" by (simp add: heals_since_eq)
  from heals_within_the_rates [OF r, of "[]" "[Decision_row d]" guard_default] ex_rn_alone(1) r show ?thesis
    by (simp add: ex_md_def z)
qed

definition ex_halt :: halt where
  "ex_halt = \<lparr>h_id = ''hh1'', h_guard = 10, h_at = 100, h_epoch = 100\<rparr>"

theorem halted_network_heals_nothing_witness:
  "\<exists>st' rs'. snd (run ex_env_heal (\<lambda>_. ex_md) ex_rn True 10000 10000 (Stored [ex_ready], Rows [Halt_row ex_halt]))
      = (st', Rows rs') \<and> halted rs' \<noteq> None"
proof -
  obtain r st' lg' where r: "run ex_env_heal (\<lambda>_. ex_md) ex_rn True 10000 10000 (Stored [ex_ready], Rows [Halt_row ex_halt])
      = (r, (st', lg'))" by (metis prod.exhaust)
  have h: "halted [Halt_row ex_halt] \<noteq> None" by (simp add: halted_def)
  from halted_network_heals_nothing [OF r, of "[Halt_row ex_halt]", OF _ ex_rn_alone(1)] h ex_rn_alone(1)
  obtain new where n: "rows_of lg' = Inr ([Halt_row ex_halt] @ new)" "halted ([Halt_row ex_halt] @ new) \<noteq> None" by auto
  moreover have "halted [] = None" by (simp add: halted_def)
  ultimately show ?thesis using r n by (cases lg') auto
qed

end
