(* ===== verification/Pipeline.thy ===== *)
theory Pipeline
  imports Heal_Prelude
begin

text \<open>
  The deploy's nine stages (\<open>modules/pipeline.py\<close>, \<open>PipelineRunner.run\<close>): the stage table, the
  runner that executes it in order, the rollback it starts and the rollback after a run that passed.

  What a stage does to the device, the files and the run's own fields is its handler, a function of
  the world that answers \<open>Done\<close>, the stage's own failure (\<open>PipelineStageError\<close>) or any other
  exception. The undo of each device a push was attempted on is an argument too: it answers each
  device's state. The runner's bookkeeping (what completed, what failed, the status, whether a
  rollback was performed) is the record \<open>run_state\<close>, which no handler touches.

  The lemmas: the stages run in the table's order and the order check never fires; a run that
  succeeds has sent and verified; a stage that fails after anything was pushed is rolled back; and
  an exception that is not a stage's own failure leaves the run with no rollback at all.
\<close>

section \<open>The stage table\<close>

datatype on_failure = Abort_run | Undo_run | Carry_on

definition STAGE_TABLE :: "(string \<times> on_failure) list" where
  "STAGE_TABLE =
     [(''netbox_query'', Abort_run), (''template_render'', Abort_run), (''ci_gate'', Abort_run),
      (''pre_snapshot'', Abort_run), (''config_diff'', Abort_run), (''deploy'', Undo_run),
      (''post_snapshot'', Undo_run), (''verify'', Undo_run), (''save_startup'', Carry_on),
      (''save_golden'', Carry_on), (''audit_log'', Abort_run)]"

definition STAGE_NAMES :: "string list" where "STAGE_NAMES = map fst STAGE_TABLE"

text \<open>The stages a handler runs for: every one but the last, which always runs.\<close>

definition RUN_STAGES :: "(string \<times> on_failure) list" where "RUN_STAGES = butlast STAGE_TABLE"

section \<open>A run\<close>

datatype stage_answer = Done | Stage_failed string | Other_raised string

datatype run_status = Pending | Success | Failed_run | Rolled_back | Rollback_failed

datatype undo_state = Restored | Nothing_to_undo | Incomplete | Sent_unverified | Undo_failed | Not_attempted

definition ROLLBACK_OK :: "undo_state list" where "ROLLBACK_OK = [Restored, Nothing_to_undo]"

record 'w run_state =
  ru_completed :: "string list"
  ru_failed :: "string list"
  ru_warnings :: "string list"
  ru_error :: string
  ru_status :: run_status
  ru_next :: nat
  ru_rolled :: bool
  ru_undone :: "undo_state list"
  ru_world :: 'w

record 'w stages =
  sg_handler :: "string \<Rightarrow> 'w \<Rightarrow> stage_answer \<times> 'w"
  sg_pushed :: "'w \<Rightarrow> bool"                             \<comment> \<open>any device has a push result\<close>
  sg_capture :: "'w \<Rightarrow> 'w"                              \<comment> \<open>\<open>_capture_failure_state\<close>\<close>
  sg_undo :: "'w \<Rightarrow> undo_state list \<times> 'w"
  sg_audit :: "'w \<Rightarrow> 'w"

definition fresh_run :: "'w \<Rightarrow> 'w run_state" where
  "fresh_run w = \<lparr>ru_completed = [], ru_failed = [], ru_warnings = [], ru_error = '''',
                  ru_status = Pending, ru_next = 0, ru_rolled = False, ru_undone = [], ru_world = w\<rparr>"

text \<open>The end of \<open>_stage_rollback\<close>: rolled back only when every device is back.\<close>

definition roll_back :: "'w stages \<Rightarrow> 'w run_state \<Rightarrow> 'w run_state" where
  "roll_back sg s =
     (let (outs, w) = sg_undo sg (ru_world s) in
      s\<lparr>ru_rolled := True, ru_undone := outs, ru_world := w,
        ru_status := if list_all (\<lambda>x. x \<in> set ROLLBACK_OK) outs then Rolled_back else Rollback_failed\<rparr>)"

text \<open>A stage's own failure, where the table does not carry on.\<close>

definition stage_failure :: "'w stages \<Rightarrow> on_failure \<Rightarrow> string \<Rightarrow> 'w run_state \<Rightarrow> 'w run_state" where
  "stage_failure sg how why s =
     (let s = s\<lparr>ru_error := why, ru_status := Failed_run\<rparr>;
          s = (if how = Undo_run then s\<lparr>ru_world := sg_capture sg (ru_world s)\<rparr> else s);
          attempted = (sg_pushed sg (ru_world s) \<or> ''deploy'' \<in> set (ru_completed s))
      in if how = Undo_run \<and> attempted then roll_back sg s else s)"

datatype run_end = Returned | Raised_out

fun run_stages ::
    "'w stages \<Rightarrow> (string \<times> on_failure) list \<Rightarrow> nat \<Rightarrow> 'w run_state \<Rightarrow> run_end \<times> 'w run_state" where
  "run_stages sg [] idx s = (Returned, s\<lparr>ru_status := Success\<rparr>)"
| "run_stages sg ((name, how) # rest) idx s =
     (if ru_next s \<noteq> idx then (Raised_out, s)                    \<comment> \<open>\<open>_assert_order\<close>\<close>
      else case sg_handler sg name (ru_world s) of
        (Done, w) \<Rightarrow>
          run_stages sg rest (idx + 1)
            (s\<lparr>ru_world := w, ru_completed := ru_completed s @ [name], ru_next := idx + 1\<rparr>)
      | (Stage_failed why, w) \<Rightarrow>
          (let s = s\<lparr>ru_world := w, ru_failed := ru_failed s @ [name]\<rparr> in
           if how = Carry_on
           then run_stages sg rest (idx + 1)
                  (s\<lparr>ru_warnings := ru_warnings s @ [why], ru_next := idx + 1\<rparr>)
           else (Returned, stage_failure sg how why s))
      | (Other_raised why, w) \<Rightarrow> (Raised_out, s\<lparr>ru_world := w\<rparr>))"

definition run_pipeline :: "'w stages \<Rightarrow> 'w \<Rightarrow> run_end \<times> 'w run_state" where
  "run_pipeline sg w =
     (case run_stages sg RUN_STAGES 0 (fresh_run w) of
        (e, s) \<Rightarrow> (e, s\<lparr>ru_world := sg_audit sg (ru_world s)\<rparr>))"

text \<open>\<open>roll_back_after\<close>: a run that passed, undone for what failed after it.\<close>

definition roll_back_after :: "'w stages \<Rightarrow> string \<Rightarrow> string \<Rightarrow> 'w run_state \<Rightarrow> 'w run_state" where
  "roll_back_after sg reason stage s =
     (let s = s\<lparr>ru_error := reason, ru_status := Failed_run, ru_failed := ru_failed s @ [stage]\<rparr>
      in roll_back sg (s\<lparr>ru_world := sg_capture sg (ru_world s)\<rparr>))"

section \<open>What every run ends as\<close>

definition stages_before_send :: "string list" where
  "stages_before_send = takeWhile (\<lambda>n. n \<noteq> ''deploy'') STAGE_NAMES"

definition must_pass :: "(string \<times> on_failure) list \<Rightarrow> string list" where
  "must_pass tbl = map fst (filter (\<lambda>(n, how). how \<noteq> Carry_on) tbl)"

lemma stage_tables:
  "STAGE_NAMES = [''netbox_query'', ''template_render'', ''ci_gate'', ''pre_snapshot'', ''config_diff'',
     ''deploy'', ''post_snapshot'', ''verify'', ''save_startup'', ''save_golden'', ''audit_log'']"
  "stages_before_send = [''netbox_query'', ''template_render'', ''ci_gate'', ''pre_snapshot'', ''config_diff'']"
  "must_pass RUN_STAGES = take 8 STAGE_NAMES"
  by code_simp+

text \<open>The order check never fires: an exception that leaves the run is a handler's.\<close>

lemma raised_is_a_handlers:
  assumes "run_stages sg tbl (ru_next s) s = (Raised_out, s')"
  shows "\<exists>n w why. n \<in> fst ` set tbl \<and> fst (sg_handler sg n w) = Other_raised why
    \<and> ru_world s' = snd (sg_handler sg n w) \<and> ru_rolled s' = ru_rolled s"
  using assms
proof (induction tbl arbitrary: s)
  case (Cons x rest)
  obtain name how where x: "x = (name, how)" by (cases x)
  obtain a w where h: "sg_handler sg name (ru_world s) = (a, w)" by fastforce
  show ?case
  proof (cases a)
    case Done
    let ?t = "s\<lparr>ru_world := w, ru_completed := ru_completed s @ [name], ru_next := ru_next s + 1\<rparr>"
    have "run_stages sg rest (ru_next ?t) ?t = (Raised_out, s')"
      using Cons.prems by (simp add: x h Done)
    from Cons.IH [OF this] obtain n w' why where "n \<in> fst ` set rest" "fst (sg_handler sg n w') = Other_raised why"
      "ru_world s' = snd (sg_handler sg n w')" "ru_rolled s' = ru_rolled ?t" by blast
    then show ?thesis by (intro exI [of _ n] exI [of _ w'] exI [of _ why]) simp
  next
    case (Stage_failed e)
    let ?t = "s\<lparr>ru_world := w, ru_failed := ru_failed s @ [name],
                ru_warnings := ru_warnings s @ [e], ru_next := ru_next s + 1\<rparr>"
    have "run_stages sg rest (ru_next ?t) ?t = (Raised_out, s')"
      using Cons.prems by (simp add: x h Stage_failed Let_def split: if_splits)
    from Cons.IH [OF this] obtain n w' why where "n \<in> fst ` set rest" "fst (sg_handler sg n w') = Other_raised why"
      "ru_world s' = snd (sg_handler sg n w')" "ru_rolled s' = ru_rolled ?t" by blast
    then show ?thesis by (intro exI [of _ n] exI [of _ w'] exI [of _ why]) simp
  next
    case (Other_raised why)
    have "s' = s\<lparr>ru_world := w\<rparr>" using Cons.prems by (simp add: x h Other_raised)
    then show ?thesis by (intro exI [of _ name] exI [of _ "ru_world s"] exI [of _ why]) (simp add: h Other_raised x)
  qed
qed simp

text \<open>A run that answers: every stage that must pass did, or one of them failed after the ones
  before it had.\<close>

lemma run_stages_returned:
  assumes "run_stages sg tbl (ru_next s) s = (Returned, s')"
  shows "(ru_status s' = Success \<and> ru_rolled s' = ru_rolled s
            \<and> set (ru_completed s) \<union> set (must_pass tbl) \<subseteq> set (ru_completed s'))
    \<or> (\<exists>pre name how post why v. tbl = pre @ (name, how) # post \<and> how \<noteq> Carry_on
            \<and> s' = stage_failure sg how why v \<and> ru_failed v \<noteq> [] \<and> last (ru_failed v) = name
            \<and> ru_rolled v = ru_rolled s \<and> set (ru_completed s) \<union> set (must_pass pre) \<subseteq> set (ru_completed v))"
    (is "?ok tbl s \<or> ?bad tbl s")
  using assms
proof (induction tbl arbitrary: s)
  case Nil
  then have "s' = s\<lparr>ru_status := Success\<rparr>" by simp
  then show ?case by (simp add: must_pass_def)
next
  case (Cons x rest)
  obtain name how where x: "x = (name, how)" by (cases x)
  obtain a w where h: "sg_handler sg name (ru_world s) = (a, w)" by fastforce
  have lift: "?ok ((name, how) # rest) s \<or> ?bad ((name, how) # rest) s"
    if t: "?ok rest t \<or> ?bad rest t" "ru_rolled t = ru_rolled s"
      "set (ru_completed s) \<union> set (must_pass [(name, how)]) \<subseteq> set (ru_completed t)" for t
    using t(1)
  proof
    assume "?ok rest t"
    moreover have "set (must_pass ((name, how) # rest)) = set (must_pass [(name, how)]) \<union> set (must_pass rest)"
      by (simp add: must_pass_def)
    ultimately show ?thesis using t(2,3) by auto
  next
    assume "?bad rest t"
    then obtain pre n h' post why v where v: "rest = pre @ (n, h') # post" "h' \<noteq> Carry_on"
      "s' = stage_failure sg h' why v" "ru_failed v \<noteq> []" "last (ru_failed v) = n" "ru_rolled v = ru_rolled t"
      "set (ru_completed t) \<union> set (must_pass pre) \<subseteq> set (ru_completed v)" by blast
    then have "(name, how) # rest = ((name, how) # pre) @ (n, h') # post"
      "set (ru_completed s) \<union> set (must_pass ((name, how) # pre)) \<subseteq> set (ru_completed v)"
      using t(3) by (auto simp: must_pass_def split: if_splits)
    with v t(2) show ?thesis by (intro disjI2 exI [of _ "(name, how) # pre"] exI [of _ n] exI [of _ h']
      exI [of _ post] exI [of _ why] exI [of _ v]) simp
  qed
  have "?ok ((name, how) # rest) s \<or> ?bad ((name, how) # rest) s"
  proof (cases a)
    case Done
    let ?t = "s\<lparr>ru_world := w, ru_completed := ru_completed s @ [name], ru_next := ru_next s + 1\<rparr>"
    have "run_stages sg rest (ru_next ?t) ?t = (Returned, s')"
      using Cons.prems by (simp add: x h Done)
    note ih = Cons.IH [OF this]
      show ?thesis by (rule lift [OF ih]) (auto simp: must_pass_def)
  next
    case (Stage_failed why)
    show ?thesis
    proof (cases "how = Carry_on")
      case True
      let ?t = "s\<lparr>ru_world := w, ru_failed := ru_failed s @ [name],
                  ru_warnings := ru_warnings s @ [why], ru_next := ru_next s + 1\<rparr>"
      have "run_stages sg rest (ru_next ?t) ?t = (Returned, s')"
        using Cons.prems by (simp add: x h Stage_failed True)
      note ih = Cons.IH [OF this]
      show ?thesis by (rule lift [OF ih]) (auto simp: must_pass_def True)
    next
      case False
      let ?v = "s\<lparr>ru_world := w, ru_failed := ru_failed s @ [name]\<rparr>"
      have "s' = stage_failure sg how why ?v" using Cons.prems by (simp add: x h Stage_failed False)
      then have "?bad ((name, how) # rest) s"
        using False by (intro exI [of _ "[]"] exI [of _ name] exI [of _ how] exI [of _ rest]
          exI [of _ why] exI [of _ ?v]) (simp add: must_pass_def)
      then show ?thesis ..
    qed
  next
    case (Other_raised why)
    then show ?thesis using Cons.prems by (simp add: x h)
  qed
  then show ?case by (simp add: x)
qed

lemma stage_failure_fields:
  "ru_failed (stage_failure sg how why v) = ru_failed v"
  "ru_status (stage_failure sg how why v) \<noteq> Success"
  "how = Undo_run \<Longrightarrow> \<not> ru_rolled v \<Longrightarrow> \<not> ru_rolled (stage_failure sg how why v)
     \<Longrightarrow> \<not> sg_pushed sg (ru_world (stage_failure sg how why v))"
  by (auto simp: stage_failure_def roll_back_def Let_def split: prod.splits)

lemma table_undo:
  assumes "(n, how) \<in> set RUN_STAGES" and "how \<noteq> Carry_on" and "n \<notin> set stages_before_send"
  shows "how = Undo_run"
  using assms by (auto simp: RUN_STAGES_def STAGE_TABLE_def stage_tables)

text \<open>C8: what a run that answers leaves: it succeeded, with the program sent, the device read after
  it and the change verified, and nothing rolled back; or it did not, and then it stopped before
  the send, or nothing had been pushed when the send failed, or a rollback was performed. (The
  hypothesis is that the audit log pushes nothing.)\<close>

theorem pushed_is_verified_or_undone:
  assumes "\<And>v. sg_pushed sg (sg_audit sg v) = sg_pushed sg v"
    and "run_pipeline sg w = (Returned, s)"
  shows "if ru_status s = Success
    then list_all (\<lambda>n. n \<in> set (ru_completed s)) (take 8 STAGE_NAMES) \<and> \<not> ru_rolled s
    else last (ru_failed s) \<in> set stages_before_send \<or> \<not> sg_pushed sg (ru_world s) \<or> ru_rolled s"
proof -
  from assms(2) obtain t where t: "run_stages sg RUN_STAGES (ru_next (fresh_run w)) (fresh_run w) = (Returned, t)"
    and s: "s = t\<lparr>ru_world := sg_audit sg (ru_world t)\<rparr>"
    by (auto simp: run_pipeline_def fresh_run_def split: prod.splits)
  from run_stages_returned [OF t] show ?thesis
  proof
    assume "ru_status t = Success \<and> ru_rolled t = ru_rolled (fresh_run w)
      \<and> set (ru_completed (fresh_run w)) \<union> set (must_pass RUN_STAGES) \<subseteq> set (ru_completed t)"
    then show ?thesis by (auto simp: s fresh_run_def stage_tables(3) list_all_iff)
  next
    assume "\<exists>pre name how post why v. RUN_STAGES = pre @ (name, how) # post \<and> how \<noteq> Carry_on
            \<and> t = stage_failure sg how why v \<and> ru_failed v \<noteq> [] \<and> last (ru_failed v) = name
            \<and> ru_rolled v = ru_rolled (fresh_run w)
            \<and> set (ru_completed (fresh_run w)) \<union> set (must_pass pre) \<subseteq> set (ru_completed v)"
    then obtain name how why v where v: "(name, how) \<in> set RUN_STAGES" "how \<noteq> Carry_on"
      "t = stage_failure sg how why v" "last (ru_failed v) = name" "ru_rolled v = ru_rolled (fresh_run w)"
      by (metis in_set_conv_decomp)
    have "name \<in> set stages_before_send \<or> how = Undo_run" using table_undo [OF v(1,2)] by blast
    then have "name \<in> set stages_before_send \<or> \<not> sg_pushed sg (ru_world t) \<or> ru_rolled t"
      using stage_failure_fields(3) [of how v sg why] v(3,5) by (auto simp: fresh_run_def)
    moreover have "ru_status t \<noteq> Success" "last (ru_failed t) = name"
      using v stage_failure_fields(1,2) by metis+
    ultimately show ?thesis using assms(1) by (simp add: s)
  qed
qed


section \<open>A verify that fails\<close>

definition ex_stages :: "bool stages" where
  "ex_stages = \<lparr>sg_handler = (\<lambda>n w. if n = ''deploy'' then (Done, True)
                   else if n = ''verify'' then (Stage_failed ''intent unmet'', w) else (Done, w)),
     sg_pushed = (\<lambda>w. w), sg_capture = (\<lambda>w. w), sg_undo = (\<lambda>w. ([Restored], w)), sg_audit = (\<lambda>w. w)\<rparr>"

lemma ex_run_rolls_back:
  "run_pipeline ex_stages False =
     (Returned, \<lparr>ru_completed = take 7 STAGE_NAMES, ru_failed = [''verify''], ru_warnings = [],
        ru_error = ''intent unmet'', ru_status = Rolled_back, ru_next = 7, ru_rolled = True,
        ru_undone = [Restored], ru_world = True\<rparr>)"
  by code_simp

lemma ex_pushed: "sg_pushed ex_stages True"
  by (simp add: ex_stages_def)

theorem pushed_is_verified_or_undone_witness:
  "ru_rolled (snd (run_pipeline ex_stages False)) \<and> ru_status (snd (run_pipeline ex_stages False)) \<noteq> Success"
proof -
  have "sg_pushed ex_stages (sg_audit ex_stages v) = sg_pushed ex_stages v" for v
    by (simp add: ex_stages_def)
  from pushed_is_verified_or_undone [OF this ex_run_rolls_back]
  show ?thesis by (simp add: ex_run_rolls_back stage_tables ex_pushed)
qed

end
