(* ===== verification/Batch.thy ===== *)
theory Batch
  imports Pipeline Program "HOL-Library.List_Lexorder" "HOL-Library.Char_ord"
begin

text \<open>
  A batch of devices deployed (\<open>modules/nsot/deploy.py\<close>, \<open>routes/deploy.py\<close>): what each confirmed
  device gets before anything connects (\<open>plan_batch\<close>), one device's deploy (\<open>_deploy_one\<close>, the
  only path that connects), the batch in order with its circuit breaker (\<open>run_batch\<close>, one device
  at a time), whether a result was sent (\<open>receipts.was_sent\<close>), and the check after verify
  (\<open>_settle_after_verify\<close>, \<open>roll_back_end\<close>).

  Arguments: what \<open>prepare_for_deploy\<close> renders or refuses, the hash of a capture, whether a stated
  reason has a reason's shape, the lines intent holds (\<open>strip_for_roundtrip\<close>), the read of a device
  with nothing to send, and the stages of the run. The scopes, the pair and the worker threads are
  not modelled: this is the apply a heal makes, one device, no scope.

  The lemmas: every device planned is in the report exactly once; at most the breaker's limit of
  failures is attempted; nothing reaches the pipeline that a check before it refuses; and a device
  that stays deployed passed its check after verify.
\<close>

section \<open>Results\<close>

datatype dep_outcome = Deployed | Skipped_drifted | Skipped_not_selected | Refused_outcome | Failed_outcome | Unattempted

datatype symptom = Sym_none | Sym_gone | Sym_present | Sym_unreadable

record dres =
  dr_device :: device
  dr_outcome :: dep_outcome
  dr_stage :: string
  dr_commands :: "line list"
  dr_rolled :: bool
  dr_undone :: "undo_state list"
  dr_saved :: "bool option"                 \<comment> \<open>nothing when the save did not run\<close>
  dr_verify :: "bool option"
  dr_pending :: "line list list"            \<comment> \<open>the captures for the batch's commit\<close>
  dr_symptom :: "symptom option"            \<comment> \<open>what the check after verify read\<close>

definition plain_result :: "device \<Rightarrow> dep_outcome \<Rightarrow> string \<Rightarrow> dres" where
  "plain_result d out stage =
     \<lparr>dr_device = d, dr_outcome = out, dr_stage = stage, dr_commands = [], dr_rolled = False,
      dr_undone = [], dr_saved = None, dr_verify = None, dr_pending = [], dr_symptom = None\<rparr>"

definition was_sent :: "dres \<Rightarrow> bool" where
  "was_sent r \<longleftrightarrow> dr_commands r \<noteq> [] \<and> dr_outcome r \<noteq> Refused_outcome \<and> dr_stage r \<notin> set stages_before_send"

section \<open>What each device gets\<close>

record artifact =
  ar_device :: device
  ar_deployable :: bool

record batch_plan =
  bp_deploy :: "(artifact \<times> line list) list"
  bp_skipped :: "dres list"

definition plan_one ::
    "(line list \<Rightarrow> string) \<Rightarrow> (device \<Rightarrow> string option) \<Rightarrow> (device \<Rightarrow> line list option) \<Rightarrow> artifact
     \<Rightarrow> dres + (artifact \<times> line list)" where
  "plan_one hash confirmed fresh a =
     (let d = ar_device a in
      case confirmed d of
        None \<Rightarrow> Inl (plain_result d Skipped_not_selected '''')
      | Some h \<Rightarrow>
          if \<not> ar_deployable a then Inl (plain_result d Refused_outcome '''')
          else (case fresh d of
                  None \<Rightarrow> Inl (plain_result d Failed_outcome '''')
                | Some text \<Rightarrow> if hash text \<noteq> h then Inl (plain_result d Skipped_drifted '''')
                               else Inr (a, text)))"

fun plan_batch ::
    "(artifact \<Rightarrow> dres + (artifact \<times> line list)) \<Rightarrow> artifact list \<Rightarrow> batch_plan" where
  "plan_batch one [] = \<lparr>bp_deploy = [], bp_skipped = []\<rparr>"
| "plan_batch one (a # as) =
     (let p = plan_batch one as in
      case one a of Inl r \<Rightarrow> p\<lparr>bp_skipped := r # bp_skipped p\<rparr>
                  | Inr e \<Rightarrow> p\<lparr>bp_deploy := e # bp_deploy p\<rparr>)"

section \<open>One device\<close>

definition CONTROL_WORDS :: "string list" where "CONTROL_WORDS = [''exit'']"

definition merge_only :: "(line \<Rightarrow> line) \<Rightarrow> line list \<Rightarrow> line list \<Rightarrow> bool" where
  "merge_only canon to_push intent_lines \<longleftrightarrow>
     (\<forall>c \<in> set to_push. strip c \<in> set CONTROL_WORDS
        \<or> canon (rstrip c) \<in> set (map (\<lambda>l. canon (rstrip l)) intent_lines))"

record 'w one_env =
  on_prepared :: "heal_error + line list"                \<comment> \<open>\<open>prepare_for_deploy\<close>\<close>
  on_source :: "line list option"                        \<comment> \<open>a heal's own lines, in place of intent's\<close>
  on_program :: program_env
  on_selected :: "string list"
  on_mgmt_ip :: string
  on_authorise :: "(string \<times> string) list"              \<comment> \<open>line, reason\<close>
  on_reason_ok :: "string \<times> string \<Rightarrow> bool"
  on_key :: "path \<Rightarrow> string"
  on_intent_lines :: "line list \<Rightarrow> line list"
  on_measured :: "unit + line list list"                 \<comment> \<open>\<open>DeviceMoved\<close>, or the captures\<close>
  on_declared_ok :: bool
  on_stages :: "'w stages"
  on_drifted :: "'w \<Rightarrow> bool"
  on_pending :: "'w \<Rightarrow> line list list"
  on_saved :: "'w \<Rightarrow> bool option"
  on_verify :: "'w \<Rightarrow> bool option"

definition one_program :: "'w one_env \<Rightarrow> line list \<Rightarrow> line list \<Rightarrow> deploy_program" where
  "one_program env prepared captured =
     deploy_program_of (on_program env) (case on_source env of None \<Rightarrow> prepared | Some l \<Rightarrow> l)
       captured (on_selected env) (on_mgmt_ip env)"

definition recreate_of :: "'w one_env \<Rightarrow> line list \<Rightarrow> line list \<Rightarrow> recreate_plan" where
  "recreate_of env prepared captured =
     recreate_plan (pe_recreate (on_program env)) (e_canon (pe_removal (on_program env))) (pe_held (on_program env))
       (case on_source env of None \<Rightarrow> prepared | Some l \<Rightarrow> l) captured"

definition unreasoned :: "'w one_env \<Rightarrow> path list \<Rightarrow> string list" where
  "unreasoned env removed =
     filter (\<lambda>k. k \<notin> set (map fst (filter (on_reason_ok env) (on_authorise env)))) (map (on_key env) removed)"

text \<open>The result of a run that answered.\<close>

definition run_result :: "'w one_env \<Rightarrow> device \<Rightarrow> line list \<Rightarrow> 'w run_state \<Rightarrow> dres" where
  "run_result env d commands s =
     (if on_drifted env (ru_world s) then plain_result d Skipped_drifted ''pre_snapshot''
      else \<lparr>dr_device = d, dr_outcome = (if ru_status s = Success then Deployed else Failed_outcome),
            dr_stage = (if ru_failed s = [] then '''' else last (ru_failed s)), dr_commands = commands,
            dr_rolled = ru_rolled s, dr_undone = ru_undone s, dr_saved = on_saved env (ru_world s),
            dr_verify = on_verify env (ru_world s), dr_pending = on_pending env (ru_world s),
            dr_symptom = None\<rparr>)"

text \<open>\<open>_deploy_one\<close>: the result, the run's context where the run was made (\<open>keep\<close>), the world.\<close>

definition deploy_one ::
    "'w one_env \<Rightarrow> device \<Rightarrow> line list \<Rightarrow> 'w \<Rightarrow> dres \<times> 'w run_state option \<times> 'w" where
  "deploy_one env d captured w =
     (case on_prepared env of
        Inl _ \<Rightarrow> (plain_result d Failed_outcome ''prepare'', None, w)
      | Inr prepared \<Rightarrow>
          (let full = one_program env prepared captured in
           if rc_refused (recreate_of env prepared captured) \<noteq> []
           then (plain_result d Failed_outcome ''recreate'', None, w)
           else if dp_refused full \<noteq> [] then (plain_result d Failed_outcome ''removal'', None, w)
           else if unreasoned env (dp_removed full) \<noteq> []
           then (plain_result d Failed_outcome ''authorisation'', None, w)
           else if dp_commands full = []
           then (case on_measured env of
                   Inl _ \<Rightarrow> (plain_result d Skipped_drifted ''read'', None, w)
                 | Inr caps \<Rightarrow> ((plain_result d Deployed '''')\<lparr>dr_pending := caps\<rparr>, None, w))
           else if \<not> merge_only (e_canon (pe_removal (on_program env))) (dp_merge full)
                       (on_intent_lines env prepared)
           then (plain_result d Failed_outcome ''merge-only'', None, w)
           else if \<not> on_declared_ok env then (plain_result d Failed_outcome ''declared'', None, w)
           else case run_pipeline (on_stages env) w of
                  (Raised_out, s) \<Rightarrow> (plain_result d Failed_outcome ''pipeline'', Some s, ru_world s)
                | (Returned, s) \<Rightarrow> (run_result env d (dp_commands full) s, Some s, ru_world s)))"

section \<open>The circuit breaker and the batch\<close>

record breaker =
  br_limit :: nat
  br_failures :: nat
  br_tripped :: "device option"

definition new_breaker :: "nat \<Rightarrow> breaker" where
  "new_breaker n = \<lparr>br_limit = max 1 n, br_failures = 0, br_tripped = None\<rparr>"

definition counts_failure :: "dres \<Rightarrow> bool" where
  "counts_failure r \<longleftrightarrow> dr_outcome r \<notin> {Deployed, Skipped_drifted} \<or> dr_verify r = Some False"

definition record_failure :: "device \<Rightarrow> breaker \<Rightarrow> breaker" where
  "record_failure d b =
     (let b = b\<lparr>br_failures := br_failures b + 1\<rparr> in
      if br_limit b \<le> br_failures b \<and> br_tripped b = None then b\<lparr>br_tripped := Some d\<rparr> else b)"

text \<open>The queue, one device at a time: \<open>'s\<close> is what a device's deploy changes.\<close>

fun batch_loop ::
    "(artifact \<times> line list \<Rightarrow> 's \<Rightarrow> dres \<times> 's) \<Rightarrow> (artifact \<times> line list) list \<Rightarrow> breaker \<Rightarrow> 's
     \<Rightarrow> dres list \<times> breaker \<times> 's" where
  "batch_loop one [] b s = ([], b, s)"
| "batch_loop one (e # es) b s =
     (if br_tripped b \<noteq> None
      then (let (rs, b', s') = batch_loop one es b s
            in (plain_result (ar_device (fst e)) Unattempted '''' # rs, b', s'))
      else (let (r, s1) = one e s;
                b1 = (if counts_failure r then record_failure (dr_device r) b else b);
                (rs, b', s') = batch_loop one es b1 s1
            in (r # rs, b', s')))"

definition unaccounted :: "batch_plan \<Rightarrow> dres list \<Rightarrow> device list" where
  "unaccounted p rs =
     filter (\<lambda>d. d \<notin> dr_device ` set rs)
       (map (\<lambda>e. ar_device (fst e)) (bp_deploy p) @ map dr_device (bp_skipped p))"

definition run_batch ::
    "(artifact \<times> line list \<Rightarrow> 's \<Rightarrow> dres \<times> 's) \<Rightarrow> nat \<Rightarrow> batch_plan \<Rightarrow> 's \<Rightarrow> dres list \<times> 's" where
  "run_batch one limit p s =
     (let (rs, b, s') = batch_loop one (bp_deploy p) (new_breaker limit) s;
          rows = bp_skipped p @ rs;
          rows = rows @ map (\<lambda>d. plain_result d Unattempted '''') (sort (remdups (unaccounted p rows)))
      in (sort_key dr_device rows, s'))"

section \<open>The check after verify\<close>

record verdict =
  vd_rollback :: bool                     \<comment> \<open>a reason to roll back was given\<close>
  vd_symptom :: "symptom option"

text \<open>\<open>roll_back_end\<close> of a run that was kept.\<close>

definition roll_back_end :: "'w stages \<Rightarrow> string \<Rightarrow> string \<Rightarrow> dres \<Rightarrow> 'w run_state \<Rightarrow> dres \<times> 'w run_state" where
  "roll_back_end sg reason stage r ctx =
     (let ctx = roll_back_after sg reason stage ctx in
      (r\<lparr>dr_outcome := Failed_outcome, dr_stage := stage, dr_pending := [],
         dr_rolled := ru_rolled ctx, dr_undone := ru_undone ctx\<rparr>, ctx))"

text \<open>One row of \<open>_settle_after_verify\<close>: the check answers or raises, and may itself send (an approved
  fix's process reset): the world is what it leaves. A check that raises rolls back. The held save
  answers whether it was made.\<close>

definition settle_one ::
    "'w stages \<Rightarrow> ('w \<Rightarrow> bool \<times> 'w) \<Rightarrow> (dres \<Rightarrow> 'w run_state \<Rightarrow> (heal_error + verdict) \<times> 'w) \<Rightarrow> dres
     \<Rightarrow> 'w run_state option \<Rightarrow> dres \<times> 'w run_state option" where
  "settle_one sg save_held after_verify r ctx =
     (case ctx of
        None \<Rightarrow> (r, None)
      | Some c \<Rightarrow>
          if dr_outcome r \<noteq> Deployed then (r, ctx)
          else
            (let (said, w) = after_verify r c; c = c\<lparr>ru_world := w\<rparr>;
                 v = (case said of Inr v \<Rightarrow> v | Inl _ \<Rightarrow> \<lparr>vd_rollback = True, vd_symptom = None\<rparr>);
                 r = (case vd_symptom v of None \<Rightarrow> r | Some y \<Rightarrow> r\<lparr>dr_symptom := Some y\<rparr>)
             in if vd_rollback v
                then (case roll_back_end sg ''the check after verify'' ''after_verify'' r c of
                        (r', c') \<Rightarrow> (r', Some c'))
                else (case save_held (ru_world c) of
                        (ok, w) \<Rightarrow> (r\<lparr>dr_saved := Some ok\<rparr>, Some (c\<lparr>ru_world := w\<rparr>)))))"

section \<open>Every device, once\<close>

lemma plan_batch_devices:
  assumes "\<And>a r. one a = Inl r \<Longrightarrow> dr_device r = ar_device a" and "\<And>a e. one a = Inr e \<Longrightarrow> fst e = a"
  shows "mset (map dr_device (bp_skipped (plan_batch one as))) +
         mset (map (\<lambda>e. ar_device (fst e)) (bp_deploy (plan_batch one as))) = mset (map ar_device as)"
  by (induction as) (auto simp: Let_def assms split: sum.splits)

lemma plan_one_device:
  "plan_one hash conf fresh a = Inl r \<Longrightarrow> dr_device r = ar_device a"
  "plan_one hash conf fresh a = Inr e \<Longrightarrow> fst e = a"
  by (auto simp: plan_one_def Let_def plain_result_def split: option.splits if_splits)

lemma fst_batch_loop:
  "fst (batch_loop one (e # es) b s) =
     (if br_tripped b \<noteq> None
      then plain_result (ar_device (fst e)) Unattempted '''' # fst (batch_loop one es b s)
      else fst (one e s) # fst (batch_loop one es
             (if counts_failure (fst (one e s)) then record_failure (dr_device (fst (one e s))) b else b)
             (snd (one e s))))"
  by (simp add: Let_def split: prod.splits)

declare batch_loop.simps(2) [simp del] fst_batch_loop [simp]

lemma batch_loop_devices:
  assumes "\<And>e s. dr_device (fst (one e s)) = ar_device (fst e)"
  shows "map dr_device (fst (batch_loop one es b s)) = map (\<lambda>e. ar_device (fst e)) es"
  by (induction es arbitrary: b s) (simp_all add: assms plain_result_def)

lemma none_unaccounted:
  assumes "\<And>e s. dr_device (fst (one e s)) = ar_device (fst e)"
  shows "unaccounted p (bp_skipped p @ fst (batch_loop one (bp_deploy p) b s)) = []"
proof -
  have "dr_device ` set (fst (batch_loop one (bp_deploy p) b s)) = (\<lambda>e. ar_device (fst e)) ` set (bp_deploy p)"
    using arg_cong [OF batch_loop_devices [of one "bp_deploy p" b s], of set] assms by simp
  then show ?thesis by (auto simp: unaccounted_def filter_empty_conv image_Un)
qed

lemma deploy_one_device: "dr_device (fst (deploy_one env d captured w)) = d"
  by (auto simp: deploy_one_def run_result_def plain_result_def Let_def
      split: sum.splits run_end.splits prod.splits)

text \<open>Every device of a batch is in its report exactly once, whatever happens to it: the ones
  skipped before anything connects, the ones the breaker leaves unattempted, and the ones
  deployed. The branch that reports a device not accounted for is never taken.\<close>

lemma every_device_is_reported:
  assumes "\<And>e s. dr_device (fst (one e s)) = ar_device (fst e)"
  shows "mset (map dr_device (fst (run_batch one limit (plan_batch (plan_one hash conf fresh) as) s)))
       = mset (map ar_device as)"
proof -
  let ?p = "plan_batch (plan_one hash conf fresh) as"
  obtain rs b s' where l: "batch_loop one (bp_deploy ?p) (new_breaker limit) s = (rs, b, s')"
    by (metis prod_cases3)
  have u: "unaccounted ?p (bp_skipped ?p @ rs) = []"
    using none_unaccounted [of one ?p "new_breaker limit" s] assms l by simp
  have "map dr_device rs = map (\<lambda>e. ar_device (fst e)) (bp_deploy ?p)"
    using batch_loop_devices [of one "bp_deploy ?p" "new_breaker limit" s] assms l by simp
  from arg_cong [OF this, of mset] have "mset (map dr_device (fst (run_batch one limit ?p s)))
      = mset (map dr_device (bp_skipped ?p)) + mset (map (\<lambda>e. ar_device (fst e)) (bp_deploy ?p))"
    by (simp add: run_batch_def l u Let_def)
  also have "\<dots> = mset (map ar_device as)"
    by (rule plan_batch_devices) (auto dest: plan_one_device)
  finally show ?thesis .
qed

section \<open>The breaker\<close>

lemma batch_loop_tripped:
  "br_tripped b \<noteq> None \<Longrightarrow> batch_loop one es b s
     = (map (\<lambda>e. plain_result (ar_device (fst e)) Unattempted '''') es, b, s)"
  by (induction es) (auto simp: batch_loop.simps(2))

lemma record_failure_fields:
  "br_limit (record_failure d b) = br_limit b" "br_failures (record_failure d b) = Suc (br_failures b)"
  "br_tripped b = None \<Longrightarrow> br_tripped (record_failure d b) = None \<longleftrightarrow> Suc (br_failures b) < br_limit b"
  by (auto simp: record_failure_def Let_def)

definition attempted_failures :: "dres list \<Rightarrow> nat" where
  "attempted_failures rs = length (filter (\<lambda>r. counts_failure r \<and> dr_outcome r \<noteq> Unattempted) rs)"

lemma batch_loop_bounded:
  assumes "br_tripped b = None" "br_failures b < br_limit b"
  shows "br_failures b + attempted_failures (fst (batch_loop one es b s)) \<le> br_limit b"
  using assms
proof (induction es arbitrary: b s)
  case (Cons e es)
  let ?r = "fst (one e s)" and ?b = "record_failure (dr_device (fst (one e s))) b"
  show ?case
  proof (cases "counts_failure ?r")
    case False
    with Cons.prems Cons.IH [of b "snd (one e s)"] show ?thesis by (simp add: attempted_failures_def)
  next
    case True
    have one: "attempted_failures (fst (batch_loop one (e # es) b s))
        \<le> Suc (attempted_failures (fst (batch_loop one es ?b (snd (one e s)))))"
      using Cons.prems True by (simp add: attempted_failures_def)
    show ?thesis
    proof (cases "br_tripped ?b = None")
      case True
      with Cons.prems have "br_failures ?b < br_limit ?b" by (simp add: record_failure_fields)
      from Cons.IH [OF True this, of "snd (one e s)"] one show ?thesis by (simp add: record_failure_fields)
    next
      case False
      have "attempted_failures (fst (batch_loop one es ?b (snd (one e s)))) = 0"
        unfolding batch_loop_tripped [OF False]
        by (simp add: attempted_failures_def plain_result_def comp_def filter_empty_conv)
      with one Cons.prems show ?thesis by simp
    qed
  qed
qed (simp add: attempted_failures_def)

text \<open>The breaker bounds a mistake: whatever the devices do, a batch attempts at most the
  breaker's limit of devices that fail (and a limit below one is one).\<close>

lemma breaker_bounds_failures:
  "attempted_failures (fst (batch_loop one es (new_breaker limit) s)) \<le> max 1 limit"
  using batch_loop_bounded [of "new_breaker limit" one es s] by (simp add: new_breaker_def)

section \<open>What reaches a device\<close>

definition passed_checks :: "'w one_env \<Rightarrow> line list \<Rightarrow> line list \<Rightarrow> bool" where
  "passed_checks env prepared captured \<longleftrightarrow>
     rc_refused (recreate_of env prepared captured) = []
     \<and> dp_refused (one_program env prepared captured) = []
     \<and> unreasoned env (dp_removed (one_program env prepared captured)) = []
     \<and> merge_only (e_canon (pe_removal (on_program env))) (dp_merge (one_program env prepared captured))
         (on_intent_lines env prepared)
     \<and> on_declared_ok env"

text \<open>Nothing a check refuses reaches a device: if a device's deploy changed anything, or its
  result counts as sent, or a run of it was made, then its intent rendered, no re-created operation and no removal was
  refused, every removal has a stated reason, every added line is one intent holds, its declared
  effects still fit, and what it was sent is the program recomputed from those very inputs.\<close>

lemma nothing_unchecked_is_sent:
  assumes "deploy_one env d captured w = (r, ctx, w')" and "w' \<noteq> w \<or> was_sent r \<or> ctx \<noteq> None"
  shows "\<exists>prepared. on_prepared env = Inr prepared \<and> passed_checks env prepared captured
    \<and> (dr_commands r \<noteq> [] \<longrightarrow> dr_commands r = dp_commands (one_program env prepared captured))"
proof -
  have no: "\<not> was_sent (plain_result d out st)" "\<not> was_sent (plain_result d out st\<lparr>dr_pending := c\<rparr>)" for out st c
    by (simp_all add: was_sent_def plain_result_def)
  obtain prepared where p: "on_prepared env = Inr prepared"
    using assms no by (auto simp: deploy_one_def split: sum.splits)
  have c: "passed_checks env prepared captured"
    using assms no unfolding passed_checks_def
    by (auto simp: deploy_one_def p Let_def split: if_splits sum.splits)
  have "dr_commands r \<noteq> [] \<longrightarrow> dr_commands r = dp_commands (one_program env prepared captured)"
    using assms(1) by (auto simp: deploy_one_def p Let_def run_result_def plain_result_def
        split: if_splits sum.splits prod.splits run_end.splits)
  with p c show ?thesis by blast
qed

text \<open>The check after verify decides: a device whose run was kept ends deployed only when the check
  answered and gave no reason to roll back; and one it does give a reason for, or that cannot be
  made, ends failed, its rollback performed and its capture kept out of the golden.\<close>

lemma check_after_verify_decides:
  assumes "settle_one sg save_held check_it r (Some c) = (r', c')" and "dr_outcome r = Deployed"
  shows "if \<exists>v. fst (check_it r c) = Inr v \<and> \<not> vd_rollback v
    then dr_outcome r' = Deployed \<and> dr_saved r' = Some (fst (save_held (snd (check_it r c))))
    else dr_outcome r' = Failed_outcome \<and> dr_rolled r' \<and> dr_pending r' = [] \<and> dr_stage r' = ''after_verify''"
proof (cases "fst (check_it r c)")
  case (Inl e)
  with assms show ?thesis
    by (auto simp: settle_one_def Let_def roll_back_end_def roll_back_after_def roll_back_def split: prod.splits)
next
  case (Inr v)
  with assms show ?thesis
    by (cases "vd_symptom v")
      (auto simp: settle_one_def Let_def roll_back_end_def roll_back_after_def roll_back_def
         split: prod.splits if_splits)
qed

section \<open>An example of a device to deploy\<close>

definition ex_one_env :: "bool one_env" where
  "ex_one_env = \<lparr>on_prepared = Inr [''interface Gi1'', '' shutdown''], on_source = None,
     on_program = ex_program_env, on_selected = [], on_mgmt_ip = ''10.0.0.1'', on_authorise = [],
     on_reason_ok = (\<lambda>_. False), on_key = snd, on_intent_lines = (\<lambda>ls. ls), on_measured = Inr [],
     on_declared_ok = True, on_stages = ex_stages, on_drifted = (\<lambda>_. False), on_pending = (\<lambda>_. []),
     on_saved = (\<lambda>_. None), on_verify = (\<lambda>_. None)\<rparr>"

end
