(* ===== verification/Symptom.thy ===== *)
theory Symptom
  imports Incidents Batch
begin

text \<open>
  The symptom read again after a heal (\<open>modules/heal/act.py\<close>: \<open>symptom_triggers\<close>, \<open>adjacency_down\<close>,
  \<open>alert_firing\<close>, \<open>duplicate_logged\<close>, \<open>judge\<close>, \<open>read_symptom\<close>; \<open>still_logged\<close> of
  \<open>modules/readers/adjacency_log.py\<close>). A reader's document is when its last good read started and
  the value read; a value holds its adjacencies down, its alert instances and its duplicates.

  The loop reads every store again until the symptom is gone or its bound has passed. What the
  stores answer at the \<open>n\<close>-th time round, and the clock then, are arguments; the loop runs on fuel,
  and the lemmas show it ends within a number of rounds set by the bound, as long as a sleep of
  \<open>POLL_SECONDS\<close> takes that long. Asking a reader to run is not modelled: no answer depends on it.
\<close>

section \<open>What a reader holds\<close>

record adjacency_row =
  aj_list :: string
  aj_protocol :: string
  aj_devices :: "device list"

record alert_row =
  al_firing :: bool
  al_rule :: string
  al_device :: device
  al_labels :: "string list"                    \<comment> \<open>\<open>ifDescr\<close> and \<open>ifName\<close>\<close>

record duplicate_row =
  du_list :: string
  du_protocol :: string
  du_router_id :: string
  du_reports :: "(device \<times> epoch) list"        \<comment> \<open>each device's newest line\<close>

record reader_value =
  rv_adjacencies :: "adjacency_row list"
  rv_alerts :: "alert_row list"
  rv_duplicates :: "duplicate_row list"

record good_read =
  gr_started :: epoch                           \<comment> \<open>\<open>0\<close> where the document holds none\<close>
  gr_value :: reader_value

section \<open>One symptom\<close>

definition QUIET_SECONDS :: epoch where "QUIET_SECONDS = 165"
definition POLL_SECONDS :: epoch where "POLL_SECONDS = 30"

fun SYMPTOM_SECONDS :: "trigger_kind \<Rightarrow> epoch option" where
  "SYMPTOM_SECONDS Adjacency = Some 150"
| "SYMPTOM_SECONDS Adjacency_log = Some 150"
| "SYMPTOM_SECONDS Alert = Some 750"
| "SYMPTOM_SECONDS Duplicate_router_id = Some 405"
| "SYMPTOM_SECONDS _ = None"

definition symptom_triggers :: "trigger list \<Rightarrow> trigger list" where
  "symptom_triggers ts = filter (\<lambda>t. SYMPTOM_SECONDS (t_kind t) \<noteq> None \<and> t_source t \<noteq> '''') ts"

definition of_list :: "network \<Rightarrow> string \<Rightarrow> bool" where
  "of_list network l \<longleftrightarrow> network = '''' \<or> l \<in> {'''', network}"

definition adjacency_down :: "reader_value \<Rightarrow> network \<Rightarrow> device list \<Rightarrow> string \<Rightarrow> bool" where
  "adjacency_down v network ds protocol \<longleftrightarrow>
     (\<exists>e \<in> set (rv_adjacencies v). of_list network (aj_list e)
        \<and> (protocol = '''' \<or> aj_protocol e = protocol)
        \<and> list_all (\<lambda>d. d \<in> set (aj_devices e)) (filter (\<lambda>d. d \<noteq> '''') ds))"

definition alert_firing :: "reader_value \<Rightarrow> device \<Rightarrow> string \<Rightarrow> string \<Rightarrow> bool" where
  "alert_firing v d rule iface \<longleftrightarrow>
     (\<exists>i \<in> set (rv_alerts v). al_firing i \<and> al_rule i = rule
        \<and> (d = '''' \<or> al_device i \<in> {'''', d}) \<and> (iface = '''' \<or> iface \<in> set (al_labels i)))"

definition still_logged :: "duplicate_row \<Rightarrow> epoch \<Rightarrow> epoch \<Rightarrow> device list" where
  "still_logged g read_at since =
     map fst (filter (\<lambda>(d, last). read_at - QUIET_SECONDS \<le> last \<and> since < last) (du_reports g))"

definition duplicate_logged ::
    "reader_value \<Rightarrow> network \<Rightarrow> string \<Rightarrow> string \<Rightarrow> epoch \<Rightarrow> epoch \<Rightarrow> bool" where
  "duplicate_logged v network protocol rid read_at since \<longleftrightarrow>
     (\<exists>g \<in> set (rv_duplicates v). of_list network (du_list g)
        \<and> (protocol = '''' \<or> du_protocol g = protocol)
        \<and> du_router_id g = rid \<and> still_logged g read_at since \<noteq> [])"

datatype one_symptom = Stale | Present | Gone | Not_readable_now

text \<open>The store a trigger's symptom is read again from.\<close>

definition store_for :: "trigger \<Rightarrow> string" where
  "store_for t =
     (if t_kind t = Adjacency_log
      then ''adjacencies'' @ (if takeWhile (\<lambda>c. c \<noteq> CHR ''@'') (t_source t) = ''adjacency-log''
                              then dropWhile (\<lambda>c. c \<noteq> CHR ''@'') (t_source t) else '''')
      else t_source t)"

definition judge_symptom ::
    "trigger \<Rightarrow> good_read \<Rightarrow> network \<Rightarrow> device \<Rightarrow> epoch \<Rightarrow> one_symptom" where
  "judge_symptom t good network d since =
     (if gr_started good \<le> since then Stale
      else if (case t_kind t of
                 Alert \<Rightarrow> alert_firing (gr_value good) d (t_rule t) (t_interface t)
               | Duplicate_router_id \<Rightarrow>
                   duplicate_logged (gr_value good) network (t_protocol t) (t_router_id t) (gr_started good) since
               | _ \<Rightarrow> adjacency_down (gr_value good) network (d # t_related t) (t_protocol t))
      then Present else Gone)"

text \<open>A store's answer is nothing where it cannot be read.\<close>

definition check_symptom ::
    "network \<Rightarrow> device \<Rightarrow> epoch \<Rightarrow> (string \<Rightarrow> good_read option) \<Rightarrow> trigger \<Rightarrow> one_symptom" where
  "check_symptom network d since stores t =
     (case stores (store_for t) of None \<Rightarrow> Not_readable_now
      | Some good \<Rightarrow> judge_symptom t good network d since)"

section \<open>The loop\<close>

fun symptom_loop ::
    "(nat \<Rightarrow> one_symptom list) \<Rightarrow> (nat \<Rightarrow> epoch) \<Rightarrow> epoch \<Rightarrow> nat \<Rightarrow> nat \<Rightarrow> symptom option" where
  "symptom_loop checks clock deadline 0 n = None"
| "symptom_loop checks clock deadline (Suc fuel) n =
     (if set (checks n) = {Gone} then Some Sym_gone
      else if deadline \<le> clock n
      then Some (if Present \<in> set (checks n) then Sym_present else Sym_unreadable)
      else symptom_loop checks clock deadline fuel (n + 1))"

definition symptom_bound :: "trigger list \<Rightarrow> epoch" where
  "symptom_bound ts = Max (set (map (\<lambda>t. the (SYMPTOM_SECONDS (t_kind t))) ts))"

text \<open>\<open>start\<close> is the clock when the loop begins.\<close>

definition read_symptom ::
    "nat \<Rightarrow> network \<Rightarrow> device \<Rightarrow> trigger list \<Rightarrow> epoch \<Rightarrow> (nat \<Rightarrow> string \<Rightarrow> good_read option)
     \<Rightarrow> epoch \<Rightarrow> (nat \<Rightarrow> epoch) \<Rightarrow> symptom option" where
  "read_symptom fuel network d triggers since stores start clock =
     (let wanted = symptom_triggers triggers in
      if wanted = [] then Some Sym_none
      else symptom_loop (\<lambda>n. map (check_symptom network d since (stores n)) wanted) clock
             (start + symptom_bound wanted) fuel 0)"

section \<open>It ends, and what its answer means\<close>

text \<open>What one round's readings say.\<close>

definition round_answer :: "one_symptom list \<Rightarrow> symptom" where
  "round_answer cs = (if set cs = {Gone} then Sym_gone
                      else if Present \<in> set cs then Sym_present else Sym_unreadable)"

lemma symptom_loop_ends:
  assumes "deadline \<le> clock (n + k)"
  shows "\<exists>m. symptom_loop checks clock deadline (Suc k) n = Some (round_answer (checks m)) \<and> m \<le> n + k"
  using assms
proof (induction k arbitrary: n)
  case 0
  then show ?case by (intro exI [of _ n]) (simp add: round_answer_def)
next
  case (Suc k)
  show ?case
  proof (cases "set (checks n) = {Gone} \<or> deadline \<le> clock n")
    case True
    then show ?thesis by (intro exI [of _ n]) (auto simp: round_answer_def)
  next
    case False
    from Suc.IH [of "n + 1"] Suc.prems obtain m where
      "symptom_loop checks clock deadline (Suc k) (n + 1) = Some (round_answer (checks m))" "m \<le> n + 1 + k"
      by auto
    with False show ?thesis by (intro exI [of _ m]) simp
  qed
qed

lemma symptom_bound_le: "wanted \<noteq> [] \<Longrightarrow> wanted = symptom_triggers ts \<Longrightarrow> symptom_bound wanted \<le> 750"
proof -
  assume w: "wanted \<noteq> []" "wanted = symptom_triggers ts"
  have "the (SYMPTOM_SECONDS (t_kind t)) \<le> 750" if "t \<in> set wanted" for t
    using that w(2) by (cases "t_kind t") (auto simp: symptom_triggers_def)
  then show ?thesis unfolding symptom_bound_def using w(1) by (subst Max_le_iff) auto
qed

definition ROUNDS :: nat where "ROUNDS = 26"

text \<open>The wait for a symptom ends, and its answer is one reading's: within 26 rounds (the longest
  bound, 750 s, over the 30 s between reads, and one) the loop answers; and it says gone only of
  a round in which every store was read since the change and none held its symptom.\<close>

lemma symptom_read_ends:
  assumes "\<And>n. clock n + POLL_SECONDS \<le> clock (n + 1)" and "start \<le> clock 0"
    and "symptom_triggers triggers \<noteq> []"
  shows "\<exists>s m. read_symptom ROUNDS network d triggers since stores start clock = Some s
    \<and> m < ROUNDS \<and> s \<in> {Sym_gone, Sym_present, Sym_unreadable}
    \<and> (s = Sym_gone \<longleftrightarrow> list_all (\<lambda>t. check_symptom network d since (stores m) t = Gone) (symptom_triggers triggers))
    \<and> (s = Sym_present \<longrightarrow> list_ex (\<lambda>t. check_symptom network d since (stores m) t = Present) (symptom_triggers triggers))"
proof -
  let ?w = "symptom_triggers triggers"
  let ?c = "\<lambda>n. map (check_symptom network d since (stores n)) ?w"
  have "start + symptom_bound ?w \<le> clock 25"
    using clock_after [of clock POLL_SECONDS start 25, OF assms(1,2)] symptom_bound_le [OF assms(3) refl]
    by (simp add: POLL_SECONDS_def)
  with symptom_loop_ends [of "start + symptom_bound ?w" clock 0 25 ?c] obtain m where
    l: "symptom_loop ?c clock (start + symptom_bound ?w) ROUNDS 0 = Some (round_answer (?c m))" "m \<le> 25"
    by (auto simp: ROUNDS_def)
  have g: "set (?c m) = {Gone} \<longleftrightarrow> list_all (\<lambda>t. check_symptom network d since (stores m) t = Gone) ?w"
    using assms(3) by (auto simp: list_all_iff image_iff neq_Nil_conv)
  have p: "Present \<in> set (?c m) \<longleftrightarrow> list_ex (\<lambda>t. check_symptom network d since (stores m) t = Present) ?w"
    by (auto simp: list_ex_iff image_iff eq_commute [of Present])
  have "read_symptom ROUNDS network d triggers since stores start clock = Some (round_answer (?c m))"
    using l(1) assms(3) by (simp add: read_symptom_def Let_def)
  then show ?thesis
    unfolding round_answer_def g p using l(2)
    by (intro exI conjI) (auto simp: ROUNDS_def split: if_splits)
qed

text \<open>A store last read before the change says nothing: neither gone nor present.\<close>

lemma stale_iff: "judge_symptom t good network d since = Stale \<longleftrightarrow> gr_started good \<le> since"
  by (simp add: judge_symptom_def)

end
