(* ===== verification/Steplog.thy ===== *)
theory Steplog
  imports Decisions
begin

text \<open>
  The step log of one network (\<open>modules/heal/steplog.py\<close>): a row for each thing the heal did (decided,
  started to apply, acted, raised, found interrupted), what a reader makes of one decision's rows
  (\<open>of_decision\<close>: had its act started?) and of one incident's (\<open>_fold\<close>). A row's steps are their
  names and results; the words, the program's text and the diagnoses are not modelled.

  A row is kept only when the network exists and the store takes it (\<open>keeps\<close>); otherwise the writer
  raises. A log that cannot be read is neither empty nor anything else.
\<close>

datatype row_kind = R_decision | R_started | R_act | R_raised | R_interrupted

record step_row =
  sr_row :: row_kind
  sr_id :: string
  sr_decision :: decision_id
  sr_incident :: incident_id
  sr_outcome :: string
  sr_steps :: "(string \<times> string) list"
  sr_hash :: string
  sr_sent :: bool
  sr_halted :: bool

datatype steplog = No_steps | Bad_steps | Steps "step_row list"

fun steps_of :: "steplog \<Rightarrow> step_row list option" where
  "steps_of No_steps = Some []"
| "steps_of (Steps rs) = Some rs"
| "steps_of Bad_steps = None"

fun add_step :: "step_row \<Rightarrow> steplog \<Rightarrow> steplog" where
  "add_step r (Steps rs) = Steps (rs @ [r])"
| "add_step r No_steps = Steps [r]"
| "add_step r Bad_steps = Bad_steps"

definition append_step :: "bool \<Rightarrow> bool \<Rightarrow> step_row \<Rightarrow> steplog \<Rightarrow> heal_error + steplog" where
  "append_step network_exists keeps r sl =
     (if \<not> network_exists then Inl Refused_no_network
      else if \<not> keeps then Inl Raised
      else Inr (add_step r sl))"

section \<open>The writers\<close>

definition step_for :: "row_kind \<Rightarrow> string \<Rightarrow> decision \<Rightarrow> step_row" where
  "step_for k nid d =
     \<lparr>sr_row = k, sr_id = nid, sr_decision = d_id d, sr_incident = d_incident d, sr_outcome = '''',
      sr_steps = [], sr_hash = '''', sr_sent = False, sr_halted = False\<rparr>"

definition started_step :: "string \<Rightarrow> decision \<Rightarrow> (string \<times> string) list \<Rightarrow> string \<Rightarrow> step_row" where
  "started_step nid d steps h = (step_for R_started nid d)\<lparr>sr_steps := steps, sr_hash := h\<rparr>"

definition act_step :: "string \<Rightarrow> decision \<Rightarrow> (string \<times> string) list \<Rightarrow> string \<Rightarrow> bool \<Rightarrow> step_row" where
  "act_step nid d steps out sent =
     (step_for R_act nid d)\<lparr>sr_steps := steps, sr_outcome := out, sr_sent := sent\<rparr>"

definition raised_step :: "string \<Rightarrow> decision \<Rightarrow> step_row" where
  "raised_step nid d = step_for R_raised nid d"

definition interrupted_step :: "string \<Rightarrow> decision \<Rightarrow> bool \<Rightarrow> step_row" where
  "interrupted_step nid d halts =
     (step_for R_interrupted nid d)
       \<lparr>sr_outcome := ''interrupted'', sr_halted := halts, sr_steps := [(''record'', ''interrupted'')]\<rparr>"

section \<open>One decision's rows\<close>

record log_view =
  lv_readable :: bool
  lv_started :: bool
  lv_raised :: bool
  lv_last :: "(string \<times> string) option"

definition of_decision :: "steplog \<Rightarrow> decision_id \<Rightarrow> log_view" where
  "of_decision sl i =
     (case steps_of sl of
        None \<Rightarrow> \<lparr>lv_readable = False, lv_started = False, lv_raised = False, lv_last = None\<rparr>
      | Some rs \<Rightarrow>
          (let rows = filter (\<lambda>r. sr_decision r = i) rs; steps = concat (map sr_steps rows) in
           \<lparr>lv_readable = True, lv_started = (\<exists>r \<in> set rows. sr_row r = R_started),
            lv_raised = (\<exists>r \<in> set rows. sr_row r = R_raised),
            lv_last = (if steps = [] then None else Some (last steps))\<rparr>))"

text \<open>Whether something may have been sent: \<open>reap\<close> halts then.\<close>

definition may_have_sent :: "log_view \<Rightarrow> bool" where
  "may_have_sent v \<longleftrightarrow> lv_started v \<or> \<not> lv_readable v"

section \<open>One incident's entry\<close>

datatype entry_state = E_decided | E_applying | E_done | E_interrupted

record log_entry =
  le_key :: string
  le_incident :: incident_id
  le_decisions :: "decision_id list"
  le_steps :: "(string \<times> string) list"
  le_pending :: "(string \<times> string) list option"      \<comment> \<open>\<open>started\<close>'s steps, until its act ends\<close>
  le_hash :: string
  le_outcome :: string
  le_state :: entry_state
  le_raised :: bool
  le_halted :: bool

definition entry_key :: "step_row \<Rightarrow> string" where
  "entry_key r = (if sr_incident r \<noteq> '''' then sr_incident r
                  else if sr_decision r \<noteq> '''' then sr_decision r else sr_id r)"

definition new_entry :: "step_row \<Rightarrow> log_entry" where
  "new_entry r =
     \<lparr>le_key = entry_key r, le_incident = sr_incident r, le_decisions = [], le_steps = [],
      le_pending = None, le_hash = '''', le_outcome = '''', le_state = E_decided, le_raised = False,
      le_halted = False\<rparr>"

definition or_nil :: "'a list option \<Rightarrow> 'a list" where
  "or_nil x = (case x of None \<Rightarrow> [] | Some ys \<Rightarrow> ys)"

definition fold_row :: "step_row \<Rightarrow> log_entry \<Rightarrow> log_entry" where
  "fold_row r e =
     (let e = (if sr_decision r \<noteq> '''' \<and> sr_decision r \<notin> set (le_decisions e)
               then e\<lparr>le_decisions := le_decisions e @ [sr_decision r]\<rparr> else e);
          hashed = (if sr_hash r \<noteq> '''' then e\<lparr>le_hash := sr_hash r\<rparr> else e)
      in case sr_row r of
           R_decision \<Rightarrow> hashed\<lparr>le_outcome := sr_outcome r, le_state := E_decided,
                                le_steps := le_steps e @ sr_steps r\<rparr>
         | R_started \<Rightarrow> hashed\<lparr>le_pending := Some (sr_steps r), le_state := E_applying\<rparr>
         | R_act \<Rightarrow> e\<lparr>le_pending := None, le_steps := le_steps e @ sr_steps r,
                      le_outcome := sr_outcome r, le_state := E_done\<rparr>
         | R_raised \<Rightarrow> e\<lparr>le_raised := True\<rparr>
         | R_interrupted \<Rightarrow> e\<lparr>le_pending := None, le_steps := le_steps e @ or_nil (le_pending e) @ sr_steps r,
                              le_outcome := ''interrupted'', le_state := E_interrupted,
                              le_halted := sr_halted r\<rparr>)"

fun fold_into :: "step_row \<Rightarrow> log_entry list \<Rightarrow> log_entry list" where
  "fold_into r [] = [fold_row r (new_entry r)]"
| "fold_into r (e # es) = (if le_key e = entry_key r then fold_row r e # es else e # fold_into r es)"

definition close_entry :: "log_entry \<Rightarrow> log_entry" where
  "close_entry e = e\<lparr>le_steps := le_steps e @ or_nil (le_pending e), le_pending := None\<rparr>"

definition entries_of :: "step_row list \<Rightarrow> log_entry list" where
  "entries_of rs = map close_entry (fold fold_into rs [])"

section \<open>What the readers keep\<close>

lemma add_step_readable: "steps_of sl = Some rs \<Longrightarrow> steps_of (add_step r sl) = Some (rs @ [r])"
  by (cases sl) auto

lemma append_step_Inr:
  "append_step ex keeps r sl = Inr sl' \<longleftrightarrow> ex \<and> keeps \<and> sl' = add_step r sl"
  by (auto simp: append_step_def)

text \<open>What may have been sent stays so: a row written later never takes it back.\<close>

lemma may_have_sent_mono:
  "may_have_sent (of_decision sl i) \<Longrightarrow> may_have_sent (of_decision (add_step r sl) i)"
  by (cases sl) (auto simp: may_have_sent_def of_decision_def Let_def)

lemma started_may_have_sent:
  "sr_row r = R_started \<Longrightarrow> sr_decision r = i \<Longrightarrow> may_have_sent (of_decision (add_step r sl) i)"
  by (cases sl) (auto simp: may_have_sent_def of_decision_def Let_def)

lemma fold_into_keys:
  "map le_key (fold_into r es) = map le_key es @ (if entry_key r \<in> le_key ` set es then [] else [entry_key r])"
  by (induction es) (auto simp: fold_row_def new_entry_def Let_def split: row_kind.splits)

text \<open>One entry an incident, in the order each was first seen.\<close>

lemma entries_distinct: "distinct (map le_key (entries_of rs))"
proof -
  have "distinct (map le_key (fold fold_into rs es))" if "distinct (map le_key es)" for es
    using that by (induction rs arbitrary: es) (auto simp: fold_into_keys)
  from this [of "[]"] show ?thesis by (simp add: entries_of_def close_entry_def comp_def)
qed

end
