(* ===== verification/Act.thy ===== *)
theory Act
  imports Decide Symptom Steplog
begin

text \<open>
  Act and verify (\<open>modules/heal/act.py\<close>): a taken heal decision applied as the policy. The stops are
  judged again (\<open>_stops\<close>), the device is read again and its program recomputed from that read, the
  plan must be that program (\<open>act_checked\<close>); the step log holds the program before anything is sent;
  then the apply every deploy runs (\<open>apply_batch\<close> of \<open>routes/deploy.py\<close>, for its one device), with the
  heal's check after verify (\<open>heal_check\<close>); then the outcome (\<open>_judge\<close>) and its records
  (\<open>finish\<close>).

  What the act reads and calls is a record (\<open>act_sources\<close>): the policy, the network's stage, the
  device's sources, the plan's entry, the parts of the apply, the symptom read again and the golden
  re-check. An incident that is gone holds no related device and no trigger. The words, the receipt,
  the change record and the journal entry are not modelled, nor the steps an act's row repeats.

  The lemmas: nothing is sent unless every check passed, the program is the decision's and the step
  log holds it; healed is said only of a device verified, saved, checked and read again at its golden;
  a heal sent and then rolled back or failed leaves the network halted; and a run that raises is said
  to have sent nothing.
\<close>

section \<open>What the act reads\<close>

record plan_entry =
  en_refused :: bool                               \<comment> \<open>refused, or an error\<close>
  en_deployable :: bool
  en_blocking :: bool
  en_commands :: "line list"
  en_authorised :: bool
  en_reach :: "(bool \<times> string list) option"        \<comment> \<open>is it known?, the paths it cuts\<close>
  en_capture_hash :: string
  en_command_hash :: string

record 'w apply_env =
  ap_built :: bool
  ap_prepared :: "heal_error + line list"
  ap_one :: "'w one_env"
  ap_authorised :: "line list \<Rightarrow> bool"
  ap_fingerprint :: "line list \<Rightarrow> string list \<Rightarrow> string"
  ap_text_hash :: "line list \<Rightarrow> string"
  ap_busy :: bool
  ap_deployable :: bool
  ap_save :: "'w \<Rightarrow> bool \<times> 'w"
  ap_commit :: "line list list \<Rightarrow> heal_error + bool"

record 'w act_sources =
  ac_exists :: bool
  ac_mode :: policy_now
  ac_stage :: stage
  ac_src :: device_sources
  ac_dangerous :: "line \<Rightarrow> bool"
  ac_plan :: plan_entry
  ac_apply :: "'w apply_env"
  ac_intent_read :: bool                           \<comment> \<open>does reading intent's state answer?\<close>
  ac_symptom :: symptom
  ac_recheck :: "heal_error + read_state"
  ac_step_id :: string
  ac_halt_id :: string
  ac_keeps_started :: bool
  ac_keeps_act :: bool

record 'w act_state =
  at_store :: store
  at_log :: log
  at_steps :: steplog
  at_world :: 'w

section \<open>The checks before anything is sent\<close>

definition act_stops :: "'w act_sources \<Rightarrow> log \<Rightarrow> decision \<Rightarrow> epoch \<Rightarrow> bool" where
  "act_stops src lg d now \<longleftrightarrow>
     (let md = ac_mode src in
      m_stopped md \<or> m_mode md \<noteq> M_auto \<or> \<not> is_lab (ac_stage src)
      \<or> m_fingerprint md \<noteq> fst (d_policy d)
      \<or> (\<exists>u \<in> set (d_units d). ur_kind u \<notin> set (m_auto md))
      \<or> (case rows_of lg of
           Inl _ \<Rightarrow> True
         | Inr rs \<Rightarrow> (case halted rs of None \<Rightarrow> False | Some h \<Rightarrow> h_id h \<noteq> ''''))
      \<or> g3_planned (ds_planned (ac_src src)) now \<noteq> None
      \<or> snd (d_policy d) = '''')"

definition incident_of :: "store \<Rightarrow> incident_id \<Rightarrow> incident option" where
  "incident_of st x = map_option (\<lambda>k. held st ! k) (find_idx (\<lambda>i. i_id i = x) (held st))"

definition act_classified :: "heal_env \<Rightarrow> device_sources \<Rightarrow> incident option \<Rightarrow> classified" where
  "act_classified env src inc =
     (let pe = he_program env in
      classify (pe_removal pe) (he_feature env) (paths_in pe (golden_text src))
        (paths_in pe (pe_stored pe (ds_read src))) (paths_in pe (ds_intended src))
        (ds_mgmt_ip src) (case inc of None \<Rightarrow> False | Some i \<Rightarrow> i_related i \<noteq> []))"

definition plan_refuses :: "plan_entry \<Rightarrow> line list \<Rightarrow> bool" where
  "plan_refuses en commands \<longleftrightarrow>
     en_refused en \<or> \<not> en_deployable en \<or> en_blocking en \<or> en_commands en \<noteq> commands
     \<or> \<not> en_authorised en
     \<or> (case en_reach en of None \<Rightarrow> False | Some (known, lost) \<Rightarrow> \<not> known \<or> lost \<noteq> [])"

text \<open>The name of the step that refuses, or the units and the program to send.\<close>

definition act_checked ::
    "heal_env \<Rightarrow> 'w act_sources \<Rightarrow> store \<Rightarrow> log \<Rightarrow> decision \<Rightarrow> epoch \<Rightarrow> string + (classified \<times> heal_program)"
where
  "act_checked env src st lg d now =
     (let ds = ac_src src in
      if act_stops src lg d now then Inl ''stops''
      else if ds_read ds = [] then Inl ''read''
      else if golden_state_of ds \<noteq> G_at_intent \<or> golden_text ds = [] then Inl ''plan''
      else if ds_intended ds = [] then Inl ''plan''
      else
        (let c = act_classified env ds (incident_of st (d_incident d));
             prog = heal_program_of env ds c
         in if hp_hash prog \<noteq> d_program_hash d then Inl ''plan''
            else if hp_refused prog \<noteq> [] \<or> cl_blocked c \<noteq> None \<or> cl_tier c \<noteq> 1 then Inl ''plan''
            else if \<exists>l \<in> set (hp_commands prog). ac_dangerous src l then Inl ''authorise''
            else if plan_refuses (ac_plan src) (hp_commands prog) then Inl ''plan''
            else Inr (c, prog)))"

section \<open>The check after verify\<close>

definition feature_removed :: "cunit list \<Rightarrow> bool" where
  "feature_removed us \<longleftrightarrow>
     (\<exists>u \<in> set us. u_op u = Op_remove \<and> u_chain u \<noteq> [] \<and> starts ''interface '' (hd (u_chain u)) \<and> \<not> u_stanza u)"

text \<open>The units not at intent on a read.\<close>

definition units_left :: "heal_env \<Rightarrow> cunit list \<Rightarrow> line list \<Rightarrow> cunit list" where
  "units_left env us text =
     (let have = set (paths_in (he_program env) (pe_stored (he_program env) text)) in
      filter (\<lambda>u. (\<exists>p \<in> set (u_add u). p \<notin> have) \<or> (\<exists>p \<in> set (u_remove u). p \<in> have)) us)"

definition heal_check :: "heal_env \<Rightarrow> 'w act_sources \<Rightarrow> cunit list \<Rightarrow> dres \<Rightarrow> 'w run_state \<Rightarrow> (heal_error + verdict) \<times> 'w" where
  "heal_check env src us r ctx =
     (let post = (case dr_pending r of [] \<Rightarrow> [] | p # _ \<Rightarrow> p) in
      (if post = [] then Inr \<lparr>vd_rollback = True, vd_symptom = None\<rparr>
       else if \<not> ac_intent_read src then Inl Raised
       else if units_left env us post \<noteq> [] then Inr \<lparr>vd_rollback = True, vd_symptom = None\<rparr>
       else if \<not> feature_removed us then Inr \<lparr>vd_rollback = False, vd_symptom = None\<rparr>
       else Inr \<lparr>vd_rollback = ac_symptom src = Sym_present, vd_symptom = Some (ac_symptom src)\<rparr>, ru_world ctx))"

section \<open>The apply\<close>

text \<open>\<open>apply_batch\<close> of one device: its result, whether a golden was committed, and the world. What
  it raises (the commit) leaves the world as it is.\<close>

definition apply_one_device ::
    "'w apply_env \<Rightarrow> device \<Rightarrow> line list \<Rightarrow> string \<Rightarrow> string
     \<Rightarrow> (dres \<Rightarrow> 'w run_state \<Rightarrow> (heal_error + verdict) \<times> 'w) \<Rightarrow> 'w \<Rightarrow> (heal_error + (dres \<times> bool)) \<times> 'w" where
  "apply_one_device ap d captured capture_hash command_hash check_it w =
     (let one = ap_one ap; refuse = (Inr (plain_result d Refused_outcome '''', False), w) in
      if \<not> ap_built ap then refuse
      else case ap_prepared ap of
        Inl _ \<Rightarrow> refuse
      | Inr prepared \<Rightarrow>
          (let full = one_program one prepared captured in
           if dp_refused full \<noteq> [] \<or> rc_refused (recreate_of one prepared captured) \<noteq> []
              \<or> \<not> ap_authorised ap (dp_commands full) \<or> \<not> on_declared_ok one then refuse
           else if ap_fingerprint ap (dp_commands full) (dp_ids full) \<noteq> command_hash then refuse
           else if ap_busy ap then refuse
           else
             (let p = plan_batch (plan_one (ap_text_hash ap) (\<lambda>_. Some capture_hash) (\<lambda>_. Some captured))
                        [\<lparr>ar_device = d, ar_deployable = ap_deployable ap\<rparr>];
                  (rows, (ctx, w1)) = run_batch
                    (\<lambda>e s. case deploy_one one (ar_device (fst e)) (snd e) (snd s) of
                             (r, c, w') \<Rightarrow> (r, (c, w'))) 1 p (None, w);
                  (r, ctx) = settle_one (on_stages one) (ap_save ap) check_it (hd rows) ctx;
                  w2 = (case ctx of None \<Rightarrow> w1 | Some c \<Rightarrow> ru_world c);
                  committed = (if dr_outcome r = Deployed \<and> dr_pending r \<noteq> [] then ap_commit ap (dr_pending r)
                               else Inr False)
              in (bind_result committed (\<lambda>b. Inr (r, b)), w2))))"

section \<open>The outcome and its records\<close>

datatype act_outcome =
  A_healed | A_symptom_remains | A_partial | A_refused | A_rolled_back | A_failed | A_interrupted

fun outcome_text :: "act_outcome \<Rightarrow> string" where
  "outcome_text A_healed = ''healed''"
| "outcome_text A_symptom_remains = ''symptom_remains''"
| "outcome_text A_partial = ''partial''"
| "outcome_text A_refused = ''refused''"
| "outcome_text A_rolled_back = ROLLED_BACK"
| "outcome_text A_failed = ''failed''"
| "outcome_text A_interrupted = ''interrupted''"

text \<open>\<open>_judge\<close>: the outcome, and whether the program was sent.\<close>

definition judge_act ::
    "dres \<Rightarrow> bool \<Rightarrow> heal_error + read_state \<Rightarrow> symptom \<Rightarrow> act_outcome \<times> bool" where
  "judge_act r committed recheck again =
     (if dr_outcome r = Skipped_drifted then (A_refused, False)
      else if dr_outcome r \<noteq> Deployed then
        (if \<not> was_sent r then (A_refused, False)
         else if dr_rolled r then (A_rolled_back, True) else (A_failed, True))
      else if dr_saved r = Some False then (A_partial, True)
      else if \<not> committed then (A_partial, True)
      else if recheck \<noteq> Inr Clean then (A_partial, True)
      else case (case dr_symptom r of Some y \<Rightarrow> y | None \<Rightarrow> again) of
             Sym_present \<Rightarrow> (A_symptom_remains, True)
           | Sym_unreadable \<Rightarrow> (A_partial, True)
           | _ \<Rightarrow> (A_healed, True))"

definition or_keep :: "(heal_error + ('a \<times> 'b)) \<Rightarrow> 'b \<Rightarrow> 'b" where
  "or_keep r x = (case r of Inl _ \<Rightarrow> x | Inr (_, y) \<Rightarrow> y)"

text \<open>The log after \<open>finish\<close>: the applied row, and the halt of a failed heal, in one \<open>try\<close>.\<close>

definition applied_log :: "'w act_sources \<Rightarrow> string \<Rightarrow> decision \<Rightarrow> epoch \<Rightarrow> act_outcome \<Rightarrow> log \<Rightarrow> log" where
  "applied_log src by d now out lg =
     (case record_applied (ac_exists src) (d_id d) (outcome_text out) by (ac_halt_id src) now lg of
        Inl _ \<Rightarrow> lg
      | Inr (_, lg') \<Rightarrow>
          if out = A_failed then or_keep (halt_network (ac_exists src) (ac_halt_id src) 14 now lg') lg'
          else lg')"

definition finish_act ::
    "'w act_sources \<Rightarrow> string \<Rightarrow> decision \<Rightarrow> epoch \<Rightarrow> act_outcome \<Rightarrow> bool \<Rightarrow> 'w act_state \<Rightarrow> 'w act_state" where
  "finish_act src by d now out sent s =
     s\<lparr>at_log := applied_log src by d now out (at_log s),
       at_store := or_keep (close_incident (ac_exists src) (d_incident d) (outcome_text out) now (at_store s))
                     (at_store s),
       at_steps := (case append_step (ac_exists src) (ac_keeps_act src)
                           (act_step (ac_step_id src) d [] (outcome_text out) sent) (at_steps s) of
                      Inl _ \<Rightarrow> at_steps s | Inr sl \<Rightarrow> sl)\<rparr>"

section \<open>The act\<close>

definition STEPS_BEFORE_APPLY :: "(string \<times> string) list" where
  "STEPS_BEFORE_APPLY =
     [(''take'', ''ok''), (''stops'', ''ok''), (''read'', ''ok''), (''plan'', ''ok''), (''authorise'', ''ok''),
      (''apply'', ''running'')]"

text \<open>The apply's device: the heal's lines, the heal's removals, each with the policy's words as its
  reason.\<close>

definition heal_one ::
    "heal_env \<Rightarrow> 'w act_sources \<Rightarrow> decision \<Rightarrow> classified \<Rightarrow> heal_program \<Rightarrow> 'w apply_env" where
  "heal_one env src d c prog =
     (let ap = ac_apply src; ds = ac_src src; pe = he_program env;
          full = deploy_program_of pe (hp_fragment prog) (pe_stored pe (ds_read ds)) (cl_removal_ids c) (ds_mgmt_ip ds)
      in ap\<lparr>ap_one := (ap_one ap)
             \<lparr>on_source := Some (hp_fragment prog), on_program := pe, on_selected := cl_removal_ids c,
              on_mgmt_ip := ds_mgmt_ip ds,
              on_authorise := map (\<lambda>p. (on_key (ap_one ap) p, ''the policy '' @ fst (d_policy d))) (dp_removed full)\<rparr>\<rparr>)"

definition apply_decision ::
    "heal_env \<Rightarrow> 'w act_sources \<Rightarrow> decision \<Rightarrow> epoch \<Rightarrow> 'w act_state
     \<Rightarrow> (heal_error + (act_outcome \<times> bool)) \<times> 'w act_state" where
  "apply_decision env src d now s =
     (let refused = (Inr (A_refused, False), finish_act src ''heal to intent'' d now A_refused False s) in
      case act_checked env src (at_store s) (at_log s) d now of
        Inl _ \<Rightarrow> refused
      | Inr (c, prog) \<Rightarrow>
     (case append_step (ac_exists src) (ac_keeps_started src)
             (started_step (ac_step_id src) d STEPS_BEFORE_APPLY (hp_hash prog)) (at_steps s) of
        Inl _ \<Rightarrow> refused
      | Inr sl \<Rightarrow>
     (case apply_one_device (heal_one env src d c prog) (d_device d)
             (pe_stored (he_program env) (ds_read (ac_src src))) (en_capture_hash (ac_plan src))
             (en_command_hash (ac_plan src)) (heal_check env src (cl_units c)) (at_world s) of
        (Inl e, w) \<Rightarrow> (Inl e, s\<lparr>at_steps := sl, at_world := w\<rparr>)
      | (Inr (r, committed), w) \<Rightarrow>
          (let (out, sent) = judge_act r committed (ac_recheck src) (ac_symptom src)
           in (Inr (out, sent), finish_act src ''heal to intent'' d now out sent (s\<lparr>at_steps := sl, at_world := w\<rparr>))))))"

text \<open>\<open>_guarded\<close>: an act that raises leaves a row that says so.\<close>

definition guarded_act ::
    "heal_env \<Rightarrow> 'w act_sources \<Rightarrow> bool \<Rightarrow> decision \<Rightarrow> epoch \<Rightarrow> 'w act_state
     \<Rightarrow> (heal_error + (act_outcome \<times> bool)) \<times> 'w act_state" where
  "guarded_act env src keeps_raised d now s =
     (case apply_decision env src d now s of
        (Inr x, s') \<Rightarrow> (Inr x, s')
      | (Inl e, s') \<Rightarrow>
          (Inl e, s'\<lparr>at_steps := (case append_step (ac_exists src) keeps_raised
                                        (raised_step (ac_step_id src) d) (at_steps s') of
                                   Inl _ \<Rightarrow> at_steps s' | Inr sl \<Rightarrow> sl)\<rparr>))"


section \<open>The apply of one device\<close>

lemma unaccounted_none:
  "\<forall>d \<in> set (map (\<lambda>e. ar_device (fst e)) (bp_deploy p) @ map dr_device (bp_skipped p)). d \<in> dr_device ` set rs
     \<Longrightarrow> unaccounted p rs = []"
  by (auto simp: unaccounted_def filter_empty_conv)

lemma apply_one_device_cases:
  assumes "apply_one_device ap d captured ch mh check_it w = (res, w2)"
  shows "(\<exists>out st. out \<noteq> Deployed \<and> res = Inr (plain_result d out st, False) \<and> w2 = w)
    \<or> (\<exists>r0 ctx0 w1 r ctx. deploy_one (ap_one ap) d captured w = (r0, ctx0, w1)
         \<and> settle_one (on_stages (ap_one ap)) (ap_save ap) check_it r0 ctx0 = (r, ctx)
         \<and> w2 = (case ctx of None \<Rightarrow> w1 | Some c \<Rightarrow> ru_world c)
         \<and> res = bind_result (if dr_outcome r = Deployed \<and> dr_pending r \<noteq> [] then ap_commit ap (dr_pending r)
                              else Inr False) (\<lambda>b. Inr (r, b)))"
    (is "?refused \<or> ?ran")
proof -
  let ?a = "\<lparr>ar_device = d, ar_deployable = ap_deployable ap\<rparr>"
  let ?p1 = "plan_one (ap_text_hash ap) (\<lambda>_. Some ch) (\<lambda>_. Some captured)"
  let ?one = "\<lambda>e s. case deploy_one (ap_one ap) (ar_device (fst e)) (snd e) (snd s) of (r, c, w') \<Rightarrow> (r, (c, w'))"
  show ?thesis
  proof (cases "res = Inr (plain_result d Refused_outcome '''', False) \<and> w2 = w")
    case True
    then show ?thesis by blast
  next
    case ran: False
    then have run: "(case run_batch ?one 1 (plan_batch ?p1 [?a]) (None, w) of (rows, (ctx, w1)) \<Rightarrow>
        case settle_one (on_stages (ap_one ap)) (ap_save ap) check_it (hd rows) ctx of (r, ctx) \<Rightarrow>
          (bind_result (if dr_outcome r = Deployed \<and> dr_pending r \<noteq> [] then ap_commit ap (dr_pending r)
             else Inr False) (\<lambda>b. Inr (r, b)), case ctx of None \<Rightarrow> w1 | Some c \<Rightarrow> ru_world c)) = (res, w2)"
      using assms by (auto simp: apply_one_device_def Let_def split: if_splits sum.splits prod.splits)
    show ?thesis
    proof (cases "?p1 ?a")
      case (Inl r)
      then have r: "\<exists>out. out \<noteq> Deployed \<and> r = plain_result d out ''''"
        by (auto simp: plan_one_def Let_def split: if_splits)
      then have "run_batch ?one 1 (plan_batch ?p1 [?a]) (None, w) = ([r], (None, w))"
        by (auto simp: run_batch_def Inl Let_def unaccounted_def)
      with run r show ?thesis by (auto simp: settle_one_def plain_result_def bind_result_def)
    next
      case (Inr e)
      then have e: "e = (?a, captured)" by (auto simp: plan_one_def Let_def split: if_splits)
      obtain r0 ctx0 w1 where d: "deploy_one (ap_one ap) d captured w = (r0, ctx0, w1)" by (metis prod_cases3)
      have dev: "dr_device r0 = d" using deploy_one_device [of "ap_one ap" d captured w] d by simp
      have "run_batch ?one 1 (plan_batch ?p1 [?a]) (None, w) = ([r0], (ctx0, w1))"
        by (simp add: run_batch_def Inr e d dev Let_def new_breaker_def unaccounted_def batch_loop.simps(2))
      with run d show ?thesis by (auto split: prod.splits)
    qed
  qed
qed

section \<open>What is sent\<close>

lemma heal_one_program:
  "one_program (ap_one (heal_one env src d c (heal_program_of env (ac_src src) c))) prepared
     (pe_stored (he_program env) (ds_read (ac_src src)))
   = deploy_program_of (he_program env) (hp_fragment (heal_program_of env (ac_src src) c))
       (pe_stored (he_program env) (ds_read (ac_src src))) (cl_removal_ids c) (ds_mgmt_ip (ac_src src))"
  by (simp add: one_program_def heal_one_def Let_def)

lemma heal_program_commands:
  "hp_commands (heal_program_of env ds c)
   = dp_commands (deploy_program_of (he_program env) (hp_fragment (heal_program_of env ds c))
       (pe_stored (he_program env) (ds_read ds)) (cl_removal_ids c) (ds_mgmt_ip ds))"
  by (simp add: heal_program_of_def program_of_def Let_def)

lemma act_checked_InrD:
  assumes "act_checked env src st lg d now = Inr (c, prog)"
  shows "\<not> act_stops src lg d now" "ds_read (ac_src src) \<noteq> []"
    "golden_state_of (ac_src src) = G_at_intent" "ds_intended (ac_src src) \<noteq> []"
    "c = act_classified env (ac_src src) (incident_of st (d_incident d))"
    "prog = heal_program_of env (ac_src src) c" "hp_hash prog = d_program_hash d"
    "hp_refused prog = []" "cl_blocked c = None" "cl_tier c = 1"
    "list_all (\<lambda>l. \<not> ac_dangerous src l) (hp_commands prog)"
    "\<not> plan_refuses (ac_plan src) (hp_commands prog)"
  using assms by (auto simp: act_checked_def Let_def list_all_iff split: if_splits)

lemma settle_one_None: "settle_one sg sv check_it r None = (r, None)"
  by (simp add: settle_one_def)

lemma finish_act_fields [simp]:
  "at_world (finish_act src by d now out sent s) = at_world s"
  "at_log (finish_act src by d now out sent s) = applied_log src by d now out (at_log s)"
  by (simp_all add: finish_act_def)

lemma finish_act_may_have_sent:
  "may_have_sent (of_decision (at_steps s) i) \<Longrightarrow>
   may_have_sent (of_decision (at_steps (finish_act src by d now out sent s)) i)"
  by (auto simp: finish_act_def append_step_Inr may_have_sent_mono split: sum.splits)

text \<open>C2: nothing is sent unless it is what was decided: if an act changed anything beyond Mercury's own
  records, then no stop applied at that moment (the policy in force is AUTO on a lab network and the
  one decided under, by a person, allowing every kind; no halt; no planned work), the program
  recomputed from the new read has the decision's very hash, refuses no unit, holds no dangerous
  line and is the plan's, line by line, and is what the apply's own checks passed; and the step log
  says that it may have been sent.\<close>

theorem sent_only_what_was_decided:
  assumes "apply_decision env src d now s = (res, s')" and "at_world s' \<noteq> at_world s"
  defines "c \<equiv> act_classified env (ac_src src) (incident_of (at_store s) (d_incident d))"
  defines "prog \<equiv> heal_program_of env (ac_src src) c"
  defines "captured \<equiv> pe_stored (he_program env) (ds_read (ac_src src))"
  shows "\<not> act_stops src (at_log s) d now \<and> hp_hash prog = d_program_hash d \<and> hp_refused prog = []
    \<and> list_all (\<lambda>l. \<not> ac_dangerous src l) (hp_commands prog)
    \<and> \<not> plan_refuses (ac_plan src) (hp_commands prog)
    \<and> (\<exists>prepared. passed_checks (ap_one (heal_one env src d c prog)) prepared captured
          \<and> dp_commands (one_program (ap_one (heal_one env src d c prog)) prepared captured) = hp_commands prog)
    \<and> may_have_sent (of_decision (at_steps s') (d_id d))"
proof -
  from assms(1,2) obtain c' prog' where k: "act_checked env src (at_store s) (at_log s) d now = Inr (c', prog')"
    by (auto simp: apply_decision_def Let_def split: sum.splits)
  note ck = act_checked_InrD [OF k]
  have cp: "c' = c" "prog' = prog" using ck(5,6) by (simp_all add: c_def prog_def)
  from assms(1,2) k obtain sl where sl: "append_step (ac_exists src) (ac_keeps_started src)
      (started_step (ac_step_id src) d STEPS_BEFORE_APPLY (hp_hash prog)) (at_steps s) = Inr sl"
    by (auto simp: apply_decision_def Let_def cp split: sum.splits)
  obtain ar w where a: "apply_one_device (heal_one env src d c prog) (d_device d) captured
      (en_capture_hash (ac_plan src)) (en_command_hash (ac_plan src)) (heal_check env src (cl_units c))
      (at_world s) = (ar, w)" by fastforce
  have w: "at_world s' = w" and st: "may_have_sent (of_decision sl (d_id d)) \<Longrightarrow>
      may_have_sent (of_decision (at_steps s') (d_id d))"
    using assms(1) k sl a
    by (auto simp: apply_decision_def Let_def cp captured_def finish_act_may_have_sent split: sum.splits prod.splits)
  have "may_have_sent (of_decision sl (d_id d))"
    using sl by (auto simp: append_step_Inr started_step_def step_for_def intro: started_may_have_sent)
  then have log: "may_have_sent (of_decision (at_steps s') (d_id d))" by (rule st)
  let ?one = "ap_one (heal_one env src d c prog)"
  from apply_one_device_cases [OF a] w assms(2) obtain r0 ctx0 w1 r ctx where
    d: "deploy_one ?one (d_device d) captured (at_world s) = (r0, ctx0, w1)"
    and se: "settle_one (on_stages ?one) (ap_save (heal_one env src d c prog)) (heal_check env src (cl_units c)) r0 ctx0 = (r, ctx)"
    and w2: "w = (case ctx of None \<Rightarrow> w1 | Some c \<Rightarrow> ru_world c)" by metis
  have "w1 \<noteq> at_world s \<or> was_sent r0 \<or> ctx0 \<noteq> None"
    using se w2 w assms(2) by (cases ctx0) (auto simp: settle_one_None)
  from nothing_unchecked_is_sent [OF d this] obtain prepared where "passed_checks ?one prepared captured" by blast
  moreover have "dp_commands (one_program ?one prepared captured) = hp_commands prog"
    unfolding prog_def captured_def heal_one_program heal_program_commands ..
  ultimately show ?thesis using ck log unfolding cp by blast
qed


section \<open>What healed means\<close>

lemma deploy_one_kept:
  "deploy_one env d captured w = (r, ctx, w') \<Longrightarrow> dr_symptom r = None \<and> (dr_commands r \<noteq> [] \<longrightarrow> ctx \<noteq> None)"
  by (auto simp: deploy_one_def run_result_def plain_result_def Let_def
      split: sum.splits run_end.splits prod.splits if_splits)

lemma settle_heal_check:
  assumes "settle_one sg sv (heal_check env src us) r0 ctx0 = (r, ctx)" and "dr_outcome r = Deployed"
    and "dr_symptom r0 = None"
  shows "dr_commands r = dr_commands r0 \<and> (dr_symptom r = None \<or> dr_symptom r = Some (ac_symptom src))
    \<and> (ctx0 \<noteq> None \<longrightarrow> (\<exists>post rest. dr_pending r = post # rest \<and> post \<noteq> [] \<and> units_left env us post = []
          \<and> (feature_removed us \<longrightarrow> ac_symptom src \<noteq> Sym_present)))"
proof (cases ctx0)
  case None
  with assms show ?thesis by (simp add: settle_one_None)
next
  case (Some c)
  have dep: "dr_outcome r0 = Deployed" using assms(1,2) Some by (auto simp: settle_one_def split: if_splits)
  have s: "settle_one sg sv (heal_check env src us) r0 (Some c) = (r, ctx)" using assms(1) Some by simp
  from check_after_verify_decides [OF s dep] assms(2) obtain v where
    v: "heal_check env src us r0 c = (Inr v, ru_world c)" "\<not> vd_rollback v"
    by (auto simp: heal_check_def Let_def split: if_splits)
  then have h: "\<exists>post rest. dr_pending r0 = post # rest \<and> post \<noteq> [] \<and> units_left env us post = []
          \<and> (feature_removed us \<longrightarrow> ac_symptom src \<noteq> Sym_present)"
    "vd_symptom v = None \<or> vd_symptom v = Some (ac_symptom src)"
    by (auto simp: heal_check_def Let_def split: if_splits list.splits)
  have "dr_commands r = dr_commands r0 \<and> dr_pending r = dr_pending r0
      \<and> dr_symptom r = (case vd_symptom v of None \<Rightarrow> dr_symptom r0 | Some y \<Rightarrow> Some y)"
    using s dep v by (cases "vd_symptom v") (auto simp: settle_one_def split: prod.splits)
  with h assms(3) show ?thesis by auto
qed

lemma judge_healedD:
  assumes "judge_act r committed recheck again = (A_healed, sent)"
  shows "dr_outcome r = Deployed \<and> dr_saved r \<noteq> Some False \<and> committed \<and> recheck = Inr Clean
    \<and> (case dr_symptom r of Some y \<Rightarrow> y | None \<Rightarrow> again) \<notin> {Sym_present, Sym_unreadable} \<and> sent"
  using assms by (auto simp: judge_act_def split: if_splits symptom.splits)

text \<open>What the act's apply answers, when it answers.\<close>

lemma apply_decision_sentD:
  assumes "apply_decision env src d now s = (Inr (out, True), s')"
  shows "\<exists>c prog sl r committed w.
      act_checked env src (at_store s) (at_log s) d now = Inr (c, prog)
    \<and> append_step (ac_exists src) (ac_keeps_started src)
        (started_step (ac_step_id src) d STEPS_BEFORE_APPLY (hp_hash prog)) (at_steps s) = Inr sl
    \<and> apply_one_device (heal_one env src d c prog) (d_device d)
        (pe_stored (he_program env) (ds_read (ac_src src))) (en_capture_hash (ac_plan src))
        (en_command_hash (ac_plan src)) (heal_check env src (cl_units c)) (at_world s) = (Inr (r, committed), w)
    \<and> judge_act r committed (ac_recheck src) (ac_symptom src) = (out, True)
    \<and> s' = finish_act src ''heal to intent'' d now out True (s\<lparr>at_steps := sl, at_world := w\<rparr>)"
proof -
  from assms obtain c prog where k: "act_checked env src (at_store s) (at_log s) d now = Inr (c, prog)"
    by (auto simp: apply_decision_def Let_def split: sum.splits)
  from assms k obtain sl where sl: "append_step (ac_exists src) (ac_keeps_started src)
      (started_step (ac_step_id src) d STEPS_BEFORE_APPLY (hp_hash prog)) (at_steps s) = Inr sl"
    by (auto simp: apply_decision_def Let_def split: sum.splits)
  obtain ar w where a: "apply_one_device (heal_one env src d c prog) (d_device d)
      (pe_stored (he_program env) (ds_read (ac_src src))) (en_capture_hash (ac_plan src))
      (en_command_hash (ac_plan src)) (heal_check env src (cl_units c)) (at_world s) = (ar, w)" by fastforce
  from assms k sl a obtain r committed where "ar = Inr (r, committed)"
    by (auto simp: apply_decision_def Let_def split: sum.splits)
  with assms k sl a show ?thesis
    by (auto simp: apply_decision_def Let_def split: prod.splits)
qed

text \<open>C5: a heal recorded healed is a heal that worked: its device's run was verified, its save to
  startup was not refused, its golden was committed, the device read again is at that golden, and
  its symptom is neither there nor unreadable; and when anything was sent, on the read after the
  change every unit healed is at intent.\<close>

theorem healed_is_verified:
  assumes "apply_decision env src d now s = (Inr (A_healed, True), s')"
  defines "c \<equiv> act_classified env (ac_src src) (incident_of (at_store s) (d_incident d))"
  defines "prog \<equiv> heal_program_of env (ac_src src) c"
  shows "\<exists>r. apply_one_device (heal_one env src d c prog) (d_device d)
        (pe_stored (he_program env) (ds_read (ac_src src))) (en_capture_hash (ac_plan src))
        (en_command_hash (ac_plan src)) (heal_check env src (cl_units c)) (at_world s) = (Inr (r, True), at_world s')
    \<and> dr_outcome r = Deployed \<and> dr_saved r \<noteq> Some False \<and> ac_recheck src = Inr Clean
    \<and> ac_symptom src \<notin> {Sym_present, Sym_unreadable}
    \<and> (dr_commands r = [] \<or> (\<exists>post rest. dr_pending r = post # rest \<and> post \<noteq> []
          \<and> units_left env (cl_units c) post = []))"
proof -
  from apply_decision_sentD [OF assms(1)] obtain c' prog' sl r committed w where
    k: "act_checked env src (at_store s) (at_log s) d now = Inr (c', prog')"
    and a: "apply_one_device (heal_one env src d c' prog') (d_device d)
        (pe_stored (he_program env) (ds_read (ac_src src))) (en_capture_hash (ac_plan src))
        (en_command_hash (ac_plan src)) (heal_check env src (cl_units c')) (at_world s) = (Inr (r, committed), w)"
    and j: "judge_act r committed (ac_recheck src) (ac_symptom src) = (A_healed, True)"
    and s': "s' = finish_act src ''heal to intent'' d now A_healed True (s\<lparr>at_steps := sl, at_world := w\<rparr>)" by blast
  have cp: "c' = c" "prog' = prog" using act_checked_InrD(5,6) [OF k] by (simp_all add: c_def prog_def)
  note jd = judge_healedD [OF j]
  have "Inr (r, committed) \<noteq> Inr (plain_result (d_device d) out st, False)" for out st
    using jd by auto
  with apply_one_device_cases [OF a [unfolded cp]] obtain r0 ctx0 w1 r1 ctx where
    d: "deploy_one (ap_one (heal_one env src d c prog)) (d_device d)
          (pe_stored (he_program env) (ds_read (ac_src src))) (at_world s) = (r0, ctx0, w1)"
    and se: "settle_one (on_stages (ap_one (heal_one env src d c prog))) (ap_save (heal_one env src d c prog))
          (heal_check env src (cl_units c)) r0 ctx0 = (r1, ctx)"
    and res: "Inr (r, committed) = bind_result (if dr_outcome r1 = Deployed \<and> dr_pending r1 \<noteq> []
          then ap_commit (heal_one env src d c prog) (dr_pending r1) else Inr False) (\<lambda>b. Inr (r1, b))" by blast
  have r: "r1 = r" using res by (auto simp: bind_result_def split: sum.splits if_splits)
  note kept = deploy_one_kept [OF d]
  from settle_heal_check [OF se [unfolded r]] jd kept have
    u: "dr_commands r = [] \<or> (\<exists>post rest. dr_pending r = post # rest \<and> post \<noteq> [] \<and> units_left env (cl_units c) post = [])"
    and y: "dr_symptom r = None \<or> dr_symptom r = Some (ac_symptom src)" by auto
  have "ac_symptom src \<notin> {Sym_present, Sym_unreadable}" using jd y by (auto split: option.splits)
  with a jd u show ?thesis unfolding cp s' by (intro exI [of _ r]) simp
qed

section \<open>Sent, and not shown right\<close>

text \<open>C6: a heal that was sent and did not end verified never leaves the network free to heal on: when
  its outcome is rolled back, or failed (sent, and nothing rolled back), the network is halted by
  guard 14 once it is recorded, and stays so until a person lifts it.\<close>

theorem sent_and_undone_halts:
  assumes "apply_decision env src d now s = (Inr (out, True), s')" and "out \<in> {A_rolled_back, A_failed}"
    and "rows_of (at_log s) = Inr rs" and "log_ok rs" and "v \<in> set (decisions rs)" and "d_id v = d_id d"
  shows "\<exists>rs' h. rows_of (at_log s') = Inr rs' \<and> halted rs' = Some h \<and> h_guard h = 14 \<and> h_id h = ac_halt_id src"
proof -
  from apply_decision_sentD [OF assms(1)] obtain sl w where
    s': "s' = finish_act src ''heal to intent'' d now out True (s\<lparr>at_steps := sl, at_world := w\<rparr>)"
    and ex: "ac_exists src" by (auto simp: append_step_Inr)
  let ?rec = "record_applied True (d_id d) (outcome_text out) ''heal to intent'' (ac_halt_id src) now (at_log s)"
  from record_applied_succeeds [OF assms(3-5)] assms(6) obtain x lg where
    a: "?rec = Inr (x, lg)" by metis
  show ?thesis
  proof (cases "out = A_failed")
    case True
    have rows: "rows_of lg = Inr (rs @ [Applied_row (d_id d) ''failed'' ''heal to intent'' (iso now)])"
      using record_applied_rows [OF a assms(3)] True by (simp add: ROLLED_BACK_def)
    let ?h = "\<lparr>h_id = ac_halt_id src, h_guard = 14, h_at = iso now, h_epoch = now\<rparr>"
    have h: "append_row True (Halt_row ?h) lg = Inr (append_to [Halt_row ?h] lg)" by (simp add: append_row_def)
    have "at_log s' = append_to [Halt_row ?h] lg"
      using a True by (simp add: s' applied_log_def ex halt_network_def Let_def h bind_result_def or_keep_def)
    with append_row_Inr [OF h rows] show ?thesis by (simp add: halted_def halted_from_append)
  next
    case False
    then have out: "outcome_text out = ROLLED_BACK" using assms(2) by auto
    have "at_log s' = lg" using a False by (simp add: s' applied_log_def ex)
    with rolled_back_halts [OF a [unfolded out] assms(3)] show ?thesis by simp
  qed
qed


section \<open>A run that raises\<close>

text \<open>C28: a run that raises anything but a stage's own failure is said to have sent nothing, whatever it
  had done: nothing is rolled back, the device keeps what the run made of it, the result does not
  count as sent, and the act's outcome is refused, which halts nothing.\<close>

theorem raised_run_is_said_unsent:
  assumes "deploy_one one d captured w = (r, Some st, w')"
    and "run_pipeline (on_stages one) w = (Raised_out, st)"
  shows "w' = ru_world st \<and> \<not> ru_rolled st \<and> \<not> was_sent r
    \<and> judge_act r committed recheck again = (A_refused, False)"
proof -
  from assms(2) obtain t where t: "run_stages (on_stages one) RUN_STAGES (ru_next (fresh_run w)) (fresh_run w) = (Raised_out, t)"
    and st: "st = t\<lparr>ru_world := sg_audit (on_stages one) (ru_world t)\<rparr>"
    by (auto simp: run_pipeline_def fresh_run_def split: prod.splits)
  have "\<not> ru_rolled st" using raised_is_a_handlers [OF t] by (auto simp: st fresh_run_def)
  moreover have "r = plain_result d Failed_outcome ''pipeline'' \<and> w' = ru_world st"
    using assms by (auto simp: deploy_one_def Let_def split: sum.splits if_splits)
  ultimately show ?thesis by (simp add: was_sent_def judge_act_def plain_result_def)
qed

section \<open>A heal, applied\<close>

definition ex_stages_of :: "stage_answer \<Rightarrow> bool stages" where
  "ex_stages_of a = ex_stages\<lparr>sg_handler := (\<lambda>n w. if n = ''deploy'' then (Done, True)
                                  else if n = ''verify'' then (a, w) else (Done, w))\<rparr>"

definition ex_apply :: "stage_answer \<Rightarrow> bool apply_env" where
  "ex_apply a = \<lparr>ap_built = True, ap_prepared = Inr [''interface Gi1'', '' shutdown''],
     ap_one = ex_one_env\<lparr>on_stages := ex_stages_of a, on_pending := (\<lambda>_. [[''interface Gi1'', '' shutdown'']])\<rparr>,
     ap_authorised = (\<lambda>_. True), ap_fingerprint = (\<lambda>_ _. ''cmd''), ap_text_hash = (\<lambda>_. ''cap''),
     ap_busy = False, ap_deployable = True, ap_save = (\<lambda>w. (True, w)), ap_commit = (\<lambda>_. Inr True)\<rparr>"

definition ex_c :: classified where "ex_c = act_classified ex_env_heal ex_src (Some ex_claimed)"
definition ex_prog :: heal_program where "ex_prog = heal_program_of ex_env_heal ex_src ex_c"

definition ex_act :: "stage_answer \<Rightarrow> bool act_sources" where
  "ex_act a = \<lparr>ac_exists = True, ac_mode = ex_md, ac_stage = Stage ''lab'', ac_src = ex_src,
     ac_dangerous = (\<lambda>_. False),
     ac_plan = \<lparr>en_refused = False, en_deployable = True, en_blocking = False, en_commands = hp_commands ex_prog,
                en_authorised = True, en_reach = None, en_capture_hash = ''cap'', en_command_hash = ''cmd''\<rparr>,
     ac_apply = ex_apply a, ac_intent_read = True, ac_symptom = Sym_none, ac_recheck = Inr Clean,
     ac_step_id = ''hs1'', ac_halt_id = ''hh1'', ac_keeps_started = True, ac_keeps_act = True\<rparr>"

definition ex_heal :: decision where
  "ex_heal = (ex_decision O_heal)\<lparr>d_id := ''hd1'', d_incident := ''i1'', d_device := ''r1'',
     d_program_hash := hp_hash ex_prog, d_policy := (''auto'', ''ann'')\<rparr>"

definition ex_rows :: "log_row list" where "ex_rows = [Decision_row ex_heal, Taken_row ''hd1'' ''heal'' 200]"

definition ex_before :: "bool act_state" where
  "ex_before = \<lparr>at_store = Stored [ex_claimed], at_log = Rows ex_rows, at_steps = No_steps, at_world = False\<rparr>"

lemma ex_c_eq: "ex_c = classified_of ex_env_heal ex_src ex_claimed"
  by (simp add: ex_c_def act_classified_def classified_of_def Let_def)

lemma ex_incident: "incident_of (at_store ex_before) (d_incident ex_heal) = Some ex_claimed"
  by (simp add: incident_of_def ex_before_def ex_heal_def)

lemma ex_checked: "act_checked ex_env_heal (ex_act a) (at_store ex_before) (at_log ex_before) ex_heal 10000 = Inr (ex_c, ex_prog)"
proof -
  have 1: "\<not> act_stops (ex_act a) (at_log ex_before) ex_heal 10000"
    by (simp add: act_stops_def Let_def ex_act_def ex_md_def is_lab_def ex_heal_def ex_decision_def ex_before_def
        ex_rows_def halted_def g3_planned_def ex_src_def)
  have 2: "golden_state_of ex_src = G_at_intent" "golden_text ex_src \<noteq> []" "ds_read ex_src \<noteq> []" "ds_intended ex_src \<noteq> []"
    by (simp_all add: golden_state_of_def golden_text_def ex_src_def)
  have 3: "hp_refused ex_prog = []" "cl_tier ex_c = 1" "cl_blocked ex_c = None"
    using ex_classified(4-6) by (simp_all add: ex_prog_def ex_c_eq)
  have 4: "\<not> plan_refuses (ac_plan (ex_act a)) (hp_commands ex_prog)"
    by (simp add: plan_refuses_def ex_act_def)
  have 5: "ac_src (ex_act a) = ex_src" "ac_dangerous (ex_act a) = (\<lambda>_. False)" "d_program_hash ex_heal = hp_hash ex_prog"
    by (simp_all add: ex_act_def ex_heal_def)
  show ?thesis
    by (simp add: act_checked_def Let_def 1 2 3 4 5 ex_incident flip: ex_c_def ex_prog_def)
qed


definition ex_full :: deploy_program where
  "ex_full = \<lparr>dp_merge = [''interface Gi1'', '' shutdown'', ''exit''], dp_removals = [],
     dp_commands = [''interface Gi1'', '' shutdown'', ''exit''], dp_removed = [], dp_refused = [], dp_ids = []\<rparr>"

lemma ex_units_lit: "cl_removal_ids ex_c = []" "cl_units ex_c =
   [\<lparr>u_op = Op_add, u_chain = [''interface Gi1''], u_stanza = False, u_feature = [''shutdown''],
     u_add = [([''interface Gi1''], '' shutdown'')], u_remove = [], u_kind = K_missing_line, u_tier = 1,
     u_blocked = None, u_ids = []\<rparr>]"
  by code_simp+

lemma ex_fragment: "hp_fragment ex_prog = [''interface Gi1'', '' shutdown'']"
  by code_simp

lemma ex_program_lit:
  "deploy_program_of ex_program_env [''interface Gi1'', '' shutdown''] [''interface Gi1''] [] ''10.0.0.1'' = ex_full"
  "rc_refused (recreate_plan (pe_recreate ex_program_env) (e_canon (pe_removal ex_program_env)) (pe_held ex_program_env)
      [''interface Gi1'', '' shutdown''] [''interface Gi1'']) = []"
  by code_simp+

text \<open>The device the heal applies to, and its run.\<close>

definition ex_one :: "stage_answer \<Rightarrow> bool one_env" where
  "ex_one a = ap_one (heal_one ex_env_heal (ex_act a) ex_heal ex_c ex_prog)"

lemma ex_one_program:
  "one_program (ex_one a) prepared [''interface Gi1''] = ex_full"
  "rc_refused (recreate_of (ex_one a) prepared [''interface Gi1'']) = []"
  by (simp_all add: ex_one_def heal_one_def Let_def one_program_def recreate_of_def ex_fragment ex_units_lit
      ex_act_def ex_env_heal_def ex_src_def ex_program_lit)

lemma ex_exit: "strip ''exit'' = ''exit''"
  by code_simp

lemma ex_one_fields:
  "on_prepared (ex_one a) = Inr [''interface Gi1'', '' shutdown'']" "on_declared_ok (ex_one a)"
  "on_stages (ex_one a) = ex_stages_of a" "on_drifted (ex_one a) w = False"
  "on_pending (ex_one a) w = [[''interface Gi1'', '' shutdown'']]" "on_saved (ex_one a) w = None"
  "on_verify (ex_one a) w = None" "unreasoned (ex_one a) [] = []"
  "merge_only (e_canon (pe_removal (on_program (ex_one a)))) (dp_merge ex_full)
     (on_intent_lines (ex_one a) [''interface Gi1'', '' shutdown''])"
  by (simp_all add: ex_one_def heal_one_def Let_def ex_act_def ex_apply_def ex_one_env_def unreasoned_def
      merge_only_def ex_full_def ex_env_heal_def ex_program_env_def CONTROL_WORDS_def ex_exit)

lemma ex_deployed:
  "deploy_one (ex_one a) ''r1'' [''interface Gi1''] False =
     (case run_pipeline (ex_stages_of a) False of
        (Raised_out, s) \<Rightarrow> (plain_result ''r1'' Failed_outcome ''pipeline'', Some s, ru_world s)
      | (Returned, s) \<Rightarrow> (run_result (ex_one a) ''r1'' (dp_commands ex_full) s, Some s, ru_world s))"
proof -
  have "dp_refused ex_full = []" "dp_removed ex_full = []" "dp_commands ex_full \<noteq> []" by (simp_all add: ex_full_def)
  then show ?thesis by (simp add: deploy_one_def Let_def ex_one_fields ex_one_program)
qed

lemma ex_runs:
  "run_pipeline (ex_stages_of Done) False = (Returned,
     \<lparr>ru_completed = butlast STAGE_NAMES, ru_failed = [], ru_warnings = [], ru_error = [], ru_status = Success,
      ru_next = 10, ru_rolled = False, ru_undone = [], ru_world = True\<rparr>)"
  "run_pipeline (ex_stages_of (Stage_failed e)) False = (Returned,
     \<lparr>ru_completed = take 7 STAGE_NAMES, ru_failed = [''verify''], ru_warnings = [], ru_error = e,
      ru_status = Rolled_back, ru_next = 7, ru_rolled = True, ru_undone = [Restored], ru_world = True\<rparr>)"
  "run_pipeline (ex_stages_of (Other_raised e)) False = (Raised_out,
     \<lparr>ru_completed = take 7 STAGE_NAMES, ru_failed = [], ru_warnings = [], ru_error = [],
      ru_status = Pending, ru_next = 7, ru_rolled = False, ru_undone = [], ru_world = True\<rparr>)"
  by code_simp+

text \<open>The apply of it.\<close>

definition ex_applied :: "stage_answer \<Rightarrow> (heal_error + (dres \<times> bool)) \<times> bool" where
  "ex_applied a = apply_one_device (heal_one ex_env_heal (ex_act a) ex_heal ex_c ex_prog) (d_device ex_heal)
     (pe_stored (he_program ex_env_heal) (ds_read (ac_src (ex_act a)))) (en_capture_hash (ac_plan (ex_act a)))
     (en_command_hash (ac_plan (ex_act a))) (heal_check ex_env_heal (ex_act a) (cl_units ex_c)) (at_world ex_before)"

lemma ex_inputs:
  "d_device ex_heal = ''r1''" "pe_stored (he_program ex_env_heal) (ds_read (ac_src (ex_act a))) = [''interface Gi1'']"
  "en_capture_hash (ac_plan (ex_act a)) = ''cap''" "en_command_hash (ac_plan (ex_act a)) = ''cmd''"
  "\<not> at_world ex_before"
proof -
  have "pe_stored (he_program ex_env_heal) (ds_read ex_src) = [''interface Gi1'']" by code_simp
  then show "pe_stored (he_program ex_env_heal) (ds_read (ac_src (ex_act a))) = [''interface Gi1'']"
    by (simp add: ex_act_def)
qed (simp_all add: ex_heal_def ex_act_def ex_before_def)

lemma ex_apply_fields:
  "ap_built (heal_one ex_env_heal (ex_act a) ex_heal ex_c ex_prog)"
  "ap_prepared (heal_one ex_env_heal (ex_act a) ex_heal ex_c ex_prog) = Inr [''interface Gi1'', '' shutdown'']"
  "ap_authorised (heal_one ex_env_heal (ex_act a) ex_heal ex_c ex_prog) l"
  "ap_fingerprint (heal_one ex_env_heal (ex_act a) ex_heal ex_c ex_prog) l i = ''cmd''"
  "ap_text_hash (heal_one ex_env_heal (ex_act a) ex_heal ex_c ex_prog) l = ''cap''"
  "\<not> ap_busy (heal_one ex_env_heal (ex_act a) ex_heal ex_c ex_prog)"
  "ap_deployable (heal_one ex_env_heal (ex_act a) ex_heal ex_c ex_prog)"
  "ap_save (heal_one ex_env_heal (ex_act a) ex_heal ex_c ex_prog) w = (True, w)"
  "ap_commit (heal_one ex_env_heal (ex_act a) ex_heal ex_c ex_prog) x = Inr True"
  "ap_one (heal_one ex_env_heal (ex_act a) ex_heal ex_c ex_prog) = ex_one a"
  by (simp_all add: heal_one_def Let_def ex_act_def ex_apply_def ex_one_def)

lemma ex_applied:
  "ex_applied a = (case run_pipeline (ex_stages_of a) False of
     (e, s) \<Rightarrow> (case settle_one (ex_stages_of a) (\<lambda>w. (True, w)) (heal_check ex_env_heal (ex_act a) (cl_units ex_c))
         (if e = Raised_out then plain_result ''r1'' Failed_outcome ''pipeline''
          else run_result (ex_one a) ''r1'' (dp_commands ex_full) s) (Some s) of
       (r, ctx) \<Rightarrow> (Inr (r, dr_outcome r = Deployed \<and> dr_pending r \<noteq> []),
                    case ctx of None \<Rightarrow> ru_world s | Some c \<Rightarrow> ru_world c)))"
proof -
  obtain e s where p: "run_pipeline (ex_stages_of a) False = (e, s)" by fastforce
  have full: "dp_refused ex_full = []" "dp_ids ex_full = []" by (simp_all add: ex_full_def)
  let ?r0 = "if e = Raised_out then plain_result ''r1'' Failed_outcome ''pipeline''
          else run_result (ex_one a) ''r1'' (dp_commands ex_full) s"
  have d: "deploy_one (ex_one a) ''r1'' [''interface Gi1''] False = (?r0, Some s, ru_world s)"
    by (cases e) (simp_all add: ex_deployed p)
  have dev: "dr_device ?r0 = ''r1''" by (simp add: plain_result_def run_result_def)
  have sv: "ap_save (heal_one ex_env_heal (ex_act a) ex_heal ex_c ex_prog) = (\<lambda>w. (True, w))"
    by (rule ext) (simp add: ex_apply_fields)
  show ?thesis
    unfolding ex_applied_def ex_inputs apply_one_device_def Let_def
    using ex_inputs(5)
    by (simp add: ex_apply_fields sv ex_one_program full ex_one_fields plan_one_def Let_def run_batch_def d dev p
        new_breaker_def unaccounted_def batch_loop.simps(2) bind_result_def split: prod.split)
qed


lemma ex_left: "units_left ex_env_heal (cl_units ex_c) [''interface Gi1'', '' shutdown''] = []"
  "\<not> feature_removed (cl_units ex_c)"
proof -
  have "set (paths_in (he_program ex_env_heal) (pe_stored (he_program ex_env_heal) [''interface Gi1'', '' shutdown'']))
      = {([], ''interface Gi1''), ([''interface Gi1''], '' shutdown'')}" by code_simp
  then show "units_left ex_env_heal (cl_units ex_c) [''interface Gi1'', '' shutdown''] = []"
    by (simp add: units_left_def ex_units_lit)
qed (simp add: feature_removed_def ex_units_lit)

lemma ex_check: "dr_pending r = [[''interface Gi1'', '' shutdown'']] \<Longrightarrow>
    heal_check ex_env_heal (ex_act a) (cl_units ex_c) r ctx = (Inr \<lparr>vd_rollback = False, vd_symptom = None\<rparr>, ru_world ctx)"
  by (simp add: heal_check_def ex_left ex_act_def)

text \<open>Verify passes, fails, or raises.\<close>

lemma ex_results:
  "\<exists>r. ex_applied Done = (Inr (r, True), True) \<and> judge_act r True (Inr Clean) Sym_none = (A_healed, True)"
  "\<exists>r. ex_applied (Stage_failed e) = (Inr (r, False), True) \<and> judge_act r False (Inr Clean) Sym_none = (A_rolled_back, True)"
  "\<exists>r. ex_applied (Other_raised e) = (Inr (r, False), True) \<and> judge_act r False (Inr Clean) Sym_none = (A_refused, False)"
  by (simp_all add: ex_applied ex_runs run_result_def ex_one_fields settle_one_def Let_def ex_check judge_act_def
      plain_result_def was_sent_def ex_full_def stage_tables)

lemma ex_act_run:
  assumes "\<exists>r. ex_applied a = (Inr (r, b), True) \<and> judge_act r b (Inr Clean) Sym_none = (out, sent)"
  shows "\<exists>s'. apply_decision ex_env_heal (ex_act a) ex_heal 10000 ex_before = (Inr (out, sent), s') \<and> at_world s'"
proof -
  from assms obtain r where r: "ex_applied a = (Inr (r, b), True)" "judge_act r b (Inr Clean) Sym_none = (out, sent)" by blast
  have ac: "ac_exists (ex_act a)" "ac_keeps_started (ex_act a)" "ac_recheck (ex_act a) = Inr Clean" "ac_symptom (ex_act a) = Sym_none"
    by (simp_all add: ex_act_def)
  show ?thesis
    by (simp add: apply_decision_def Let_def ex_checked append_step_def ac r flip: ex_applied_def)
qed

lemmas ex_healed = ex_act_run [OF ex_results(1)]

theorem sent_only_what_was_decided_witness:
  "list_all (\<lambda>l. \<not> ac_dangerous (ex_act Done) l) (hp_commands ex_prog)
   \<and> \<not> act_stops (ex_act Done) (at_log ex_before) ex_heal 10000"
proof -
  from ex_healed obtain s' where s': "apply_decision ex_env_heal (ex_act Done) ex_heal 10000 ex_before = (Inr (A_healed, True), s')"
    "at_world s'" by blast
  then have "at_world s' \<noteq> at_world ex_before" using ex_inputs(5) by simp
  from sent_only_what_was_decided [OF s'(1) this] show ?thesis
    by (simp add: ex_incident ex_act_def flip: ex_c_def ex_prog_def)
qed

theorem healed_is_verified_witness: "units_left ex_env_heal (cl_units ex_c) [''interface Gi1'', '' shutdown''] = []
  \<and> (\<exists>s' :: bool act_state. at_world s' \<and> (\<exists>r. ex_applied Done = (Inr (r, True), at_world s') \<and> dr_outcome r = Deployed))"
proof -
  from ex_healed obtain s' where s': "apply_decision ex_env_heal (ex_act Done) ex_heal 10000 ex_before = (Inr (A_healed, True), s')"
    "at_world s'" by blast
  have src: "ac_src (ex_act Done) = ex_src" by (simp add: ex_act_def)
  from healed_is_verified [OF s'(1)] obtain r where "ex_applied Done = (Inr (r, True), at_world s')" "dr_outcome r = Deployed"
    unfolding ex_applied_def src ex_incident ex_c_def [symmetric] ex_prog_def [symmetric] by blast
  with s'(2) show ?thesis by (intro conjI ex_left exI [of _ s'] exI [of _ r])
qed

lemma ex_log: "rows_of (at_log ex_before) = Inr ex_rows" "log_ok ex_rows"
  "\<exists>v \<in> set (decisions ex_rows). d_id v = d_id ex_heal"
proof -
  show ok: "log_ok ex_rows" by (simp add: log_ok_def ex_rows_def ex_heal_def)
  show "\<exists>v \<in> set (decisions ex_rows). d_id v = d_id ex_heal"
  proof -
    have "d_id ex_heal \<in> set (map d_id (decisions ex_rows))"
      unfolding decisions_ids [OF ok] by (simp add: ex_rows_def)
    then show ?thesis by auto
  qed
qed (simp add: ex_before_def)

theorem sent_and_undone_halts_witness:
  "\<exists>(s' :: bool act_state) h. at_world s' \<and> bind_result (rows_of (at_log s')) (\<lambda>rs. Inr (halted rs)) = Inr (Some h) \<and> h_guard h = 14"
proof -
  from ex_act_run [OF ex_results(2)] obtain s' where
    s': "apply_decision ex_env_heal (ex_act (Stage_failed ''intent unmet'')) ex_heal 10000 ex_before = (Inr (A_rolled_back, True), s')"
    "at_world s'" by blast
  from ex_log(3) obtain v where v: "v \<in> set (decisions ex_rows)" "d_id v = d_id ex_heal" by blast
  from sent_and_undone_halts [OF s'(1) _ ex_log(1,2) v] s'(2) show ?thesis
    by (auto simp: bind_result_def)
qed

theorem raised_run_is_said_unsent_witness:
  "ru_world (snd (run_pipeline (ex_stages_of (Other_raised ''KeyError'')) False))
   \<and> \<not> was_sent (fst (deploy_one (ex_one (Other_raised ''KeyError'')) ''r1'' [''interface Gi1''] False))"
proof -
  let ?a = "Other_raised ''KeyError''"
  have p: "run_pipeline (on_stages (ex_one ?a)) False = (Raised_out, snd (run_pipeline (ex_stages_of ?a) False))"
    by (simp add: ex_one_fields ex_runs)
  have d: "deploy_one (ex_one ?a) ''r1'' [''interface Gi1''] False
      = (fst (deploy_one (ex_one ?a) ''r1'' [''interface Gi1''] False), Some (snd (run_pipeline (ex_stages_of ?a) False)),
         ru_world (snd (run_pipeline (ex_stages_of ?a) False)))"
    by (simp add: ex_deployed ex_runs)
  from raised_run_is_said_unsent [OF d p] show ?thesis by (simp add: ex_runs)
qed

end
