(* ===== verification/Interrupted.thy ===== *)
theory Interrupted
  imports Act
begin

text \<open>
  A heal whose job ended before it recorded its outcome (\<open>modules/heal/interrupted.py\<close>), and
  what the runner's start of a heal does to the log and its mark, as steps.

  A decision's mark is the file its path names, and the lock a process holds on that file: \<open>held\<close> while the
  act's process holds the lock, \<open>left\<close> when that process ended and its record stayed, \<open>none\<close> after a clean
  end. The file and its name are kept apart, as the kernel keeps them: opening may create the file, and a file
  whose name was removed can still be locked by who had opened it. \<open>find\<close> reads the decisions, then the marks one by
  one (each opened, then probed), then the decisions again, and other processes may act between any two of these;
  \<open>sys_step\<close> says what they do, one system call of \<open>acquire\<close> and \<open>release\<close> at a time. A decision's id is taken
  to be a valid one (\<open>path\<close>).

  The lemmas: what \<open>find\<close> reports is a heal whose act has ended without an outcome, however the acts
  interleave with its reads, unless a releasing act removed the mark's name from under it (which can happen, and is
  shown to); a reap leaves nothing it found open; and an interrupted heal that may have sent leaves the network halted.
\<close>

section \<open>Marks\<close>

record mark_file =
  mf_written :: bool
  mf_locked :: bool

text \<open>Where a decision's mark is kept: the file its path names, the files there are or were, and the file this
  process holds as its mark (\<open>Mark.fd\<close>, and its entry in \<open>_HELD\<close>).\<close>

record mark_place =
  mp_name :: "nat option"
  mp_files :: "nat \<Rightarrow> mark_file"
  mp_next :: nat
  mp_mine :: "nat option"

type_synonym marks = "decision_id \<Rightarrow> mark_place"

definition no_marks :: marks where
  "no_marks = (\<lambda>_. \<lparr>mp_name = None, mp_files = (\<lambda>_. \<lparr>mf_written = False, mf_locked = False\<rparr>), mp_next = 0,
                     mp_mine = None\<rparr>)"

text \<open>The system calls: opening (which creates the file when the path names none), and locking, emptying, writing,
  unlocking an open file; unlinking removes the name, whichever file it names.\<close>

definition mark_open :: "mark_place \<Rightarrow> nat \<times> mark_place" where
  "mark_open p =
     (case mp_name p of
        Some f \<Rightarrow> (f, p)
      | None \<Rightarrow> (mp_next p, p\<lparr>mp_name := Some (mp_next p),
           mp_files := (mp_files p)(mp_next p := \<lparr>mf_written = False, mf_locked = False\<rparr>),
           mp_next := mp_next p + 1\<rparr>))"

definition on_file :: "(mark_file \<Rightarrow> mark_file) \<Rightarrow> nat \<Rightarrow> mark_place \<Rightarrow> mark_place" where
  "on_file g f p = p\<lparr>mp_files := (mp_files p)(f := g (mp_files p f))\<rparr>"

definition mark_lock :: "nat \<Rightarrow> mark_place \<Rightarrow> mark_place" where
  "mark_lock = on_file (\<lambda>x. x\<lparr>mf_locked := True\<rparr>)"

definition mark_unlock :: "nat \<Rightarrow> mark_place \<Rightarrow> mark_place" where
  "mark_unlock = on_file (\<lambda>x. x\<lparr>mf_locked := False\<rparr>)"

definition mark_empty :: "nat \<Rightarrow> mark_place \<Rightarrow> mark_place" where
  "mark_empty = on_file (\<lambda>x. x\<lparr>mf_written := False\<rparr>)"

definition mark_write :: "nat \<Rightarrow> mark_place \<Rightarrow> mark_place" where
  "mark_write = on_file (\<lambda>x. x\<lparr>mf_written := True\<rparr>)"

definition mark_unlink :: "mark_place \<Rightarrow> mark_place" where
  "mark_unlink p = p\<lparr>mp_name := None\<rparr>"

text \<open>\<open>Mark.acquire\<close> and \<open>Mark.release\<close> of one process on its own, call by call.\<close>

definition mark_acquire :: "decision_id \<Rightarrow> marks \<Rightarrow> heal_error + marks" where
  "mark_acquire i mk =
     (let (f, p) = mark_open (mk i) in
      if mf_locked (mp_files p f) then Inl Heal_busy
      else Inr (mk(i := (mark_write f (mark_empty f (mark_lock f p)))\<lparr>mp_mine := Some f\<rparr>)))"

definition mark_release :: "decision_id \<Rightarrow> marks \<Rightarrow> marks" where
  "mark_release i mk =
     (case mp_mine (mk i) of
        None \<Rightarrow> mk
      | Some f \<Rightarrow> mk(i := mark_unlink ((mark_unlock f (mark_empty f (mk i)))\<lparr>mp_mine := None\<rparr>)))"

text \<open>\<open>mark_state\<close>: the file is opened, and then probed and read: \<open>mk\<close> is what it finds opening, \<open>mk'\<close> what it
  finds probing.\<close>

datatype mark_state = Held | Left | No_mark

definition file_state :: "mark_file \<Rightarrow> mark_state" where
  "file_state x = (if mf_locked x then Held else if mf_written x then Left else No_mark)"

definition probed :: "marks \<Rightarrow> marks \<Rightarrow> decision_id \<Rightarrow> mark_state" where
  "probed mk mk' i = (case mp_name (mk i) of None \<Rightarrow> No_mark | Some f \<Rightarrow> file_state (mp_files (mk' i) f))"

definition mark_state :: "marks \<Rightarrow> decision_id \<Rightarrow> mark_state" where
  "mark_state mk = probed mk mk"

definition locked :: "marks \<Rightarrow> decision_id \<Rightarrow> bool" where
  "locked mk i = (case mp_name (mk i) of None \<Rightarrow> False | Some f \<Rightarrow> mf_locked (mp_files (mk i) f))"

lemmas mark_ops = on_file_def mark_lock_def mark_unlock_def mark_empty_def mark_write_def mark_unlink_def

lemma mark_state_Held: "mark_state mk i = Held \<longleftrightarrow> locked mk i"
  by (auto simp: mark_state_def probed_def file_state_def locked_def split: option.splits)

lemma locked_no_marks [simp]: "\<not> locked no_marks i"
  by (simp add: locked_def no_marks_def)

text \<open>A mark is acquired exactly when none holds it; released, it is free again, every other as it was.\<close>

lemma mark_acquire_locked: "locked mk i \<Longrightarrow> mark_acquire i mk = Inl Heal_busy"
  by (auto simp: mark_acquire_def mark_open_def locked_def split: option.splits)

lemma mark_acquire_free: "\<not> locked mk i \<Longrightarrow> \<exists>mk'. mark_acquire i mk = Inr mk'"
  by (auto simp: mark_acquire_def mark_open_def locked_def split: option.splits)

lemma mark_acquire_Inl: "mark_acquire i mk = Inl e \<longleftrightarrow> locked mk i \<and> e = Heal_busy"
  using mark_acquire_free [of mk i] mark_acquire_locked [of mk i] by (cases "locked mk i") auto

lemma mark_acquire_Inr:
  assumes "mark_acquire i mk = Inr mk'"
  shows "\<not> locked mk i" "locked mk' j \<longleftrightarrow> j = i \<or> locked mk j" "locked (mark_release i mk') j \<longleftrightarrow> locked mk j"
proof -
  show n: "\<not> locked mk i" using assms mark_acquire_locked [of mk i] by auto
  show "locked mk' j \<longleftrightarrow> j = i \<or> locked mk j"
    using assms by (auto simp: mark_acquire_def mark_open_def locked_def mark_ops Let_def split: option.splits if_splits)
  show "locked (mark_release i mk') j \<longleftrightarrow> locked mk j"
    using assms n by (cases "j = i")
      (auto simp: mark_acquire_def mark_release_def mark_open_def locked_def mark_ops Let_def split: option.splits if_splits)
qed

section \<open>What is interrupted\<close>

definition open_take :: "dview \<Rightarrow> bool" where
  "open_take v \<longleftrightarrow> d_outcome v \<in> {O_heal, O_propose} \<and> v_taken v \<noteq> None \<and> v_applied v = None"

definition open_takes :: "log_row list \<Rightarrow> dview list" where
  "open_takes rs = filter open_take (decisions rs)"

text \<open>\<open>find\<close>: the decisions read first, the marks (\<open>mks\<close>), the decisions read again. Marks that cannot be
  read are nothing.\<close>

definition find_interrupted ::
    "log \<Rightarrow> (decision_id \<Rightarrow> mark_state) option \<Rightarrow> log \<Rightarrow> heal_error + (dview \<times> mark_state) list" where
  "find_interrupted lg1 marks lg2 =
     bind_result (rows_of lg1) (\<lambda>rs1.
       if open_takes rs1 = [] then Inr []
       else case marks of
         None \<Rightarrow> Inl Store_unreadable
       | Some mks \<Rightarrow>
           (let ended = filter (\<lambda>v. mks (d_id v) \<noteq> Held) (open_takes rs1) in
            if ended = [] then Inr []
            else bind_result (rows_of lg2) (\<lambda>rs2.
              Inr (map (\<lambda>v. (v, mks (d_id v)))
                     (filter (\<lambda>v. d_id v \<in> d_id ` set (open_takes rs2)) ended)))))"

section \<open>The reap\<close>

record reap_env =
  re_exists :: bool
  re_halt_id :: "decision_id \<Rightarrow> string"
  re_step_id :: "decision_id \<Rightarrow> string"
  re_keeps :: bool

record reap_state =
  rp_store :: store
  rp_log :: log
  rp_steps :: steplog
  rp_marks :: marks

record reap_out =
  ro_reaped :: "(decision_id \<times> bool) list"      \<comment> \<open>and whether it halted\<close>
  ro_unreaped :: "decision_id list"

definition INTERRUPTED :: string where "INTERRUPTED = ''interrupted''"

definition reap_one ::
    "reap_env \<Rightarrow> epoch \<Rightarrow> dview \<times> mark_state \<Rightarrow> reap_out \<times> reap_state \<Rightarrow> reap_out \<times> reap_state" where
  "reap_one env now dm os =
     (let (d, m) = dm; (out, s) = os; i = d_id d; ex = re_exists env;
          halts = may_have_sent (of_decision (rp_steps s) i);
          unreaped = out\<lparr>ro_unreaped := ro_unreaped out @ [i]\<rparr>
      in case record_applied ex i INTERRUPTED ''heal to intent'' (re_halt_id env i) now (rp_log s) of
           Inl _ \<Rightarrow> (unreaped, s)
         | Inr (_, lg) \<Rightarrow>
        (case (if halts then bind_result (halt_network ex (re_halt_id env i) 14 now lg) (\<lambda>(_, lg). Inr lg)
               else Inr lg) of
           Inl _ \<Rightarrow> (unreaped, s\<lparr>rp_log := lg\<rparr>)
         | Inr lg' \<Rightarrow>
        (case close_incident ex (d_incident d) INTERRUPTED now (rp_store s) of
           Inl _ \<Rightarrow> (unreaped, s\<lparr>rp_log := lg'\<rparr>)
         | Inr (_, st) \<Rightarrow>
             (out\<lparr>ro_reaped := ro_reaped out @ [(i, halts)]\<rparr>,
              s\<lparr>rp_log := lg', rp_store := st,
                rp_steps := (case append_step ex (re_keeps env)
                                    (interrupted_step (re_step_id env i) (decision.truncate d) halts) (rp_steps s) of
                               Inl _ \<Rightarrow> rp_steps s | Inr sl \<Rightarrow> sl),
                rp_marks := (if m = Left then (rp_marks s)(i := mark_unlink (rp_marks s i)) else rp_marks s)\<rparr>))))"

fun reap_loop :: "reap_env \<Rightarrow> epoch \<Rightarrow> (dview \<times> mark_state) list \<Rightarrow> reap_out \<times> reap_state \<Rightarrow> reap_out \<times> reap_state" where
  "reap_loop env now [] os = os"
| "reap_loop env now (d # ds) os = reap_loop env now ds (reap_one env now d os)"

text \<open>Under the reap's lock: what is found again is what is recorded. \<open>marks_read\<close> says whether the
  marks can be read.\<close>

definition reap :: "reap_env \<Rightarrow> epoch \<Rightarrow> bool \<Rightarrow> reap_state \<Rightarrow> heal_error + (reap_out \<times> reap_state)" where
  "reap env now marks_read s =
     bind_result (find_interrupted (rp_log s) (if marks_read then Some (mark_state (rp_marks s)) else None) (rp_log s))
       (\<lambda>found. Inr (reap_loop env now found (\<lparr>ro_reaped = [], ro_unreaped = []\<rparr>, s)))"

section \<open>The acts of other processes\<close>

text \<open>The acts that go on in the processes of the system, each on the mark of one decision: \<open>acquire\<close> call by call
  (\<open>Opened\<close>, \<open>Locked\<close>, \<open>Emptied\<close>), the mark held (\<open>Holding\<close>), the decision taken (\<open>Running\<close>), and \<open>release\<close> call by call
  once it is over (\<open>Leaving\<close>, \<open>Cleared\<close>, \<open>Unlocked\<close>).\<close>

datatype act_phase = Opened | Locked | Emptied | Holding | Running | Leaving | Cleared | Unlocked

record sys_act =
  sa_mark :: decision_id
  sa_file :: nat
  sa_phase :: act_phase

record sys =
  sy_log :: log
  sy_marks :: marks
  sy_acts :: "nat \<Rightarrow> sys_act option"
  sy_lost :: "decision_id set"          \<comment> \<open>acts that ended after their take and before their outcome\<close>
  sy_unnamed :: "decision_id set"       \<comment> \<open>marks whose name was removed while an act was on the file it named\<close>

definition going :: "act_phase \<Rightarrow> bool" where
  "going ph \<longleftrightarrow> ph \<in> {Opened, Locked, Emptied, Holding, Running}"

definition has_lock :: "act_phase \<Rightarrow> bool" where
  "has_lock ph \<longleftrightarrow> ph \<notin> {Opened, Unlocked}"

text \<open>Act \<open>b\<close> does \<open>g\<close> to its decision's mark and goes on in the next phase, or is over.\<close>

definition act_to :: "nat \<Rightarrow> sys_act \<Rightarrow> act_phase option \<Rightarrow> (mark_place \<Rightarrow> mark_place) \<Rightarrow> sys \<Rightarrow> sys" where
  "act_to b a ph g s =
     s\<lparr>sy_marks := (sy_marks s)(sa_mark a := g (sy_marks s (sa_mark a))),
       sy_acts := (sy_acts s)(b := map_option (\<lambda>x. a\<lparr>sa_phase := x\<rparr>) ph)\<rparr>"

text \<open>The name of a mark is removed: an act that goes on on the file it named is on a file without a name.\<close>

definition unlinks :: "decision_id \<Rightarrow> sys \<Rightarrow> sys" where
  "unlinks i s =
     s\<lparr>sy_marks := (sy_marks s)(i := mark_unlink (sy_marks s i)),
       sy_unnamed := sy_unnamed s \<union> {j. j = i \<and> (\<exists>b a. sy_acts s b = Some a \<and> sa_mark a = i \<and> going (sa_phase a)
                                               \<and> mp_name (sy_marks s i) = Some (sa_file a))}\<rparr>"

definition applied_in :: "decision_id \<Rightarrow> log_row list \<Rightarrow> bool" where
  "applied_in i rs \<longleftrightarrow> (\<exists>res by t. Applied_row i res by t \<in> set rs)"

inductive sys_step :: "sys \<Rightarrow> sys \<Rightarrow> bool" where
  act_opens: "sy_acts s b = None \<Longrightarrow> mark_open (sy_marks s i) = (f, p) \<Longrightarrow>
     sys_step s (s\<lparr>sy_marks := (sy_marks s)(i := p),
                   sy_acts := (sy_acts s)(b := Some \<lparr>sa_mark = i, sa_file = f, sa_phase = Opened\<rparr>)\<rparr>)"
| act_busy: "sy_acts s b = Some a \<Longrightarrow> sa_phase a = Opened \<Longrightarrow> sys_step s (act_to b a None (\<lambda>p. p) s)"
| act_locks: "sy_acts s b = Some a \<Longrightarrow> sa_phase a = Opened \<Longrightarrow>
     \<not> mf_locked (mp_files (sy_marks s (sa_mark a)) (sa_file a)) \<Longrightarrow>
     sys_step s (act_to b a (Some Locked) (mark_lock (sa_file a)) s)"
| act_empties: "sy_acts s b = Some a \<Longrightarrow> sa_phase a = Locked \<Longrightarrow>
     sys_step s (act_to b a (Some Emptied) (mark_empty (sa_file a)) s)"
| act_writes: "sy_acts s b = Some a \<Longrightarrow> sa_phase a = Emptied \<Longrightarrow>
     sys_step s (act_to b a (Some Holding) (mark_write (sa_file a)) s)"
| act_takes: "sy_acts s b = Some a \<Longrightarrow> sa_phase a = Holding \<Longrightarrow>
     take_decision e (sa_mark a) by now (sy_log s) = Inr (v, lg) \<Longrightarrow>
     sys_step s (act_to b a (Some Running) (\<lambda>p. p) s\<lparr>sy_log := lg\<rparr>)"
| act_untaken: "sy_acts s b = Some a \<Longrightarrow> sa_phase a = Holding \<Longrightarrow>
     sys_step s (act_to b a (Some Leaving) (\<lambda>p. p) s)"
| act_records: "sy_acts s b = Some a \<Longrightarrow> sa_phase a = Running \<Longrightarrow>
     record_applied e (sa_mark a) res by hid now (sy_log s) = Inr (v, lg) \<Longrightarrow>
     sys_step s (act_to b a (Some Leaving) (\<lambda>p. p) s\<lparr>sy_log := lg\<rparr>)"
| act_raises: "sy_acts s b = Some a \<Longrightarrow> sa_phase a = Running \<Longrightarrow>
     sys_step s (act_to b a (Some Leaving) (\<lambda>p. p) s\<lparr>sy_lost := insert (sa_mark a) (sy_lost s)\<rparr>)"
| act_clears: "sy_acts s b = Some a \<Longrightarrow> sa_phase a = Leaving \<Longrightarrow>
     sys_step s (act_to b a (Some Cleared) (mark_empty (sa_file a)) s)"
| act_unlocks: "sy_acts s b = Some a \<Longrightarrow> sa_phase a = Cleared \<Longrightarrow>
     sys_step s (act_to b a (Some Unlocked) (mark_unlock (sa_file a)) s)"
| act_unlinks: "sy_acts s b = Some a \<Longrightarrow> sa_phase a = Unlocked \<Longrightarrow>
     sys_step s (unlinks (sa_mark a) (act_to b a None (\<lambda>p. p) s))"
| process_ends: "sy_acts s b = Some a \<Longrightarrow>
     sys_step s (act_to b a None (if has_lock (sa_phase a) then mark_unlock (sa_file a) else (\<lambda>p. p)) s
       \<lparr>sy_lost := (if sa_phase a = Running then insert (sa_mark a) (sy_lost s) else sy_lost s)\<rparr>)"
| reap_unlinks: "rows_of (sy_log s) = Inr rs \<Longrightarrow> applied_in i rs \<Longrightarrow> sys_step s (unlinks i s)"
| other_writes: "rows_of (sy_log s) = Inr rs \<Longrightarrow> admissible rs r \<Longrightarrow> \<forall>i by t. r \<noteq> Taken_row i by t \<Longrightarrow>
     sys_step s (s\<lparr>sy_log := append_to [r] (sy_log s)\<rparr>)"

inductive sys_run :: "sys \<Rightarrow> sys \<Rightarrow> bool" where
  run_here: "sys_run s s"
| run_on: "sys_run s t \<Longrightarrow> sys_step t u \<Longrightarrow> sys_run s u"

section \<open>An open take has a running act, or a lost one\<close>

lemma open_after_row:
  assumes "open_take (apply_row r v)" and "\<forall>i by t. r \<noteq> Taken_row i by t"
  shows "open_take v"
  using assms by (cases r) (auto simp: open_take_def apply_row_def split: if_splits)

lemma open_after_take:
  assumes "open_take (apply_row (Taken_row i by t) v)" and "d_id v \<noteq> i"
  shows "open_take v"
  using assms by (simp add: open_take_def apply_row_def)

lemma not_open_applied: "\<not> open_take (apply_row (Applied_row (d_id v) res by t) v)"
  by (simp add: open_take_def apply_row_def)

text \<open>The marks: an act that holds its lock holds it alone, and the path of one that goes on names its file, unless its
  name was removed.\<close>

definition act_ok :: "sys \<Rightarrow> nat \<Rightarrow> sys_act \<Rightarrow> bool" where
  "act_ok s b a \<longleftrightarrow> sa_file a < mp_next (sy_marks s (sa_mark a))
     \<and> (has_lock (sa_phase a) \<longrightarrow> mf_locked (mp_files (sy_marks s (sa_mark a)) (sa_file a)))
     \<and> (going (sa_phase a) \<longrightarrow> mp_name (sy_marks s (sa_mark a)) = Some (sa_file a) \<or> sa_mark a \<in> sy_unnamed s)"

definition alone :: "sys \<Rightarrow> bool" where
  "alone s \<longleftrightarrow> (\<forall>b a b' a'. sy_acts s b = Some a \<longrightarrow> sy_acts s b' = Some a' \<longrightarrow> has_lock (sa_phase a)
     \<longrightarrow> has_lock (sa_phase a') \<longrightarrow> sa_mark a = sa_mark a' \<longrightarrow> sa_file a = sa_file a' \<longrightarrow> b = b')"

definition marks_ok :: "sys \<Rightarrow> bool" where
  "marks_ok s \<longleftrightarrow> (\<forall>b a. sy_acts s b = Some a \<longrightarrow> act_ok s b a) \<and> alone s
     \<and> (\<forall>i f. mp_name (sy_marks s i) = Some f \<longrightarrow> f < mp_next (sy_marks s i))"

lemma phases [simp]:
  "has_lock Locked" "has_lock Emptied" "has_lock Holding" "has_lock Running" "has_lock Leaving" "has_lock Cleared"
  "\<not> has_lock Opened" "\<not> has_lock Unlocked"
  "going Opened" "going Locked" "going Emptied" "going Holding" "going Running" "\<not> going Leaving" "\<not> going Cleared" "\<not> going Unlocked"
  by (simp_all add: has_lock_def going_def)

lemma marks_okE:
  assumes "marks_ok s" "sy_acts s b = Some a"
  shows "act_ok s b a"
    "\<lbrakk>sy_acts s b' = Some a'; has_lock (sa_phase a); has_lock (sa_phase a'); sa_mark a = sa_mark a'; sa_file a = sa_file a'\<rbrakk> \<Longrightarrow> b = b'"
  using assms unfolding marks_ok_def alone_def by blast+

lemma marks_ok_same:
  "marks_ok s \<Longrightarrow> sy_marks t = sy_marks s \<Longrightarrow> sy_acts t = sy_acts s \<Longrightarrow> sy_unnamed t = sy_unnamed s \<Longrightarrow> marks_ok t"
  by (simp add: marks_ok_def alone_def act_ok_def)

text \<open>A call on the act's own file.\<close>

definition others_lock :: "sys \<Rightarrow> nat \<Rightarrow> sys_act \<Rightarrow> bool" where
  "others_lock s b a \<longleftrightarrow> (\<exists>b' a'. sy_acts s b' = Some a' \<and> b' \<noteq> b \<and> has_lock (sa_phase a')
     \<and> sa_mark a' = sa_mark a \<and> sa_file a' = sa_file a)"

lemma marks_ok_act:
  assumes "marks_ok s" "sy_acts s b = Some a"
    and keep: "others_lock s b a \<Longrightarrow> mf_locked (g (mp_files (sy_marks s (sa_mark a)) (sa_file a)))"
    and new: "\<And>q. ph = Some q \<Longrightarrow> has_lock q \<Longrightarrow>
      mf_locked (g (mp_files (sy_marks s (sa_mark a)) (sa_file a))) \<and> \<not> others_lock s b a"
    and goes: "\<And>q. ph = Some q \<Longrightarrow> going q \<Longrightarrow> going (sa_phase a)"
  shows "marks_ok (act_to b a ph (on_file g (sa_file a)) s)"
proof -
  let ?t = "act_to b a ph (on_file g (sa_file a)) s"
  have old: "act_ok s b a" using marks_okE(1) [OF assms(1,2)] .
  have "act_ok ?t b' a'" if "sy_acts ?t b' = Some a'" for b' a'
  proof (cases "b' = b")
    case True
    with that new goes old show ?thesis by (auto simp: act_to_def act_ok_def on_file_def)
  next
    case False
    with that have a': "sy_acts s b' = Some a'" by (simp add: act_to_def)
    then have "act_ok s b' a'" by (rule marks_okE(1) [OF assms(1)])
    moreover have "has_lock (sa_phase a') \<and> sa_mark a' = sa_mark a \<and> sa_file a' = sa_file a \<Longrightarrow> others_lock s b a"
      using a' False by (auto simp: others_lock_def)
    ultimately show ?thesis using keep by (auto simp: act_to_def act_ok_def on_file_def)
  qed
  moreover have "alone ?t"
  proof (unfold alone_def, intro allI impI)
    fix b1 a1 b2 a2
    assume t: "sy_acts ?t b1 = Some a1" "sy_acts ?t b2 = Some a2" "has_lock (sa_phase a1)" "has_lock (sa_phase a2)"
      "sa_mark a1 = sa_mark a2" "sa_file a1 = sa_file a2"
    have no: False if "sy_acts ?t b = Some x" "sy_acts s c = Some y" "c \<noteq> b" "has_lock (sa_phase x)" "has_lock (sa_phase y)"
      "sa_mark y = sa_mark x" "sa_file y = sa_file x" for x c y
    proof -
      from that(1,4) obtain q where q: "ph = Some q" "has_lock q" "x = a\<lparr>sa_phase := q\<rparr>" by (auto simp: act_to_def)
      with that have "others_lock s b a" by (auto simp: others_lock_def)
      with new [OF q(1,2)] show False by blast
    qed
    show "b1 = b2"
    proof (rule ccontr)
      assume "b1 \<noteq> b2"
      then consider "b1 = b" "b2 \<noteq> b" | "b2 = b" "b1 \<noteq> b" | "b1 \<noteq> b" "b2 \<noteq> b" "b1 \<noteq> b2" by blast
      then show False
      proof cases
        case 1
        then have "sy_acts s b2 = Some a2" using t(2) by (simp add: act_to_def)
        from no [OF t(1) [unfolded 1(1)] this 1(2) t(3,4) t(5) [symmetric] t(6) [symmetric]] show ?thesis .
      next
        case 2
        then have "sy_acts s b1 = Some a1" using t(1) by (simp add: act_to_def)
        from no [OF t(2) [unfolded 2(1)] this 2(2) t(4,3,5,6)] show ?thesis .
      next
        case 3
        then have "sy_acts s b1 = Some a1" "sy_acts s b2 = Some a2" using t by (simp_all add: act_to_def)
        with marks_okE(2) [OF assms(1)] t 3 show ?thesis by blast
      qed
    qed
  qed
  moreover have "\<forall>i f. mp_name (sy_marks ?t i) = Some f \<longrightarrow> f < mp_next (sy_marks ?t i)"
    using assms(1) by (auto simp: act_to_def on_file_def marks_ok_def)
  ultimately show ?thesis by (simp add: marks_ok_def)
qed

text \<open>Who holds the lock of a file holds it alone, and a file nobody has locked is free.\<close>

lemma others_lock_no:
  assumes "marks_ok s" "sy_acts s b = Some a"
    and "has_lock (sa_phase a) \<or> \<not> mf_locked (mp_files (sy_marks s (sa_mark a)) (sa_file a))"
  shows "\<not> others_lock s b a"
proof
  assume "others_lock s b a"
  then obtain b' a' where o: "sy_acts s b' = Some a'" "b' \<noteq> b" "has_lock (sa_phase a')" "sa_mark a' = sa_mark a"
    "sa_file a' = sa_file a" by (auto simp: others_lock_def)
  from marks_okE(1) [OF assms(1) o(1)] o have "mf_locked (mp_files (sy_marks s (sa_mark a)) (sa_file a))"
    by (simp add: act_ok_def)
  with marks_okE(2) [OF assms(1) o(1) assms(2)] o assms(3) show False by auto
qed

lemma on_file_id: "on_file (\<lambda>x. x) f p = p"
  by (simp add: on_file_def)

lemma marks_ok_quiet:
  assumes "marks_ok s" "sy_acts s b = Some a"
    and "case ph of None \<Rightarrow> True | Some q \<Rightarrow> has_lock q = has_lock (sa_phase a) \<and> (going q \<longrightarrow> going (sa_phase a))"
  shows "marks_ok (act_to b a ph (\<lambda>p. p) s)"
proof -
  have ok: "act_ok s b a" using marks_okE(1) [OF assms(1,2)] .
  have "mf_locked (mp_files (sy_marks s (sa_mark a)) (sa_file a))" if "others_lock s b a"
    using others_lock_no [OF assms(1,2)] that by blast
  then have "marks_ok (act_to b a ph (on_file (\<lambda>x. x) (sa_file a)) s)"
    by (intro marks_ok_act [OF assms(1,2)]) (use assms(3) ok others_lock_no [OF assms(1,2)] in \<open>auto simp: act_ok_def\<close>)
  then show ?thesis by (simp add: act_to_def on_file_id)
qed

lemma marks_ok_unlinks: "marks_ok s \<Longrightarrow> marks_ok (unlinks i s)"
proof -
  assume ok: "marks_ok s"
  have "act_ok (unlinks i s) b a" if "sy_acts s b = Some a" for b a
  proof -
    have "act_ok s b a" using marks_okE(1) [OF ok that] .
    then show ?thesis using that by (cases "sa_mark a = i") (auto simp: act_ok_def unlinks_def mark_unlink_def)
  qed
  with ok show ?thesis by (auto simp: marks_ok_def alone_def unlinks_def mark_unlink_def)
qed

lemma marks_ok_opens:
  assumes "marks_ok s" "sy_acts s b = None" "mark_open (sy_marks s i) = (f, p)"
  shows "marks_ok (s\<lparr>sy_marks := (sy_marks s)(i := p),
    sy_acts := (sy_acts s)(b := Some \<lparr>sa_mark = i, sa_file = f, sa_phase = Opened\<rparr>)\<rparr>)"
proof -
  have p: "mp_name p = Some f" "f < mp_next p" "mp_next (sy_marks s i) \<le> mp_next p"
    "\<And>x. x < mp_next (sy_marks s i) \<Longrightarrow> mp_files p x = mp_files (sy_marks s i) x"
    "mp_name (sy_marks s i) = None \<or> mp_name p = mp_name (sy_marks s i)"
    using assms(1,3) by (auto simp: mark_open_def marks_ok_def split: option.splits)
  let ?t = "s\<lparr>sy_marks := (sy_marks s)(i := p),
    sy_acts := (sy_acts s)(b := Some \<lparr>sa_mark = i, sa_file = f, sa_phase = Opened\<rparr>)\<rparr>"
  have "act_ok ?t b' a'" if "sy_acts ?t b' = Some a'" for b' a'
  proof (cases "b' = b")
    case True
    with that p(1,2) show ?thesis by (auto simp: act_ok_def)
  next
    case False
    with that have "act_ok s b' a'" using marks_okE(1) [OF assms(1), of b' a'] by simp
    with p(3-5) p(1) show ?thesis by (cases "sa_mark a' = i") (auto simp: act_ok_def)
  qed
  moreover have "alone ?t"
    using assms(1) unfolding marks_ok_def alone_def by (auto split: if_splits)
  moreover have "\<forall>j x. mp_name (sy_marks ?t j) = Some x \<longrightarrow> x < mp_next (sy_marks ?t j)"
    using assms(1) p(1,2) by (auto simp: marks_ok_def)
  ultimately show ?thesis by (simp add: marks_ok_def)
qed

lemma sys_step_marks: "sys_step s t \<Longrightarrow> marks_ok s \<Longrightarrow> marks_ok t"
proof (induction rule: sys_step.induct)
  case (act_opens s b i f p)
  then show ?case using marks_ok_opens by blast
next
  case (act_busy s b a)
  then show ?case by (intro marks_ok_quiet) simp_all
next
  case (act_locks s b a)
  then show ?case unfolding mark_lock_def using others_lock_no [of s b a] by (intro marks_ok_act) simp_all
next
  case (act_empties s b a)
  then show ?case unfolding mark_empty_def using others_lock_no [of s b a] marks_okE(1) [of s b a]
    by (intro marks_ok_act) (simp_all add: act_ok_def)
next
  case (act_writes s b a)
  then show ?case unfolding mark_write_def using others_lock_no [of s b a] marks_okE(1) [of s b a]
    by (intro marks_ok_act) (simp_all add: act_ok_def)
next
  case (act_takes s b a e "by" now v lg)
  then have "marks_ok (act_to b a (Some Running) (\<lambda>p. p) s)" by (intro marks_ok_quiet) simp_all
  then show ?case by (rule marks_ok_same) simp_all
next
  case (act_untaken s b a)
  then show ?case by (intro marks_ok_quiet) simp_all
next
  case (act_records s b a e res "by" hid now v lg)
  then have "marks_ok (act_to b a (Some Leaving) (\<lambda>p. p) s)" by (intro marks_ok_quiet) simp_all
  then show ?case by (rule marks_ok_same) simp_all
next
  case (act_raises s b a)
  then have "marks_ok (act_to b a (Some Leaving) (\<lambda>p. p) s)" by (intro marks_ok_quiet) simp_all
  then show ?case by (rule marks_ok_same) simp_all
next
  case (act_clears s b a)
  then show ?case unfolding mark_empty_def using others_lock_no [of s b a] marks_okE(1) [of s b a]
    by (intro marks_ok_act) (simp_all add: act_ok_def)
next
  case (act_unlocks s b a)
  then show ?case unfolding mark_unlock_def using others_lock_no [of s b a] by (intro marks_ok_act) simp_all
next
  case (act_unlinks s b a)
  then show ?case by (intro marks_ok_unlinks marks_ok_quiet) simp_all
next
  case (process_ends s b a)
  have "marks_ok (act_to b a None (if has_lock (sa_phase a) then mark_unlock (sa_file a) else (\<lambda>p. p)) s)"
  proof (cases "has_lock (sa_phase a)")
    case True
    with process_ends others_lock_no [of s b a] show ?thesis
      unfolding mark_unlock_def by (simp, intro marks_ok_act) simp_all
  next
    case False
    with process_ends show ?thesis by (simp, intro marks_ok_quiet) simp_all
  qed
  then show ?case by (rule marks_ok_same) simp_all
next
  case (reap_unlinks s rs i)
  then show ?case by (intro marks_ok_unlinks)
next
  case (other_writes s rs r)
  then show ?case using marks_ok_same [of s] by simp
qed

text \<open>The log: an open take is of a running act, or of a lost one.\<close>

definition running_of :: "sys \<Rightarrow> decision_id \<Rightarrow> bool" where
  "running_of s i \<longleftrightarrow> (\<exists>b a. sy_acts s b = Some a \<and> sa_mark a = i \<and> sa_phase a = Running)"

definition open_is_live :: "sys \<Rightarrow> log_row list \<Rightarrow> bool" where
  "open_is_live s rs \<longleftrightarrow>
     (\<forall>v \<in> set (decisions rs). open_take v \<longrightarrow> running_of s (d_id v) \<or> d_id v \<in> sy_lost s)"

lemma open_is_live_row:
  assumes "open_is_live s rs" "log_ok rs" "admissible rs r" "\<forall>i by t. r \<noteq> Taken_row i by t"
  shows "open_is_live s (rs @ [r])"
proof (cases "is_decision r")
  case True
  then obtain d where r: "r = Decision_row d" by (cases r) auto
  have "\<not> open_take (plain_view d)" by (simp add: open_take_def)
  moreover have "decisions (rs @ [r]) = decisions rs @ [plain_view d]"
    unfolding r using assms(2,3) by (intro decisions_record) (simp_all add: admissible_def r)
  ultimately show ?thesis using assms(1) by (auto simp: open_is_live_def)
next
  case False
  then show ?thesis
    using assms(1) open_after_row [OF _ assms(4)] by (auto simp: open_is_live_def decisions_other)
qed

lemma open_is_live_on:
  assumes "open_is_live s rs" and "\<And>i. running_of s i \<or> i \<in> sy_lost s \<Longrightarrow> running_of t i \<or> i \<in> sy_lost t"
  shows "open_is_live t rs"
  using assms unfolding open_is_live_def by blast

text \<open>An act that runs goes on running, on the same file, until it is lost or its outcome is in the log.\<close>

lemma running_goes_on:
  assumes "sys_step s t" "sy_acts s b = Some a" "sa_phase a = Running" "rows_of (sy_log s) = Inr rs"
  shows "sy_acts t b = Some a \<or> sa_mark a \<in> sy_lost t \<or> (\<exists>rs'. rows_of (sy_log t) = Inr rs' \<and> applied_in (sa_mark a) rs')"
  using assms
proof (induction rule: sys_step.induct)
  case (act_records s b' a' e res "by" hid now v lg)
  have "\<exists>rs'. rows_of lg = Inr rs' \<and> applied_in (sa_mark a') rs'"
    using record_applied_rows [OF act_records.hyps(3) act_records.prems(3)] by (auto simp: applied_in_def)
  with act_records show ?case by (auto simp: act_to_def)
qed (auto simp: act_to_def unlinks_def)

lemma running_of_others:
  assumes "sy_acts s b = Some a" "sa_phase a \<noteq> Running" "running_of s i"
  shows "running_of (act_to b a ph g s) i"
proof -
  from assms(3) obtain c y where c: "sy_acts s c = Some y" "sa_mark y = i" "sa_phase y = Running"
    by (auto simp: running_of_def)
  with assms(1,2) have "c \<noteq> b" by auto
  with c show ?thesis by (auto simp: running_of_def act_to_def)
qed

lemma running_of_lost:
  assumes "sy_acts s b = Some a" "running_of s i"
  shows "running_of (act_to b a ph g s) i \<or> i = sa_mark a"
proof -
  from assms(2) obtain c y where c: "sy_acts s c = Some y" "sa_mark y = i" "sa_phase y = Running"
    by (auto simp: running_of_def)
  then show ?thesis using assms(1) by (cases "c = b") (auto simp: running_of_def act_to_def)
qed

lemma running_of_same [simp]:
  "running_of (s\<lparr>sy_log := lg\<rparr>) = running_of s" "running_of (s\<lparr>sy_lost := l\<rparr>) = running_of s"
  "running_of (unlinks j s) = running_of s"
  by (simp_all add: running_of_def unlinks_def fun_eq_iff)

lemma act_to_simps [simp]:
  "sy_log (act_to b a ph g s) = sy_log s" "sy_lost (act_to b a ph g s) = sy_lost s"
  "sy_unnamed (act_to b a ph g s) = sy_unnamed s"
  "sy_log (unlinks i s) = sy_log s" "sy_lost (unlinks i s) = sy_lost s"
  by (simp_all add: act_to_def unlinks_def)

definition log_inv :: "sys \<Rightarrow> bool" where
  "log_inv s \<longleftrightarrow> (\<exists>rs. rows_of (sy_log s) = Inr rs \<and> log_ok rs \<and> open_is_live s rs)"

lemma log_inv_on:
  assumes "log_inv s" "sy_log t = sy_log s" "\<And>i. running_of s i \<or> i \<in> sy_lost s \<Longrightarrow> running_of t i \<or> i \<in> sy_lost t"
  shows "log_inv t"
  using assms(1,2) open_is_live_on [OF _ assms(3)] unfolding log_inv_def by auto

lemma log_inv_takes:
  assumes "log_inv s" "sy_acts s b = Some a" "take_decision e (sa_mark a) by now (sy_log s) = Inr (v, lg)"
  shows "log_inv (act_to b a (Some Running) (\<lambda>p. p) s\<lparr>sy_log := lg\<rparr>)"
proof -
  from assms(1) obtain rs where rs: "rows_of (sy_log s) = Inr rs" "log_ok rs" "open_is_live s rs"
    by (auto simp: log_inv_def)
  let ?t = "act_to b a (Some Running) (\<lambda>p. p) s\<lparr>sy_log := lg\<rparr>" and ?r = "Taken_row (sa_mark a) by (iso now)"
  note t = take_decision_rows [OF assms(3) rs(1)]
  have me: "running_of ?t (sa_mark a)" by (auto simp: running_of_def act_to_def)
  have "running_of ?t (d_id u) \<or> d_id u \<in> sy_lost ?t"
    if u: "u \<in> set (decisions (rs @ [?r]))" "open_take u" for u
  proof (cases "d_id u = sa_mark a")
    case False
    from u(1) obtain w where w: "w \<in> set (decisions rs)" "u = apply_row ?r w" by (auto simp: decisions_other)
    with False u(2) open_after_take have "open_take w" by fastforce
    with w rs(3) have "running_of s (d_id u) \<or> d_id u \<in> sy_lost s" by (auto simp: open_is_live_def)
    with running_of_lost [OF assms(2), of "d_id u" "Some Running" "\<lambda>p. p"] False show ?thesis by auto
  qed (use me in simp)
  then have "open_is_live ?t (rs @ [?r])" by (simp add: open_is_live_def)
  moreover have "log_ok (rs @ [?r])" by (rule admissible_log_ok [OF rs(2) t(2)])
  ultimately show ?thesis using t(1) by (simp add: log_inv_def)
qed

lemma log_inv_records:
  assumes "log_inv s" "sy_acts s b = Some a" "record_applied e (sa_mark a) res by hid now (sy_log s) = Inr (v, lg)"
  shows "log_inv (act_to b a (Some Leaving) (\<lambda>p. p) s\<lparr>sy_log := lg\<rparr>)"
proof -
  from assms(1) obtain rs where rs: "rows_of (sy_log s) = Inr rs" "log_ok rs" "open_is_live s rs"
    by (auto simp: log_inv_def)
  let ?i = "sa_mark a" and ?t = "act_to b a (Some Leaving) (\<lambda>p. p) s\<lparr>sy_log := lg\<rparr>"
  let ?a = "Applied_row ?i res by (iso now)"
  let ?h = "Halt_row \<lparr>h_id = hid, h_guard = 14, h_at = iso now, h_epoch = now\<rparr>"
  note t = record_applied_rows [OF assms(3) rs(1)]
  have ad: "admissible rs ?a" using t by (simp add: admissible_def)
  have live: "open_is_live ?t (rs @ [?a])"
  proof (unfold open_is_live_def, intro ballI impI)
    fix w assume w: "w \<in> set (decisions (rs @ [?a]))" "open_take w"
    then obtain u where u: "u \<in> set (decisions rs)" "w = apply_row ?a u" by (auto simp: decisions_other)
    then have o: "open_take (apply_row ?a u)" using w(2) by simp
    then have ne: "d_id u \<noteq> ?i" using not_open_applied [of u res "by" "iso now"] by metis
    have "open_take u" by (rule open_after_row [OF o]) simp
    with u rs(3) have "running_of s (d_id w) \<or> d_id w \<in> sy_lost s" by (auto simp: open_is_live_def)
    with running_of_lost [OF assms(2), of "d_id w" "Some Leaving" "\<lambda>p. p"] ne u(2)
    show "running_of ?t (d_id w) \<or> d_id w \<in> sy_lost ?t" by auto
  qed
  have live2: "open_is_live ?t ((rs @ [?a]) @ [?h])"
    by (rule open_is_live_row [OF live admissible_log_ok [OF rs(2) ad]]) (simp_all add: admissible_def)
  have "log_ok (rs @ [?a])" "log_ok ((rs @ [?a]) @ [?h])"
    using admissible_log_ok [OF rs(2) ad] admissible_log_ok [of "rs @ [?a]" ?h] by (simp_all add: admissible_def)
  with live live2 t show ?thesis by (cases "res = ROLLED_BACK") (simp_all add: log_inv_def)
qed

lemma sys_step_log: "sys_step s t \<Longrightarrow> log_inv s \<Longrightarrow> log_inv t"
proof (induction rule: sys_step.induct)
  case (act_opens s b i f p)
  have "running_of (s\<lparr>sy_marks := (sy_marks s)(i := p),
      sy_acts := (sy_acts s)(b := Some \<lparr>sa_mark = i, sa_file = f, sa_phase = Opened\<rparr>)\<rparr>) j" if "running_of s j" for j
  proof -
    from that obtain c y where "sy_acts s c = Some y" "sa_mark y = j" "sa_phase y = Running" by (auto simp: running_of_def)
    moreover from this act_opens.hyps(1) have "c \<noteq> b" by auto
    ultimately show ?thesis by (auto simp: running_of_def)
  qed
  then show ?case by (intro log_inv_on [OF act_opens.prems]) auto
next
  case (act_takes s b a e "by" now v lg)
  then show ?case by (intro log_inv_takes)
next
  case (act_records s b a e res "by" hid now v lg)
  then show ?case by (intro log_inv_records)
next
  case (act_raises s b a)
  show ?case
    by (rule log_inv_on [OF act_raises.prems])
      (use running_of_lost [OF act_raises.hyps(1), of _ "Some Leaving" "\<lambda>p. p"] in auto)
next
  case (process_ends s b a)
  let ?g = "if has_lock (sa_phase a) then mark_unlock (sa_file a) else (\<lambda>p. p)"
  have k: "running_of (act_to b a None ?g s) i \<or> sa_phase a = Running \<and> i = sa_mark a" if "running_of s i" for i
    using running_of_others [OF process_ends.hyps _ that] running_of_lost [OF process_ends.hyps that] by blast
  show ?case
  proof (rule log_inv_on [OF process_ends.prems])
    fix i assume i: "running_of s i \<or> i \<in> sy_lost s"
    then show "running_of (act_to b a None ?g s\<lparr>sy_lost := (if sa_phase a = Running then insert (sa_mark a) (sy_lost s) else sy_lost s)\<rparr>) i
        \<or> i \<in> sy_lost (act_to b a None ?g s\<lparr>sy_lost := (if sa_phase a = Running then insert (sa_mark a) (sy_lost s) else sy_lost s)\<rparr>)"
      using k [of i] by (cases "running_of s i"; cases "has_lock (sa_phase a)") auto
  qed simp
next
  case (other_writes s rs r)
  then have rs: "log_ok rs" "open_is_live s rs" by (auto simp: log_inv_def)
  have "open_is_live (s\<lparr>sy_log := append_to [r] (sy_log s)\<rparr>) (rs @ [r])"
    using open_is_live_row [OF rs(2,1) other_writes.hyps(2,3)] by (simp add: open_is_live_def)
  moreover have "rows_of (append_to [r] (sy_log s)) = Inr (rs @ [r])"
    using other_writes.hyps(1) by (cases "sy_log s") auto
  ultimately show ?case using admissible_log_ok [OF rs(1) other_writes.hyps(2)] by (auto simp: log_inv_def)
qed (erule log_inv_on; use running_of_others in auto)+

section \<open>What find reports\<close>

definition sys_inv :: "sys \<Rightarrow> bool" where
  "sys_inv s \<longleftrightarrow> marks_ok s \<and> log_inv s"

lemma sys_run_inv: "sys_run s t \<Longrightarrow> sys_inv s \<Longrightarrow> sys_inv t"
  by (induction rule: sys_run.induct) (auto simp: sys_inv_def intro: sys_step_marks sys_step_log)

text \<open>The log only grows, a lost act stays lost, and a name removed is noted for good.\<close>

lemma sys_step_grows:
  assumes "sys_step s t" and "rows_of (sy_log s) = Inr rs"
  shows "(\<exists>new. rows_of (sy_log t) = Inr (rs @ new)) \<and> sy_lost s \<subseteq> sy_lost t \<and> sy_unnamed s \<subseteq> sy_unnamed t"
  using assms
proof (induction rule: sys_step.induct)
  case (act_takes s b a e "by" now v lg)
  from take_decision_rows(1) [OF act_takes.hyps(3) act_takes.prems] show ?case by auto
next
  case (act_records s b a e res "by" hid now v lg)
  from record_applied_rows [OF act_records.hyps(3) act_records.prems] show ?case by auto
next
  case (other_writes s rs' r)
  then show ?case by (cases "sy_log s") auto
qed (auto simp: unlinks_def)

lemma sys_run_grows:
  assumes "sys_run s t" and "rows_of (sy_log s) = Inr rs"
  shows "(\<exists>new. rows_of (sy_log t) = Inr (rs @ new)) \<and> sy_lost s \<subseteq> sy_lost t \<and> sy_unnamed s \<subseteq> sy_unnamed t"
  using assms
proof (induction rule: sys_run.induct)
  case (run_on s t u)
  then obtain new where "rows_of (sy_log t) = Inr (rs @ new)" "sy_lost s \<subseteq> sy_lost t" "sy_unnamed s \<subseteq> sy_unnamed t" by blast
  with sys_step_grows [OF run_on.hyps(2)] show ?case by fastforce
qed auto

lemma running_goes_on_run:
  assumes "sys_run s t" "sy_acts s b = Some a" "sa_phase a = Running" "rows_of (sy_log s) = Inr rs"
  shows "sy_acts t b = Some a \<or> sa_mark a \<in> sy_lost t \<or> (\<exists>rs'. rows_of (sy_log t) = Inr rs' \<and> applied_in (sa_mark a) rs')"
  using assms
proof (induction rule: sys_run.induct)
  case (run_on s t u)
  from sys_run_grows [OF run_on.hyps(1) run_on.prems(3)] obtain new where t: "rows_of (sy_log t) = Inr (rs @ new)" by blast
  from sys_step_grows [OF run_on.hyps(2) t] obtain more where u: "rows_of (sy_log u) = Inr (rs @ new @ more)"
    "sy_lost t \<subseteq> sy_lost u" by auto
  from run_on.IH [OF run_on.prems] consider "sy_acts t b = Some a" | "sa_mark a \<in> sy_lost t"
    | "applied_in (sa_mark a) (rs @ new)" using t by auto
  then show ?case
  proof cases
    case 1
    from running_goes_on [OF run_on.hyps(2) 1 run_on.prems(2) t] show ?thesis .
  next
    case 2
    with u(2) show ?thesis by blast
  next
    case 3
    with u(1) show ?thesis by (auto simp: applied_in_def)
  qed
qed auto

lemma fold_apply_mono:
  "v_taken v \<noteq> None \<Longrightarrow> v_taken (fold apply_row rs v) \<noteq> None"
  "v_applied (fold apply_row rs v) = None \<Longrightarrow> v_applied v = None"
proof -
  have t: "v_taken (apply_row r v) \<noteq> None" if "v_taken v \<noteq> None" for r v
    using that by (cases r) (auto simp: apply_row_def)
  have a: "v_applied v = None" if "v_applied (apply_row r v) = None" for r v
    using that by (cases r) (auto simp: apply_row_def split: if_splits)
  show "v_taken v \<noteq> None \<Longrightarrow> v_taken (fold apply_row rs v) \<noteq> None"
  proof (induction rs arbitrary: v)
    case (Cons r rs)
    from Cons.IH [OF t [OF Cons.prems]] show ?case by simp
  qed simp
  show "v_applied (fold apply_row rs v) = None \<Longrightarrow> v_applied v = None"
  proof (induction rs arbitrary: v)
    case (Cons r rs)
    then have "v_applied (apply_row r v) = None" by simp
    then show ?case by (rule a)
  qed simp
qed

lemma applied_not_open:
  assumes "log_ok rs" "applied_in (d_id v) rs" "v \<in> set (decisions rs)"
  shows "\<not> open_take v"
proof -
  from assms(2) obtain res "by" t where "Applied_row (d_id v) res by t \<in> set rs" by (auto simp: applied_in_def)
  then obtain xs ys where rs: "rs = xs @ Applied_row (d_id v) res by t # ys" by (meson split_list)
  from assms(1,3) obtain d where d: "v = fold apply_row rs (plain_view d)" by (auto simp: decisions_eq)
  let ?x = "fold apply_row xs (plain_view d)"
  have "d_id ?x = d_id v" using d by (simp add: fold_apply_fields)
  then have "v_applied (apply_row (Applied_row (d_id v) res by t) ?x) \<noteq> None" by (simp add: apply_row_def)
  moreover have "v = fold apply_row ys (apply_row (Applied_row (d_id v) res by t) ?x)" using d by (simp add: rs)
  ultimately show ?thesis using fold_apply_mono(2) by (metis open_take_def)
qed

text \<open>A take open before and after is open between.\<close>

lemma open_between:
  assumes "log_ok rs" "log_ok (rs @ a)" "log_ok (rs @ a @ b)"
    and "v \<in> set (decisions rs)" "open_take v"
    and "w \<in> set (decisions (rs @ a @ b))" "open_take w" "d_id w = d_id v"
  shows "\<exists>u \<in> set (decisions (rs @ a)). open_take u \<and> d_id u = d_id v"
proof -
  from assms(1,4) obtain d where d: "d \<in> set (decs rs)" "v = fold apply_row rs (plain_view d)"
    by (auto simp: decisions_eq)
  have decs: "decs (xs @ ys) = decs xs @ decs ys" for xs ys
    by (induction xs rule: decs.induct) auto
  from assms(3,6) obtain d' where d': "d' \<in> set (decs (rs @ a @ b))" "w = fold apply_row (rs @ a @ b) (plain_view d')"
    by (auto simp: decisions_eq)
  have "d_id d' = d_id d" using assms(8) d d' by (simp add: fold_apply_fields)
  moreover have "d \<in> set (decs (rs @ a @ b))" using d(1) by (simp add: decs)
  moreover have "inj_on d_id (set (decs (rs @ a @ b)))"
    using assms(3) unfolding log_ok_def distinct_map by blast
  ultimately have same: "d' = d" using d'(1) by (meson inj_onD)
  let ?u = "fold apply_row (rs @ a) (plain_view d)"
  have "?u \<in> set (decisions (rs @ a))" using d(1) assms(2) by (auto simp: decisions_eq decs)
  moreover have "d_id ?u = d_id v" using d by (simp add: fold_apply_fields)
  moreover have "open_take ?u"
  proof -
    have "v_taken (fold apply_row a v) \<noteq> None" using assms(5) by (intro fold_apply_mono) (simp add: open_take_def)
    moreover have "v_applied ?u = None"
      using assms(7) d'(2) same fold_apply_mono(2) [of b ?u] by (simp add: open_take_def)
    moreover have "d_outcome ?u \<in> {O_heal, O_propose}"
      using assms(5) d(2) by (simp add: open_take_def fold_apply_fields)
    ultimately show ?thesis using d(2) by (simp add: open_take_def)
  qed
  ultimately show ?thesis by blast
qed

definition sys_start :: sys where
  "sys_start = \<lparr>sy_log = No_log, sy_marks = no_marks, sy_acts = (\<lambda>_. None), sy_lost = {}, sy_unnamed = {}\<rparr>"

lemma sys_start_inv: "sys_inv sys_start"
  by (simp add: sys_inv_def sys_start_def marks_ok_def alone_def no_marks_def log_inv_def open_is_live_def decisions_def)

lemma in_find:
  assumes "find_interrupted lg1 (Some mks) lg2 = Inr found" and "(v, m) \<in> set found"
  shows "\<exists>rs1 rs2. rows_of lg1 = Inr rs1 \<and> rows_of lg2 = Inr rs2 \<and> v \<in> set (decisions rs1) \<and> open_take v
    \<and> m = mks (d_id v) \<and> m \<noteq> Held
    \<and> (\<exists>w \<in> set (decisions rs2). open_take w \<and> d_id w = d_id v)"
  using assms
proof -
  from assms(1) obtain rs1 where r1: "rows_of lg1 = Inr rs1"
    by (auto simp: find_interrupted_def bind_result_eq_Inr_iff)
  with assms obtain rs2 where r2: "rows_of lg2 = Inr rs2"
    by (auto simp: find_interrupted_def bind_result_eq_Inr_iff Let_def split: if_splits)
  have "(v, m) \<in> set (map (\<lambda>v. (v, mks (d_id v)))
      (filter (\<lambda>v. d_id v \<in> d_id ` set (open_takes rs2))
        (filter (\<lambda>v. mks (d_id v) \<noteq> Held) (open_takes rs1))))"
    using assms r1 r2 by (auto simp: find_interrupted_def bind_result_def Let_def split: if_splits)
  then have "v \<in> set (decisions rs1) \<and> open_take v \<and> m = mks (d_id v) \<and> m \<noteq> Held"
    and "d_id v \<in> d_id ` set (open_takes rs2)"
    by (auto simp: open_takes_def)
  moreover from this(2) obtain w where "w \<in> set (decisions rs2)" "open_take w" "d_id w = d_id v"
    by (auto simp: open_takes_def)
  ultimately show ?thesis using r1 r2 by blast
qed

text \<open>C7: find never names a heal that is running on its mark, or one that finished: however other processes' acts
  open, lock, write, take, record, raise, release or end, one system call at a time, between its reads of the decisions,
  of each mark (opened, then probed) and of the decisions again, each heal it reports was taken, its mark was not
  held, and its act has ended with no outcome recorded, or the name of its mark was removed by a release or a reap
  while an act was on the file it named.\<close>

theorem found_act_is_over:
  assumes "sys_run sys_start s1"
    and "\<And>i. \<exists>sa sb. sys_run s1 sa \<and> sys_run sa sb \<and> sys_run sb s3
               \<and> mks i = probed (sy_marks sa) (sy_marks sb) i"
    and "find_interrupted (sy_log s1) (Some mks) (sy_log s3) = Inr found"
    and "(v, m) \<in> set found"
  shows "open_take v \<and> m \<noteq> Held \<and> (d_id v \<in> sy_lost s3 \<or> d_id v \<in> sy_unnamed s3)"
proof -
  let ?i = "d_id v"
  from in_find [OF assms(3,4)] obtain rs1 rs3 w where f: "rows_of (sy_log s1) = Inr rs1" "rows_of (sy_log s3) = Inr rs3"
    "v \<in> set (decisions rs1)" "open_take v" "m = mks ?i" "m \<noteq> Held"
    "w \<in> set (decisions rs3)" "open_take w" "d_id w = ?i" by blast
  from assms(2) [of ?i] obtain s2 s2' where r: "sys_run s1 s2" "sys_run s2 s2'" "sys_run s2' s3"
    "mks ?i = probed (sy_marks s2) (sy_marks s2') ?i" by blast
  have i1: "sys_inv s1" by (rule sys_run_inv [OF assms(1) sys_start_inv])
  have i2: "sys_inv s2" "sys_inv s2'" "sys_inv s3"
    using sys_run_inv [OF r(1) i1] sys_run_inv [OF r(2)] sys_run_inv [OF r(3)] by auto
  from sys_run_grows [OF r(1) f(1)] obtain a where a: "rows_of (sy_log s2) = Inr (rs1 @ a)" by blast
  from sys_run_grows [OF r(2) a] obtain a' where a': "rows_of (sy_log s2') = Inr (rs1 @ a @ a')"
    "sy_lost s2 \<subseteq> sy_lost s2'" "sy_unnamed s2 \<subseteq> sy_unnamed s2'" by auto
  from sys_run_grows [OF r(3) a'(1)] f(2) obtain b where b: "rs3 = rs1 @ a @ a' @ b"
    "sy_lost s2' \<subseteq> sy_lost s3" "sy_unnamed s2' \<subseteq> sy_unnamed s3" by auto
  have ok: "log_ok rs1" "log_ok (rs1 @ a)" "log_ok (rs1 @ a @ a')" "log_ok (rs1 @ a @ a' @ b)"
    using i1 i2 f(1,2) a a'(1) b(1) by (auto simp: sys_inv_def log_inv_def)
  from open_between [of rs1 a "a' @ b" v w] ok f(3,4,7-9) b(1) obtain u where
    u: "u \<in> set (decisions (rs1 @ a))" "open_take u" "d_id u = ?i" by auto
  from open_between [of rs1 "a @ a'" b v w] ok f(3,4,7-9) b(1) obtain u' where
    u': "u' \<in> set (decisions (rs1 @ a @ a'))" "open_take u'" "d_id u' = ?i" by auto
  have "running_of s2 ?i \<or> ?i \<in> sy_lost s2"
    using i2(1) a u by (fastforce simp: sys_inv_def log_inv_def open_is_live_def)
  then have "?i \<in> sy_lost s3 \<or> ?i \<in> sy_unnamed s3"
  proof
    assume "running_of s2 ?i"
    then obtain c x where x: "sy_acts s2 c = Some x" "sa_mark x = ?i" "sa_phase x = Running" by (auto simp: running_of_def)
    have n: "mp_name (sy_marks s2 ?i) = Some (sa_file x) \<or> ?i \<in> sy_unnamed s2"
      using marks_okE(1) [OF _ x(1)] i2(1) x(2,3) by (auto simp: sys_inv_def act_ok_def)
    have "\<not> applied_in ?i (rs1 @ a @ a')" using applied_not_open [OF ok(3) _ u'(1)] u'(2,3) by auto
    with running_goes_on_run [OF r(2) x(1,3) a] a'(1) x(2) have on: "sy_acts s2' c = Some x \<or> ?i \<in> sy_lost s2'" by auto
    have "mf_locked (mp_files (sy_marks s2' ?i) (sa_file x))" if "sy_acts s2' c = Some x"
      using marks_okE(1) [OF _ that] i2(2) x(2,3) by (auto simp: sys_inv_def act_ok_def)
    with f(5,6) r(4) n on have "?i \<in> sy_unnamed s2 \<or> ?i \<in> sy_lost s2'"
      by (auto simp: probed_def file_state_def split: if_splits)
    with a'(3) b(2,3) show ?thesis by blast
  qed (use a'(2) b(2) in blast)
  with f(4,6) show ?thesis by blast
qed

section \<open>What a reap leaves\<close>

definition interrupted_rows :: "reap_env \<Rightarrow> epoch \<Rightarrow> decision_id \<Rightarrow> bool \<Rightarrow> log_row list" where
  "interrupted_rows env now i halts =
     Applied_row i INTERRUPTED ''heal to intent'' (iso now)
     # (if halts then [Halt_row \<lparr>h_id = re_halt_id env i, h_guard = 14, h_at = iso now, h_epoch = now\<rparr>] else [])"

lemma reap_one_rows:
  assumes "re_exists env" "rows_of (rp_log s) = Inr rs" "log_ok rs" "v \<in> set (decisions rs)" "d_id v = d_id (fst dm)"
  shows "rows_of (rp_log (snd (reap_one env now dm (out, s))))
    = Inr (rs @ interrupted_rows env now (d_id v) (may_have_sent (of_decision (rp_steps s) (d_id v))))"
proof -
  let ?i = "d_id v" and ?halts = "may_have_sent (of_decision (rp_steps s) (d_id v))"
  obtain d m where dm: "dm = (d, m)" by (cases dm)
  then have i: "d_id d = d_id v" using assms(5) by simp
  obtain w lg where a: "record_applied True ?i INTERRUPTED ''heal to intent'' (re_halt_id env ?i) now (rp_log s) = Inr (w, lg)"
    using record_applied_succeeds [OF assms(2-4)] by metis
  have lg: "rows_of lg = Inr (rs @ [Applied_row ?i INTERRUPTED ''heal to intent'' (iso now)])"
    using record_applied_rows [OF a assms(2)] by (simp add: INTERRUPTED_def ROLLED_BACK_def)
  let ?h = "Halt_row \<lparr>h_id = re_halt_id env ?i, h_guard = 14, h_at = iso now, h_epoch = now\<rparr>"
  have h: "append_row True ?h lg = Inr (append_to [?h] lg)" by (simp add: append_row_def)
  have "rp_log (snd (reap_one env now dm (out, s))) = (if ?halts then append_to [?h] lg else lg)"
    using assms(1) by (simp add: reap_one_def dm Let_def i a halt_network_def h bind_result_def split: sum.splits prod.splits)
  with append_row_Inr [OF h lg] lg show ?thesis by (simp add: interrupted_rows_def)
qed

lemma reap_one_steps:
  "may_have_sent (of_decision (rp_steps s) j) \<Longrightarrow> may_have_sent (of_decision (rp_steps (snd (reap_one env now dm (out, s)))) j)"
  by (auto simp: reap_one_def Let_def append_step_Inr may_have_sent_mono split: sum.splits prod.splits)

lemma interrupted_rows_log:
  assumes "log_ok rs" "v \<in> set (decisions rs)"
    and "rs' = rs @ interrupted_rows env now (d_id v) halts"
  shows "log_ok rs' \<and> map d_id (decisions rs') = map d_id (decisions rs)
    \<and> (\<forall>w \<in> set (decisions rs'). open_take w \<longrightarrow> d_id w \<noteq> d_id v \<and> (\<exists>u \<in> set (decisions rs). open_take u \<and> d_id u = d_id w))
    \<and> (halts \<or> halted rs \<noteq> None \<longrightarrow> halted rs' \<noteq> None)"
proof -
  let ?a = "Applied_row (d_id v) INTERRUPTED ''heal to intent'' (iso now)"
  let ?h = "Halt_row \<lparr>h_id = re_halt_id env (d_id v), h_guard = 14, h_at = iso now, h_epoch = now\<rparr>"
  have ad: "admissible rs ?a" using assms(2) by (auto simp: admissible_def)
  have ok: "log_ok (rs @ [?a])" by (rule admissible_log_ok [OF assms(1) ad])
  have ok2: "log_ok ((rs @ [?a]) @ [?h])" by (rule admissible_log_ok [OF ok]) (simp add: admissible_def)
  have d1: "decisions (rs @ [?a]) = map (apply_row ?a) (decisions rs)" by (rule decisions_other) simp
  have d2: "decisions ((rs @ [?a]) @ [?h]) = map (apply_row ?h) (decisions (rs @ [?a]))" by (rule decisions_other) simp
  have hid: "apply_row ?h x = x" for x by (simp add: apply_row_def)
  have same: "decisions rs' = map (apply_row ?a) (decisions rs)"
    using d1 d2 hid by (simp add: assms(3) interrupted_rows_def)
  have "d_id w \<noteq> d_id v \<and> (\<exists>u \<in> set (decisions rs). open_take u \<and> d_id u = d_id w)"
    if w: "w \<in> set (decisions rs')" "open_take w" for w
  proof -
    from w(1) same obtain u where u: "u \<in> set (decisions rs)" "w = apply_row ?a u" by auto
    then have o: "open_take (apply_row ?a u)" using w(2) by simp
    then have "d_id u \<noteq> d_id v" using not_open_applied [of u INTERRUPTED "''heal to intent''" "iso now"] by auto
    moreover have "open_take u" by (rule open_after_row [OF o]) simp
    ultimately show ?thesis using u by auto
  qed
  moreover have "log_ok rs'" using ok ok2 by (simp add: assms(3) interrupted_rows_def)
  moreover have "map d_id (decisions rs') = map d_id (decisions rs)" by (simp add: same comp_def)
  moreover have "halts \<or> halted rs \<noteq> None \<longrightarrow> halted rs' \<noteq> None"
    by (auto simp: assms(3) interrupted_rows_def halted_def halted_from_append)
  ultimately show ?thesis by blast
qed

lemma reap_loop_log:
  assumes "re_exists env" "rows_of (rp_log s) = Inr rs" "log_ok rs" "(\<lambda>dm. d_id (fst dm)) ` set ds \<subseteq> d_id ` set (decisions rs)"
  shows "\<exists>rs'. rows_of (rp_log (snd (reap_loop env now ds (out, s)))) = Inr rs' \<and> log_ok rs'
    \<and> (\<forall>w \<in> set (decisions rs'). open_take w \<longrightarrow> d_id w \<notin> (\<lambda>dm. d_id (fst dm)) ` set ds
          \<and> (\<exists>u \<in> set (decisions rs). open_take u \<and> d_id u = d_id w))
    \<and> (halted rs \<noteq> None \<or> (\<exists>dm \<in> set ds. may_have_sent (of_decision (rp_steps s) (d_id (fst dm)))) \<longrightarrow> halted rs' \<noteq> None)"
  using assms
proof (induction ds arbitrary: out s rs)
  case (Cons dm ds)
  obtain v where v: "v \<in> set (decisions rs)" "d_id v = d_id (fst dm)" using Cons.prems(4) by auto
  let ?s = "snd (reap_one env now dm (out, s))" and ?o = "fst (reap_one env now dm (out, s))"
  let ?halts = "may_have_sent (of_decision (rp_steps s) (d_id v))"
  let ?rs = "rs @ interrupted_rows env now (d_id v) ?halts"
  have rows: "rows_of (rp_log ?s) = Inr ?rs" by (rule reap_one_rows [OF Cons.prems(1-3) v])
  note l = interrupted_rows_log [OF Cons.prems(3) v(1), of ?rs env now ?halts, OF refl]
  have ids: "d_id ` set (decisions ?rs) = d_id ` set (decisions rs)"
    using l by (metis set_map)
  with Cons.prems(4) have "(\<lambda>dm. d_id (fst dm)) ` set ds \<subseteq> d_id ` set (decisions ?rs)" by auto
  from Cons.IH [OF Cons.prems(1) rows conjunct1 [OF l] this, of ?o] obtain rs' where
    r: "rows_of (rp_log (snd (reap_loop env now ds (?o, ?s)))) = Inr rs'" "log_ok rs'"
    "\<forall>w \<in> set (decisions rs'). open_take w \<longrightarrow> d_id w \<notin> (\<lambda>dm. d_id (fst dm)) ` set ds
          \<and> (\<exists>u \<in> set (decisions ?rs). open_take u \<and> d_id u = d_id w)"
    "halted ?rs \<noteq> None \<or> (\<exists>dm \<in> set ds. may_have_sent (of_decision (rp_steps ?s) (d_id (fst dm)))) \<longrightarrow> halted rs' \<noteq> None"
    by auto
  have o: "d_id w \<notin> (\<lambda>dm. d_id (fst dm)) ` set (dm # ds) \<and> (\<exists>u \<in> set (decisions rs). open_take u \<and> d_id u = d_id w)"
    if w: "w \<in> set (decisions rs')" "open_take w" for w
  proof -
    from r(3) w obtain u where u: "u \<in> set (decisions ?rs)" "open_take u" "d_id u = d_id w"
      "d_id w \<notin> (\<lambda>dm. d_id (fst dm)) ` set ds" by blast
    with l obtain x where "d_id u \<noteq> d_id v" "x \<in> set (decisions rs)" "open_take x" "d_id x = d_id u" by blast
    with u v(2) show ?thesis by auto
  qed
  have h: "halted rs' \<noteq> None"
    if any: "halted rs \<noteq> None \<or> (\<exists>dm \<in> set (dm # ds). may_have_sent (of_decision (rp_steps s) (d_id (fst dm))))"
  proof -
    consider "?halts \<or> halted rs \<noteq> None"
      | dm' where "dm' \<in> set ds" "may_have_sent (of_decision (rp_steps s) (d_id (fst dm')))"
      using any v(2) by (metis set_ConsD)
    then show ?thesis
    proof cases
      case 1
      with l have "halted ?rs \<noteq> None" by blast
      with r(4) show ?thesis by blast
    next
      case 2
      from reap_one_steps [OF 2(2)] 2(1) r(4) show ?thesis by blast
    qed
  qed
  show ?case using r(1,2) o h by (intro exI [of _ rs']) simp
qed auto

text \<open>What a reap leaves of the log.\<close>

lemma reap_leaves:
  assumes "reap env now True s = Inr (out, s')" and "re_exists env"
    and "rows_of (rp_log s) = Inr rs" and "log_ok rs"
  shows "\<exists>rs'. rows_of (rp_log s') = Inr rs'
    \<and> list_all (\<lambda>v. open_take v \<longrightarrow> locked (rp_marks s) (d_id v)) (decisions rs')
    \<and> (list_ex (\<lambda>v. open_take v \<and> \<not> locked (rp_marks s) (d_id v)
           \<and> may_have_sent (of_decision (rp_steps s) (d_id v))) (decisions rs) \<longrightarrow> halted rs' \<noteq> None)"
proof -
  from assms(1) obtain found where f: "find_interrupted (rp_log s) (Some (mark_state (rp_marks s))) (rp_log s) = Inr found"
    and s': "s' = snd (reap_loop env now found (\<lparr>ro_reaped = [], ro_unreaped = []\<rparr>, s))"
    by (auto simp: reap_def bind_result_eq_Inr_iff)
  let ?ids = "(\<lambda>dm. d_id (fst dm)) ` set found"
  have all: "d_id v \<in> ?ids" if v: "v \<in> set (decisions rs)" "open_take v" "\<not> locked (rp_marks s) (d_id v)" for v
  proof -
    have m: "mark_state (rp_marks s) (d_id v) \<noteq> Held" using v(3) mark_state_Held by blast
    have o: "v \<in> set (open_takes rs)" using v(1,2) by (simp add: open_takes_def)
    then have "open_takes rs \<noteq> []" "filter (\<lambda>v. mark_state (rp_marks s) (d_id v) \<noteq> Held) (open_takes rs) \<noteq> []"
      using m by (auto simp: filter_empty_conv)
    then have "(v, mark_state (rp_marks s) (d_id v)) \<in> set found"
      using f assms(3) o m by (auto simp: find_interrupted_def bind_result_def Let_def)
    then show ?thesis by force
  qed
  have sub: "?ids \<subseteq> d_id ` set (decisions rs)"
    using in_find [OF f] assms(3) by force
  from reap_loop_log [OF assms(2-4) sub, of now "\<lparr>ro_reaped = [], ro_unreaped = []\<rparr>"] obtain rs' where
    r: "rows_of (rp_log s') = Inr rs'"
    "\<forall>w \<in> set (decisions rs'). open_take w \<longrightarrow> d_id w \<notin> ?ids \<and> (\<exists>u \<in> set (decisions rs). open_take u \<and> d_id u = d_id w)"
    "(\<exists>dm \<in> set found. may_have_sent (of_decision (rp_steps s) (d_id (fst dm)))) \<Longrightarrow> halted rs' \<noteq> None"
    unfolding s' by blast
  have "list_all (\<lambda>v. open_take v \<longrightarrow> locked (rp_marks s) (d_id v)) (decisions rs')"
    unfolding list_all_iff
  proof (intro ballI impI)
    fix w assume "w \<in> set (decisions rs')" "open_take w"
    with r(2) obtain u where "u \<in> set (decisions rs)" "open_take u" "d_id u = d_id w" "d_id w \<notin> ?ids" by blast
    then show "locked (rp_marks s) (d_id w)" using all [of u] by auto
  qed
  moreover have "halted rs' \<noteq> None" if "list_ex (\<lambda>v. open_take v \<and> \<not> locked (rp_marks s) (d_id v)
           \<and> may_have_sent (of_decision (rp_steps s) (d_id v))) (decisions rs)"
  proof -
    from that obtain v where v: "v \<in> set (decisions rs)" "open_take v" "\<not> locked (rp_marks s) (d_id v)"
      "may_have_sent (of_decision (rp_steps s) (d_id v))" by (auto simp: list_ex_iff)
    from all [OF v(1-3)] obtain dm where "dm \<in> set found" "d_id (fst dm) = d_id v" by auto
    with v(4) r(3) show ?thesis by metis
  qed
  ultimately show ?thesis using r(1) by blast
qed

text \<open>A reap settles what was interrupted: once it has run on a network's readable records, no taken
  heal without an outcome is left but the ones whose act holds its mark; and if any it found may
  have sent (its program was written to the step log, or the step log cannot be read), the network
  is halted.\<close>

lemma reap_settles:
  assumes "reap env now True s = Inr (out, s')" and "re_exists env"
    and "rows_of (rp_log s) = Inr rs" and "log_ok rs"
  shows "\<exists>rs'. rows_of (rp_log s') = Inr rs'
    \<and> list_all (\<lambda>v. open_take v \<longrightarrow> locked (rp_marks s) (d_id v)) (decisions rs')
    \<and> (list_ex (\<lambda>v. open_take v \<and> \<not> locked (rp_marks s) (d_id v)
           \<and> may_have_sent (of_decision (rp_steps s) (d_id v))) (decisions rs) \<longrightarrow> halted rs' \<noteq> None)"
  by (rule reap_leaves [OF assms])

section \<open>Examples\<close>

lemma ex_taken_views: "decisions ex_rows = [apply_row (Taken_row ''hd1'' ''heal'' 200) (plain_view ex_heal)]"
proof -
  have "decisions ([] @ [Decision_row ex_heal]) = decisions [] @ [plain_view ex_heal]"
    by (rule decisions_record) (simp_all add: log_ok_def)
  moreover have "decisions ([Decision_row ex_heal] @ [Taken_row ''hd1'' ''heal'' 200])
      = map (apply_row (Taken_row ''hd1'' ''heal'' 200)) (decisions [Decision_row ex_heal])"
    by (rule decisions_other) simp
  ultimately show ?thesis by (simp add: ex_rows_def decisions_def)
qed

lemma ex_open: "v \<in> set (decisions ex_rows) \<Longrightarrow> d_id v = ''hd1'' \<and> open_take v"
  by (simp add: ex_taken_views open_take_def apply_row_def ex_heal_def ex_decision_def)

definition ex_place :: "nat option \<Rightarrow> bool \<Rightarrow> bool \<Rightarrow> mark_place" where
  "ex_place name w l = (no_marks ''hd1'')\<lparr>mp_name := name, mp_next := 1,
     mp_files := (\<lambda>_. \<lparr>mf_written = False, mf_locked = False\<rparr>)(0 := \<lparr>mf_written = w, mf_locked = l\<rparr>)\<rparr>"

definition ex_left :: marks where "ex_left = no_marks(''hd1'' := ex_place (Some 0) True False)"

lemma ex_found: "find_interrupted (Rows ex_rows) (Some (mark_state ex_left)) (Rows ex_rows) = Inr (map (\<lambda>v. (v, Left)) (decisions ex_rows))"
  "decisions ex_rows \<noteq> []"
proof -
  have o: "open_takes ex_rows = decisions ex_rows"
    using ex_open by (simp add: open_takes_def)
  show "decisions ex_rows \<noteq> []" by (simp add: ex_taken_views)
  moreover have "mark_state ex_left (d_id v) = Left" if "v \<in> set (decisions ex_rows)" for v
    using ex_open [OF that] by (simp add: mark_state_def probed_def file_state_def ex_left_def ex_place_def)
  ultimately show "find_interrupted (Rows ex_rows) (Some (mark_state ex_left)) (Rows ex_rows) = Inr (map (\<lambda>v. (v, Left)) (decisions ex_rows))"
    by (simp add: find_interrupted_def bind_result_def o Let_def filter_id_conv)
qed

text \<open>Runs of one or two acts on the mark of the decision \<open>''hd1''\<close>.\<close>

definition ex_sys :: "log \<Rightarrow> mark_place \<Rightarrow> act_phase option \<Rightarrow> act_phase option \<Rightarrow> decision_id set \<Rightarrow> decision_id set \<Rightarrow> sys" where
  "ex_sys lg p x y l u =
     (let a = map_option (\<lambda>ph. \<lparr>sa_mark = ''hd1'', sa_file = 0, sa_phase = ph\<rparr>) in
      \<lparr>sy_log = lg, sy_marks = no_marks(''hd1'' := p), sy_acts = (\<lambda>_. None)(2 := a x, 3 := a y), sy_lost = l, sy_unnamed = u\<rparr>)"

lemma ex_place_ops [simp]:
  "mark_lock 0 (ex_place n w l) = ex_place n w True" "mark_unlock 0 (ex_place n w l) = ex_place n w False"
  "mark_empty 0 (ex_place n w l) = ex_place n False l" "mark_write 0 (ex_place n w l) = ex_place n True l"
  "mark_unlink (ex_place n w l) = ex_place None w l" "mark_open (ex_place (Some 0) w l) = (0, ex_place (Some 0) w l)"
  "mark_open (no_marks ''hd1'') = (0, ex_place (Some 0) False False)" "mf_locked (mp_files (ex_place n w l) 0) = l"
  by (simp_all add: ex_place_def mark_ops mark_open_def no_marks_def fun_eq_iff)

lemma ex_act_to:
  "act_to 2 \<lparr>sa_mark = ''hd1'', sa_file = 0, sa_phase = q\<rparr> ph g (ex_sys lg p x y l u) = ex_sys lg (g p) ph y l u"
  "act_to 3 \<lparr>sa_mark = ''hd1'', sa_file = 0, sa_phase = q\<rparr> ph g (ex_sys lg p x y l u) = ex_sys lg (g p) x ph l u"
  by (cases ph; auto simp: act_to_def ex_sys_def Let_def fun_eq_iff)+

lemma ex_acts:
  "sy_acts (ex_sys lg p (Some q) y l u) 2 = Some \<lparr>sa_mark = ''hd1'', sa_file = 0, sa_phase = q\<rparr>"
  "sy_acts (ex_sys lg p x (Some q) l u) 3 = Some \<lparr>sa_mark = ''hd1'', sa_file = 0, sa_phase = q\<rparr>"
  "sy_acts (ex_sys lg p None y l u) 2 = None" "sy_acts (ex_sys lg p x None l u) 3 = None"
  by (simp_all add: ex_sys_def Let_def)

lemma ex_sys_simps [simp]:
  "sy_log (ex_sys lg p x y l u) = lg" "sy_marks (ex_sys lg p x y l u) ''hd1'' = p"
  "(ex_sys lg p x y l u)\<lparr>sy_log := lg'\<rparr> = ex_sys lg' p x y l u"
  "sy_lost (ex_sys lg p x y l u) = l" "sy_unnamed (ex_sys lg p x y l u) = u"
  "(ex_sys lg p x y l u)\<lparr>sy_lost := l'\<rparr> = ex_sys lg p x y l' u"
  by (simp_all add: ex_sys_def Let_def)

definition ex_decided_log :: log where "ex_decided_log = Rows [Decision_row ex_heal]"

lemma ex_taken: "\<exists>w. take_decision True ''hd1'' ''heal'' 200 ex_decided_log = Inr (w, Rows ex_rows)"
proof -
  have v: "decisions [Decision_row ex_heal] = [plain_view ex_heal]"
    using decisions_record [of "[]" ex_heal] by (simp add: log_ok_def decisions_def)
  have hd1: "d_id ex_heal = ''hd1''" "d_outcome ex_heal = O_heal" by (simp_all add: ex_heal_def ex_decision_def)
  show ?thesis
    by (simp add: take_decision_def find_decision_def bind_result_def v append_find_def append_row_def ex_decided_log_def
        hd1 ex_rows_def [symmetric] ex_taken_views)
qed

lemma ex_opened:
  "(ex_sys lg p None y l u)\<lparr>sy_marks := (sy_marks (ex_sys lg p None y l u))(''hd1'' := p'),
      sy_acts := (sy_acts (ex_sys lg p None y l u))(2 \<mapsto> \<lparr>sa_mark = ''hd1'', sa_file = 0, sa_phase = Opened\<rparr>)\<rparr>
    = ex_sys lg p' (Some Opened) y l u"
  "(ex_sys lg p x None l u)\<lparr>sy_marks := (sy_marks (ex_sys lg p x None l u))(''hd1'' := p'),
      sy_acts := (sy_acts (ex_sys lg p x None l u))(3 \<mapsto> \<lparr>sa_mark = ''hd1'', sa_file = 0, sa_phase = Opened\<rparr>)\<rparr>
    = ex_sys lg p' x (Some Opened) l u"
  by (auto simp: ex_sys_def Let_def fun_eq_iff)

text \<open>The steps of the first act and of the second.\<close>

lemma ex_one_does:
  "mark_open p = (0, p') \<Longrightarrow> sys_step (ex_sys lg p None y l u) (ex_sys lg p' (Some Opened) y l u)"
  "\<not> mf_locked (mp_files p 0) \<Longrightarrow> sys_step (ex_sys lg p (Some Opened) y l u) (ex_sys lg (mark_lock 0 p) (Some Locked) y l u)"
  "sys_step (ex_sys lg p (Some Locked) y l u) (ex_sys lg (mark_empty 0 p) (Some Emptied) y l u)"
  "sys_step (ex_sys lg p (Some Emptied) y l u) (ex_sys lg (mark_write 0 p) (Some Holding) y l u)"
  "take_decision e ''hd1'' by now lg = Inr (v, lg') \<Longrightarrow> sys_step (ex_sys lg p (Some Holding) y l u) (ex_sys lg' p (Some Running) y l u)"
  "sys_step (ex_sys lg p (Some Holding) y l u) (ex_sys lg p (Some Leaving) y l u)"
  "sys_step (ex_sys lg p (Some Leaving) y l u) (ex_sys lg (mark_empty 0 p) (Some Cleared) y l u)"
  "sys_step (ex_sys lg p (Some Cleared) y l u) (ex_sys lg (mark_unlock 0 p) (Some Unlocked) y l u)"
  "sys_step (ex_sys lg p (Some Running) y l u) (ex_sys lg (mark_unlock 0 p) None y (insert ''hd1'' l) u)"
  using act_locks [OF ex_acts(1) [of lg p Opened y l u]] act_empties [OF ex_acts(1) [of lg p Locked y l u]]
    act_writes [OF ex_acts(1) [of lg p Emptied y l u]] act_takes [OF ex_acts(1) [of lg p Holding y l u], of e "by" now v lg']
    act_untaken [OF ex_acts(1) [of lg p Holding y l u]] act_clears [OF ex_acts(1) [of lg p Leaving y l u]]
    act_unlocks [OF ex_acts(1) [of lg p Cleared y l u]] process_ends [OF ex_acts(1) [of lg p Running y l u]]
  by (simp_all add: ex_act_to)
    (use act_opens [OF ex_acts(3) [of lg p y l u], of "''hd1''" 0 p'] in \<open>simp add: ex_opened\<close>)

lemma ex_two_does:
  "mark_open p = (0, p') \<Longrightarrow> sys_step (ex_sys lg p x None l u) (ex_sys lg p' x (Some Opened) l u)"
  "\<not> mf_locked (mp_files p 0) \<Longrightarrow> sys_step (ex_sys lg p x (Some Opened) l u) (ex_sys lg (mark_lock 0 p) x (Some Locked) l u)"
  "sys_step (ex_sys lg p x (Some Locked) l u) (ex_sys lg (mark_empty 0 p) x (Some Emptied) l u)"
  "sys_step (ex_sys lg p x (Some Emptied) l u) (ex_sys lg (mark_write 0 p) x (Some Holding) l u)"
  "take_decision e ''hd1'' by now lg = Inr (v, lg') \<Longrightarrow> sys_step (ex_sys lg p x (Some Holding) l u) (ex_sys lg' p x (Some Running) l u)"
  using act_locks [OF ex_acts(2) [of lg p x Opened l u]] act_empties [OF ex_acts(2) [of lg p x Locked l u]]
    act_writes [OF ex_acts(2) [of lg p x Emptied l u]] act_takes [OF ex_acts(2) [of lg p x Holding l u], of e "by" now v lg']
  by (simp_all add: ex_act_to)
    (use act_opens [OF ex_acts(4) [of lg p x l u], of "''hd1''" 0 p'] in \<open>simp add: ex_opened\<close>)

lemma ex_unlinks:
  "sys_step (ex_sys lg (ex_place (Some 0) w lk) (Some Unlocked) (Some Holding) l u)
            (ex_sys lg (ex_place None w lk) None (Some Holding) l (insert ''hd1'' u))"
proof -
  let ?s = "ex_sys lg (ex_place (Some 0) w lk) None (Some Holding) l u"
  have n: "mp_name (ex_place (Some 0) w lk) = Some 0" by (simp add: ex_place_def)
  have "sys_step (ex_sys lg (ex_place (Some 0) w lk) (Some Unlocked) (Some Holding) l u) (unlinks ''hd1'' ?s)"
    using act_unlinks [OF ex_acts(1) [of lg "ex_place (Some 0) w lk" Unlocked "Some Holding" l u]] by (simp add: ex_act_to)
  moreover have "\<exists>b a. sy_acts ?s b = Some a \<and> sa_mark a = ''hd1'' \<and> going (sa_phase a)
      \<and> mp_name (sy_marks ?s ''hd1'') = Some (sa_file a)"
    by (intro exI [of _ 3] exI [of _ "\<lparr>sa_mark = ''hd1'', sa_file = 0, sa_phase = Holding\<rparr>"]) (simp add: ex_acts n)
  then have "unlinks ''hd1'' ?s = ex_sys lg (ex_place None w lk) None (Some Holding) l (insert ''hd1'' u)"
    by (auto simp: unlinks_def ex_sys_def Let_def)
  ultimately show ?thesis by metis
qed

lemma ex_start_decided: "sys_run sys_start (ex_sys ex_decided_log (no_marks ''hd1'') None None {} {})"
proof -
  have "sys_step sys_start (sys_start\<lparr>sy_log := append_to [Decision_row ex_heal] (sy_log sys_start)\<rparr>)"
    by (rule other_writes [where rs = "[]"]) (simp_all add: sys_start_def admissible_def)
  moreover have "sys_start\<lparr>sy_log := append_to [Decision_row ex_heal] (sy_log sys_start)\<rparr>
      = ex_sys ex_decided_log (no_marks ''hd1'') None None {} {}"
    by (auto simp: sys_start_def ex_sys_def ex_decided_log_def fun_eq_iff)
  ultimately show ?thesis using run_on [OF run_here] by metis
qed

definition ex_lost :: sys where
  "ex_lost = ex_sys (Rows ex_rows) (ex_place (Some 0) True False) None None {''hd1''} {}"

lemma ex_holds: "sys_run sys_start (ex_sys ex_decided_log (ex_place (Some 0) True True) (Some Holding) None {} {})"
proof -
  let ?D = ex_decided_log and ?at = "\<lambda>w l x. ex_sys ex_decided_log (ex_place (Some 0) w l) (Some x) None {} {}"
  have 1: "sys_step (ex_sys ?D (no_marks ''hd1'') None None {} {}) (?at False False Opened)" by (rule ex_one_does(1)) simp
  have 2: "sys_step (?at False False Opened) (?at False True Locked)"
    using ex_one_does(2) [of "ex_place (Some 0) False False"] by simp
  have 3: "sys_step (?at False True Locked) (?at False True Emptied)"
    using ex_one_does(3) [of _ "ex_place (Some 0) False True"] by simp
  have 4: "sys_step (?at False True Emptied) (?at True True Holding)"
    using ex_one_does(4) [of _ "ex_place (Some 0) False True"] by simp
  from run_on [OF run_on [OF run_on [OF run_on [OF ex_start_decided 1] 2] 3] 4] show ?thesis .
qed

lemma ex_sys_run: "sys_run sys_start ex_lost"
proof -
  obtain w where t: "take_decision True ''hd1'' ''heal'' 200 ex_decided_log = Inr (w, Rows ex_rows)" using ex_taken by blast
  have "sys_step (ex_sys (Rows ex_rows) (ex_place (Some 0) True True) (Some Running) None {} {}) ex_lost"
    using ex_one_does(9) [of "Rows ex_rows" "ex_place (Some 0) True True" None "{}" "{}"] by (simp add: ex_lost_def)
  with run_on [OF ex_holds ex_one_does(5) [OF t]] show ?thesis by (rule run_on)
qed

theorem found_act_is_over_witness:
  "''hd1'' \<in> sy_lost ex_lost \<and> ''hd1'' \<notin> sy_unnamed ex_lost
   \<and> (\<exists>v. find_interrupted (sy_log ex_lost) (Some (mark_state (sy_marks ex_lost))) (sy_log ex_lost) = Inr [(v, Left)]
        \<and> d_id v = ''hd1'' \<and> open_take v)"
proof -
  let ?v = "apply_row (Taken_row ''hd1'' ''heal'' 200) (plain_view ex_heal)"
  have "sy_marks ex_lost = ex_left" by (simp add: ex_lost_def ex_sys_def ex_left_def)
  then have f: "find_interrupted (sy_log ex_lost) (Some (mark_state (sy_marks ex_lost))) (sy_log ex_lost) = Inr [(?v, Left)]"
    using ex_found(1) by (simp add: ex_lost_def ex_taken_views)
  have "d_id ?v = ''hd1''" by (rule conjunct1 [OF ex_open]) (simp add: ex_taken_views)
  moreover have "open_take ?v"
    using found_act_is_over [OF ex_sys_run, of ex_lost "mark_state (sy_marks ex_lost)" "[(?v, Left)]" ?v Left] run_here f
    by (auto simp: mark_state_def)
  ultimately show ?thesis using f by (auto simp: ex_lost_def)
qed

text \<open>The name of a mark can be removed from under a running act, and \<open>find\<close> then reports the act that runs: a first act that
  takes nothing empties its mark, a second opens it, the first unlocks it, the second locks and writes it, the
  first removes its name, and the second takes the decision.\<close>

lemma running_act_reported:
  "\<exists>s v. sys_run sys_start s
     \<and> find_interrupted (sy_log s) (Some (mark_state (sy_marks s))) (sy_log s) = Inr [(v, No_mark)]
     \<and> running_of s (d_id v) \<and> d_id v \<notin> sy_lost s \<and> d_id v \<in> sy_unnamed s"
proof -
  obtain w where t: "take_decision True ''hd1'' ''heal'' 200 ex_decided_log = Inr (w, Rows ex_rows)" using ex_taken by blast
  let ?at = "\<lambda>w l x y. ex_sys ex_decided_log (ex_place (Some 0) w l) (Some x) y {} {}"
  let ?over = "ex_sys (Rows ex_rows) (ex_place None True True) None (Some Running) {} {''hd1''}"
  have 1: "sys_step (?at True True Holding None) (?at True True Leaving None)" by (rule ex_one_does(6))
  have 2: "sys_step (?at True True Leaving None) (?at False True Cleared None)"
    using ex_one_does(7) [of _ "ex_place (Some 0) True True"] by simp
  have 3: "sys_step (?at False True Cleared None) (?at False True Cleared (Some Opened))" by (rule ex_two_does(1)) simp
  have 4: "sys_step (?at False True Cleared (Some Opened)) (?at False False Unlocked (Some Opened))"
    using ex_one_does(8) [of _ "ex_place (Some 0) False True"] by simp
  have 5: "sys_step (?at False False Unlocked (Some Opened)) (?at False True Unlocked (Some Locked))"
    using ex_two_does(2) [of "ex_place (Some 0) False False"] by simp
  have 6: "sys_step (?at False True Unlocked (Some Locked)) (?at False True Unlocked (Some Emptied))"
    using ex_two_does(3) [of _ "ex_place (Some 0) False True"] by simp
  have 7: "sys_step (?at False True Unlocked (Some Emptied)) (?at True True Unlocked (Some Holding))"
    using ex_two_does(4) [of _ "ex_place (Some 0) False True"] by simp
  note r = run_on [OF run_on [OF run_on [OF run_on [OF run_on [OF run_on [OF run_on [OF run_on [OF ex_holds 1] 2] 3] 4] 5] 6] 7] ex_unlinks]
  have run: "sys_run sys_start ?over" using run_on [OF r ex_two_does(5) [OF t]] by simp
  let ?v = "apply_row (Taken_row ''hd1'' ''heal'' 200) (plain_view ex_heal)"
  have v: "d_id ?v = ''hd1''" "open_take ?v" using ex_open [of ?v] by (simp_all add: ex_taken_views)
  have "mark_state (sy_marks ?over) ''hd1'' = No_mark" by (simp add: mark_state_def probed_def ex_place_def)
  then have "find_interrupted (sy_log ?over) (Some (mark_state (sy_marks ?over))) (sy_log ?over) = Inr [(?v, No_mark)]"
    using v by (simp add: find_interrupted_def bind_result_def open_takes_def ex_taken_views)
  moreover have "running_of ?over ''hd1''"
    unfolding running_of_def
    by (intro exI [of _ 3] exI [of _ "\<lparr>sa_mark = ''hd1'', sa_file = 0, sa_phase = Running\<rparr>"]) (simp add: ex_acts)
  ultimately show ?thesis using run v by (intro exI [of _ ?over] exI [of _ ?v]) simp
qed

definition ex_reap :: reap_env where
  "ex_reap = \<lparr>re_exists = True, re_halt_id = (\<lambda>_. ''hh9''), re_step_id = (\<lambda>_. ''hs9''), re_keeps = True\<rparr>"

end
