(* ===== verification/Act_Run.thy ===== *)
theory Act_Run
  imports Interrupted
begin

text \<open>
  The runner's step of a network (\<open>modules/heal/act.py\<close>: \<open>run\<close>, \<open>start\<close>, \<open>act_one\<close>): the heals whose
  job ended are reaped, then each heal decision not yet taken has its mark held, is taken, and is
  started as its own job; a job that cannot start is recorded as refused, its incident closed and
  its mark released.

  What starts, and which marks can be opened, are arguments. A started job is its own process's
  (\<open>Interrupted\<close> says what its steps do to the log and its mark, \<open>Act\<close> what it does to the device).

  The lemmas: each heal waiting is answered once, and what is started is taken and held; and the end
  to end guarantee across the act, the step log, the marks and the reap: an act that changed its
  device and ended with no outcome leaves the network halted once it is reaped.
\<close>

section \<open>One act\<close>

datatype act_answer = Act_refused | Act_done act_outcome bool

text \<open>\<open>decisions.Refused\<close>, as against what else a take raises.\<close>

definition take_refusal :: "heal_error \<Rightarrow> bool" where
  "take_refusal e \<longleftrightarrow> e \<notin> {Store_unreadable, Heal_busy, Not_a_person, Raised}"

definition act_one ::
    "heal_env \<Rightarrow> 'w act_sources \<Rightarrow> bool \<Rightarrow> decision_id \<Rightarrow> epoch \<Rightarrow> marks \<times> 'w act_state
     \<Rightarrow> (heal_error + act_answer) \<times> marks \<times> 'w act_state" where
  "act_one env src keeps_raised i now ms =
     (let (mk, s) = ms in
      case mark_acquire i mk of
        Inl _ \<Rightarrow> (Inr Act_refused, mk, s)
      | Inr mk1 \<Rightarrow>
          (case take_decision (ac_exists src) i ''heal to intent: the apply'' now (at_log s) of
             Inl e \<Rightarrow> (if take_refusal e then Inr Act_refused else Inl e, mark_release i mk1, s)
           | Inr (v, lg) \<Rightarrow>
               (case guarded_act env src keeps_raised (decision.truncate v) now (s\<lparr>at_log := lg\<rparr>) of
                  (Inl e, s1) \<Rightarrow> (Inl e, mark_release i mk1, s1)
                | (Inr (out, sent), s1) \<Rightarrow> (Inr (Act_done out sent), mark_release i mk1, s1))))"

section \<open>The runner\<close>

record runner_state =
  ra_store :: store
  ra_log :: log
  ra_marks :: marks
  ra_started :: "decision_id list"
  ra_refused :: "decision_id list"
  ra_failed :: "decision_id list"

record start_env =
  se_exists :: bool
  se_opens :: "decision_id \<Rightarrow> bool"
  se_starts :: "decision_id \<Rightarrow> bool"
  se_halt_id :: "decision_id \<Rightarrow> string"

definition start_one ::
    "start_env \<Rightarrow> epoch \<Rightarrow> dview \<Rightarrow> runner_state \<Rightarrow> (heal_error + unit) \<times> runner_state" where
  "start_one env now d s =
     (let i = d_id d; refused = s\<lparr>ra_refused := ra_refused s @ [i]\<rparr> in
      if \<not> se_opens env i then (Inr (), refused)
      else case mark_acquire i (ra_marks s) of
        Inl _ \<Rightarrow> (Inr (), refused)
      | Inr mk \<Rightarrow>
          (case take_decision (se_exists env) i ''heal to intent: the apply'' now (ra_log s) of
             Inl e \<Rightarrow>
               if take_refusal e then (Inr (), refused\<lparr>ra_marks := mark_release i mk\<rparr>)
               else (Inl e, s\<lparr>ra_marks := mk\<rparr>)
           | Inr (v, lg) \<Rightarrow>
               if se_starts env i
               then (Inr (), s\<lparr>ra_log := lg, ra_marks := mk, ra_started := ra_started s @ [i]\<rparr>)
               else
                 (case record_applied (se_exists env) i ''refused'' ''heal to intent'' (se_halt_id env i) now lg of
                    Inl e \<Rightarrow> (Inl e, s\<lparr>ra_log := lg, ra_marks := mk\<rparr>)
                  | Inr (_, lg1) \<Rightarrow>
                      (case close_incident (se_exists env) (d_incident d) ''refused'' now (ra_store s) of
                         Inl e \<Rightarrow> (Inl e, s\<lparr>ra_log := lg1, ra_marks := mk\<rparr>)
                       | Inr (_, st) \<Rightarrow>
                           (Inr (), s\<lparr>ra_log := lg1, ra_store := st, ra_marks := mark_release i mk,
                                      ra_failed := ra_failed s @ [i]\<rparr>)))))"

fun start_loop ::
    "start_env \<Rightarrow> epoch \<Rightarrow> dview list \<Rightarrow> runner_state \<Rightarrow> (heal_error + unit) \<times> runner_state" where
  "start_loop env now [] s = (Inr (), s)"
| "start_loop env now (d # ds) s =
     (case start_one env now d s of
        (Inl e, s') \<Rightarrow> (Inl e, s')
      | (Inr _, s') \<Rightarrow> start_loop env now ds s')"

text \<open>\<open>run\<close>: a reap that cannot read its records says so and the pass goes on; decisions that cannot be
  read start nothing.\<close>

definition act_run ::
    "reap_env \<Rightarrow> start_env \<Rightarrow> epoch \<Rightarrow> bool \<Rightarrow> reap_state
     \<Rightarrow> (heal_error + unit) \<times> runner_state \<times> reap_out option" where
  "act_run renv env now marks_read s =
     (let (ro, s1) = (case reap renv now marks_read s of Inl _ \<Rightarrow> (None, s) | Inr (ro, s1) \<Rightarrow> (Some ro, s1));
          a = \<lparr>ra_store = rp_store s1, ra_log = rp_log s1, ra_marks = rp_marks s1, ra_started = [], ra_refused = [],
               ra_failed = []\<rparr>
      in case rows_of (rp_log s1) of
           Inl _ \<Rightarrow> (Inr (), a, ro)
         | Inr rs \<Rightarrow> (case start_loop env now (to_apply rs) a of (r, a') \<Rightarrow> (r, a', ro)))"

section \<open>An act lost after it sent\<close>

text \<open>What an act that raised leaves: the log as its take left it, and where it had changed anything, the
  row that says it may have sent.\<close>

lemma apply_raised:
  assumes "apply_decision env src d now s = (Inl e, s1)"
  shows "at_log s1 = at_log s \<and> (at_world s1 \<noteq> at_world s \<longrightarrow> may_have_sent (of_decision (at_steps s1) (d_id d)))"
proof -
  from assms obtain c prog sl where k: "act_checked env src (at_store s) (at_log s) d now = Inr (c, prog)"
    and sl: "append_step (ac_exists src) (ac_keeps_started src)
      (started_step (ac_step_id src) d STEPS_BEFORE_APPLY (hp_hash prog)) (at_steps s) = Inr sl"
    by (auto simp: apply_decision_def Let_def split: sum.splits)
  have "may_have_sent (of_decision sl (d_id d))"
    using sl by (auto simp: append_step_Inr started_step_def step_for_def intro!: started_may_have_sent)
  moreover have "s1 = s\<lparr>at_steps := sl, at_world := at_world s1\<rparr>"
    using assms k sl by (auto simp: apply_decision_def Let_def split: sum.splits prod.splits)
  ultimately show ?thesis by (metis act_state.select_convs act_state.surjective act_state.update_convs(3,4))
qed

lemma guarded_raised:
  assumes "guarded_act env src kr d now s = (Inl e, s1)"
  shows "at_log s1 = at_log s \<and> (at_world s1 \<noteq> at_world s \<longrightarrow> may_have_sent (of_decision (at_steps s1) (d_id d)))"
proof -
  from assms obtain s0 where a: "apply_decision env src d now s = (Inl e, s0)"
    and s1: "s1 = s0\<lparr>at_steps := (case append_step (ac_exists src) kr (raised_step (ac_step_id src) d) (at_steps s0) of
                                   Inl _ \<Rightarrow> at_steps s0 | Inr sl \<Rightarrow> sl)\<rparr>"
    by (auto simp: guarded_act_def split: prod.splits sum.splits)
  have "may_have_sent (of_decision (at_steps s0) j) \<Longrightarrow> may_have_sent (of_decision (at_steps s1) j)" for j
    by (auto simp: s1 append_step_Inr may_have_sent_mono split: sum.splits)
  with apply_raised [OF a] show ?thesis by (auto simp: s1)
qed

text \<open>C3: an act that changed its device and ended without an outcome never goes unnoticed: once the network's
  records are reaped, the network is halted, and heals nothing more until a person lifts it.\<close>

theorem lost_act_halts:
  assumes "act_one env src kr i now (mk, s) = (Inl e, mk1, s1)" and "at_world s1 \<noteq> at_world s"
    and "rows_of (at_log s) = Inr rs" and "log_ok rs" and "list_all (\<lambda>v. d_id v = i \<longrightarrow> v_applied v = None) (decisions rs)"
    and "reap renv later True \<lparr>rp_store = at_store s1, rp_log = at_log s1, rp_steps = at_steps s1, rp_marks = mk1\<rparr>
           = Inr (out, s2)"
    and "re_exists renv"
  shows "\<exists>rs'. rows_of (rp_log s2) = Inr rs' \<and> halted rs' \<noteq> None"
proof -
  let ?t = "Taken_row i ''heal to intent: the apply'' (iso now)"
  from assms(1,2) obtain mk0 v lg where t: "take_decision (ac_exists src) i ''heal to intent: the apply'' now (at_log s) = Inr (v, lg)"
    and g: "guarded_act env src kr (decision.truncate v) now (s\<lparr>at_log := lg\<rparr>) = (Inl e, s1)"
    and mk1: "mk1 = mark_release i mk0" and mk0: "mark_acquire i mk = Inr mk0"
    by (auto simp: act_one_def Let_def split: sum.splits prod.splits if_splits)
  note rows = take_decision_rows [OF t assms(3)]
  have ok: "log_ok (rs @ [?t])" by (rule admissible_log_ok [OF assms(4) rows(2)])
  from rows(2) obtain u where u: "u \<in> set (decisions rs)" "d_id u = i" "d_outcome u \<in> {O_heal, O_propose}"
    by (auto simp: admissible_def)
  have "v_applied u = None" using assms(5) u by (auto simp: list_all_iff)
  then have w: "open_take (apply_row ?t u)" "d_id (apply_row ?t u) = i" "apply_row ?t u \<in> set (decisions (rs @ [?t]))"
    using u by (auto simp: open_take_def apply_row_def decisions_other)
  have "d_id v = i"
  proof -
    have "find_decision lg i = Inr v"
      using t by (auto simp: take_decision_def append_find_def bind_result_eq_Inr_iff split: if_splits)
    from find_decision_RowsD [OF this rows(1)] show ?thesis by simp
  qed
  then have id: "d_id (decision.truncate v) = i" by (simp add: decision.truncate_def)
  have s: "at_log s1 = lg" "may_have_sent (of_decision (at_steps s1) i)"
    using guarded_raised [OF g] assms(2) id by simp_all
  let ?lost = "\<lambda>v. open_take v \<and> \<not> locked mk1 (d_id v) \<and> may_have_sent (of_decision (at_steps s1) (d_id v))"
  have "\<not> locked mk1 i" using mark_acquire_Inr [OF mk0] by (simp add: mk1)
  then have "?lost (apply_row ?t u)" using w(1) s(2) unfolding w(2) by (intro conjI)
  then have ex: "list_ex ?lost (decisions (rs @ [?t]))"
    unfolding list_ex_iff by (rule bexI [OF _ w(3)])
  have r: "rows_of (rp_log \<lparr>rp_store = at_store s1, rp_log = at_log s1, rp_steps = at_steps s1, rp_marks = mk1\<rparr>)
      = Inr (rs @ [?t])" using rows(1) s(1) by simp
  from reap_leaves [OF assms(6,7) r ok] obtain rs' where rs': "rows_of (rp_log s2) = Inr rs'"
    "list_ex ?lost (decisions (rs @ [?t])) \<longrightarrow> halted rs' \<noteq> None"
    unfolding reap_state.select_convs by (elim exE conjE)
  show ?thesis by (rule exI [of _ rs'], rule conjI [OF rs'(1)], rule mp [OF rs'(2) ex])
qed

section \<open>What the runner does with each heal waiting\<close>

definition said_refused :: "decision_id \<Rightarrow> log_row \<Rightarrow> bool" where
  "said_refused i r \<longleftrightarrow> (case r of Applied_row j res by t \<Rightarrow> j = i \<and> res = ''refused'' | _ \<Rightarrow> False)"

text \<open>A state after it, for the decisions \<open>is\<close> it went through: how each was answered, and what holds of
  those it started and those that could not start.\<close>

definition went_through :: "decision_id list \<Rightarrow> log_row list \<Rightarrow> runner_state \<Rightarrow> runner_state \<Rightarrow> bool" where
  "went_through is rs s s' \<longleftrightarrow>
     (\<exists>new st rf fa. rows_of (ra_log s') = Inr (rs @ new) \<and> log_ok (rs @ new)
        \<and> ra_started s' = ra_started s @ st \<and> ra_refused s' = ra_refused s @ rf \<and> ra_failed s' = ra_failed s @ fa
        \<and> mset st + mset rf + mset fa = mset is
        \<and> (\<forall>j. j \<notin> set is \<longrightarrow> locked (ra_marks s') j = locked (ra_marks s) j)
        \<and> (\<forall>j \<in> set st. locked (ra_marks s') j \<and> (\<exists>r \<in> set new. takes j r))
        \<and> (\<forall>j \<in> set fa. \<not> locked (ra_marks s') j \<and> (\<exists>r \<in> set new. said_refused j r)))"

lemma start_one_through:
  assumes "start_one env now d s = (Inr (), s')" and "rows_of (ra_log s) = Inr rs" and "log_ok rs"
  shows "went_through [d_id d] rs s s'"
proof -
  let ?i = "d_id d"
  let ?t = "Taken_row ?i ''heal to intent: the apply'' (iso now)"
  have l: "locked mk j = locked (ra_marks s) j" if "mark_acquire ?i (ra_marks s) = Inr mk" "j \<noteq> ?i" for mk j
    using mark_acquire_Inr(2) [OF that(1)] that(2) by simp
  have lk: "locked mk ?i" if "mark_acquire ?i (ra_marks s) = Inr mk" for mk
    using mark_acquire_Inr(2) [OF that] by simp
  have lr: "locked (mark_release ?i mk) j = locked (ra_marks s) j" "\<not> locked (mark_release ?i mk) ?i"
    if "mark_acquire ?i (ra_marks s) = Inr mk" for mk j
    using mark_acquire_Inr [OF that] by simp_all
  consider (refused) mk where "s' = s\<lparr>ra_refused := ra_refused s @ [?i], ra_marks := mk\<rparr>"
      "\<forall>j. j \<noteq> ?i \<longrightarrow> locked mk j = locked (ra_marks s) j"
    | (started) mk v lg where "mark_acquire ?i (ra_marks s) = Inr mk"
      "take_decision (se_exists env) ?i ''heal to intent: the apply'' now (ra_log s) = Inr (v, lg)"
      "s' = s\<lparr>ra_log := lg, ra_marks := mk, ra_started := ra_started s @ [?i]\<rparr>"
    | (failed) mk v lg v1 lg1 st where "mark_acquire ?i (ra_marks s) = Inr mk"
      "take_decision (se_exists env) ?i ''heal to intent: the apply'' now (ra_log s) = Inr (v, lg)"
      "record_applied (se_exists env) ?i ''refused'' ''heal to intent'' (se_halt_id env ?i) now lg = Inr (v1, lg1)"
      "s' = s\<lparr>ra_log := lg1, ra_store := st, ra_marks := mark_release ?i mk, ra_failed := ra_failed s @ [?i]\<rparr>"
  proof (cases "\<not> se_opens env ?i \<or> (\<exists>e. mark_acquire ?i (ra_marks s) = Inl e)")
    case True
    with assms(1) have "s' = s\<lparr>ra_refused := ra_refused s @ [?i]\<rparr>"
      by (auto simp: start_one_def Let_def split: if_splits)
    then show thesis by (intro refused [of "ra_marks s"]) simp_all
  next
    case False
    then obtain mk where mk: "mark_acquire ?i (ra_marks s) = Inr mk" "se_opens env ?i"
      by (cases "mark_acquire ?i (ra_marks s)") auto
    show thesis
    proof (cases "take_decision (se_exists env) ?i ''heal to intent: the apply'' now (ra_log s)")
      case (Inl e)
      with mk assms(1) have "s' = s\<lparr>ra_refused := ra_refused s @ [?i], ra_marks := mark_release ?i mk\<rparr>"
        by (auto simp: start_one_def Let_def split: if_splits)
      then show thesis using lr [OF mk(1)] by (intro refused [of "mark_release ?i mk"]) auto
    next
      case (Inr y)
      obtain v lg where y: "y = (v, lg)" by (cases y)
      from Inr mk assms(1) started [of mk v lg] failed [of mk v lg] show thesis
        by (auto simp: start_one_def Let_def y split: if_splits sum.splits)
    qed
  qed
  then show ?thesis
  proof cases
    case refused
    with assms(2,3) show ?thesis unfolding went_through_def
      by (intro exI [of _ "[]"] exI [of _ "[?i]"]) auto
  next
    case started
    note rows = take_decision_rows [OF started(2) assms(2)]
    have "log_ok (rs @ [?t])" by (rule admissible_log_ok [OF assms(3) rows(2)])
    with started rows l [OF started(1)] lk [OF started(1)] show ?thesis unfolding went_through_def
      by (intro exI [of _ "[?t]"] exI [of _ "[?i]"] exI [of _ "[]"]) auto
  next
    case failed
    note rows = take_decision_rows [OF failed(2) assms(2)]
    have ok: "log_ok (rs @ [?t])" by (rule admissible_log_ok [OF assms(3) rows(2)])
    let ?a = "Applied_row ?i ''refused'' ''heal to intent'' (iso now)"
    have a: "rows_of lg1 = Inr (rs @ [?t, ?a]) \<and> (\<exists>u \<in> set (decisions (rs @ [?t])). d_id u = ?i)"
      using record_applied_rows [OF failed(3) rows(1)] by (simp add: ROLLED_BACK_def)
    then have "log_ok ((rs @ [?t]) @ [?a])"
      by (intro admissible_log_ok [OF ok]) (simp add: admissible_def)
    with failed a lr [OF failed(1)] show ?thesis unfolding went_through_def
      by (intro exI [of _ "[?t, ?a]"] exI [of _ "[]"] exI [of _ "[?i]"]) (auto simp: said_refused_def)
  qed
qed

lemma start_loop_through:
  assumes "start_loop env now ds s = (Inr (), s')" and "rows_of (ra_log s) = Inr rs" and "log_ok rs"
    and "distinct (map d_id ds)"
  shows "went_through (map d_id ds) rs s s'"
  using assms
proof (induction ds arbitrary: s rs)
  case Nil
  then show ?case unfolding went_through_def by (intro exI [of _ "[]"]) auto
next
  case (Cons d ds)
  from Cons.prems(1) obtain s1 where o: "start_one env now d s = (Inr (), s1)" "start_loop env now ds s1 = (Inr (), s')"
    by (auto split: prod.splits sum.splits)
  from start_one_through [OF o(1) Cons.prems(2,3)] obtain n1 st1 rf1 fa1 where
    1: "rows_of (ra_log s1) = Inr (rs @ n1)" "log_ok (rs @ n1)"
      "ra_started s1 = ra_started s @ st1" "ra_refused s1 = ra_refused s @ rf1" "ra_failed s1 = ra_failed s @ fa1"
      "mset st1 + mset rf1 + mset fa1 = mset [d_id d]"
      "\<forall>j. j \<notin> set [d_id d] \<longrightarrow> locked (ra_marks s1) j = locked (ra_marks s) j"
      "\<forall>j \<in> set st1. locked (ra_marks s1) j \<and> (\<exists>r \<in> set n1. takes j r)"
      "\<forall>j \<in> set fa1. \<not> locked (ra_marks s1) j \<and> (\<exists>r \<in> set n1. said_refused j r)"
    unfolding went_through_def by blast
  from Cons.IH [OF o(2) 1(1,2)] Cons.prems(4) obtain n2 st2 rf2 fa2 where
    2: "rows_of (ra_log s') = Inr ((rs @ n1) @ n2)" "log_ok ((rs @ n1) @ n2)"
      "ra_started s' = ra_started s1 @ st2" "ra_refused s' = ra_refused s1 @ rf2" "ra_failed s' = ra_failed s1 @ fa2"
      "mset st2 + mset rf2 + mset fa2 = mset (map d_id ds)"
      "\<forall>j. j \<notin> set (map d_id ds) \<longrightarrow> locked (ra_marks s') j = locked (ra_marks s1) j"
      "\<forall>j \<in> set st2. locked (ra_marks s') j \<and> (\<exists>r \<in> set n2. takes j r)"
      "\<forall>j \<in> set fa2. \<not> locked (ra_marks s') j \<and> (\<exists>r \<in> set n2. said_refused j r)"
    unfolding went_through_def by auto
  have new: "d_id d \<notin> set (map d_id ds)" using Cons.prems(4) by simp
  have "set_mset (mset st1 + mset rf1 + mset fa1) = {d_id d}" unfolding 1(6) by simp
  then have sub: "set st1 \<subseteq> {d_id d}" "set fa1 \<subseteq> {d_id d}" by auto
  have "mset (st1 @ st2) + mset (rf1 @ rf2) + mset (fa1 @ fa2) = mset (map d_id (d # ds))"
  proof -
    have "mset (st1 @ st2) + mset (rf1 @ rf2) + mset (fa1 @ fa2)
        = (mset st1 + mset rf1 + mset fa1) + (mset st2 + mset rf2 + mset fa2)" by (simp add: ac_simps)
    then show ?thesis unfolding 1(6) 2(6) by simp
  qed
  moreover have "\<forall>j. j \<notin> set (map d_id (d # ds)) \<longrightarrow> locked (ra_marks s') j = locked (ra_marks s) j"
    using 1(7) 2(7) by simp
  moreover have "\<forall>j \<in> set (st1 @ st2). locked (ra_marks s') j \<and> (\<exists>r \<in> set (n1 @ n2). takes j r)"
    using 1(8) 2(7,8) sub new by fastforce
  moreover have "\<forall>j \<in> set (fa1 @ fa2). \<not> locked (ra_marks s') j \<and> (\<exists>r \<in> set (n1 @ n2). said_refused j r)"
    using 1(9) 2(7,9) sub new by fastforce
  ultimately show ?case unfolding went_through_def
    using 1(3-5) 2(1-5) by (intro exI [of _ "n1 @ n2"] exI [of _ "st1 @ st2"] exI [of _ "rf1 @ rf2"] exI [of _ "fa1 @ fa2"]) simp
qed

text \<open>The runner answers every heal waiting, once: each is started, refused or could not start; what it
  started is taken and its mark held, and what could not start is recorded as refused with its
  mark released, so that no later pass takes it for interrupted.\<close>

lemma runner_answers_each_heal:
  assumes "start_loop env now (to_apply rs)
      \<lparr>ra_store = st, ra_log = lg, ra_marks = mk, ra_started = [], ra_refused = [], ra_failed = []\<rparr> = (Inr (), a)"
    and "rows_of lg = Inr rs" and "log_ok rs"
  shows "\<exists>new. rows_of (ra_log a) = Inr (rs @ new)
    \<and> mset (ra_started a) + mset (ra_refused a) + mset (ra_failed a) = mset (map d_id (to_apply rs))
    \<and> list_all (\<lambda>i. locked (ra_marks a) i \<and> list_ex (takes i) new) (ra_started a)
    \<and> list_all (\<lambda>i. \<not> locked (ra_marks a) i \<and> list_ex (said_refused i) new) (ra_failed a)"
proof -
  have "distinct (map d_id (decisions rs))"
    using decisions_ids [OF assms(3)] assms(3) by (simp add: log_ok_def)
  then have "distinct (map d_id (to_apply rs))" by (simp add: to_apply_def distinct_map_filter)
  from start_loop_through [OF assms(1) _ assms(3) this] assms(2) show ?thesis
    by (auto simp: went_through_def list_all_iff list_ex_iff)
qed

section \<open>A heal whose commit raises\<close>

lemma commit_raises:
  assumes "apply_one_device ap d captured ch mh check_it w = (Inr (r, b), w2)"
    and "dr_outcome r = Deployed" and "dr_pending r \<noteq> []"
  shows "apply_one_device (ap\<lparr>ap_commit := (\<lambda>_. Inl e)\<rparr>) d captured ch mh check_it w = (Inl e, w2)"
  using assms
  by (auto simp: apply_one_device_def Let_def plain_result_def bind_result_eq_Inr_iff split: if_splits sum.splits prod.splits)

definition ex_raising :: "bool act_sources" where
  "ex_raising = (ex_act Done)\<lparr>ac_apply := (ac_apply (ex_act Done))\<lparr>ap_commit := (\<lambda>_. Inl Raised)\<rparr>\<rparr>"

definition ex_untaken :: "bool act_state" where
  "ex_untaken = ex_before\<lparr>at_log := Rows [Decision_row ex_heal]\<rparr>"

definition ex_now_taken :: log where
  "ex_now_taken = Rows [Decision_row ex_heal, Taken_row ''hd1'' ''heal to intent: the apply'' 10000]"

lemma ex_raising_checked:
  "act_checked ex_env_heal ex_raising (at_store ex_before) ex_now_taken ex_heal 10000 = Inr (ex_c, ex_prog)"
proof -
  have "act_stops ex_raising ex_now_taken ex_heal 10000 = act_stops (ex_act Done) (at_log ex_before) ex_heal 10000"
    by (simp add: act_stops_def Let_def ex_raising_def ex_now_taken_def ex_before_def ex_rows_def halted_def)
  then have "act_checked ex_env_heal ex_raising (at_store ex_before) ex_now_taken ex_heal 10000
      = act_checked ex_env_heal (ex_act Done) (at_store ex_before) (at_log ex_before) ex_heal 10000"
    by (simp add: act_checked_def Let_def ex_raising_def)
  then show ?thesis by (simp add: ex_checked)
qed

lemma reap_answers: "rows_of (rp_log s) = Inr rs \<Longrightarrow> \<exists>out s'. reap env now True s = Inr (out, s')"
  by (auto simp: reap_def find_interrupted_def Let_def intro: prod.exhaust)

lemma ex_applied_deployed: "\<exists>r. ex_applied Done = (Inr (r, True), True) \<and> dr_outcome r = Deployed \<and> dr_pending r \<noteq> []"
  by (simp add: ex_applied ex_runs run_result_def ex_one_fields settle_one_def Let_def ex_check)

lemma ex_lost_apply: "\<exists>s'. apply_decision ex_env_heal ex_raising ex_heal 10000 (ex_untaken\<lparr>at_log := ex_now_taken\<rparr>)
    = (Inl Raised, s') \<and> at_world s'"
proof -
  obtain r where r: "ex_applied Done = (Inr (r, True), True)" "dr_outcome r = Deployed" "dr_pending r \<noteq> []"
    using ex_applied_deployed by blast
  have one: "heal_one ex_env_heal ex_raising ex_heal ex_c ex_prog
      = (heal_one ex_env_heal (ex_act Done) ex_heal ex_c ex_prog)\<lparr>ap_commit := (\<lambda>_. Inl Raised)\<rparr>"
    by (simp add: heal_one_def Let_def ex_raising_def)
  have ck: "heal_check ex_env_heal ex_raising us = heal_check ex_env_heal (ex_act Done) us" for us
    by (intro ext) (simp add: heal_check_def ex_raising_def Let_def)
  have same: "ac_src ex_raising = ac_src (ex_act Done)" "ac_plan ex_raising = ac_plan (ex_act Done)"
    "ac_exists ex_raising" "ac_keeps_started ex_raising"
    by (simp_all add: ex_raising_def ex_act_def)
  from commit_raises [OF r(1) [unfolded ex_applied_def] r(2,3), of Raised]
  show ?thesis
    by (simp add: apply_decision_def Let_def ex_untaken_def ex_raising_checked append_step_def same one ck)
qed

theorem lost_act_halts_witness:
  "\<exists>(s1 :: bool act_state) mk1 out s2 rs'. act_one ex_env_heal ex_raising True ''hd1'' 10000 (no_marks, ex_untaken) = (Inl Raised, mk1, s1)
     \<and> at_world s1 \<and> reap ex_reap 20000 True \<lparr>rp_store = at_store s1, rp_log = at_log s1, rp_steps = at_steps s1, rp_marks = mk1\<rparr>
           = Inr (out, s2)
     \<and> rows_of (rp_log s2) = Inr rs' \<and> halted rs' \<noteq> None"
proof -
  let ?t = "Taken_row ''hd1'' ''heal to intent: the apply'' 10000"
  have ids: "d_id ex_heal = ''hd1''" "d_outcome ex_heal = O_heal" by (simp_all add: ex_heal_def ex_decision_def)
  have ok: "log_ok [Decision_row ex_heal]" by (simp add: log_ok_def)
  have v1: "decisions [Decision_row ex_heal] = [plain_view ex_heal]"
    using decisions_record [of "[]" ex_heal] by (simp add: log_ok_def decisions_def)
  have v2: "decisions [Decision_row ex_heal, ?t] = [apply_row ?t (plain_view ex_heal)]"
    using decisions_other [of ?t "[Decision_row ex_heal]"] by (simp add: v1)
  have ex: "ac_exists ex_raising" by (simp add: ex_raising_def ex_act_def)
  have t: "take_decision (ac_exists ex_raising) ''hd1'' ''heal to intent: the apply'' 10000 (at_log ex_untaken)
      = Inr (apply_row ?t (plain_view ex_heal), ex_now_taken)"
    by (simp add: take_decision_def find_decision_def bind_result_def v1 v2 append_find_def append_row_def ex_untaken_def
        ids ex ex_now_taken_def iso_def)
  have tr: "decision.truncate (plain_view ex_heal) = ex_heal"
    by (simp add: plain_view_def decision.extend_def decision.truncate_def)
  obtain s' where s': "apply_decision ex_env_heal ex_raising ex_heal 10000 (ex_untaken\<lparr>at_log := ex_now_taken\<rparr>) = (Inl Raised, s')"
    "at_world s'" using ex_lost_apply by blast
  obtain mk where m: "mark_acquire ''hd1'' no_marks = Inr mk" using mark_acquire_free [OF locked_no_marks] by blast
  obtain s1 where g: "guarded_act ex_env_heal ex_raising True ex_heal 10000 (ex_untaken\<lparr>at_log := ex_now_taken\<rparr>)
      = (Inl Raised, s1)" and aw: "at_world s1" using s' by (simp add: guarded_act_def)
  obtain mk1 where a1: "act_one ex_env_heal ex_raising True ''hd1'' 10000 (no_marks, ex_untaken) = (Inl Raised, mk1, s1)"
    by (simp add: act_one_def t m tr g)
  note a = a1 aw
  have w: "at_world s1 \<noteq> at_world ex_untaken" using a(2) ex_inputs(5) by (simp add: ex_untaken_def)
  obtain out s2 where r: "reap ex_reap 20000 True \<lparr>rp_store = at_store s1, rp_log = at_log s1, rp_steps = at_steps s1, rp_marks = mk1\<rparr>
      = Inr (out, s2)"
    using reap_answers [of "\<lparr>rp_store = at_store s1, rp_log = at_log s1, rp_steps = at_steps s1, rp_marks = mk1\<rparr>"]
      guarded_raised [OF g] by (fastforce simp: ex_now_taken_def)
  from lost_act_halts [OF a(1) w _ ok _ r] show ?thesis using a r
    by (fastforce simp: ex_untaken_def v1 ex_reap_def)
qed

end
