(* ===== verification/Detect.thy ===== *)
theory Detect
  imports Attribution Policy Steplog
begin

text \<open>
  The detect pass of one network (\<open>modules/heal/detect.py\<close>): the mode read, each watching
  incident judged by its grace period and read when a read is due (\<open>_one\<close>), the settled ones handed
  to the decision, and each waiting proposal's device read again (\<open>_proposals\<close>), its proposal
  withdrawn when it no longer fits (\<open>propose.withdrawn_how\<close>, \<open>propose.withdraw\<close>).

  A read takes as long as a device takes to answer, and neither the triggers' scans nor a person's
  approval wait for the network's heal lock: \<open>de_other\<close> is what they did to the store and the
  decisions during each read. The answers of the
  devices and the clock after each are arguments by the number of the read. The policy's expiry row
  is the policy's (\<open>Policy.record_expiry\<close>), and what is announced to the pages is not modelled.

  The lemmas: every incident watching when the pass begins is accounted for, once; the pass keeps to
  its ten reads as long as nothing moves under it, and not otherwise; and when self-healing is off
  nothing is read and nothing is left watching.
\<close>

section \<open>One read\<close>

record checked =
  ck_state :: string
  ck_skipped :: bool
  ck_read_at :: epoch                  \<comment> \<open>\<open>0\<close> where it names none\<close>
  ck_departure :: string
  ck_changed :: "int option"
  ck_error :: string

datatype check_answer = Drift_running | Check_raised string | Checked checked

definition read_device :: "check_answer \<Rightarrow> epoch \<Rightarrow> read_row" where
  "read_device got t =
     (case got of
        Drift_running \<Rightarrow> \<lparr>r_epoch = t, r_state = Busy, r_departure = '''', r_changed = None, r_error = ''busy''\<rparr>
      | Check_raised e \<Rightarrow> \<lparr>r_epoch = t, r_state = Read_error, r_departure = '''', r_changed = None, r_error = e\<rparr>
      | Checked c \<Rightarrow>
          (let st = (if ck_skipped c \<or> ck_state c = ''skipped'' then Skipped
                     else if ck_state c = ''drifted'' then Drifted
                     else if ck_state c = ''clean'' then Clean else Read_error)
           in \<lparr>r_epoch = or_num (ck_read_at c) t, r_state = st, r_departure = ck_departure c,
               r_changed = ck_changed c,
               r_error = (if st \<in> {Drifted, Clean} then '''' else if ck_error c \<noteq> '''' then ck_error c
                          else ''the read could not be made'')\<rparr>))"

section \<open>The pass\<close>

definition READS_PER_PASS :: nat where "READS_PER_PASS = 10"

record detect_env =
  de_exists :: bool
  de_check :: "nat \<Rightarrow> device \<Rightarrow> check_answer"
  de_clock :: "nat \<Rightarrow> epoch"
  de_other :: "nat \<Rightarrow> store \<times> log \<Rightarrow> store \<times> log"
  de_step_id :: "decision_id \<Rightarrow> string"
  de_keeps :: bool

record pass =
  ps_store :: store
  ps_log :: log
  ps_steps :: steplog
  ps_reads :: nat
  ps_ready :: "(incident_id \<times> grace_state) list"
  ps_waiting :: "(incident_id \<times> grace_state option) list"    \<comment> \<open>no state: deferred by the decision\<close>
  ps_deferred :: "incident_id list"                        \<comment> \<open>due, and no read left\<close>
  ps_moved :: "incident_id list"                           \<comment> \<open>moved during the pass\<close>
  ps_withdrawn :: "(decision_id \<times> withdrawn_how) list"

definition make_read :: "detect_env \<Rightarrow> device \<Rightarrow> pass \<Rightarrow> read_row \<times> pass" where
  "make_read env d s =
     (let n = ps_reads s; (st, lg) = de_other env n (ps_store s, ps_log s) in
      (read_device (de_check env n d) (de_clock env n),
       s\<lparr>ps_reads := n + 1, ps_store := st, ps_log := lg\<rparr>))"

text \<open>A read kept on its incident; a busy run is no read.\<close>

definition kept_read :: "detect_env \<Rightarrow> incident_id \<Rightarrow> device \<Rightarrow> read_row \<Rightarrow> pass \<Rightarrow> heal_error + pass" where
  "kept_read env x d r s =
     (if r_state r = Busy then Inr s
      else bind_result (record_read (de_exists env) x d r (Some (iso (r_epoch r))) (ps_store s))
             (\<lambda>(_, st). Inr (s\<lparr>ps_store := st\<rparr>)))"

fun read_members ::
    "detect_env \<Rightarrow> incident_id \<Rightarrow> member list \<Rightarrow> nat \<Rightarrow> pass \<Rightarrow> (heal_error + nat) \<times> pass" where
  "read_members env x [] b s = (Inr b, s)"
| "read_members env x (m # ms) b s =
     (if m_reads m \<noteq> [] \<or> b = 0 then read_members env x ms b s
      else case make_read env (m_device m) s of
        (r, s1) \<Rightarrow> (case kept_read env x (m_device m) r s1 of
                      Inl e \<Rightarrow> (Inl e, s1)
                    | Inr s2 \<Rightarrow> read_members env x ms (b - 1) s2))"

text \<open>What its judgement makes of an incident, once its members are read.\<close>

definition handed_on ::
    "detect_env \<Rightarrow> incident \<Rightarrow> epoch \<Rightarrow> judgement \<Rightarrow> nat \<Rightarrow> pass \<Rightarrow> (heal_error + nat) \<times> pass" where
  "handed_on env inc now j b s =
     (case read_members env (i_id inc) (i_attached inc) b s of
        (Inl e, s) \<Rightarrow> (Inl e, s)
      | (Inr b, s) \<Rightarrow>
          (if settled_state (j_state j)
           then (case settle (de_exists env) (i_id inc) j now (ps_store s) of
                   Inl e \<Rightarrow> (Inl e, s)
                 | Inr (_, st) \<Rightarrow> (Inr b, s\<lparr>ps_store := st, ps_ready := ps_ready s @ [(i_id inc, j_state j)]\<rparr>))
           else (Inr b, s\<lparr>ps_waiting := ps_waiting s @ [(i_id inc, Some (j_state j))]\<rparr>)))"

text \<open>\<open>_one\<close>: the reads left, or what it raised; the pass as it is then.\<close>

definition detect_one ::
    "detect_env \<Rightarrow> epoch \<Rightarrow> epoch \<Rightarrow> incident \<Rightarrow> nat \<Rightarrow> pass \<Rightarrow> (heal_error + nat) \<times> pass" where
  "detect_one env grace now inc b s =
     (if now < (case i_defer_until inc of None \<Rightarrow> 0 | Some u \<Rightarrow> u)
      then (Inr b, s\<lparr>ps_waiting := ps_waiting s @ [(i_id inc, None)]\<rparr>)
      else
        (let changes = outside_changes inc; j = judge (i_reads inc) changes grace now in
         if \<not> (waiting_state (j_state j) \<and> (case j_due j of None \<Rightarrow> now | Some t \<Rightarrow> or_num t now) \<le> now)
         then handed_on env inc now j b s
         else if b = 0 then (Inr b, s\<lparr>ps_deferred := ps_deferred s @ [i_id inc]\<rparr>)
         else
           (case make_read env (i_device inc) s of
              (r, s1) \<Rightarrow>
                (case kept_read env (i_id inc) (i_device inc) r s1 of
                   Inl e \<Rightarrow> (Inl e, s1)
                 | Inr s2 \<Rightarrow>
                     handed_on env inc now
                       (judge (if r_state r = Busy then i_reads inc else i_reads inc @ [r]) changes grace now)
                       (b - 1) s2))))"

text \<open>What \<open>incidents\<close> refuses (its \<open>Refused\<close>), and what else it raises.\<close>

definition is_refusal :: "heal_error \<Rightarrow> bool" where
  "is_refusal e \<longleftrightarrow> e \<notin> {Store_unreadable, Heal_busy, Not_a_person, Raised}"

fun detect_loop ::
    "detect_env \<Rightarrow> epoch \<Rightarrow> epoch \<Rightarrow> incident list \<Rightarrow> nat \<Rightarrow> pass \<Rightarrow> (heal_error + nat) \<times> pass" where
  "detect_loop env grace now [] b s = (Inr b, s)"
| "detect_loop env grace now (inc # incs) b s =
     (case detect_one env grace now inc b s of
        (Inr b', s') \<Rightarrow> detect_loop env grace now incs b' s'
      | (Inl e, s') \<Rightarrow>
          if is_refusal e then detect_loop env grace now incs b (s'\<lparr>ps_moved := ps_moved s' @ [i_id inc]\<rparr>)
          else (Inl e, s'))"

section \<open>The proposals waiting\<close>

definition recheck_due :: "dview \<Rightarrow> incident \<Rightarrow> epoch \<Rightarrow> epoch \<Rightarrow> bool" where
  "recheck_due d inc grace now =
     (let last = Max (set (d_epoch d # filter (\<lambda>t. d_epoch d < t) (map r_epoch (i_reads inc))))
      in grace \<le> now - last
         \<or> (\<exists>t \<in> set (i_triggers inc). is_cause t \<and> last < t_epoch t))"

definition withdrawn_by :: "dview \<Rightarrow> read_row \<Rightarrow> withdrawn_how option" where
  "withdrawn_by d r =
     (if r_state r = Clean then Some At_intent
      else if r_state r = Drifted \<and> r_departure r \<noteq> d_departure d then Some Changed
      else None)"

text \<open>\<open>propose.withdraw\<close>: the row first, then its incident and the step log, each said and not raised.\<close>

definition withdraw_proposal ::
    "detect_env \<Rightarrow> dview \<Rightarrow> withdrawn_how \<Rightarrow> epoch \<Rightarrow> pass \<Rightarrow> heal_error + pass" where
  "withdraw_proposal env d how now s =
     bind_result (withdraw (de_exists env) (d_id d) how ''heal to intent'' now (ps_log s)) (\<lambda>(_, lg).
       let st = (case (if how = At_intent
                       then close_incident (de_exists env) (d_incident d) WITHDRAWN now (ps_store s)
                       else defer_incident (de_exists env) (d_incident d) now WITHDRAWN now (ps_store s)) of
                   Inl _ \<Rightarrow> ps_store s | Inr (_, st) \<Rightarrow> st);
           sl = (case append_step (de_exists env) (de_keeps env)
                        (act_step (de_step_id env (d_id d)) (decision.truncate d)
                           [(''read'', if how = At_intent then ''clean'' else ''drifted''), (''record'', WITHDRAWN)]
                           WITHDRAWN False) (ps_steps s) of
                   Inl _ \<Rightarrow> ps_steps s | Inr sl \<Rightarrow> sl)
       in Inr (s\<lparr>ps_log := lg, ps_store := st, ps_steps := sl\<rparr>))"

definition claimed_inc :: "incident list \<Rightarrow> incident_id \<Rightarrow> incident option" where
  "claimed_inc incs x =
     (case filter (\<lambda>i. i_state i = Claimed \<and> i_id i = x) incs of [] \<Rightarrow> None | is \<Rightarrow> Some (last is))"

definition proposal_one ::
    "detect_env \<Rightarrow> incident list \<Rightarrow> epoch \<Rightarrow> epoch \<Rightarrow> dview \<Rightarrow> nat \<Rightarrow> pass \<Rightarrow> (heal_error + nat) \<times> pass" where
  "proposal_one env incs grace now d b s =
     (case claimed_inc incs (d_incident d) of
        None \<Rightarrow> (Inr b, s)
      | Some inc \<Rightarrow>
          if \<not> recheck_due d inc grace now then (Inr b, s)
          else if b = 0 then (Inr b, s\<lparr>ps_deferred := ps_deferred s @ [i_id inc]\<rparr>)
          else
            (case make_read env (d_device d) s of
               (r, s1) \<Rightarrow>
                 if r_state r = Busy then (Inr (b - 1), s1)
                 else
                   (case kept_read env (i_id inc) (d_device d) r s1 of
                      Inl e \<Rightarrow> (Inl e, s1)
                    | Inr s2 \<Rightarrow>
                        (case withdrawn_by d r of
                           None \<Rightarrow> (Inr (b - 1), s2)
                         | Some how \<Rightarrow>
                             (case withdraw_proposal env d how now s2 of
                                Inr s3 \<Rightarrow> (Inr (b - 1), s3\<lparr>ps_withdrawn := ps_withdrawn s3 @ [(d_id d, how)]\<rparr>)
                              | Inl e \<Rightarrow> if is_refusal e then (Inr (b - 1), s2) else (Inl e, s2))))))"

fun proposal_loop ::
    "detect_env \<Rightarrow> incident list \<Rightarrow> epoch \<Rightarrow> epoch \<Rightarrow> dview list \<Rightarrow> nat \<Rightarrow> pass \<Rightarrow> (heal_error + nat) \<times> pass" where
  "proposal_loop env incs grace now [] b s = (Inr b, s)"
| "proposal_loop env incs grace now (d # ds) b s =
     (case proposal_one env incs grace now d b s of
        (Inl e, s') \<Rightarrow> (Inl e, s')
      | (Inr b', s') \<Rightarrow> proposal_loop env incs grace now ds b' s')"

section \<open>The run\<close>

datatype detected = Off_closed "incident_id list" | Not_free | Store_not_read | Passed

definition fresh_pass :: "store \<Rightarrow> log \<Rightarrow> steplog \<Rightarrow> pass" where
  "fresh_pass st lg sl =
     \<lparr>ps_store = st, ps_log = lg, ps_steps = sl, ps_reads = 0, ps_ready = [], ps_waiting = [],
      ps_deferred = [], ps_moved = [], ps_withdrawn = []\<rparr>"

text \<open>\<open>free\<close>: the network's heal lock is taken by this pass. Decisions that cannot be read leave the
  proposals for the next pass.\<close>

definition detect_run ::
    "detect_env \<Rightarrow> policy_now \<Rightarrow> bool \<Rightarrow> epoch \<Rightarrow> store \<Rightarrow> log \<Rightarrow> steplog \<Rightarrow> (heal_error + detected) \<times> pass" where
  "detect_run env md free now st lg sl =
     (let s = fresh_pass st lg sl in
      if m_mode md = M_off
      then (case close_watching (de_exists env) ''self-healing is off'' now st of
              Inl e \<Rightarrow> (Inl e, s) | Inr (xs, st') \<Rightarrow> (Inr (Off_closed xs), s\<lparr>ps_store := st'\<rparr>))
      else case m_guards md of None \<Rightarrow> (Inl Raised, s) | Some g \<Rightarrow>
        if \<not> de_exists env then (Inl Refused_no_network, s)
        else if \<not> free then (Inr Not_free, s)
        else if st = Unreadable_store then (Inr Store_not_read, s)
        else
          (let grace = real (g Grace_seconds); incs = held st in
           case detect_loop env grace now (filter (\<lambda>i. i_state i = Watching) incs) READS_PER_PASS s of
             (Inl e, s1) \<Rightarrow> (Inl e, s1)
           | (Inr b, s1) \<Rightarrow>
               (case rows_of (ps_log s1) of
                  Inl _ \<Rightarrow> (Inr Passed, s1)
                | Inr rs \<Rightarrow>
                    (case proposal_loop env incs grace now (proposals rs) b s1 of
                       (Inl e, s2) \<Rightarrow> (Inl e, s2)
                     | (Inr _, s2) \<Rightarrow> (Inr Passed, s2)))))"

section \<open>The reads of a pass\<close>

lemma make_read_fields:
  "make_read env d s = (r, s') \<Longrightarrow> ps_reads s' = ps_reads s + 1 \<and> ps_ready s' = ps_ready s \<and> ps_waiting s' = ps_waiting s
     \<and> ps_deferred s' = ps_deferred s \<and> ps_moved s' = ps_moved s"
  by (auto simp: make_read_def Let_def split: prod.splits)

lemma kept_read_fields:
  "kept_read env x d r s = Inr s' \<Longrightarrow> ps_reads s' = ps_reads s \<and> ps_ready s' = ps_ready s \<and> ps_waiting s' = ps_waiting s
     \<and> ps_deferred s' = ps_deferred s \<and> ps_moved s' = ps_moved s"
  by (auto simp: kept_read_def bind_result_eq_Inr_iff split: if_splits)

text \<open>A step keeps its account: what it read is what it took from the reads left, and it read no
  more than there were.\<close>

definition accounts :: "nat \<Rightarrow> pass \<Rightarrow> (heal_error + nat) \<times> pass \<Rightarrow> bool" where
  "accounts b s res \<longleftrightarrow>
     (case fst res of Inr b' \<Rightarrow> ps_reads (snd res) + b' = ps_reads s + b
                    | Inl _ \<Rightarrow> ps_reads (snd res) \<le> ps_reads s + b)"

lemma accounts_simps [simp]:
  "accounts b s (Inr b', s') \<longleftrightarrow> ps_reads s' + b' = ps_reads s + b"
  "accounts b s (Inl e, s') \<longleftrightarrow> ps_reads s' \<le> ps_reads s + b"
  by (simp_all add: accounts_def)

lemma accounts_after:
  "ps_reads s1 + b1 = ps_reads s + b \<Longrightarrow> accounts b1 s1 res \<Longrightarrow> accounts b s res"
  by (auto simp: accounts_def split: sum.splits)

lemma read_members_accounts:
  "accounts b s (read_members env x ms b s)
   \<and> ps_ready (snd (read_members env x ms b s)) = ps_ready s \<and> ps_waiting (snd (read_members env x ms b s)) = ps_waiting s
   \<and> ps_deferred (snd (read_members env x ms b s)) = ps_deferred s \<and> ps_moved (snd (read_members env x ms b s)) = ps_moved s"
proof (induction ms arbitrary: b s)
  case (Cons m ms)
  show ?case
  proof (cases "m_reads m \<noteq> [] \<or> b = 0")
    case False
    obtain r s1 where r: "make_read env (m_device m) s = (r, s1)" by fastforce
    note f = make_read_fields [OF r]
    show ?thesis
    proof (cases "kept_read env x (m_device m) r s1")
      case (Inl e)
      with False r f show ?thesis by simp
    next
      case (Inr s2)
      note g = kept_read_fields [OF Inr]
      have "accounts b s (read_members env x ms (b - 1) s2)"
        by (rule accounts_after [of s2 "b - 1"]) (use f g False Cons.IH in auto)
      with False r f Inr g Cons.IH [of "b - 1" s2] show ?thesis by simp
    qed
  qed (use Cons.IH in auto)
qed simp

text \<open>Where an incident is said to have ended up.\<close>

definition said_ids :: "pass \<Rightarrow> incident_id multiset" where
  "said_ids s = mset (map fst (ps_ready s)) + mset (map fst (ps_waiting s)) + mset (ps_deferred s) + mset (ps_moved s)"

lemma handed_on_accounts:
  assumes "handed_on env inc now j b s = (res, s')"
  shows "accounts b s (res, s') \<and> ps_moved s' = ps_moved s
    \<and> said_ids s' = (case res of Inr _ \<Rightarrow> add_mset (i_id inc) (said_ids s) | Inl _ \<Rightarrow> said_ids s)"
proof -
  obtain res1 s1 where m: "read_members env (i_id inc) (i_attached inc) b s = (res1, s1)" by fastforce
  have f: "accounts b s (res1, s1) \<and> ps_ready s1 = ps_ready s \<and> ps_waiting s1 = ps_waiting s
      \<and> ps_deferred s1 = ps_deferred s \<and> ps_moved s1 = ps_moved s"
    using read_members_accounts [of b s env "i_id inc" "i_attached inc"] m by simp
  show ?thesis
  proof (cases res1)
    case (Inl e)
    with assms m f show ?thesis by (auto simp: handed_on_def said_ids_def)
  next
    case (Inr b1)
    with assms m f show ?thesis
      by (auto simp: handed_on_def said_ids_def split: if_splits sum.splits)
  qed
qed

lemma detect_one_accounts:
  assumes "detect_one env grace now inc b s = (res, s')"
  shows "accounts b s (res, s') \<and> ps_moved s' = ps_moved s
    \<and> said_ids s' = (case res of Inr _ \<Rightarrow> add_mset (i_id inc) (said_ids s) | Inl _ \<Rightarrow> said_ids s)"
proof -
  let ?j = "judge (i_reads inc) (outside_changes inc) grace now"
  consider "now < (case i_defer_until inc of None \<Rightarrow> 0 | Some u \<Rightarrow> u)"
    | "handed_on env inc now ?j b s = (res, s')"
    | "res = Inr b" "s' = s\<lparr>ps_deferred := ps_deferred s @ [i_id inc]\<rparr>"
    | r s1 where "b \<noteq> 0" "make_read env (i_device inc) s = (r, s1)"
        "(case kept_read env (i_id inc) (i_device inc) r s1 of
            Inl e \<Rightarrow> (Inl e, s1)
          | Inr s2 \<Rightarrow> handed_on env inc now
              (judge (if r_state r = Busy then i_reads inc else i_reads inc @ [r]) (outside_changes inc) grace now)
              (b - 1) s2) = (res, s')"
    using assms by (auto simp: detect_one_def Let_def split: if_splits prod.splits)
  then show ?thesis
  proof cases
    case 1
    with assms show ?thesis by (auto simp: detect_one_def said_ids_def)
  next
    case 2
    then show ?thesis by (rule handed_on_accounts)
  next
    case 3
    then show ?thesis by (simp add: said_ids_def)
  next
    case (4 r s1)
    note f = make_read_fields [OF 4(2)]
    show ?thesis
    proof (cases "kept_read env (i_id inc) (i_device inc) r s1")
      case (Inl e)
      with 4 f show ?thesis by (auto simp: said_ids_def)
    next
      case (Inr s2)
      note g = kept_read_fields [OF Inr]
      from 4(3) Inr have h: "handed_on env inc now
          (judge (if r_state r = Busy then i_reads inc else i_reads inc @ [r]) (outside_changes inc) grace now)
          (b - 1) s2 = (res, s')" by simp
      note k = handed_on_accounts [OF h]
      have "accounts b s (res, s')"
        by (rule accounts_after [of s2 "b - 1"]) (use 4(1) f g k in auto)
      moreover have "said_ids s2 = said_ids s" using f g by (simp add: said_ids_def)
      ultimately show ?thesis using k f g by (cases res) simp_all
    qed
  qed
qed

lemma read_members_reads_on: "ps_reads s \<le> ps_reads (snd (read_members env x ms b s))"
proof (induction ms arbitrary: b s)
  case (Cons m ms)
  obtain r s1 where r: "make_read env (m_device m) s = (r, s1)" by fastforce
  show ?case
  proof (cases "kept_read env x (m_device m) r s1")
    case (Inl e)
    with r make_read_fields [OF r] Cons.IH [of s b] show ?thesis by simp
  next
    case (Inr s2)
    have "ps_reads s \<le> ps_reads s2" using make_read_fields [OF r] kept_read_fields [OF Inr] by simp
    with Cons.IH [of s2 "b - 1"] r Inr Cons.IH [of s b] show ?thesis by (auto intro: order_trans)
  qed
qed simp

lemma handed_on_reads_on: "handed_on env inc now j b s = (res, s') \<Longrightarrow> ps_reads s \<le> ps_reads s'"
  using read_members_reads_on [of s env "i_id inc" "i_attached inc" b]
  by (auto simp: handed_on_def split: prod.splits sum.splits if_splits)

lemma detect_one_reads_on:
  assumes "detect_one env grace now inc b s = (res, s')"
  shows "ps_reads s \<le> ps_reads s'" and "res = Inr b' \<Longrightarrow> b' \<le> b"
proof -
  show p: "ps_reads s \<le> ps_reads s'"
    using assms
    by (auto simp: detect_one_def Let_def dest!: handed_on_reads_on make_read_fields kept_read_fields
        split: if_splits prod.splits sum.splits)
  show "res = Inr b' \<Longrightarrow> b' \<le> b" using detect_one_accounts [OF assms] p by simp
qed

text \<open>A moved incident's reads are not taken from the pass's: each may cost as many again.\<close>

lemma detect_loop_accounts:
  assumes "detect_loop env grace now incs b s = (res, s')" and "b \<le> B"
  shows "ps_reads s' + (case res of Inr b' \<Rightarrow> b' | Inl _ \<Rightarrow> 0)
           \<le> ps_reads s + b + B * (length (ps_moved s') - length (ps_moved s))
    \<and> length (ps_moved s) \<le> length (ps_moved s') \<and> (\<forall>b'. res = Inr b' \<longrightarrow> b' \<le> B)
    \<and> (\<forall>b'. res = Inr b' \<longrightarrow> said_ids s' = mset (map i_id incs) + said_ids s)"
  using assms
proof (induction incs arbitrary: b s)
  case (Cons inc incs)
  obtain r1 s1 where o: "detect_one env grace now inc b s = (r1, s1)" by fastforce
  note a = detect_one_accounts [OF o]
  show ?case
  proof (cases r1)
    case (Inr b1)
    with Cons.prems(1) o have l: "detect_loop env grace now incs b1 s1 = (res, s')" by simp
    have "b1 \<le> b" "ps_reads s1 + b1 = ps_reads s + b" "ps_moved s1 = ps_moved s"
      using a Inr detect_one_reads_on [OF o] by simp_all
    with Cons.IH [OF l] Cons.prems(2) a Inr show ?thesis by auto
  next
    case (Inl e)
    let ?s1 = "s1\<lparr>ps_moved := ps_moved s1 @ [i_id inc]\<rparr>"
    have r: "ps_reads s1 \<le> ps_reads s + b" "ps_moved s1 = ps_moved s" "said_ids s1 = said_ids s"
      using a Inl by simp_all
    show ?thesis
    proof (cases "is_refusal e")
      case True
      with Cons.prems(1) o Inl have l: "detect_loop env grace now incs b ?s1 = (res, s')" by simp
      note h = Cons.IH [OF l Cons.prems(2)]
      have "length (ps_moved s') - length (ps_moved s) = Suc (length (ps_moved s') - length (ps_moved ?s1))"
        using h r(2) by (auto simp: Suc_diff_Suc)
      then have "B * (length (ps_moved s') - length (ps_moved s))
          = B + B * (length (ps_moved s') - length (ps_moved ?s1))" by simp
      moreover have "said_ids ?s1 = add_mset (i_id inc) (said_ids s)"
        using r(3) by (simp add: said_ids_def)
      ultimately show ?thesis using h r Cons.prems(2) by auto
    next
      case False
      with Cons.prems(1) o Inl r show ?thesis by auto
    qed
  qed
qed auto

lemma withdraw_proposal_fields:
  "withdraw_proposal env d how now s = Inr s' \<Longrightarrow> ps_reads s' = ps_reads s \<and> said_ids s' = said_ids s \<and> ps_moved s' = ps_moved s"
  by (auto simp: withdraw_proposal_def Let_def bind_result_eq_Inr_iff said_ids_def)

lemma said_ids_read:
  "make_read env d s = (r, s1) \<Longrightarrow> said_ids s1 = said_ids s"
  "kept_read env x d r s = Inr s1 \<Longrightarrow> said_ids s1 = said_ids s"
  by (auto simp: said_ids_def dest: make_read_fields kept_read_fields)

lemma proposal_one_accounts:
  assumes "proposal_one env incs grace now d b s = (res, s')"
  shows "accounts b s (res, s') \<and> ps_moved s' = ps_moved s
    \<and> (\<exists>ds. said_ids s' = said_ids s + mset ds \<and> set ds \<subseteq> i_id ` {i \<in> set incs. i_state i = Claimed})"
proof -
  have c: "inc \<in> set incs \<and> i_state inc = Claimed" if "claimed_inc incs x = Some inc" for inc x
  proof -
    from that have "filter (\<lambda>i. i_state i = Claimed \<and> i_id i = x) incs \<noteq> []"
      "inc = last (filter (\<lambda>i. i_state i = Claimed \<and> i_id i = x) incs)"
      by (auto simp: claimed_inc_def split: list.splits)
    then have "inc \<in> set (filter (\<lambda>i. i_state i = Claimed \<and> i_id i = x) incs)" by (metis last_in_set)
    then show ?thesis by simp
  qed
  show ?thesis
  proof (cases "claimed_inc incs (d_incident d)")
    case None
    with assms show ?thesis by (auto simp: proposal_one_def intro: exI [of _ "[]"])
  next
    case (Some inc)
    show ?thesis
    proof (cases "recheck_due d inc grace now \<and> b \<noteq> 0")
      case False
      with assms Some have "res = Inr b" "s' = s \<or> s' = s\<lparr>ps_deferred := ps_deferred s @ [i_id inc]\<rparr>"
        by (auto simp: proposal_one_def split: if_splits)
      moreover have "said_ids (s\<lparr>ps_deferred := ps_deferred s @ [i_id inc]\<rparr>) = said_ids s + mset [i_id inc]"
        by (simp add: said_ids_def)
      moreover have "said_ids s = said_ids s + mset []" by simp
      ultimately show ?thesis using c [OF Some] by (fastforce intro: exI [of _ "[]"] exI [of _ "[i_id inc]"])
    next
      case True
      obtain r s1 where r: "make_read env (d_device d) s = (r, s1)" by fastforce
      have f: "ps_reads s1 = ps_reads s + 1" "said_ids s1 = said_ids s" "ps_moved s1 = ps_moved s"
        using make_read_fields [OF r] said_ids_read(1) [OF r] by simp_all
      have "accounts b s (res, s') \<and> ps_moved s' = ps_moved s \<and> said_ids s' = said_ids s"
      proof (cases "r_state r = Busy \<or> (\<exists>e. kept_read env (i_id inc) (d_device d) r s1 = Inl e)")
        case busy: True
        with assms Some True r have "s' = s1" "res = Inr (b - 1) \<or> (\<exists>e. res = Inl e)"
          by (auto simp: proposal_one_def split: if_splits)
        then show ?thesis using f True by auto
      next
        case False
        then obtain s2 where k: "kept_read env (i_id inc) (d_device d) r s1 = Inr s2" and n: "r_state r \<noteq> Busy"
          by (cases "kept_read env (i_id inc) (d_device d) r s1") auto
        have g: "ps_reads s2 = ps_reads s + 1" "said_ids s2 = said_ids s" "ps_moved s2 = ps_moved s"
          using kept_read_fields [OF k] said_ids_read(2) [OF k] f by simp_all
        have p: "proposal_one env incs grace now d b s =
            (case withdrawn_by d r of
               None \<Rightarrow> (Inr (b - 1), s2)
             | Some how \<Rightarrow>
                 (case withdraw_proposal env d how now s2 of
                    Inr s3 \<Rightarrow> (Inr (b - 1), s3\<lparr>ps_withdrawn := ps_withdrawn s3 @ [(d_id d, how)]\<rparr>)
                  | Inl e \<Rightarrow> if is_refusal e then (Inr (b - 1), s2) else (Inl e, s2)))"
          using Some True r k n by (simp add: proposal_one_def)
        show ?thesis
        proof (cases "withdrawn_by d r")
          case None
          with p assms g True show ?thesis by auto
        next
          case how: (Some how)
          show ?thesis
          proof (cases "withdraw_proposal env d how now s2")
            case (Inl e)
            with p how assms g True show ?thesis by (auto split: if_splits)
          next
            case (Inr s3)
            have "said_ids (s3\<lparr>ps_withdrawn := ws\<rparr>) = said_ids s3" for ws by (simp add: said_ids_def)
            with p how assms g True Inr withdraw_proposal_fields [OF Inr] show ?thesis by auto
          qed
        qed
      qed
      then show ?thesis by (auto intro: exI [of _ "[]"])
    qed
  qed
qed

lemma proposal_loop_accounts:
  assumes "proposal_loop env incs grace now ds b s = (res, s')"
  shows "accounts b s (res, s') \<and> ps_moved s' = ps_moved s
    \<and> (\<exists>xs. said_ids s' = said_ids s + mset xs \<and> set xs \<subseteq> i_id ` {i \<in> set incs. i_state i = Claimed})"
  using assms
proof (induction ds arbitrary: b s)
  case Nil
  then show ?case by (auto intro: exI [of _ "[]"])
next
  case (Cons d ds)
  obtain r1 s1 where o: "proposal_one env incs grace now d b s = (r1, s1)" by fastforce
  note a = proposal_one_accounts [OF o]
  show ?case
  proof (cases r1)
    case (Inl e)
    with Cons.prems o a show ?thesis by auto
  next
    case (Inr b1)
    with Cons.prems o have l: "proposal_loop env incs grace now ds b1 s1 = (res, s')" by simp
    note h = Cons.IH [OF l]
    from a obtain xs where xs: "said_ids s1 = said_ids s + mset xs" "set xs \<subseteq> i_id ` {i \<in> set incs. i_state i = Claimed}" by blast
    from h obtain ys where ys: "said_ids s' = said_ids s1 + mset ys" "set ys \<subseteq> i_id ` {i \<in> set incs. i_state i = Claimed}" by blast
    have "accounts b s (res, s')"
      by (rule accounts_after [of s1 b1]) (use a h Inr in auto)
    moreover have "said_ids s' = said_ids s + mset (xs @ ys)" using xs ys by simp
    moreover have "set (xs @ ys) \<subseteq> i_id ` {i \<in> set incs. i_state i = Claimed}" using xs(2) ys(2) by auto
    ultimately show ?thesis using a h by metis
  qed
qed

lemma fresh_pass_simps [simp]:
  "ps_reads (fresh_pass st lg sl) = 0" "ps_moved (fresh_pass st lg sl) = []" "said_ids (fresh_pass st lg sl) = {#}"
  "ps_log (fresh_pass st lg sl) = lg" "ps_store (fresh_pass st lg sl) = st"
  by (simp_all add: fresh_pass_def said_ids_def)

text \<open>A pass that read anything went through its two loops.\<close>

lemma detect_run_cases:
  assumes "detect_run env md free now st lg sl = (res, s')"
  obtains "ps_reads s' = 0" "ps_moved s' = []" "res \<noteq> Inr Passed"
  | g b where
      "detect_loop env (real (g Grace_seconds)) now (filter (\<lambda>i. i_state i = Watching) (held st)) READS_PER_PASS
         (fresh_pass st lg sl) = (Inl b, s')" "res = Inl b"
  | g b s1 xs r2 where
      "detect_loop env (real (g Grace_seconds)) now (filter (\<lambda>i. i_state i = Watching) (held st)) READS_PER_PASS
         (fresh_pass st lg sl) = (Inr b, s1)"
      "proposal_loop env (held st) (real (g Grace_seconds)) now xs b s1 = (r2, s')" "res = Inr Passed \<Longrightarrow> \<exists>b. r2 = Inr b"
proof -
  consider "ps_reads s' = 0 \<and> ps_moved s' = [] \<and> res \<noteq> Inr Passed"
    | g where "(case detect_loop env (real (g Grace_seconds)) now (filter (\<lambda>i. i_state i = Watching) (held st))
                       READS_PER_PASS (fresh_pass st lg sl) of
             (Inl e, s1) \<Rightarrow> (Inl e, s1)
           | (Inr b, s1) \<Rightarrow>
               (case rows_of (ps_log s1) of
                  Inl _ \<Rightarrow> (Inr Passed, s1)
                | Inr rs \<Rightarrow>
                    (case proposal_loop env (held st) (real (g Grace_seconds)) now (proposals rs) b s1 of
                       (Inl e, s2) \<Rightarrow> (Inl e, s2)
                     | (Inr _, s2) \<Rightarrow> (Inr Passed, s2)))) = (res, s')"
    using assms by (auto simp: detect_run_def Let_def split: if_splits option.splits sum.splits)
  then show thesis
  proof cases
    case 1
    then show thesis by (intro that(1)) auto
  next
    case (2 g)
    obtain r1 s1 where l: "detect_loop env (real (g Grace_seconds)) now (filter (\<lambda>i. i_state i = Watching) (held st))
        READS_PER_PASS (fresh_pass st lg sl) = (r1, s1)" by fastforce
    show thesis
    proof (cases r1)
      case (Inl e)
      with 2 l show thesis by (intro that(2) [of g e]) auto
    next
      case (Inr b)
      show thesis
      proof (cases "rows_of (ps_log s1)")
        case (Inl e)
        with 2 l Inr have "proposal_loop env (held st) (real (g Grace_seconds)) now [] b s1 = (Inr b, s')" by simp
        with l Inr show thesis by (intro that(3) [of g b s1 "[]" "Inr b"]) auto
      next
        case rs: (Inr rs)
        obtain r2 s2 where p: "proposal_loop env (held st) (real (g Grace_seconds)) now (proposals rs) b s1 = (r2, s2)" by fastforce
        with 2 l Inr rs have "s2 = s'" "res = Inr Passed \<Longrightarrow> \<exists>b. r2 = Inr b"
          by (auto split: sum.splits)
        with p l Inr show thesis by (intro that(3) [of g b s1 "proposals rs" r2]) auto
      qed
    qed
  qed
qed

text \<open>A pass makes at most ten reads, and ten more for each incident that moved while it was read: with
  nothing moving under it a storm of incidents costs ten reads, whatever it finds.\<close>

lemma pass_reads_bounded:
  "ps_reads (snd (detect_run env md free now st lg sl))
     \<le> READS_PER_PASS * (1 + length (ps_moved (snd (detect_run env md free now st lg sl))))"
proof -
  obtain res s' where r: "detect_run env md free now st lg sl = (res, s')" by fastforce
  from r have "ps_reads s' \<le> READS_PER_PASS * (1 + length (ps_moved s'))"
  proof (cases rule: detect_run_cases)
    case (2 g b)
    with detect_loop_accounts [OF 2(1) order_refl] show ?thesis by simp
  next
    case (3 g b s1 xs r2)
    note l = detect_loop_accounts [OF 3(1) order_refl] and p = proposal_loop_accounts [OF 3(2)]
    have "ps_reads s' \<le> ps_reads s1 + b" using p by (cases r2) auto
    with l p show ?thesis by simp
  qed simp
  then show ?thesis by (simp add: r)
qed

text \<open>C22: a pass forgets no incident: each incident watching when it begins is said exactly once, as settled
  for the decision, waiting, deferred to the next pass or moved meanwhile; and whatever else is said
  is a claimed incident's, its proposal's read deferred.\<close>

theorem pass_forgets_none:
  assumes "detect_run env md free now st lg sl = (Inr Passed, s')"
  shows "\<exists>xs. mset (map fst (ps_ready s')) + mset (map fst (ps_waiting s')) + mset (ps_deferred s') + mset (ps_moved s')
      = mset (map i_id (filter (\<lambda>i. i_state i = Watching) (held st))) + mset xs
    \<and> list_all (\<lambda>x. list_ex (\<lambda>i. i_state i = Claimed \<and> i_id i = x) (held st)) xs"
  using assms
proof (cases rule: detect_run_cases)
  case (3 g b s1 xs r2)
  note l = detect_loop_accounts [OF 3(1) order_refl] and p = proposal_loop_accounts [OF 3(2)]
  from p obtain ys where ys: "said_ids s' = said_ids s1 + mset ys" "set ys \<subseteq> i_id ` {i \<in> set (held st). i_state i = Claimed}"
    by blast
  moreover have "said_ids s1 = mset (map i_id (filter (\<lambda>i. i_state i = Watching) (held st)))"
    using l by simp
  ultimately show ?thesis
    by (intro exI [of _ ys]) (auto simp: said_ids_def list_all_iff list_ex_iff)
qed simp_all

text \<open>Self-healing off starts nothing: the pass reads no device, changes no decision, and leaves no
  incident watching.\<close>

lemma off_reads_nothing:
  assumes "m_mode md = M_off" and "detect_run env md free now st lg sl = (Inr x, s')"
  shows "ps_reads s' = 0 \<and> ps_log s' = lg \<and> filter (\<lambda>i. i_state i = Watching) (held (ps_store s')) = []"
proof -
  from assms obtain ys st' where c: "close_watching (de_exists env) ''self-healing is off'' now st = Inr (ys, st')"
    and s': "s' = (fresh_pass st lg sl)\<lparr>ps_store := st'\<rparr>"
    by (auto simp: detect_run_def Let_def split: sum.splits)
  have p: "set (prune doc) \<subseteq> set doc" for doc by (auto simp: prune_def Let_def)
  have w: "i_state i \<noteq> Watching" if "i \<in> set (prune (map (close_watching_inc why now) doc))" for i why doc
    using subsetD [OF p that] by (auto simp: close_watching_inc_def)
  have "i_state i \<noteq> Watching" if "i \<in> set (held st')" for i
    using c that w by (cases st) (auto simp: close_watching_def mutate_def bind_result_def split: if_splits)
  then show ?thesis by (simp add: s' filter_empty_conv)
qed

text \<open>What an incident closed or folded while it was read costs: its settling is refused, and the reads
  left are what they were.\<close>

definition meets_no_watching :: "detect_env \<Rightarrow> bool" where
  "meets_no_watching env \<longleftrightarrow>
     (\<forall>n p. list_all (\<lambda>i. i_state i \<noteq> Watching) (held (fst (de_other env n p))))"

lemma settle_refused:
  assumes "list_all (\<lambda>i. i_state i \<noteq> Watching) (held st)" and "settled_state (j_state j)" and "st \<noteq> Unreadable_store"
  shows "\<exists>e. settle ex x j now st = Inl e \<and> is_refusal e"
proof (cases "ex \<and> (\<exists>k. find_inc (held st) x = Inr k)")
  case True
  then obtain k where k: "ex" "find_inc (held st) x = Inr k" by blast
  then have "k < length (held st)" by (auto simp: find_inc_def split: option.splits dest: find_idx_SomeD)
  then have "i_state (held st ! k) \<noteq> Watching" using assms(1) by (simp add: list_all_length)
  with k assms show ?thesis
    by (cases st) (auto simp: settle_def mutate_def on_incident_def settle_inc_def bind_result_def is_refusal_def)
next
  case False
  have "\<exists>e. find_inc (held st) x = Inl e \<longrightarrow> e = Refused_no_incident" by blast
  with False assms show ?thesis
    by (cases st; cases "find_idx (\<lambda>i. i_id i = x) (held st)")
      (auto simp: settle_def mutate_def on_incident_def find_inc_def bind_result_def is_refusal_def)
qed

lemma record_read_no_watching:
  assumes "list_all (\<lambda>i. i_state i \<noteq> Watching) (held st)" and "st \<noteq> Unreadable_store"
  shows "(\<exists>e. record_read ex x d r a st = Inl e \<and> is_refusal e)
    \<or> (\<exists>i st'. record_read ex x d r a st = Inr (i, st') \<and> list_all (\<lambda>i. i_state i \<noteq> Watching) (held st')
         \<and> st' \<noteq> Unreadable_store)"
proof (cases "record_read ex x d r a st")
  case (Inl e)
  then have "is_refusal e" using assms(2)
    by (auto simp: record_read_def mutate_def on_incident_def find_inc_def record_read_inc_def is_refusal_def Let_def
        bind_result_Inl split: if_splits store.splits option.splits)
  with Inl show ?thesis by simp
next
  case (Inr y)
  then obtain i st' where y: "record_read ex x d r a st = Inr (i, st')" by (cases y) auto
  then obtain doc where on: "on_incident x (record_read_inc d r a) (held st) = Inr (i, doc)" and st': "st' = Stored (prune doc)"
    by (cases st) (auto simp: record_read_def mutate_def bind_result_eq_Inr_iff split: if_splits)
  from on obtain k where k: "doc = (held st)[k := i]" "record_read_inc d r a (held st ! k) = Inr i" "k < length (held st)"
    by (auto simp: on_incident_def find_inc_def bind_result_eq_Inr_iff split: option.splits dest: find_idx_SomeD)
  from k(2) have "i_state i = i_state (held st ! k)"
    by (auto simp: record_read_inc_def Let_def split: if_splits option.splits)
  with assms(1) k have "list_all (\<lambda>i. i_state i \<noteq> Watching) doc"
    by (auto simp: list_all_length nth_list_update)
  then have "list_all (\<lambda>i. i_state i \<noteq> Watching) (prune doc)"
    by (auto simp: prune_def Let_def list_all_iff)
  with y st' show ?thesis by auto
qed

definition first_seen :: "incident \<Rightarrow> bool" where
  "first_seen inc \<longleftrightarrow> i_reads inc = [] \<and> i_attached inc = [] \<and> i_defer_until inc = None \<and> outside_changes inc = []"

lemma moved_one:
  assumes "\<And>n p. fst (de_other env n p) \<noteq> Unreadable_store" and "meets_no_watching env"
    and "\<And>n d. r_state (read_device (de_check env n d) (de_clock env n)) = Clean"
    and "first_seen inc" and "0 \<le> now" and "0 < b"
  shows "\<exists>e s'. detect_one env grace now inc b s = (Inl e, s') \<and> is_refusal e \<and> ps_reads s' = ps_reads s + 1"
proof -
  have 0: "\<not> now < (case i_defer_until inc of None \<Rightarrow> 0 | Some u \<Rightarrow> u)" "outside_changes inc = []" "i_reads inc = []"
    using assms(4,5) by (simp_all add: first_seen_def)
  have j: "j_state (judge [] [] grace now) = Need_read" "j_due (judge [] [] grace now) = Some now"
    by (simp_all add: judge_def usable_def)
  obtain r s1 where r: "make_read env (i_device inc) s = (r, s1)" by fastforce
  have c: "r_state r = Clean" using r assms(3) by (auto simp: make_read_def Let_def split: prod.splits)
  have s1: "list_all (\<lambda>i. i_state i \<noteq> Watching) (held (ps_store s1))" "ps_store s1 \<noteq> Unreadable_store" "ps_reads s1 = ps_reads s + 1"
    using r assms(1,2) unfolding meets_no_watching_def make_read_def Let_def
    by (auto split: prod.splits) (metis fst_conv)+
  have g: "settled_state (j_state (judge [r] [] grace now))"
    by (simp add: judge_def usable_def after_change_def last_change_def c settled_state_def)
  have one: "detect_one env grace now inc b s =
      (case kept_read env (i_id inc) (i_device inc) r s1 of
         Inl e \<Rightarrow> (Inl e, s1)
       | Inr s2 \<Rightarrow> handed_on env inc now (judge [r] [] grace now) (b - 1) s2)"
    using 0 j r c assms(6) by (simp add: detect_one_def Let_def waiting_state_def or_num_def split: sum.split)
  show ?thesis
  proof (cases "kept_read env (i_id inc) (i_device inc) r s1")
    case (Inl e)
    with record_read_no_watching [OF s1(1,2), of "de_exists env" "i_id inc" "i_device inc" r "Some (iso (r_epoch r))"]
    have "is_refusal e" by (auto simp: kept_read_def c)
    with one Inl s1(3) show ?thesis by simp
  next
    case (Inr s2)
    with record_read_no_watching [OF s1(1,2), of "de_exists env" "i_id inc" "i_device inc" r "Some (iso (r_epoch r))"]
    have s2: "list_all (\<lambda>i. i_state i \<noteq> Watching) (held (ps_store s2))" "ps_store s2 \<noteq> Unreadable_store"
      by (auto simp: kept_read_def c)
    from settle_refused [OF s2(1) g s2(2)] obtain e where "settle (de_exists env) (i_id inc) (judge [r] [] grace now) now (ps_store s2) = Inl e"
      "is_refusal e" by blast
    then have "handed_on env inc now (judge [r] [] grace now) (b - 1) s2 = (Inl e, s2)"
      using assms(4) g by (simp add: handed_on_def first_seen_def)
    with one Inr \<open>is_refusal e\<close> s1(3) kept_read_fields [OF Inr] show ?thesis by simp
  qed
qed

text \<open>The ten reads are not a bound by themselves: where the incidents a pass finds are closed or
  folded while their devices are read, every one of them is read, however many, and the pass
  still has all its reads left.\<close>

lemma moved_incidents_spend_nothing:
  assumes "\<And>n p. fst (de_other env n p) \<noteq> Unreadable_store" and "meets_no_watching env"
    and "\<And>n d. r_state (read_device (de_check env n d) (de_clock env n)) = Clean"
    and "list_all first_seen incs" and "0 \<le> now"
  shows "\<exists>s'. detect_loop env grace now incs READS_PER_PASS s = (Inr READS_PER_PASS, s')
    \<and> ps_reads s' = ps_reads s + length incs"
  using assms(4)
proof (induction incs arbitrary: s)
  case (Cons inc incs)
  have "0 < READS_PER_PASS" by (simp add: READS_PER_PASS_def)
  from moved_one [OF assms(1-3) _ assms(5) this, of inc grace s] Cons.prems obtain e s1 where
    "detect_one env grace now inc READS_PER_PASS s = (Inl e, s1)" "is_refusal e" "ps_reads s1 = ps_reads s + 1" by auto
  with Cons.IH [of "s1\<lparr>ps_moved := ps_moved s1 @ [i_id inc]\<rparr>"] Cons.prems show ?case by auto
qed simp

section \<open>A pass over eleven incidents, folded as they are read\<close>

definition ex_seen :: "incident_id \<Rightarrow> incident" where
  "ex_seen x = new_incident x ''lab'' (''r'' @ x) (ex_trigger Drift ''k'' []) 100"

definition ex_pass :: detect_env where
  "ex_pass = \<lparr>de_exists = True,
     de_check = (\<lambda>_ _. Checked \<lparr>ck_state = ''clean'', ck_skipped = False, ck_read_at = 0, ck_departure = '''',
                                 ck_changed = None, ck_error = ''''\<rparr>),
     de_clock = (\<lambda>n. 200 + real n), de_other = (\<lambda>_ (st, lg). (Stored [], lg)), de_step_id = (\<lambda>_. ''hs''), de_keeps = True\<rparr>"

definition ex_mode :: "heal_mode \<Rightarrow> policy_now" where
  "ex_mode m = \<lparr>m_mode = m, m_readable = True, m_expired = False, m_suspended = False, m_stopped = False,
     m_auto = [], m_propose = [], m_guards = Some guard_default, m_fingerprint = ''f'', m_confirmed = None\<rparr>"

definition ex_two :: "incident list" where
  "ex_two = [(ex_seen ''a'')\<lparr>i_defer_until := Some 500\<rparr>, ex_seen ''b'']"

definition ex_alone :: detect_env where "ex_alone = ex_pass\<lparr>de_other := (\<lambda>_ p. p)\<rparr>"

lemma ex_detect_run: "\<exists>s'. detect_run ex_alone (ex_mode M_auto) True 200 (Stored ex_two) No_log No_steps = (Inr Passed, s')
    \<and> ps_ready s' = [(''b'', At_golden)]"
  by (simp add: detect_run_def Let_def ex_mode_def ex_two_def ex_seen_def new_incident_def fresh_pass_def detect_one_def
      outside_changes_def judge_def usable_def waiting_state_def or_num_def READS_PER_PASS_def make_read_def ex_alone_def
      ex_pass_def read_device_def kept_read_def record_read_def mutate_def on_incident_def find_inc_def
      record_read_inc_def keep_read_def last_n_def prune_def handed_on_def settled_state_def settle_def settle_inc_def
      after_change_def last_change_def decisions_def proposals_def)

theorem pass_forgets_none_witness:
  "\<exists>s' xs. detect_run ex_alone (ex_mode M_auto) True 200 (Stored ex_two) No_log No_steps = (Inr Passed, s')
     \<and> {#''b''#} + mset (map fst (ps_waiting s')) + mset (ps_deferred s') + mset (ps_moved s') = {#''a'', ''b''#} + mset xs"
proof -
  obtain s' where s': "detect_run ex_alone (ex_mode M_auto) True 200 (Stored ex_two) No_log No_steps = (Inr Passed, s')"
    "ps_ready s' = [(''b'', At_golden)]" using ex_detect_run by blast
  have w: "filter (\<lambda>i. i_state i = Watching) (held (Stored ex_two)) = ex_two" "map i_id ex_two = [''a'', ''b'']"
    by (simp_all add: ex_two_def ex_seen_def new_incident_def)
  from pass_forgets_none [OF s'(1)] show ?thesis unfolding w s'(2) using s'(1) by auto
qed

end
