(* ===== verification/Ledger.thy ===== *)
theory Ledger
  imports Decisions
begin

text \<open>
  What the decisions store promises (\<open>modules/heal/decisions.py\<close>), as a specification: a \<open>ledger\<close>
  says of each decision what it decided, whether it was taken and how it ended, and which halt is
  in force; each operation is a partial function on it. The store is a file of rows that are
  appended and replayed. \<open>ledger_of\<close> is what a file of rows stands for, and the operations of
  \<open>Decisions\<close> are shown to do what the ledger's do, refusals included.
\<close>

section \<open>The specification\<close>

record ledger_entry =
  lt_outcome :: outcome
  lt_taken :: bool
  lt_ended :: "string option"
  lt_mark :: "bool option"

record ledger =
  ld_of :: "decision_id \<Rightarrow> ledger_entry option"
  ld_halt :: "string option"

datatype ledger_op =
    Do_record decision_id decision
  | Do_take decision_id
  | Do_withdraw decision_id withdrawn_how
  | Do_mark decision_id bool string bool string       \<comment> \<open>right?, verified, a person?, why\<close>
  | Do_applied decision_id string string              \<comment> \<open>the outcome, the id of a halt it makes\<close>
  | Do_halt string nat
  | Do_lift string string bool string                 \<comment> \<open>the halt, verified, a person?, why\<close>

definition on_entry :: "decision_id \<Rightarrow> (ledger_entry \<Rightarrow> ledger_entry option) \<Rightarrow> ledger \<Rightarrow> ledger option" where
  "on_entry i f L =
     (case ld_of L i of None \<Rightarrow> None
      | Some e \<Rightarrow> map_option (\<lambda>e'. L\<lparr>ld_of := (ld_of L)(i \<mapsto> e')\<rparr>) (f e))"

fun spec_op :: "string \<Rightarrow> ledger_op \<Rightarrow> ledger \<Rightarrow> ledger option" where
  "spec_op by (Do_record i d) L =
     Some (L\<lparr>ld_of := (ld_of L)(i \<mapsto> \<lparr>lt_outcome = d_outcome d, lt_taken = False, lt_ended = None, lt_mark = None\<rparr>)\<rparr>)"
| "spec_op by (Do_take i) L =
     on_entry i (\<lambda>e. if lt_outcome e \<in> {O_heal, O_propose} \<and> \<not> lt_taken e then Some (e\<lparr>lt_taken := True\<rparr>) else None) L"
| "spec_op by (Do_withdraw i how) L =
     on_entry i (\<lambda>e. if lt_outcome e = O_propose \<and> \<not> lt_taken e
                     then Some (e\<lparr>lt_taken := True, lt_ended := Some WITHDRAWN\<rparr>) else None) L"
| "spec_op by (Do_mark i right verified person why) L =
     (if not_a_person by verified person \<or> (\<not> right \<and> blank why) then None
      else on_entry i (\<lambda>e. if lt_outcome e = O_would_heal then Some (e\<lparr>lt_mark := Some right\<rparr>) else None) L)"
| "spec_op by (Do_applied i res hid) L =
     map_option (\<lambda>L. if res = ROLLED_BACK then L\<lparr>ld_halt := Some hid\<rparr> else L)
       (on_entry i (\<lambda>e. Some (e\<lparr>lt_ended := Some res\<rparr>)) L)"
| "spec_op by (Do_halt hid g) L = Some (L\<lparr>ld_halt := Some hid\<rparr>)"
| "spec_op by (Do_lift hid verified person why) L =
     (if not_a_person by verified person \<or> word_count (strip why) < LIFT_REASON_WORDS \<or> ld_halt L \<noteq> Some hid
      then None else Some (L\<lparr>ld_halt := None\<rparr>))"

section \<open>The file\<close>

definition entry_of :: "dview \<Rightarrow> ledger_entry" where
  "entry_of v = \<lparr>lt_outcome = d_outcome v, lt_taken = (v_taken v \<noteq> None),
                 lt_ended = map_option fst (v_applied v), lt_mark = map_option fst (v_mark v)\<rparr>"

definition ledger_of :: "log_row list \<Rightarrow> ledger" where
  "ledger_of rs = \<lparr>ld_of = (\<lambda>i. map_option entry_of (find (\<lambda>v. d_id v = i) (decisions rs))),
                   ld_halt = map_option h_id (halted rs)\<rparr>"

text \<open>The operations of the store, on a network that exists.\<close>

fun run_op :: "string \<Rightarrow> epoch \<Rightarrow> ledger_op \<Rightarrow> log \<Rightarrow> heal_error + log" where
  "run_op by now (Do_record i d) lg = bind_result (record_decision True i d now lg) (\<lambda>(_, lg). Inr lg)"
| "run_op by now (Do_take i) lg = bind_result (take_decision True i by now lg) (\<lambda>(_, lg). Inr lg)"
| "run_op by now (Do_withdraw i how) lg = bind_result (withdraw True i how by now lg) (\<lambda>(_, lg). Inr lg)"
| "run_op by now (Do_mark i right verified person why) lg =
     bind_result (mark_decision True i right by verified person why now lg) (\<lambda>(_, lg). Inr lg)"
| "run_op by now (Do_applied i res hid) lg =
     bind_result (record_applied True i res by hid now lg) (\<lambda>(_, lg). Inr lg)"
| "run_op by now (Do_halt hid g) lg = bind_result (halt_network True hid g now lg) (\<lambda>(_, lg). Inr lg)"
| "run_op by now (Do_lift hid verified person why) lg =
     bind_result (lift_halt True hid by verified person why now lg) (\<lambda>(_, lg). Inr lg)"

fun fresh_for :: "ledger_op \<Rightarrow> log_row list \<Rightarrow> bool" where
  "fresh_for (Do_record i d) rs \<longleftrightarrow> i \<notin> d_id ` set (decs rs)"
| "fresh_for _ rs \<longleftrightarrow> True"

section \<open>What a row does to the ledger\<close>

lemma find_map_id: "(\<And>v. d_id (f v) = d_id v) \<Longrightarrow>
    find (\<lambda>v. d_id v = i) (map f vs) = map_option f (find (\<lambda>v. d_id v = i) vs)"
  by (induction vs) auto

lemma find_find_idx: "find P xs = map_option (\<lambda>k. xs ! k) (find_idx P xs)"
  by (induction xs) (auto simp: option.map_comp comp_def)

lemma find_decision_find:
  "rows_of lg = Inr rs \<Longrightarrow> find_decision lg i =
     (case find (\<lambda>v. d_id v = i) (decisions rs) of None \<Rightarrow> Inl Refused_no_decision | Some v \<Rightarrow> Inr v)"
  by (simp add: find_decision_def find_find_idx split: option.splits)

lemma find_id: "find (\<lambda>v. d_id v = i) vs = Some v \<Longrightarrow> d_id v = i \<and> v \<in> set vs"
  by (induction vs) (auto split: if_splits)

definition entry_change :: "log_row \<Rightarrow> ledger_entry \<Rightarrow> ledger_entry" where
  "entry_change r e =
     (case r of
        Taken_row _ _ _ \<Rightarrow> e\<lparr>lt_taken := True\<rparr>
      | Withdrawn_row _ _ _ _ \<Rightarrow> e\<lparr>lt_taken := True, lt_ended := Some WITHDRAWN\<rparr>
      | Mark_row _ right _ _ _ \<Rightarrow> e\<lparr>lt_mark := Some right\<rparr>
      | Applied_row _ res _ _ \<Rightarrow> e\<lparr>lt_ended := Some res\<rparr>
      | _ \<Rightarrow> e)"

lemma entry_of_row: "entry_of (apply_row r v) = (if row_target r = Some (d_id v) then entry_change r (entry_of v) else entry_of v)"
  by (cases r) (simp_all add: apply_row_def entry_of_def entry_change_def)

text \<open>A row about a decision changes that decision's entry; the halt is what the row makes of it.\<close>

lemma ledger_of_row:
  assumes "\<not> is_decision r"
  shows "ledger_of (rs @ [r]) = \<lparr>ld_of = (\<lambda>i. map_option (if row_target r = Some i then entry_change r else id) (ld_of (ledger_of rs) i)),
     ld_halt = map_option h_id (halted_from (halted rs) [r])\<rparr>"
proof -
  have "map_option entry_of (find (\<lambda>v. d_id v = i) (decisions (rs @ [r])))
      = map_option (if row_target r = Some i then entry_change r else id) (ld_of (ledger_of rs) i)" for i
    using find_id [of i "decisions rs"]
    by (cases "find (\<lambda>v. d_id v = i) (decisions rs)")
      (auto simp: decisions_other [OF assms] find_map_id ledger_of_def entry_of_row)
  then show ?thesis by (simp add: ledger_of_def halted_append)
qed

lemma ledger_of_decision:
  assumes "log_ok rs" "d_id d \<notin> d_id ` set (decs rs)"
  shows "ledger_of (rs @ [Decision_row d]) = (ledger_of rs)\<lparr>ld_of := (ld_of (ledger_of rs))(d_id d \<mapsto>
     \<lparr>lt_outcome = d_outcome d, lt_taken = False, lt_ended = None, lt_mark = None\<rparr>)\<rparr>"
proof -
  have "d_id d \<notin> d_id ` set (decisions rs)"
    using decisions_ids [OF assms(1)] assms(2) by (metis set_map)
  then have f: "find (\<lambda>v. d_id v = d_id d) (decisions rs) = None"
    by (auto simp: find_None_iff) (metis imageI)
  have a: "find P (xs @ [x]) = (case find P xs of None \<Rightarrow> if P x then Some x else None | Some y \<Rightarrow> Some y)" for P and xs :: "dview list" and x
    by (induction xs) auto
  have "map_option entry_of (find (\<lambda>v. d_id v = i) (decisions (rs @ [Decision_row d])))
      = ((ld_of (ledger_of rs))(d_id d \<mapsto> \<lparr>lt_outcome = d_outcome d, lt_taken = False, lt_ended = None, lt_mark = None\<rparr>)) i" for i
    using f by (auto simp: decisions_record [OF assms] a ledger_of_def entry_of_def plain_view_def decision.extend_def split: option.splits)
  then show ?thesis by (auto simp: ledger_of_def halted_append)
qed

lemma ledger_row_on_entry:
  assumes "row_target r = Some i" "halted_from (halted rs) [r] = halted rs" "ld_of (ledger_of rs) i = Some e" "\<not> is_decision r"
  shows "ledger_of (rs @ [r]) = (ledger_of rs)\<lparr>ld_of := (ld_of (ledger_of rs))(i \<mapsto> entry_change r e)\<rparr>"
proof -
  have "(\<lambda>j. map_option (if row_target r = Some j then entry_change r else id) (ld_of (ledger_of rs) j))
      = (ld_of (ledger_of rs))(i \<mapsto> entry_change r e)"
    using assms(1,3) by (auto simp: option.map_id)
  then show ?thesis using assms(2,4) by (simp add: ledger_of_row) (simp add: ledger_of_def)
qed

section \<open>The store does what the ledger does\<close>

lemma row_appended:
  "rows_of lg = Inr rs \<Longrightarrow> rows_of (append_to [r] lg) = Inr (rs @ [r])"
  by (cases lg) simp_all

text \<open>What a step of the file is on the ledger: refused by both, or done by both.\<close>

definition same_step :: "heal_error + log \<Rightarrow> ledger option \<Rightarrow> bool" where
  "same_step res spec \<longleftrightarrow>
     (case res of Inl _ \<Rightarrow> spec = None
      | Inr lg' \<Rightarrow> \<exists>rs'. rows_of lg' = Inr rs' \<and> spec = Some (ledger_of rs'))"

text \<open>An operation that finds its decision, checks it and appends a row about it.\<close>

lemma found_same_step:
  assumes "rows_of lg = Inr rs"
    and "row_target r = Some i" "\<not> is_decision r" "halted_from (halted rs) [r] = halted rs"
    and "\<And>v. P v \<longleftrightarrow> \<not> ok (entry_of v)" and "\<And>e. ok e \<Longrightarrow> f e = Some (entry_change r e)" and "\<And>e. \<not> ok e \<Longrightarrow> f e = None"
  shows "same_step (bind_result (bind_result (find_decision lg i)
     (\<lambda>v. if P v then Inl (err v) else append_find True i r lg)) (\<lambda>(_, lg). Inr lg)) (on_entry i f (ledger_of rs))"
proof (cases "find (\<lambda>v. d_id v = i) (decisions rs)")
  case None
  then have "find_decision lg i = Inl Refused_no_decision" using assms(1) by (simp add: find_decision_find)
  moreover have "ld_of (ledger_of rs) i = None" using None by (simp add: ledger_of_def)
  ultimately show ?thesis by (simp add: on_entry_def same_step_def)
next
  case (Some v)
  have fd: "find_decision lg i = Inr v" using assms(1) Some by (simp add: find_decision_find)
  have e: "ld_of (ledger_of rs) i = Some (entry_of v)" using Some by (simp add: ledger_of_def)
  show ?thesis
  proof (cases "ok (entry_of v)")
    case False
    with fd e assms(5,7) show ?thesis by (simp add: on_entry_def same_step_def)
  next
    case True
    have rows: "rows_of (append_to [r] lg) = Inr (rs @ [r])" by (rule row_appended [OF assms(1)])
    have "find (\<lambda>v. d_id v = i) (decisions (rs @ [r])) = Some (apply_row r v)"
      using Some by (simp add: decisions_other [OF assms(3)] find_map_id)
    then have "find_decision (append_to [r] lg) i = Inr (apply_row r v)" using rows by (simp add: find_decision_find)
    then have "append_find True i r lg = Inr (apply_row r v, append_to [r] lg)"
      by (simp add: append_find_def append_row_def)
    with fd True e assms(5,6) rows ledger_row_on_entry [OF assms(2,4) e assms(3)]
    show ?thesis by (simp add: on_entry_def same_step_def)
  qed
qed

lemma take_same:
  assumes "rows_of lg = Inr rs"
  shows "same_step (run_op by now (Do_take i) lg) (spec_op by (Do_take i) (ledger_of rs))"
  unfolding run_op.simps spec_op.simps take_decision_def if_if_Inl
  by (rule found_same_step [where ok = "\<lambda>e. lt_outcome e \<in> {O_heal, O_propose} \<and> \<not> lt_taken e", OF assms])
    (auto simp: entry_of_def entry_change_def)

lemma withdraw_same:
  assumes "rows_of lg = Inr rs"
  shows "same_step (run_op by now (Do_withdraw i how) lg) (spec_op by (Do_withdraw i how) (ledger_of rs))"
  unfolding run_op.simps spec_op.simps withdraw_def if_if_Inl
  by (rule found_same_step [where ok = "\<lambda>e. lt_outcome e = O_propose \<and> \<not> lt_taken e", OF assms])
    (auto simp: entry_of_def entry_change_def)

lemma mark_same:
  assumes "rows_of lg = Inr rs"
  shows "same_step (run_op by now (Do_mark i right verified person why) lg)
    (spec_op by (Do_mark i right verified person why) (ledger_of rs))"
proof (cases "not_a_person by verified person \<or> (\<not> right \<and> blank why)")
  case True
  then show ?thesis by (auto simp: mark_decision_def same_step_def)
next
  case False
  have "same_step (bind_result (bind_result (find_decision lg i) (\<lambda>d. if d_outcome d \<noteq> O_would_heal
        then Inl Refused_not_dry_run else append_find True i (Mark_row i right by (strip why) (iso now)) lg))
        (\<lambda>(_, lg). Inr lg))
      (on_entry i (\<lambda>e. if lt_outcome e = O_would_heal then Some (e\<lparr>lt_mark := Some right\<rparr>) else None) (ledger_of rs))"
    by (rule found_same_step [where ok = "\<lambda>e. lt_outcome e = O_would_heal", OF assms])
      (auto simp: entry_of_def entry_change_def)
  moreover have "not_a_person by verified person = False" "(\<not> right \<and> blank why) = False" using False by auto
  ultimately show ?thesis unfolding run_op.simps spec_op.simps mark_decision_def by (simp only: if_False simp_thms)
qed

lemma applied_same:
  assumes "rows_of lg = Inr rs"
  shows "same_step (run_op by now (Do_applied i res hid) lg) (spec_op by (Do_applied i res hid) (ledger_of rs))"
proof (cases "find (\<lambda>v. d_id v = i) (decisions rs)")
  case None
  then show ?thesis
    using assms by (simp add: record_applied_def find_decision_find same_step_def ledger_of_def on_entry_def)
next
  case (Some v)
  let ?a = "Applied_row i res by (iso now)"
  let ?h = "Halt_row \<lparr>h_id = hid, h_guard = 14, h_at = iso now, h_epoch = now\<rparr>"
  have e: "ld_of (ledger_of rs) i = Some (entry_of v)" using Some by (simp add: ledger_of_def)
  have l: "ledger_of (rs @ [?a]) = (ledger_of rs)\<lparr>ld_of := (ld_of (ledger_of rs))(i \<mapsto> (entry_of v)\<lparr>lt_ended := Some res\<rparr>)\<rparr>"
    using ledger_row_on_entry [OF _ _ e, of ?a] by (simp add: entry_change_def)
  have h: "ledger_of ((rs @ [?a]) @ [?h]) = (ledger_of (rs @ [?a]))\<lparr>ld_halt := Some hid\<rparr>"
    by (subst ledger_of_row) (simp_all add: ledger_of_def option.map_id)
  have fd: "find_decision lg i = Inr v" using assms Some by (simp add: find_decision_find)
  have rows: "rows_of (append_to [?a] lg) = Inr (rs @ [?a])" "rows_of (append_to [?h] (append_to [?a] lg)) = Inr ((rs @ [?a]) @ [?h])"
    using row_appended [OF assms, of ?a] row_appended [of "append_to [?a] lg" "rs @ [?a]" ?h] by simp_all
  have f1: "find (\<lambda>v. d_id v = i) (decisions (rs @ [?a])) = Some (apply_row ?a v)"
    using Some by (simp add: decisions_other find_map_id)
  have f2: "find (\<lambda>v. d_id v = i) (decisions ((rs @ [?a]) @ [?h])) = Some (apply_row ?h (apply_row ?a v))"
    using f1 decisions_other [of ?h "rs @ [?a]"] by (simp add: find_map_id)
  show ?thesis
    using fd rows l h find_decision_find [OF rows(1), of i] find_decision_find [OF rows(2), of i] f1 f2 e
    by (cases "res = ROLLED_BACK")
      (simp_all add: record_applied_def halt_network_def append_row_def Let_def same_step_def on_entry_def)
qed

lemma lift_same:
  assumes "rows_of lg = Inr rs"
  shows "same_step (run_op by now (Do_lift hid verified person why) lg)
    (spec_op by (Do_lift hid verified person why) (ledger_of rs))"
proof -
  let ?r = "Lift_row hid by verified (strip why) (iso now)"
  have z: "word_count (strip why) = 0" if "strip why = ''''" using that by (simp add: word_count_def)
  have l: "ledger_of (rs @ [?r]) = (ledger_of rs)\<lparr>ld_halt := None\<rparr>" if "map_option h_id (halted rs) = Some hid"
    using that by (subst ledger_of_row) (auto simp: ledger_of_def option.map_id)
  have c: "ld_halt (ledger_of rs) = map_option h_id (halted rs)" by (simp add: ledger_of_def)
  show ?thesis
    using assms row_appended [OF assms, of ?r] l z
    by (auto simp add: lift_halt_def append_row_def Let_def same_step_def c LIFT_REASON_WORDS_def)
qed

lemma record_same:
  assumes "rows_of lg = Inr rs" "log_ok rs" "i \<notin> d_id ` set (decs rs)"
  shows "same_step (run_op by now (Do_record i d) lg) (spec_op by (Do_record i d) (ledger_of rs))"
proof -
  let ?d = "d\<lparr>d_id := i, d_at := iso now, d_epoch := now\<rparr>"
  have "ledger_of (rs @ [Decision_row ?d]) = (ledger_of rs)\<lparr>ld_of := (ld_of (ledger_of rs))(i \<mapsto>
      \<lparr>lt_outcome = d_outcome d, lt_taken = False, lt_ended = None, lt_mark = None\<rparr>)\<rparr>"
    using ledger_of_decision [OF assms(2), of ?d] assms(3) by simp
  with row_appended [OF assms(1), of "Decision_row ?d"] show ?thesis
    by (simp add: record_decision_def append_row_def Let_def same_step_def)
qed

lemma halt_same:
  assumes "rows_of lg = Inr rs"
  shows "same_step (run_op by now (Do_halt hid g) lg) (spec_op by (Do_halt hid g) (ledger_of rs))"
proof -
  let ?h = "Halt_row \<lparr>h_id = hid, h_guard = g, h_at = iso now, h_epoch = now\<rparr>"
  have "ledger_of (rs @ [?h]) = (ledger_of rs)\<lparr>ld_halt := Some hid\<rparr>"
    by (subst ledger_of_row) (simp_all add: ledger_of_def option.map_id)
  with row_appended [OF assms, of ?h] show ?thesis
    by (simp add: halt_network_def append_row_def Let_def same_step_def)
qed

lemma run_op_step:
  "run_op by now op lg = Inr lg' \<Longrightarrow> rows_of lg = Inr rs \<Longrightarrow> fresh_for op rs \<Longrightarrow> log_step lg lg'"
  by (cases op) (auto simp: bind_result_eq_Inr_iff intro: log_step.intros)

lemma op_refines:
  assumes "rows_of lg = Inr rs" "log_ok rs" "fresh_for op rs"
  shows "same_step (run_op by now op lg) (spec_op by op (ledger_of rs))"
proof (cases op)
  case (Do_record i d)
  with assms(3) have "i \<notin> d_id ` set (decs rs)" by simp
  from record_same [OF assms(1,2) this] show ?thesis by (simp only: Do_record)
qed (simp_all only: take_same [OF assms(1)] withdraw_same [OF assms(1)] mark_same [OF assms(1)]
      applied_same [OF assms(1)] halt_same [OF assms(1)] lift_same [OF assms(1)])

section \<open>A history\<close>

text \<open>Operations one after another, each by someone at some time; a refused one changes nothing.\<close>

type_synonym timed_op = "string \<times> epoch \<times> ledger_op"

fun run_ops :: "timed_op list \<Rightarrow> log \<Rightarrow> log" where
  "run_ops [] lg = lg"
| "run_ops ((by, now, op) # ops) lg = run_ops ops (case run_op by now op lg of Inl _ \<Rightarrow> lg | Inr lg' \<Rightarrow> lg')"

fun spec_ops :: "timed_op list \<Rightarrow> ledger \<Rightarrow> ledger" where
  "spec_ops [] L = L"
| "spec_ops ((by, now, op) # ops) L = spec_ops ops (case spec_op by op L of None \<Rightarrow> L | Some L' \<Rightarrow> L')"

text \<open>The ids given to decisions are new.\<close>

fun recorded_ids :: "timed_op list \<Rightarrow> decision_id list" where
  "recorded_ids [] = []"
| "recorded_ids ((by, now, Do_record i d) # ops) = i # recorded_ids ops"
| "recorded_ids (_ # ops) = recorded_ids ops"

lemma decs_step:
  assumes "run_op by now op lg = Inr lg'" "rows_of lg = Inr rs" "rows_of lg' = Inr rs'" "log_ok rs" "fresh_for op rs"
  shows "d_id ` set (decs rs') \<subseteq> d_id ` set (decs rs) \<union> set (recorded_ids [(by, now, op)])"
proof -
  have other: "\<not> is_decision r \<Longrightarrow> decs (xs @ [r]) = decs xs" for r xs by (simp add: decs_other)
  show ?thesis
  proof (cases op)
    case (Do_record i d)
    with assms(1-3) row_appended [OF assms(2)] show ?thesis
      by (auto simp: record_decision_def append_row_def Let_def bind_result_def)
  next
    case (Do_take i)
    with assms(1-3) take_decision_rows(1) [of True i "by" now lg _ lg' rs] other show ?thesis
      by (auto simp: bind_result_eq_Inr_iff)
  next
    case (Do_withdraw i how)
    with assms(1-3) withdraw_rows(1) [of True i how "by" now lg _ lg' rs] other show ?thesis
      by (auto simp: bind_result_eq_Inr_iff)
  next
    case (Do_mark i right verified person why)
    with assms(1-3) mark_decision_rows(1) [of True i right "by" verified person why now lg _ lg' rs] other show ?thesis
      by (auto simp: bind_result_eq_Inr_iff)
  next
    case (Do_applied i res hid)
    have "decs (if res = ROLLED_BACK then [Halt_row h] else []) = []" for h by simp
    with Do_applied assms(1-3) record_applied_rows [of True i res "by" hid now lg _ lg' rs] show ?thesis
      by (auto simp: bind_result_eq_Inr_iff simp del: decs.simps(2))
  next
    case (Do_halt hid g)
    with assms(1-3) row_appended [OF assms(2)] show ?thesis
      by (auto simp: halt_network_def append_row_def Let_def bind_result_def)
  next
    case (Do_lift hid verified person why)
    with assms(1-3) row_appended [OF assms(2)] show ?thesis
      by (auto simp: lift_halt_def append_row_def Let_def bind_result_def split: if_splits)
  qed
qed

lemma run_ops_refines:
  assumes "rows_of lg = Inr rs" "log_ok rs" "distinct (recorded_ids ops)" "set (recorded_ids ops) \<inter> d_id ` set (decs rs) = {}"
  shows "\<exists>rs'. rows_of (run_ops ops lg) = Inr rs' \<and> log_ok rs' \<and> ledger_of rs' = spec_ops ops (ledger_of rs)"
  using assms
proof (induction ops arbitrary: lg rs)
  case (Cons t ops)
  obtain "by" now op where t: "t = (by, now, op)" by (cases t) auto
  have ids: "recorded_ids (t # ops) = recorded_ids [t] @ recorded_ids ops" by (cases op) (simp_all add: t)
  have f: "fresh_for op rs" using Cons.prems(4) by (cases op) (auto simp: t)
  note same = op_refines [OF Cons.prems(1,2) f, of "by" now]
  show ?case
  proof (cases "run_op by now op lg")
    case (Inl e)
    with same have "spec_op by op (ledger_of rs) = None" by (simp add: same_step_def)
    with Inl Cons.IH [OF Cons.prems(1,2)] Cons.prems(3,4) ids show ?thesis by (auto simp: t)
  next
    case (Inr lg')
    with same obtain rs' where rs': "rows_of lg' = Inr rs'" "spec_op by op (ledger_of rs) = Some (ledger_of rs')"
      by (auto simp: same_step_def)
    have ok: "log_ok rs'"
      using log_step_grows [OF run_op_step [OF Inr Cons.prems(1) f] Cons.prems(1)] rs'(1) grows_log_ok Cons.prems(2) by auto
    have "set (recorded_ids ops) \<inter> d_id ` set (decs rs') = {}"
      using decs_step [OF Inr Cons.prems(1) rs'(1) Cons.prems(2) f] Cons.prems(3,4) ids by (auto simp: t)
    with Cons.IH [OF rs'(1) ok] Cons.prems(3) ids Inr rs'(2) show ?thesis by (simp add: t)
  qed
qed auto

definition empty_ledger :: ledger where "empty_ledger = \<lparr>ld_of = Map.empty, ld_halt = None\<rparr>"

text \<open>C4: the decisions store implements its ledger: whatever operations are asked of it, in whatever
  order, by whomever and whenever, as long as the ids given to decisions are new, the file it
  leaves stands for what the ledger's own operations make; each operation is refused exactly when
  the ledger refuses it.\<close>

theorem store_refines_ledger:
  assumes "distinct (recorded_ids ops)"
  shows "\<exists>rs. rows_of (run_ops ops No_log) = Inr rs \<and> ledger_of rs = spec_ops ops empty_ledger
    \<and> (\<forall>by now op. fresh_for op rs \<longrightarrow>
         (isl (run_op by now op (run_ops ops No_log)) \<longleftrightarrow> spec_op by op (spec_ops ops empty_ledger) = None))"
proof -
  have "ledger_of [] = empty_ledger" by (simp add: ledger_of_def empty_ledger_def decisions_def halted_def)
  with run_ops_refines [of No_log "[]" ops] assms obtain rs where
    rs: "rows_of (run_ops ops No_log) = Inr rs" "log_ok rs" "ledger_of rs = spec_ops ops empty_ledger" by auto
  have "isl (run_op by now op (run_ops ops No_log)) \<longleftrightarrow> spec_op by op (ledger_of rs) = None" if "fresh_for op rs" for "by" now op
    using op_refines [OF rs(1,2) that, of "by" now] by (cases "run_op by now op (run_ops ops No_log)") (auto simp: same_step_def)
  with rs show ?thesis by auto
qed

section \<open>A heal taken twice, and rolled back\<close>

definition ex_history :: "timed_op list" where
  "ex_history = [(''H3'', 100, Do_record ''hd1'' (ex_decision O_heal)), (''H4'', 200, Do_take ''hd1''),
     (''bob'', 300, Do_take ''hd1''), (''H4'', 400, Do_applied ''hd1'' ROLLED_BACK ''hh1'')]"

theorem store_refines_ledger_witness:
  "\<exists>rs. rows_of (run_ops ex_history No_log) = Inr rs \<and> ld_halt (ledger_of rs) = Some ''hh1''
     \<and> map_option lt_taken (ld_of (ledger_of rs) ''hd1'') = Some True
     \<and> isl (run_op ''bob'' 500 (Do_take ''hd1'') (run_ops ex_history No_log))"
proof -
  have d: "distinct (recorded_ids ex_history)" by (simp add: ex_history_def)
  have l: "spec_ops ex_history empty_ledger = \<lparr>ld_of = [''hd1'' \<mapsto> \<lparr>lt_outcome = O_heal, lt_taken = True,
      lt_ended = Some ROLLED_BACK, lt_mark = None\<rparr>], ld_halt = Some ''hh1''\<rparr>"
    by (simp add: ex_history_def empty_ledger_def on_entry_def ex_decision_def)
  from store_refines_ledger [OF d] obtain rs where
    r: "rows_of (run_ops ex_history No_log) = Inr rs" "ledger_of rs = spec_ops ex_history empty_ledger"
    and all: "\<forall>by now op. fresh_for op rs \<longrightarrow> (isl (run_op by now op (run_ops ex_history No_log))
      \<longleftrightarrow> spec_op by op (spec_ops ex_history empty_ledger) = None)" by blast
  have "fresh_for (Do_take ''hd1'') rs" by simp
  with all have "isl (run_op ''bob'' 500 (Do_take ''hd1'') (run_ops ex_history No_log))
      \<longleftrightarrow> spec_op ''bob'' (Do_take ''hd1'') (spec_ops ex_history empty_ledger) = None" by blast
  moreover have "spec_op ''bob'' (Do_take ''hd1'') (spec_ops ex_history empty_ledger) = None"
    by (simp add: l on_entry_def)
  ultimately show ?thesis using r l by simp
qed

end
