(* ===== verification/Authorise.thy ===== *)
theory Authorise
  imports Removal "HOL-Library.List_Lexorder" "HOL-Library.Char_ord"
begin

text \<open>
  An authorised line (\<open>modules/nsot/authorisation.py\<close>, and \<open>dangerous_commands\<close> of
  \<open>modules/pipeline.py\<close>): a line that the gate flags is sent only with a person's stated reason,
  whose shape alone is judged.

  The gate's patterns are words: some words that are exactly the line's first ones, then one of
  some prefixes of the next, whatever the case. The redactor's masking of a line (\<open>key\<close>) is an
  argument. A problem keeps the lines it names; the sentences are not modelled.

  The lemmas: no problem is found exactly when the lines authorised are the lines flagged, each with
  a reason of a reason's shape; and the reason of an approval authorises every line it is given
  for, unless it is a copy of that line.
\<close>

section \<open>Text\<close>

definition lower_char :: "char \<Rightarrow> char" where
  "lower_char c = (let n = (of_char c :: nat) in if 65 \<le> n \<and> n \<le> 90 then char_of (n + 32) else c)"

definition lower :: "string \<Rightarrow> string" where "lower s = map lower_char s"

fun joined :: "string list \<Rightarrow> string" where
  "joined [] = ''''"
| "joined [w] = w"
| "joined (w # ws) = w @ '' '' @ joined ws"

definition flat :: "string \<Rightarrow> string" where "flat s = lower (joined (words_of s))"

section \<open>The lines the gate flags\<close>

definition DANGEROUS_PATTERNS :: "(string list \<times> string list) list" where
  "DANGEROUS_PATTERNS =
     [([''no'', ''ip''], [''address'']), ([], [''shutdown'']),
      ([''no'', ''router''], [''ospf'', ''bgp'', ''eigrp'', ''isis'']), ([''crypto'', ''key''], [''zeroize'']),
      ([''erase''], [''nvram'']), ([], [''reload''])]"

definition matches :: "string list \<Rightarrow> string list \<times> string list \<Rightarrow> bool" where
  "matches ws p \<longleftrightarrow>
     (case p of (firsts, nexts) \<Rightarrow>
        length firsts < length ws \<and> take (length firsts) ws = firsts
        \<and> (\<exists>x \<in> set nexts. starts x (ws ! length firsts)))"

definition dangerous :: "string \<Rightarrow> bool" where
  "dangerous l \<longleftrightarrow> (\<exists>p \<in> set DANGEROUS_PATTERNS. matches (words_of (lower l)) p)"

definition dangerous_commands :: "string list \<Rightarrow> string list" where
  "dangerous_commands commands = map strip (filter dangerous commands)"

section \<open>Authorisations\<close>

datatype raw_auth = Entry string string | Bare string

record auth =
  au_line :: string
  au_reason :: string

definition normalise_one :: "(string \<Rightarrow> string) \<Rightarrow> raw_auth \<Rightarrow> auth" where
  "normalise_one redact r =
     (case r of Entry l why \<Rightarrow> \<lparr>au_line = redact (strip l), au_reason = strip why\<rparr>
              | Bare l \<Rightarrow> \<lparr>au_line = redact (strip l), au_reason = ''''\<rparr>)"

definition MIN_WORDS :: nat where "MIN_WORDS = 3"
definition MIN_CHARS :: nat where "MIN_CHARS = 8"

datatype reason_problem = No_reason | Reason_copies_line | Reason_too_short

definition reason_problem :: "(string \<Rightarrow> string) \<Rightarrow> auth \<Rightarrow> reason_problem option" where
  "reason_problem redact a =
     (if au_reason a = '''' then Some No_reason
      else if flat (au_reason a) \<in> {flat (au_line a), flat (redact (strip (au_line a)))} then Some Reason_copies_line
      else if length (words_of (au_reason a)) < MIN_WORDS \<or> length (au_reason a) < MIN_CHARS
      then Some Reason_too_short else None)"

definition sorted_set :: "string list \<Rightarrow> string list" where "sorted_set xs = sort (remdups xs)"

definition valid_keys :: "(string \<Rightarrow> string) \<Rightarrow> raw_auth list \<Rightarrow> string list" where
  "valid_keys redact rs =
     sorted_set (map au_line (filter (\<lambda>a. reason_problem redact a = None) (map (normalise_one redact) rs)))"

definition flagged :: "(string \<Rightarrow> string) \<Rightarrow> string list \<Rightarrow> string list \<Rightarrow> string list" where
  "flagged redact commands extra =
     sorted_set (map (\<lambda>l. redact (strip l)) (dangerous_commands commands) @ extra)"

datatype auth_problem = Missing "string list" | Unused "string list" | Bad_reason string reason_problem

definition problems :: "(string \<Rightarrow> string) \<Rightarrow> string list \<Rightarrow> raw_auth list \<Rightarrow> string list \<Rightarrow> auth_problem list" where
  "problems redact commands rs extra =
     (let auths = map (normalise_one redact) rs; need = flagged redact commands extra; given = map au_line auths;
          missing = sorted_set (filter (\<lambda>k. k \<notin> set given) need);
          unused = sorted_set (filter (\<lambda>k. k \<notin> set need) given)
      in (if missing = [] then [] else [Missing missing]) @ (if unused = [] then [] else [Unused unused])
         @ concat (map (\<lambda>a. case reason_problem redact a of None \<Rightarrow> [] | Some p \<Rightarrow> [Bad_reason (au_line a) p])
                     (filter (\<lambda>a. au_line a \<in> set need) auths)))"

section \<open>What it takes to be authorised\<close>

lemma sorted_set_simps [simp]: "set (sorted_set xs) = set xs" "sorted_set [] = []" "sorted_set xs = [] \<longleftrightarrow> xs = []"
  "distinct (sorted_set xs)"
  unfolding sorted_set_def by (simp, simp, metis list.set(1) remdups_eq_nil_iff set_empty set_sort, simp)

lemma flagged_set:
  "set (flagged redact commands extra) =
     (\<lambda>l. redact (strip l)) ` (strip ` {l \<in> set commands. dangerous l}) \<union> set extra"
  by (auto simp: flagged_def dangerous_commands_def)

text \<open>C29: the authorisation check passes exactly when the lines authorised are the lines that need it,
  none missing and none left over, and each is given a reason that has a reason's shape: not
  empty, not a copy of the line, three words and eight characters.\<close>

theorem authorised_iff:
  "problems redact commands rs extra = [] \<longleftrightarrow>
     au_line ` set (map (normalise_one redact) rs) = set (flagged redact commands extra)
     \<and> list_all (\<lambda>a. reason_problem redact a = None) (map (normalise_one redact) rs)"
proof -
  let ?as = "map (normalise_one redact) rs"
  let ?need = "flagged redact commands extra"
  have "problems redact commands rs extra = [] \<longleftrightarrow>
      set ?need \<subseteq> au_line ` set ?as \<and> au_line ` set ?as \<subseteq> set ?need
      \<and> (\<forall>a \<in> set ?as. au_line a \<in> set ?need \<longrightarrow> reason_problem redact a = None)"
  proof -
    have "missing = [] \<longleftrightarrow> set ?need \<subseteq> au_line ` set ?as" if "missing = sorted_set (filter (\<lambda>k. k \<notin> set (map au_line ?as)) ?need)" for missing
      unfolding that by (auto simp: filter_empty_conv)
    moreover have "unused = [] \<longleftrightarrow> au_line ` set ?as \<subseteq> set ?need" if "unused = sorted_set (filter (\<lambda>k. k \<notin> set ?need) (map au_line ?as))" for unused
      unfolding that by (auto simp: filter_empty_conv)
    moreover have "concat (map (\<lambda>a. case reason_problem redact a of None \<Rightarrow> [] | Some p \<Rightarrow> [Bad_reason (au_line a) p])
        (filter (\<lambda>a. au_line a \<in> set ?need) ?as)) = [] \<longleftrightarrow>
        (\<forall>a \<in> set ?as. au_line a \<in> set ?need \<longrightarrow> reason_problem redact a = None)"
      by (fastforce split: option.splits)
    ultimately show ?thesis by (simp only: problems_def Let_def append_is_Nil_conv) (auto split: if_splits)
  qed
  then show ?thesis by (auto simp: list_all_iff)
qed

text \<open>An approval's one reason, given for each line flagged.\<close>

definition approved_auths :: "string \<Rightarrow> string list \<Rightarrow> raw_auth list" where
  "approved_auths why ks = map (\<lambda>k. Entry k why) ks"

lemma approved_auths_problems:
  assumes redact: "\<And>k. redact (strip (redact k)) = redact k"
    and why: "strip why = why" "MIN_WORDS \<le> length (words_of why)" "MIN_CHARS \<le> length why"
  shows "problems redact commands (approved_auths why (flagged redact commands [])) [] = [] \<longleftrightarrow>
    (\<forall>k \<in> set (flagged redact commands []). flat why \<noteq> flat k)"
proof -
  have k: "redact (strip k) = k" if "k \<in> set (flagged redact commands [])" for k
    using that redact by (auto simp: flagged_set)
  have "reason_problem redact \<lparr>au_line = k, au_reason = why\<rparr> = None \<longleftrightarrow> flat why \<noteq> flat k"
    if "k \<in> set (flagged redact commands [])" for k
    using k [OF that] why by (auto simp: reason_problem_def MIN_CHARS_def)
  then show ?thesis
    unfolding authorised_iff
    by (auto simp: approved_auths_def normalise_one_def k why list_all_iff image_image)
qed

lemma dangerous_examples:
  "dangerous ''  Shutdown''" "dangerous ''no ip  address 10.0.0.1 255.0.0.0''" "dangerous ''no router OSPF 1''"
  "\<not> dangerous ''no shutdown''" "\<not> dangerous ''ip address 10.0.0.1 255.0.0.0''" "\<not> dangerous ''router ospf 1''"
  by code_simp+

end
