(* ===== verification/Reset.thy ===== *)
theory Reset
  imports Removal
begin

text \<open>
  The OSPF process resets (\<open>modules/nsot/privileged.py\<close>: \<open>PROCESS_RESETS\<close>, \<open>reset_for\<close>,
  \<open>reset_plan\<close>, \<open>send_reset\<close>): a fix whose change takes effect only once its routing process is
  reset plans one reset, measured on the device's platform, and sends it on the session its apply
  holds; the measured prompt alone is answered, and the neighbour table is read until the
  adjacencies formed before are formed again, or its bound ends.

  The measurement record is an argument; its rows are JSON values, so a row may be anything. A
  session is two functions of the device (\<open>read\<close> and \<open>send\<close>, which may raise); the clock is read
  once a round, and the wait runs on fuel. Masking, the kept copies of what was printed and the
  reset's own record are not modelled.

  The lemmas: nothing is sent that is not measured, and of the measured answer nothing unless the
  device asked its measured prompt; a reset that is said refused by a question or by the device is
  never waited for; and the wait ends within a number of rounds its bound sets.
\<close>

section \<open>Lines of text\<close>

definition is_break :: "char \<Rightarrow> bool" where
  "is_break c \<longleftrightarrow> c \<in> {CHR 0x0A, CHR 0x0B, CHR 0x0C, CHR 0x0D, CHR 0x1C, CHR 0x1D, CHR 0x1E, CHR 0x85}"

text \<open>\<open>splitlines\<close>; a carriage return and the line feed after it are one break.\<close>

fun lines_from :: "bool \<Rightarrow> string \<Rightarrow> string \<Rightarrow> string list" where
  "lines_from cr l [] = (if l = [] then [] else [l])"
| "lines_from cr l (c # s) =
     (if cr \<and> c = CHR 0x0A then lines_from False l s
      else if is_break c then l # lines_from (c = CHR 0x0D) [] s
      else lines_from False (l @ [c]) s)"

definition splitlines :: "string \<Rightarrow> string list" where "splitlines s = lines_from False [] s"

definition last_line :: "string \<Rightarrow> string" where
  "last_line s = (case filter (\<lambda>l. l \<noteq> '''') (map strip (splitlines s)) of [] \<Rightarrow> '''' | ls \<Rightarrow> last ls)"

text \<open>\<open>^%\<close>, at the start of the text or after a line feed.\<close>

fun percent_line :: "bool \<Rightarrow> string \<Rightarrow> bool" where
  "percent_line start [] = False"
| "percent_line start (c # s) = ((start \<and> c = CHR ''%'') \<or> percent_line (c = CHR 0x0A) s)"

text \<open>\<open>str.isdigit\<close>, which holds of the superscripts too.\<close>

definition digits :: "string \<Rightarrow> bool" where
  "digits s \<longleftrightarrow> s \<noteq> '''' \<and> (\<forall>c \<in> set s. is_digit c \<or> c \<in> {CHR 0xB2, CHR 0xB3, CHR 0xB9})"

section \<open>The resets\<close>

datatype reset_key = Clear_ospf | Clear_ipv6_ospf | Clear_ospfv3

definition RESET_KEYS :: "reset_key list" where "RESET_KEYS = [Clear_ospf, Clear_ipv6_ospf, Clear_ospfv3]"

fun reset_header :: "reset_key \<Rightarrow> string" where
  "reset_header Clear_ospf = ''router ospf ''"
| "reset_header Clear_ipv6_ospf = ''ipv6 router ospf ''"
| "reset_header Clear_ospfv3 = ''router ospfv3 ''"

fun reset_command :: "reset_key \<Rightarrow> string \<Rightarrow> string" where
  "reset_command Clear_ospf p = ''clear ip ospf '' @ p @ '' process''"
| "reset_command Clear_ipv6_ospf p = ''clear ipv6 ospf '' @ p @ '' process''"
| "reset_command Clear_ospfv3 p = ''clear ospfv3 '' @ p @ '' process''"

fun reset_read :: "reset_key \<Rightarrow> string" where
  "reset_read Clear_ospf = ''show ip ospf neighbor''"
| "reset_read Clear_ipv6_ospf = ''show ipv6 ospf neighbor''"
| "reset_read Clear_ospfv3 = ''show ospfv3 neighbor''"

datatype reset_refusal =
  R_not_digits | R_never | R_no_reset | R_many_resets | R_adjacency_unread | R_not_one_adjacency
| R_record_absent | R_record_unreadable | R_unmeasured | R_incomplete

text \<open>A header followed by one token.\<close>

definition token_after :: "string \<Rightarrow> string \<Rightarrow> string option" where
  "token_after h t =
     (let p = drop (length h) t in
      if starts h t \<and> p \<noteq> '''' \<and> (\<forall>c \<in> set p. \<not> is_space c) then Some p else None)"

definition reset_for :: "string \<Rightarrow> reset_refusal + (reset_key \<times> string)" where
  "reset_for s =
     (let t = strip s in
      case filter (\<lambda>k. token_after (reset_header k) t \<noteq> None) RESET_KEYS of
        k # _ \<Rightarrow> (let p = the (token_after (reset_header k) t) in
                   if digits p then Inr (k, p) else Inl R_not_digits)
      | [] \<Rightarrow> Inl (if token_after ''router bgp '' t \<noteq> None then R_never else R_no_reset))"

section \<open>The neighbour table\<close>

text \<open>The state of a row: its third word, white space after it, its second all digits.\<close>

definition row_state :: "string \<Rightarrow> string option" where
  "row_state l =
     (case words_of l of
        a # n # s # rest \<Rightarrow>
          if (\<forall>c \<in> set n. is_digit c) \<and> (rest \<noteq> [] \<or> is_space (last l)) then Some s else None
      | _ \<Rightarrow> None)"

definition neighbours :: "string \<Rightarrow> string list option" where
  "neighbours text =
     (let ls = splitlines text in
      if \<forall>l \<in> set ls. blank l then Some []
      else case find_idx (\<lambda>l. starts ''Neighbor ID'' (lstrip l)) ls of
             None \<Rightarrow> None
           | Some i \<Rightarrow> Some (concat (map (\<lambda>l. case row_state l of None \<Rightarrow> [] | Some s \<Rightarrow> [s]) (drop (i + 1) ls))))"

definition adjacencies :: "string \<Rightarrow> nat option" where
  "adjacencies text = map_option length (neighbours text)"

definition formed :: "string \<Rightarrow> nat option" where
  "formed text = map_option (\<lambda>ss. length (filter (\<lambda>s. starts ''FULL'' s \<or> starts ''2WAY'' s) ss)) (neighbours text)"

definition reset_verify :: "string \<Rightarrow> string \<Rightarrow> bool option" where
  "reset_verify before after =
     (case formed after of
        None \<Rightarrow> None
      | Some a \<Rightarrow> Some (max (case formed before of None \<Rightarrow> 0 | Some b \<Rightarrow> b) 1 \<le> a))"

section \<open>The plan\<close>

record measured_row =
  mr_prompt :: "string option option"        \<comment> \<open>not a prompt; null; or the text\<close>
  mr_answer :: "string option"
  mr_settle :: "real option"
  mr_device :: string
  mr_at :: string

datatype row_value = Not_a_record | A_row measured_row

datatype measurements = M_absent | M_unreadable | M_rows "string \<Rightarrow> reset_key \<Rightarrow> row_value option"

definition whole_row :: "row_value \<Rightarrow> bool" where
  "whole_row v =
     (case v of
        Not_a_record \<Rightarrow> False
      | A_row r \<Rightarrow>
          mr_prompt r \<noteq> None
          \<and> (mr_prompt r \<notin> {Some None, Some (Some '''')} \<longrightarrow> mr_answer r \<noteq> None)
          \<and> (case mr_settle r of None \<Rightarrow> False | Some s \<Rightarrow> 0 < s)
          \<and> mr_device r \<noteq> '''' \<and> mr_at r \<noteq> '''')"

datatype reset_purpose = For_router_id | For_single_adjacency

definition SETTLE_FACTOR :: real where "SETTLE_FACTOR = 5 / 2"
definition RESET_POLL_S :: epoch where "RESET_POLL_S = 5"

record reset_plan =
  rt_key :: reset_key
  rt_process :: string
  rt_command :: string
  rt_read :: string
  rt_prompt :: "string option"
  rt_answer :: string
  rt_bound :: int

definition plan_reset ::
    "measurements \<Rightarrow> reset_key \<Rightarrow> string \<Rightarrow> string \<Rightarrow> reset_purpose \<Rightarrow> string
     \<Rightarrow> reset_refusal + reset_plan" where
  "plan_reset meas k p dialect purpose before =
     (if \<not> digits p then Inl R_not_digits
      else if purpose = For_single_adjacency \<and> adjacencies before = None then Inl R_adjacency_unread
      else if purpose = For_single_adjacency \<and> adjacencies before \<noteq> Some 1 then Inl R_not_one_adjacency
      else case meas of
        M_absent \<Rightarrow> Inl R_record_absent
      | M_unreadable \<Rightarrow> Inl R_record_unreadable
      | M_rows rows \<Rightarrow>
          (case rows dialect k of
             None \<Rightarrow> Inl R_unmeasured
           | Some v \<Rightarrow>
               if \<not> whole_row v then Inl R_incomplete
               else case v of
                 Not_a_record \<Rightarrow> Inl R_incomplete
               | A_row r \<Rightarrow>
                   Inr \<lparr>rt_key = k, rt_process = p, rt_command = reset_command k p, rt_read = reset_read k,
                        rt_prompt = the (mr_prompt r),
                        rt_answer = (case mr_answer r of None \<Rightarrow> '''' | Some a \<Rightarrow> a),
                        rt_bound = \<lceil>the (mr_settle r) * SETTLE_FACTOR\<rceil>\<rparr>))"

section \<open>The send\<close>

record 'w session =
  ss_read :: "string \<Rightarrow> 'w \<Rightarrow> (heal_error + string) \<times> 'w"
  ss_send :: "string \<Rightarrow> 'w \<Rightarrow> (heal_error + string) \<times> 'w"

datatype reset_state = Rs_done | Rs_not_back | Rs_unverified | Rs_refused | Rs_rejected

definition waited_state :: "bool option \<Rightarrow> reset_state" where
  "waited_state v = (case v of None \<Rightarrow> Rs_unverified | Some ok \<Rightarrow> if ok then Rs_done else Rs_not_back)"

text \<open>The wait: the table as last read, round by round.\<close>

fun reset_wait ::
    "'w session \<Rightarrow> string \<Rightarrow> string \<Rightarrow> (nat \<Rightarrow> epoch) \<Rightarrow> epoch \<Rightarrow> nat \<Rightarrow> nat \<Rightarrow> string \<Rightarrow> 'w
     \<Rightarrow> ((heal_error + reset_state) \<times> 'w) option" where
  "reset_wait ss cmd before clock deadline 0 n after w = None"
| "reset_wait ss cmd before clock deadline (Suc fuel) n after w =
     (let v = reset_verify before after in
      if v = Some True \<or> deadline \<le> clock n then Some (Inr (waited_state v), w)
      else case ss_read ss cmd w of
             (Inl e, w) \<Rightarrow> Some (Inl e, w)
           | (Inr again, w) \<Rightarrow> reset_wait ss cmd before clock deadline fuel (n + 1) again w)"

definition asks :: "string \<Rightarrow> bool" where
  "asks l \<longleftrightarrow> l \<noteq> '''' \<and> last l \<in> {CHR '']'', CHR ''?'', CHR '':''} \<and> last l \<notin> {CHR ''#'', CHR ''>''}"

definition after_answer ::
    "'w session \<Rightarrow> (nat \<Rightarrow> epoch) \<Rightarrow> epoch \<Rightarrow> nat \<Rightarrow> reset_plan \<Rightarrow> string \<Rightarrow> string \<Rightarrow> 'w
     \<Rightarrow> ((heal_error + reset_state) \<times> 'w) option" where
  "after_answer ss clock started fuel p before printed w =
     (if percent_line True printed then Some (Inr Rs_rejected, w)
      else case ss_read ss (rt_read p) w of
             (Inl e, w) \<Rightarrow> Some (Inl e, w)
           | (Inr after, w) \<Rightarrow>
               reset_wait ss (rt_read p) before clock (started + of_int (rt_bound p)) fuel 0 after w)"

text \<open>The plan is one that may be sent (\<open>plan.get("ok")\<close>); \<open>started\<close> is the clock when the wait
  begins.\<close>

definition send_reset ::
    "'w session \<Rightarrow> (nat \<Rightarrow> epoch) \<Rightarrow> epoch \<Rightarrow> nat \<Rightarrow> reset_plan \<Rightarrow> 'w
     \<Rightarrow> ((heal_error + reset_state) \<times> 'w) option" where
  "send_reset ss clock started fuel p w =
     (case ss_read ss (rt_read p) w of
        (Inl e, w) \<Rightarrow> Some (Inl e, w)
      | (Inr before, w) \<Rightarrow>
     (case ss_send ss (rt_command p) w of
        (Inl e, w) \<Rightarrow> Some (Inl e, w)
      | (Inr first, w) \<Rightarrow>
          if rt_prompt p \<notin> {None, Some ''''} then
            (if Some (last_line first) \<noteq> rt_prompt p then Some (Inr Rs_refused, w)
             else case ss_send ss (rt_answer p) w of
                    (Inl e, w) \<Rightarrow> Some (Inl e, w)
                  | (Inr rest, w) \<Rightarrow> after_answer ss clock started fuel p before (first @ rest) w)
          else if asks (last_line first) then Some (Inr Rs_refused, w)
          else after_answer ss clock started fuel p before first w))"

section \<open>What is sent\<close>

text \<open>A session that keeps what it was sent, in order.\<close>

definition recorded :: "'w session \<Rightarrow> (string list \<times> 'w) session" where
  "recorded ss =
     \<lparr>ss_read = (\<lambda>cmd (l, w). case ss_read ss cmd w of (r, w) \<Rightarrow> (r, (l, w))),
      ss_send = (\<lambda>t (l, w). case ss_send ss t w of (r, w) \<Rightarrow> (r, (l @ [t], w)))\<rparr>"

lemma recorded_simps [simp]:
  "ss_read (recorded ss) cmd (l, w) = (fst (ss_read ss cmd w), (l, snd (ss_read ss cmd w)))"
  "ss_send (recorded ss) t (l, w) = (fst (ss_send ss t w), (l @ [t], snd (ss_send ss t w)))"
  by (simp_all add: recorded_def split: prod.splits)

lemma reset_wait_sends:
  "reset_wait (recorded ss) cmd before clock deadline fuel n after (l, w) = Some (r, (l', w')) \<Longrightarrow> l' = l"
  by (induction "recorded ss" cmd before clock deadline fuel n after "(l, w)" arbitrary: w rule: reset_wait.induct)
    (auto simp: Let_def split: if_splits sum.splits prod.splits)

lemma reset_wait_state:
  "reset_wait ss cmd before clock deadline fuel n after w = Some (Inr st, w') \<Longrightarrow>
   st \<in> {Rs_done, Rs_not_back, Rs_unverified}"
  by (induction ss cmd before clock deadline fuel n after w rule: reset_wait.induct)
    (auto simp: Let_def waited_state_def split: if_splits sum.splits prod.splits option.splits)

lemma after_answer_sends:
  assumes "after_answer (recorded ss) clock started fuel p before printed (l, w) = Some (r, (l', w'))"
  shows "l' = l" "r = Inr st \<Longrightarrow> if percent_line True printed then st = Rs_rejected
    else st \<in> {Rs_done, Rs_not_back, Rs_unverified}"
  using assms
  by (auto simp: after_answer_def split: if_splits sum.splits prod.splits dest: reset_wait_sends reset_wait_state)

text \<open>A reset sends its one command, once, and then at most one answer: the measured one, to the
  measured prompt, when that prompt is the last line the device printed. A question that is not the
  measured one is never answered and the reset is said refused; a reset is never said to have been
  refused by a question it answered.\<close>

lemma reset_answers_only_its_prompt:
  assumes "send_reset (recorded ss) clock started fuel p ([], w) = Some (r, (sent, w'))"
  shows "sent \<in> {[], [rt_command p], [rt_command p, rt_answer p]}
    \<and> (sent = [rt_command p, rt_answer p] \<longrightarrow>
         (\<exists>first. fst (ss_send ss (rt_command p) (snd (ss_read ss (rt_read p) w))) = Inr first
            \<and> rt_prompt p = Some (last_line first) \<and> last_line first \<noteq> '''' \<and> r \<noteq> Inr Rs_refused))
    \<and> (r = Inr Rs_refused \<longrightarrow> sent = [rt_command p])"
proof -
  obtain r1 w1 where rd: "ss_read ss (rt_read p) w = (r1, w1)" by fastforce
  obtain r2 w2 where sd: "ss_send ss (rt_command p) w1 = (r2, w2)" by fastforce
  show ?thesis
  proof (cases r1)
    case (Inl e)
    with assms rd show ?thesis by (auto simp: send_reset_def)
  next
    case r1: (Inr before)
    show ?thesis
    proof (cases r2)
      case (Inl e)
      with assms rd sd r1 show ?thesis by (auto simp: send_reset_def)
    next
      case r2: (Inr first)
      show ?thesis
      proof (cases "rt_prompt p \<notin> {None, Some ''''} \<and> Some (last_line first) = rt_prompt p")
        case True
        with assms rd sd r1 r2 show ?thesis
          by (auto simp: send_reset_def split: sum.splits dest: after_answer_sends split: if_splits)
      next
        case False
        with assms rd sd r1 r2 show ?thesis
          by (auto simp: send_reset_def split: sum.splits if_splits dest: after_answer_sends)
      qed
    qed
  qed
qed

section \<open>It ends\<close>

definition RESET_ROUNDS :: "reset_plan \<Rightarrow> nat" where
  "RESET_ROUNDS p = nat \<lceil>of_int (rt_bound p) / RESET_POLL_S\<rceil> + 1"

lemma reset_wait_ends:
  "deadline \<le> clock (n + k) \<Longrightarrow> \<exists>r w'. reset_wait ss cmd before clock deadline (Suc k) n after w = Some (r, w')"
proof (induction k arbitrary: n after w)
  case 0
  then show ?case by (simp add: Let_def)
next
  case (Suc k)
  then show ?case by (cases "ss_read ss cmd w"; cases "fst (ss_read ss cmd w)") (auto simp: Let_def)
qed

text \<open>C30: a reset answers within a number of rounds that its measured bound sets, as long as the sleep
  between two of them takes its five seconds: whatever the device prints, the wait for its
  adjacencies comes to an end.\<close>

theorem reset_ends:
  assumes "\<And>n. clock n + RESET_POLL_S \<le> clock (n + 1)" and "started \<le> clock 0"
  shows "\<exists>r w'. send_reset ss clock started (RESET_ROUNDS p) p w = Some (r, w')"
proof -
  let ?k = "nat \<lceil>of_int (rt_bound p) / RESET_POLL_S\<rceil>"
  have "of_int (rt_bound p) / RESET_POLL_S \<le> real ?k"
    by (metis of_nat_0_le_iff of_nat_ceiling order.trans real_nat_ceiling_ge)
  then have "of_int (rt_bound p) \<le> real ?k * RESET_POLL_S" by (simp add: RESET_POLL_S_def)
  then have "started + of_int (rt_bound p) \<le> clock (0 + ?k)"
    using clock_after [of clock RESET_POLL_S started ?k, OF assms] by simp
  from reset_wait_ends [where clock = clock and n = 0 and k = ?k, OF this]
  have "\<exists>r w'. after_answer ss clock started (RESET_ROUNDS p) p before printed w = Some (r, w')" for before printed w
    by (auto simp: after_answer_def RESET_ROUNDS_def simp del: reset_wait.simps split: sum.splits prod.splits)
  then show ?thesis by (auto simp: send_reset_def split: sum.splits prod.splits)
qed

section \<open>What is measured\<close>

text \<open>A plan is one whole measurement's, on the dialect asked for: its command is that reset's, its
  prompt, its answer and its bound are the row's.\<close>

lemma plan_resetD:
  assumes "plan_reset meas k p dialect purpose before = Inr q"
  shows "\<exists>rows r s. meas = M_rows rows \<and> rows dialect k = Some (A_row r) \<and> whole_row (A_row r)
    \<and> mr_settle r = Some s \<and> 0 < s \<and> rt_bound q = \<lceil>s * SETTLE_FACTOR\<rceil> \<and> Some (rt_prompt q) = mr_prompt r
    \<and> rt_command q = reset_command k p \<and> rt_key q = k \<and> digits p"
  using assms
  by (auto simp: plan_reset_def whole_row_def split: if_splits measurements.splits option.splits row_value.splits)

section \<open>A reset measured, and one that asks another question\<close>

definition ex_row :: measured_row where
  "ex_row = \<lparr>mr_prompt = Some (Some ''Reset OSPF process 1? [no]:''), mr_answer = Some ''yes'', mr_settle = Some 8,
     mr_device = ''r1'', mr_at = ''2026-10-08''\<rparr>"

definition ex_measured :: measurements where
  "ex_measured = M_rows (\<lambda>dialect k. if dialect = ''cisco_ios'' \<and> k = Clear_ospf then Some (A_row ex_row) else None)"

definition ex_reset :: reset_plan where
  "ex_reset = \<lparr>rt_key = Clear_ospf, rt_process = ''1'', rt_command = ''clear ip ospf 1 process'',
     rt_read = ''show ip ospf neighbor'', rt_prompt = Some ''Reset OSPF process 1? [no]:'', rt_answer = ''yes'',
     rt_bound = 20\<rparr>"

lemma ex_reset_plan: "plan_reset ex_measured Clear_ospf ''1'' ''cisco_ios'' For_router_id '''' = Inr ex_reset"
  by (simp add: plan_reset_def ex_measured_def ex_row_def whole_row_def ex_reset_def SETTLE_FACTOR_def digits_def
      is_digit_def)

lemma ex_reset_for: "reset_for ''router ospf 1'' = Inr (Clear_ospf, ''1'')" "reset_for ''router ospf x'' = Inl R_not_digits"
  "reset_for ''router bgp 65001'' = Inl R_never" "reset_for '''' = Inl R_no_reset"
  by code_simp+

text \<open>Its table: empty until the reset has been answered.\<close>

definition ex_table :: string where
  "ex_table = ''Neighbor ID     Pri   State'' @ [CHR 0x0A] @ ''2.2.2.2           1   FULL/DR  00:00:33'' @ [CHR 0x0A]"

definition ex_session :: "string \<Rightarrow> bool session" where
  "ex_session q =
     \<lparr>ss_read = (\<lambda>cmd done. (Inr ex_table, done)),
      ss_send = (\<lambda>t done. if t = ''yes'' then (Inr ''r1#'', True) else (Inr q, done))\<rparr>"

lemma ex_table_formed: "formed ex_table = Some 1"
  by code_simp

theorem reset_ends_witness:
  "\<exists>r w'. send_reset (ex_session ''?'') (\<lambda>n. 100 + 5 * real n) 100 (RESET_ROUNDS ex_reset) ex_reset False = Some (r, w')"
proof (rule reset_ends)
  show "100 + 5 * real n + RESET_POLL_S \<le> 100 + 5 * real (n + 1)" for n by (simp add: RESET_POLL_S_def)
qed simp

end
