(* ===== verification/Propose.thy ===== *)
theory Propose
  imports Act_Run Authorise Reset
begin

text \<open>
  A heal that needs a person (\<open>modules/heal/propose.py\<close>): a proposal as a person reads it (\<open>view\<close>),
  approved as previewed (\<open>approve\<close>) and applied as that person (\<open>apply_approved\<close>), with the process
  reset it needs sent once every unit is read at intent, or declined (\<open>decline\<close>). Its withdrawal is the
  detect pass's (\<open>Detect\<close>).

  An approval reads the network's log, holds the decision's mark and takes the decision; its state is
  \<open>approve_state\<close>. The applied act is the act's (\<open>Act\<close>), with the person's checks in place of the
  policy's and the reset in the check after verify. The device, its platform and its diagnosis are
  arguments, as are the hash of a proposal (\<open>pr_hash\<close>, of the body it is computed from), the
  redactor, the reset's measurements and the session. The words, the change record and the reset's
  own record are not modelled.

  The lemmas: what is sent is what the person confirmed, by its hash; a flagged line carries their
  reason; the reset is sent only once the change is read at intent, and one that is not made takes
  the change back; a proposal is decided once; and a refusal takes and sends nothing.
\<close>

section \<open>What a proposal reads\<close>

record proposal_body =
  pb_network :: network
  pb_device :: device
  pb_decision :: decision_id
  pb_program_hash :: string
  pb_reset :: string

record 'w prop_sources = "'w act_sources" +
  pr_network :: network
  pr_platform :: string
  pr_measured :: measurements
  pr_hash :: "proposal_body \<Rightarrow> string"
  pr_redact :: "string \<Rightarrow> string"
  pr_session :: "'w session"
  pr_clock :: "nat \<Rightarrow> epoch"
  pr_started :: epoch
  pr_other :: "log \<Rightarrow> log"          \<comment> \<open>what other processes wrote since the log was read\<close>

section \<open>The proposal\<close>

text \<open>The reset the units need: its command is planned even where the plan refuses.\<close>

record reset_need =
  rn_needed :: bool
  rn_command :: string
  rn_plan :: "reset_plan option"
  rn_refused :: "reset_refusal option"

definition resets_of :: "measurements \<Rightarrow> string \<Rightarrow> string list \<Rightarrow> reset_need" where
  "resets_of meas dialect secs =
     (case sorted_set secs of
        [] \<Rightarrow> \<lparr>rn_needed = False, rn_command = '''', rn_plan = None, rn_refused = None\<rparr>
      | [sec] \<Rightarrow>
          (case reset_for sec of
             Inl why \<Rightarrow> \<lparr>rn_needed = True, rn_command = '''', rn_plan = None, rn_refused = Some why\<rparr>
           | Inr (k, p) \<Rightarrow>
               (case plan_reset meas k p dialect For_router_id '''' of
                  Inl why \<Rightarrow> \<lparr>rn_needed = True, rn_command = reset_command k p, rn_plan = None, rn_refused = Some why\<rparr>
                | Inr q \<Rightarrow> \<lparr>rn_needed = True, rn_command = rt_command q, rn_plan = Some q, rn_refused = None\<rparr>))
      | _ \<Rightarrow> \<lparr>rn_needed = True, rn_command = '''', rn_plan = None, rn_refused = Some R_many_resets\<rparr>)"

text \<open>The sections of a decision's units, and of the units as they are classified again.\<close>

definition row_sections :: "unit_row list \<Rightarrow> string list" where
  "row_sections us = map ur_section (filter (\<lambda>u. ur_kind u = K_process_reset) us)"

definition unit_sections :: "cunit list \<Rightarrow> string list" where
  "unit_sections us =
     map (\<lambda>u. if u_chain u = [] then '''' else hd (u_chain u)) (filter (\<lambda>u. u_kind u = K_process_reset) us)"

definition prop_body :: "'w prop_sources \<Rightarrow> decision \<Rightarrow> string \<Rightarrow> proposal_body" where
  "prop_body src d reset =
     \<lparr>pb_network = pr_network src, pb_device = d_device d, pb_decision = d_id d,
      pb_program_hash = d_program_hash d, pb_reset = reset\<rparr>"

definition prop_stops :: "'w prop_sources \<Rightarrow> log \<Rightarrow> decision \<Rightarrow> epoch \<Rightarrow> bool" where
  "prop_stops src lg d now \<longleftrightarrow>
     (let md = ac_mode src in
      m_stopped md \<or> m_mode md \<notin> {M_dry_run, M_auto}
      \<or> (\<exists>u \<in> set (d_units d). ur_tier u = 2 \<and> ur_kind u \<notin> set (m_propose md))
      \<or> (case rows_of lg of
           Inl _ \<Rightarrow> True
         | Inr rs \<Rightarrow> (case halted rs of None \<Rightarrow> False | Some h \<Rightarrow> h_id h \<noteq> ''''))
      \<or> g3_planned (ds_planned (ac_src src)) now \<noteq> None)"

definition find_proposal :: "log \<Rightarrow> decision_id \<Rightarrow> heal_error + dview" where
  "find_proposal lg i = bind_result (find_decision lg i)
     (\<lambda>d. if d_outcome d \<noteq> O_propose then Inl Refused_no_decision else Inr d)"

datatype view_refusal = Was_withdrawn | Was_taken "string option" | Needs_reset reset_refusal | Is_stopped

record proposal_view =
  pv_decision :: dview
  pv_reset :: reset_need
  pv_hash :: string
  pv_refusals :: "view_refusal list"

definition view_proposal ::
    "'w prop_sources \<Rightarrow> log \<Rightarrow> decision_id \<Rightarrow> epoch \<Rightarrow> heal_error + proposal_view" where
  "view_proposal src lg i now = bind_result (find_proposal lg i) (\<lambda>d.
     let r = resets_of (pr_measured src) (pr_platform src) (row_sections (d_units d)) in
     Inr \<lparr>pv_decision = d, pv_reset = r, pv_hash = pr_hash src (prop_body src (decision.truncate d) (rn_command r)),
          pv_refusals =
            (if v_withdrawn d \<noteq> None then [Was_withdrawn]
             else if v_taken d \<noteq> None then [Was_taken (map_option fst (v_applied d))] else [])
            @ (case rn_refused r of None \<Rightarrow> [] | Some why \<Rightarrow> [Needs_reset why])
            @ (if prop_stops src lg (decision.truncate d) now then [Is_stopped] else [])\<rparr>)"

section \<open>The approval\<close>

definition reason_given :: "string \<Rightarrow> string option" where
  "reason_given reason =
     (let t = strip reason in
      if length (words_of t) < MIN_WORDS \<or> length t < MIN_CHARS then None else Some t)"

record approval =
  av_by :: string
  av_verified :: string
  av_reason :: string
  av_hash :: string
  av_at :: iso_time
  av_reset :: "reset_plan option"

datatype approve_refusal =
  Ap_not_a_person | Ap_no_reason | Ap_no_proposal | Ap_withdrawn | Ap_refused "view_refusal list"
| Ap_other_hash | Ap_held | Ap_taken | Ap_not_started | Ap_raised heal_error

record approve_state =
  as_log :: log
  as_store :: store
  as_marks :: marks

text \<open>\<open>env\<close>: whether the mark opens and the job starts. The proposal is read, then its mark held and the
  decision taken, and other processes may write between. A take that raises keeps the mark it
  holds.\<close>

definition approve ::
    "start_env \<Rightarrow> 'w prop_sources \<Rightarrow> decision_id \<Rightarrow> string \<Rightarrow> string \<Rightarrow> string \<Rightarrow> string \<Rightarrow> bool \<Rightarrow> epoch
     \<Rightarrow> approve_state \<Rightarrow> (approve_refusal + (decision \<times> approval)) \<times> approve_state" where
  "approve env src i confirmed reason actor verified person now s =
     (if not_a_person actor verified person then (Inl Ap_not_a_person, s)
      else case reason_given reason of
        None \<Rightarrow> (Inl Ap_no_reason, s)
      | Some why \<Rightarrow>
     (case view_proposal src (as_log s) i now of
        Inl _ \<Rightarrow> (Inl Ap_no_proposal, s)
      | Inr v \<Rightarrow>
     if v_withdrawn (pv_decision v) \<noteq> None then (Inl Ap_withdrawn, s)
     else if pv_refusals v \<noteq> [] then (Inl (Ap_refused (pv_refusals v)), s)
     else if confirmed \<noteq> pv_hash v then (Inl Ap_other_hash, s)
     else if \<not> se_opens env i then (Inl Ap_held, s)
     else let s = s\<lparr>as_log := pr_other src (as_log s)\<rparr> in
     (case mark_acquire i (as_marks s) of
        Inl _ \<Rightarrow> (Inl Ap_held, s)
      | Inr mk \<Rightarrow>
     (case take_decision (se_exists env) i (actor @ '': approved'') now (as_log s) of
        Inl e \<Rightarrow>
          if take_refusal e then (Inl Ap_taken, s\<lparr>as_marks := mark_release i mk\<rparr>)
          else (Inl (Ap_raised e), s\<lparr>as_marks := mk\<rparr>)
      | Inr (t, lg) \<Rightarrow>
          (let full = rn_plan (resets_of (pr_measured src) (pr_platform src) (row_sections (d_units t)));
               av = \<lparr>av_by = actor, av_verified = verified, av_reason = why, av_hash = pv_hash v, av_at = iso now,
                     av_reset = full\<rparr>
           in if se_starts env i then (Inr (decision.truncate t, av), s\<lparr>as_log := lg, as_marks := mk\<rparr>)
              else
                (case record_applied (se_exists env) i ''refused'' actor (se_halt_id env i) now lg of
                   Inl e \<Rightarrow> (Inl (Ap_raised e), s\<lparr>as_log := lg, as_marks := mark_release i mk\<rparr>)
                 | Inr (_, lg1) \<Rightarrow>
                     (case close_incident (se_exists env) (d_incident t) ''refused'' now (as_store s) of
                        Inl e \<Rightarrow> (Inl (Ap_raised e), s\<lparr>as_log := lg1, as_marks := mark_release i mk\<rparr>)
                      | Inr (_, st) \<Rightarrow>
                          (Inl Ap_not_started,
                           s\<lparr>as_log := lg1, as_store := st, as_marks := mark_release i mk\<rparr>))))))))"

section \<open>The approved act\<close>

text \<open>The lines that carry the person's reason: what the gate flags of the program, and its removals.\<close>

definition removal_keys :: "'w prop_sources \<Rightarrow> heal_env \<Rightarrow> classified \<Rightarrow> heal_program \<Rightarrow> string list" where
  "removal_keys src env c prog =
     map (on_key (ap_one (ac_apply src)))
       (dp_removed (deploy_program_of (he_program env) (hp_fragment prog)
          (pe_stored (he_program env) (ds_read (ac_src src))) (cl_removal_ids c) (ds_mgmt_ip (ac_src src))))"

definition authorised_lines :: "'w prop_sources \<Rightarrow> heal_env \<Rightarrow> classified \<Rightarrow> heal_program \<Rightarrow> string list" where
  "authorised_lines src env c prog = flagged (pr_redact src) (hp_commands prog) (removal_keys src env c prog)"

text \<open>The checks before anything is sent: the name of the step that refuses, or the units, the program
  and the reset to send.\<close>

definition approved_checked ::
    "heal_env \<Rightarrow> 'w prop_sources \<Rightarrow> store \<Rightarrow> log \<Rightarrow> decision \<Rightarrow> approval \<Rightarrow> epoch
     \<Rightarrow> string + (classified \<times> heal_program \<times> reset_plan option)" where
  "approved_checked env src st lg d av now =
     (let ds = ac_src src; en = ac_plan src in
      if prop_stops src lg d now then Inl ''stops''
      else if ds_read ds = [] then Inl ''read''
      else if golden_state_of ds \<noteq> G_at_intent \<or> golden_text ds = [] then Inl ''plan''
      else if ds_intended ds = [] then Inl ''plan''
      else
        (let c = act_classified env ds (incident_of st (d_incident d));
             prog = heal_program_of env ds c;
             r = resets_of (pr_measured src) (pr_platform src) (unit_sections (cl_units c))
         in if hp_hash prog \<noteq> d_program_hash d then Inl ''plan''
            else if hp_refused prog \<noteq> [] \<or> cl_blocked c \<noteq> None \<or> cl_tier c \<noteq> 2 then Inl ''plan''
            else if rn_refused r \<noteq> None then Inl ''plan''
            else if rn_command r \<noteq> (case av_reset av of None \<Rightarrow> '''' | Some q \<Rightarrow> rt_command q) then Inl ''plan''
            else if plan_refuses (en\<lparr>en_authorised := True, en_reach := None\<rparr>) (hp_commands prog) then Inl ''plan''
            else if \<not> en_authorised en then Inl ''authorise''
            else if plan_refuses en (hp_commands prog) then Inl ''plan''
            else Inr (c, prog, rn_plan r)))"

text \<open>The check after verify: the units at intent, then the reset. A wait that has not ended is not an
  answer; \<open>Reset\<close> shows it always ends.\<close>

definition reset_result :: "'w prop_sources \<Rightarrow> reset_plan \<Rightarrow> 'w \<Rightarrow> (heal_error + reset_state) \<times> 'w" where
  "reset_result src q w =
     (case send_reset (pr_session src) (pr_clock src) (pr_started src) (RESET_ROUNDS q) q w of
        None \<Rightarrow> (Inl Raised, w) | Some x \<Rightarrow> x)"

definition approved_check ::
    "heal_env \<Rightarrow> 'w prop_sources \<Rightarrow> cunit list \<Rightarrow> reset_plan option \<Rightarrow> dres \<Rightarrow> 'w run_state
     \<Rightarrow> (heal_error + verdict) \<times> 'w" where
  "approved_check env src us q r ctx =
     (let post = (case dr_pending r of [] \<Rightarrow> [] | p # _ \<Rightarrow> p); w = ru_world ctx in
      if post = [] then (Inr \<lparr>vd_rollback = True, vd_symptom = None\<rparr>, w)
      else if \<not> ac_intent_read src then (Inl Raised, w)
      else if units_left env us post \<noteq> [] then (Inr \<lparr>vd_rollback = True, vd_symptom = None\<rparr>, w)
      else case q of
        None \<Rightarrow> (Inr \<lparr>vd_rollback = False, vd_symptom = None\<rparr>, w)
      | Some q \<Rightarrow>
          (case reset_result src q w of
             (Inl e, w) \<Rightarrow> (Inl e, w)
           | (Inr st, w) \<Rightarrow> (Inr \<lparr>vd_rollback = st \<in> {Rs_refused, Rs_rejected}, vd_symptom = None\<rparr>, w)))"

text \<open>The apply's device: the fix's own lines and removals, authorised by the person's reason.\<close>

definition approved_one ::
    "heal_env \<Rightarrow> 'w prop_sources \<Rightarrow> approval \<Rightarrow> classified \<Rightarrow> heal_program \<Rightarrow> 'w apply_env" where
  "approved_one env src av c prog =
     (let ap = ac_apply src; ks = authorised_lines src env c prog;
          auths = approved_auths (av_reason av) ks
      in ap\<lparr>ap_authorised := (\<lambda>commands. problems (pr_redact src) commands auths (removal_keys src env c prog) = []),
            ap_one := (ap_one ap)
              \<lparr>on_source := Some (hp_fragment prog), on_program := he_program env, on_selected := cl_removal_ids c,
               on_mgmt_ip := ds_mgmt_ip (ac_src src), on_authorise := map (\<lambda>k. (k, av_reason av)) ks,
               on_reason_ok := (\<lambda>(k, why). reason_problem (pr_redact src) (normalise_one (pr_redact src) (Entry k why)) = None)\<rparr>\<rparr>)"

definition apply_approved ::
    "heal_env \<Rightarrow> 'w prop_sources \<Rightarrow> decision \<Rightarrow> approval \<Rightarrow> epoch \<Rightarrow> 'w act_state
     \<Rightarrow> (heal_error + (act_outcome \<times> bool)) \<times> 'w act_state" where
  "apply_approved env src d av now s =
     (let fin = finish_act (act_sources.truncate src) (av_by av) d now;
          refused = (Inr (A_refused, False), fin A_refused False s) in
      case approved_checked env src (at_store s) (at_log s) d av now of
        Inl _ \<Rightarrow> refused
      | Inr (c, prog, q) \<Rightarrow>
     (case append_step (ac_exists src) (ac_keeps_started src)
             (started_step (ac_step_id src) d STEPS_BEFORE_APPLY (hp_hash prog)) (at_steps s) of
        Inl _ \<Rightarrow> refused
      | Inr sl \<Rightarrow>
     (case apply_one_device (approved_one env src av c prog) (d_device d)
             (pe_stored (he_program env) (ds_read (ac_src src))) (en_capture_hash (ac_plan src))
             (en_command_hash (ac_plan src)) (approved_check env src (cl_units c) q) (at_world s) of
        (Inl e, w) \<Rightarrow> (Inl e, s\<lparr>at_steps := sl, at_world := w\<rparr>)
      | (Inr (r, committed), w) \<Rightarrow>
          (let (out, sent) = judge_act r committed (ac_recheck src) (ac_symptom src)
           in (Inr (out, sent), fin out sent (s\<lparr>at_steps := sl, at_world := w\<rparr>))))))"

text \<open>The job of an approved proposal: guarded as an act is, its mark released.\<close>

definition approved_job ::
    "heal_env \<Rightarrow> 'w prop_sources \<Rightarrow> bool \<Rightarrow> decision \<Rightarrow> approval \<Rightarrow> epoch \<Rightarrow> marks \<times> 'w act_state
     \<Rightarrow> (heal_error + (act_outcome \<times> bool)) \<times> marks \<times> 'w act_state" where
  "approved_job env src keeps_raised d av now ms =
     (case ms of (mk, s) \<Rightarrow>
        (case apply_approved env src d av now s of
           (Inr x, s') \<Rightarrow> (Inr x, mark_release (d_id d) mk, s')
         | (Inl e, s') \<Rightarrow>
             (Inl e, mark_release (d_id d) mk,
              s'\<lparr>at_steps := (case append_step (ac_exists src) keeps_raised (raised_step (ac_step_id src) d) (at_steps s') of
                                Inl _ \<Rightarrow> at_steps s' | Inr sl \<Rightarrow> sl)\<rparr>)))"

section \<open>The decline\<close>

datatype decline_refusal = De_not_a_person | De_no_reason | De_no_proposal | De_held | De_taken | De_raised heal_error

definition DECLINED :: string where "DECLINED = ''declined''"

text \<open>A decline keeps the mark while it takes and records; whatever it raises, it releases it.\<close>

definition decline ::
    "start_env \<Rightarrow> 'w act_sources \<Rightarrow> decision_id \<Rightarrow> string \<Rightarrow> string \<Rightarrow> string \<Rightarrow> bool \<Rightarrow> epoch
     \<Rightarrow> approve_state \<times> steplog \<Rightarrow> (decline_refusal + dview) \<times> approve_state \<times> steplog" where
  "decline env src i reason actor verified person now ss =
     (let (s, sl) = ss in
      if not_a_person actor verified person then (Inl De_not_a_person, s, sl)
      else case reason_given reason of
        None \<Rightarrow> (Inl De_no_reason, s, sl)
      | Some why \<Rightarrow>
     (case find_proposal (as_log s) i of
        Inl _ \<Rightarrow> (Inl De_no_proposal, s, sl)
      | Inr d \<Rightarrow>
     if \<not> se_opens env i then (Inl De_held, s, sl)
     else case mark_acquire i (as_marks s) of
        Inl _ \<Rightarrow> (Inl De_held, s, sl)
      | Inr mk \<Rightarrow>
     (let s = s\<lparr>as_marks := mark_release i mk\<rparr> in
      case take_decision (se_exists env) i (actor @ '': declined'') now (as_log s) of
        Inl e \<Rightarrow> (Inl (if take_refusal e then De_taken else De_raised e), s, sl)
      | Inr (t, lg) \<Rightarrow>
     (case record_applied (se_exists env) i DECLINED actor (se_halt_id env i) now lg of
        Inl e \<Rightarrow> (Inl (De_raised e), s\<lparr>as_log := lg\<rparr>, sl)
      | Inr (_, lg1) \<Rightarrow>
          (Inr t, s\<lparr>as_log := lg1,
                    as_store := or_keep (close_incident (se_exists env) (d_incident d) DECLINED now (as_store s))
                                  (as_store s)\<rparr>,
           (case append_step (se_exists env) (ac_keeps_act src)
                   (act_step (ac_step_id src) (decision.truncate t)
                      [(''take'', ''ok''), (''record'', DECLINED)] DECLINED False) sl of
              Inl _ \<Rightarrow> sl | Inr sl' \<Rightarrow> sl'))))))"

section \<open>What an approval takes\<close>

lemma find_idx_map: "find_idx P (map f xs) = find_idx (\<lambda>x. P (f x)) xs"
  by (induction xs) auto

lemma find_after_other:
  assumes "\<not> is_decision r" "find_decision lg i = Inr v" "rows_of lg = Inr rs" "rows_of lg' = Inr (rs @ [r])"
  shows "find_decision lg' i = Inr (apply_row r v)"
  using assms
  by (auto simp: find_decision_def decisions_other find_idx_map dest!: find_idx_SomeD split: option.splits)

lemma take_decision_view:
  assumes "take_decision e i by now lg = Inr (t, lg')" "find_decision lg i = Inr v"
  shows "decision.truncate t = decision.truncate v" "v_taken v = None"
proof -
  from assms(2) obtain rs where rs: "rows_of lg = Inr rs" by (auto simp: find_decision_def bind_result_eq_Inr_iff)
  from assms show "v_taken v = None" by (auto simp: take_decision_def simp del: not_None_eq split: if_splits)
  from find_after_other [OF _ assms(2) rs take_decision_rows(1) [OF assms(1) rs]]
  have "find_decision lg' i = Inr (apply_row (Taken_row i by (iso now)) v)" by simp
  then have "t = apply_row (Taken_row i by (iso now)) v"
    using assms by (auto simp: take_decision_def append_find_def bind_result_eq_Inr_iff append_row_def split: if_splits)
  then show "decision.truncate t = decision.truncate v" by simp
qed

lemma find_grows:
  assumes "grows rs rs'" "log_ok rs" "v \<in> set (decisions rs)"
  shows "\<exists>v' \<in> set (decisions rs'). decision.truncate v' = decision.truncate v"
  using assms
proof (induction rule: grows.induct)
  case (grows_row rs rs' r)
  then obtain v' where v': "v' \<in> set (decisions rs')" "decision.truncate v' = decision.truncate v" by blast
  show ?case
  proof (cases r)
    case (Decision_row d)
    with grows_row grows_log_ok have "decisions (rs' @ [r]) = decisions rs' @ [plain_view d]"
      by (auto simp: admissible_def intro!: decisions_record)
    with v' show ?thesis by auto
  qed (use v' in \<open>auto simp: decisions_other\<close>)
qed auto

text \<open>A decision found is found again, with the fields it was recorded with.\<close>

lemma find_decision_grows:
  assumes "find_decision lg i = Inr v" "rows_of lg = Inr rs" "log_ok rs" "rows_of lg' = Inr rs'" "grows rs rs'"
  shows "\<exists>v'. find_decision lg' i = Inr v' \<and> decision.truncate v' = decision.truncate v"
proof -
  note v = find_decision_RowsD [OF assms(1,2)]
  from find_grows [OF assms(5,3)] v obtain v' where
    v': "v' \<in> set (decisions rs')" "decision.truncate v' = decision.truncate v" by blast
  from find_decision_ok [OF assms(4) grows_log_ok [OF assms(5,3)] v'(1)] v v'(2)
  have "find_decision lg' i = Inr v'" by (simp add: decision.truncate_def)
  with v' show ?thesis by blast
qed

lemma approve_InrD:
  assumes "approve env src i confirmed reason actor verified person now s = (Inr (d, av), s')"
  shows "\<exists>v t lg mk. \<not> not_a_person actor verified person \<and> reason_given reason = Some (av_reason av)
    \<and> view_proposal src (as_log s) i now = Inr v \<and> pv_refusals v = [] \<and> confirmed = pv_hash v
    \<and> mark_acquire i (as_marks s) = Inr mk
    \<and> take_decision (se_exists env) i (actor @ '': approved'') now (pr_other src (as_log s)) = Inr (t, lg)
    \<and> d = decision.truncate t \<and> av_by av = actor \<and> av_verified av = verified
    \<and> av_reset av = rn_plan (resets_of (pr_measured src) (pr_platform src) (row_sections (d_units t)))
    \<and> s' = s\<lparr>as_log := lg, as_marks := mk\<rparr>"
  using assms
  by (auto simp: approve_def Let_def split: if_splits option.splits sum.splits prod.splits)

lemma resets_of_command:
  "rn_refused (resets_of meas dialect secs) = None \<Longrightarrow>
   rn_command (resets_of meas dialect secs)
   = (case rn_plan (resets_of meas dialect secs) of None \<Rightarrow> '''' | Some q \<Rightarrow> rt_command q)"
  unfolding resets_of_def by (simp split: list.splits sum.splits prod.splits)

lemma truncate_fields:
  fixes t v :: dview
  assumes "decision.truncate t = decision.truncate v"
  shows "d_units t = d_units v" "d_outcome t = d_outcome v" "d_id t = d_id v" "d_device t = d_device v"
    "d_program_hash t = d_program_hash v"
  using assms by (simp_all add: decision.truncate_def)

text \<open>What was approved: a proposal not taken before, no stop against it, by a person who gave a reason,
  and its hash is that of its device, its program and its reset.\<close>

lemma approvedD:
  assumes "approve env src i confirmed reason actor verified person now s = (Inr (d, av), s')"
    and rows: "rows_of (as_log s) = Inr rs" "log_ok rs" "rows_of (pr_other src (as_log s)) = Inr rs'" "grows rs rs'"
  defines "r \<equiv> resets_of (pr_measured src) (pr_platform src) (row_sections (d_units d))"
  shows "\<not> not_a_person actor verified person" "reason_given reason = Some (av_reason av)"
    "d_outcome d = O_propose" "d_id d = i" "\<not> prop_stops src (as_log s) d now" "rn_refused r = None"
    "confirmed = pr_hash src (prop_body src d (rn_command r))" "av_reset av = rn_plan r"
proof -
  from approve_InrD [OF assms(1)] obtain v t lg mk where
    a: "\<not> not_a_person actor verified person" "reason_given reason = Some (av_reason av)"
    "view_proposal src (as_log s) i now = Inr v" "pv_refusals v = []" "confirmed = pv_hash v"
    "mark_acquire i (as_marks s) = Inr mk"
    "take_decision (se_exists env) i (actor @ '': approved'') now (pr_other src (as_log s)) = Inr (t, lg)"
    "d = decision.truncate t"
    "av_reset av = rn_plan (resets_of (pr_measured src) (pr_platform src) (row_sections (d_units t)))" by blast
  from a(3) obtain u where u: "find_proposal (as_log s) i = Inr u"
    "v = \<lparr>pv_decision = u, pv_reset = resets_of (pr_measured src) (pr_platform src) (row_sections (d_units u)),
        pv_hash = pr_hash src (prop_body src (decision.truncate u)
          (rn_command (resets_of (pr_measured src) (pr_platform src) (row_sections (d_units u))))),
        pv_refusals = pv_refusals v\<rparr>"
    and ref: "rn_refused (resets_of (pr_measured src) (pr_platform src) (row_sections (d_units u))) = None"
      "\<not> prop_stops src (as_log s) (decision.truncate u) now"
    using a(4) by (auto simp: view_proposal_def Let_def bind_result_eq_Inr_iff split: option.splits if_splits)
  from u(1) have f: "find_decision (as_log s) i = Inr u" "d_outcome u = O_propose"
    by (auto simp: find_proposal_def bind_result_eq_Inr_iff split: if_splits)
  from find_decision_grows [OF f(1) rows] obtain u' where
    u': "find_decision (pr_other src (as_log s)) i = Inr u'" "decision.truncate u' = decision.truncate u" by blast
  have tr: "decision.truncate t = decision.truncate u"
    using take_decision_view(1) [OF a(7) u'(1)] u'(2) by simp
  note tf = truncate_fields [OF tr]
  have d: "d = decision.truncate u" "d_units d = d_units u" "d_units t = d_units u" "d_outcome d = d_outcome u" "d_id d = d_id u"
    using a(8) tr tf by (simp_all add: decision.truncate_def)
  show "\<not> not_a_person actor verified person" "reason_given reason = Some (av_reason av)" by (fact a)+
  show "d_outcome d = O_propose" "d_id d = i" using d f find_decision_RowsD [OF f(1) rows(1)] by simp_all
  show "\<not> prop_stops src (as_log s) d now" using ref(2) d by simp
  show "rn_refused r = None" using ref(1) d by (simp add: r_def)
  show "confirmed = pr_hash src (prop_body src d (rn_command r))"
    using a(5) d by (subst (asm) u(2)) (simp add: r_def)
  show "av_reset av = rn_plan r" using a(9) d by (simp add: r_def)
qed

section \<open>What is sent\<close>

lemma approved_checked_InrD:
  assumes "approved_checked env src st lg d av now = Inr (c, prog, q)"
  shows "\<not> prop_stops src lg d now" "c = act_classified env (ac_src src) (incident_of st (d_incident d))"
    "prog = heal_program_of env (ac_src src) c" "hp_hash prog = d_program_hash d" "hp_refused prog = []"
    "cl_blocked c = None" "cl_tier c = 2" "\<not> plan_refuses (ac_plan src) (hp_commands prog)"
    "q = rn_plan (resets_of (pr_measured src) (pr_platform src) (unit_sections (cl_units c)))"
    "rn_refused (resets_of (pr_measured src) (pr_platform src) (unit_sections (cl_units c))) = None"
    "(case q of None \<Rightarrow> '''' | Some x \<Rightarrow> rt_command x) = (case av_reset av of None \<Rightarrow> '''' | Some x \<Rightarrow> rt_command x)"
  using assms resets_of_command [of "pr_measured src" "pr_platform src"]
  by (auto simp: approved_checked_def Let_def split: if_splits)

lemma apply_one_device_authorised:
  assumes "apply_one_device ap d captured ch mh check_it w = (res, w2)" and "w2 \<noteq> w"
  shows "\<exists>prepared. ap_authorised ap (dp_commands (one_program (ap_one ap) prepared captured))"
  using assms by (auto simp: apply_one_device_def Let_def split: if_splits sum.splits)

lemma approved_one_simps [simp]:
  "ap_authorised (approved_one env src av c prog) commands \<longleftrightarrow>
     problems (pr_redact src) commands (approved_auths (av_reason av) (authorised_lines src env c prog))
       (removal_keys src env c prog) = []"
  "one_program (ap_one (approved_one env src av c (heal_program_of env (ac_src src) c))) prepared
     (pe_stored (he_program env) (ds_read (ac_src src)))
   = deploy_program_of (he_program env) (hp_fragment (heal_program_of env (ac_src src) c))
       (pe_stored (he_program env) (ds_read (ac_src src))) (cl_removal_ids c) (ds_mgmt_ip (ac_src src))"
  by (simp_all add: approved_one_def Let_def one_program_def)

text \<open>An approved act that changed anything, from its beginning.\<close>

lemma apply_approved_changed:
  assumes "apply_approved env src d av now s = (res, s')" and "at_world s' \<noteq> at_world s"
  defines "c \<equiv> act_classified env (ac_src src) (incident_of (at_store s) (d_incident d))"
  defines "prog \<equiv> heal_program_of env (ac_src src) c"
  shows "\<exists>q ar sl. approved_checked env src (at_store s) (at_log s) d av now = Inr (c, prog, q)
    \<and> append_step (ac_exists src) (ac_keeps_started src)
        (started_step (ac_step_id src) d STEPS_BEFORE_APPLY (hp_hash prog)) (at_steps s) = Inr sl
    \<and> apply_one_device (approved_one env src av c prog) (d_device d) (pe_stored (he_program env) (ds_read (ac_src src)))
        (en_capture_hash (ac_plan src)) (en_command_hash (ac_plan src)) (approved_check env src (cl_units c) q)
        (at_world s) = (ar, at_world s')
    \<and> may_have_sent (of_decision (at_steps s') (d_id d))"
proof -
  from assms(1,2) obtain c' prog' q where k: "approved_checked env src (at_store s) (at_log s) d av now = Inr (c', prog', q)"
    by (auto simp: apply_approved_def Let_def split: sum.splits)
  have cp: "c' = c" "prog' = prog" using approved_checked_InrD(2,3) [OF k] by (simp_all add: c_def prog_def)
  from assms(1,2) k obtain sl where sl: "append_step (ac_exists src) (ac_keeps_started src)
      (started_step (ac_step_id src) d STEPS_BEFORE_APPLY (hp_hash prog)) (at_steps s) = Inr sl"
    by (auto simp: apply_approved_def Let_def cp split: sum.splits)
  obtain ar w where a: "apply_one_device (approved_one env src av c prog) (d_device d)
      (pe_stored (he_program env) (ds_read (ac_src src))) (en_capture_hash (ac_plan src))
      (en_command_hash (ac_plan src)) (approved_check env src (cl_units c) q) (at_world s) = (ar, w)" by fastforce
  have "at_world s' = w" and st: "may_have_sent (of_decision sl (d_id d)) \<Longrightarrow>
      may_have_sent (of_decision (at_steps s') (d_id d))"
    using assms(1) k sl a
    by (auto simp: apply_approved_def Let_def cp finish_act_may_have_sent split: sum.splits prod.splits)
  moreover have "may_have_sent (of_decision sl (d_id d))"
    using sl by (auto simp: append_step_Inr started_step_def step_for_def intro: started_may_have_sent)
  ultimately show ?thesis using k sl a cp by blast
qed

text \<open>C12: what an approved heal sends is what the person confirmed. If an approval of a proposal shown with
  this device, program and reset succeeded, and its act changed anything, then a verified person
  gave it, with a reason; no stop applied when the act began; the program recomputed from the
  device then is the one shown, by its hash, of Tier 2 and unblocked, and is the plan's, line by
  line; its lines that need a reason carry that person's and no other line does; the reset planned
  is the one shown; and the step log says that it may have been sent.\<close>

theorem sent_only_what_was_approved:
  assumes "approve env0 src i (pr_hash src shown) reason actor verified person t0 s0 = (Inr (d, av), s1)"
    and "apply_approved env src d av now s = (res, s')" and "at_world s' \<noteq> at_world s"
    and "\<And>b. pr_hash src b = pr_hash src shown \<Longrightarrow> b = shown"
    and "rows_of (as_log s0) = Inr rs" "log_ok rs" "rows_of (pr_other src (as_log s0)) = Inr rs'" "grows rs rs'"
  defines "c \<equiv> act_classified env (ac_src src) (incident_of (at_store s) (d_incident d))"
  defines "prog \<equiv> heal_program_of env (ac_src src) c"
  defines "r \<equiv> resets_of (pr_measured src) (pr_platform src) (unit_sections (cl_units c))"
  shows "\<not> not_a_person actor verified person \<and> reason_given reason = Some (av_reason av)
    \<and> pb_device shown = d_device d \<and> pb_decision shown = i \<and> \<not> prop_stops src (at_log s) d now
    \<and> hp_hash prog = pb_program_hash shown \<and> cl_tier c = 2 \<and> cl_blocked c = None
    \<and> \<not> plan_refuses (ac_plan src) (hp_commands prog)
    \<and> problems (pr_redact src) (hp_commands prog)
        (approved_auths (av_reason av) (authorised_lines src env c prog)) (removal_keys src env c prog) = []
    \<and> rn_refused r = None \<and> rn_command r = pb_reset shown
    \<and> may_have_sent (of_decision (at_steps s') (d_id d))"
proof -
  note ap = approvedD [OF assms(1,5-8)]
  from assms(4) [OF ap(7) [symmetric]] have b: "shown = prop_body src d
      (rn_command (resets_of (pr_measured src) (pr_platform src) (row_sections (d_units d))))" ..
  from apply_approved_changed [OF assms(2,3), folded c_def, folded prog_def] obtain q ar where
    k: "approved_checked env src (at_store s) (at_log s) d av now = Inr (c, prog, q)"
    and a: "apply_one_device (approved_one env src av c prog) (d_device d) (pe_stored (he_program env) (ds_read (ac_src src)))
        (en_capture_hash (ac_plan src)) (en_command_hash (ac_plan src)) (approved_check env src (cl_units c) q)
        (at_world s) = (ar, at_world s')"
    and st: "may_have_sent (of_decision (at_steps s') (d_id d))" by blast
  note ck = approved_checked_InrD [OF k, folded r_def]
  from apply_one_device_authorised [OF a assms(3)]
  have "problems (pr_redact src) (hp_commands prog)
      (approved_auths (av_reason av) (authorised_lines src env c prog)) (removal_keys src env c prog) = []"
    by (simp add: prog_def heal_program_commands)
  moreover have "rn_command r = pb_reset shown"
    using resets_of_command [OF ap(6)] resets_of_command [of "pr_measured src" "pr_platform src" "unit_sections (cl_units c)"]
      ck(9-11) ap(8) by (simp add: b prop_body_def r_def)
  ultimately show ?thesis using ap ck st by (simp add: b prop_body_def)
qed

section \<open>The reset, and the change it is for\<close>

definition at_intent_now :: "heal_env \<Rightarrow> cunit list \<Rightarrow> dres \<Rightarrow> bool" where
  "at_intent_now env us r \<longleftrightarrow>
     (case dr_pending r of [] \<Rightarrow> False | post # _ \<Rightarrow> post \<noteq> [] \<and> units_left env us post = [])"

lemma approved_check_kept:
  "(\<exists>v. fst (approved_check env src us q r ctx) = Inr v \<and> \<not> vd_rollback v) \<longleftrightarrow>
   ac_intent_read src \<and> at_intent_now env us r
   \<and> (case q of None \<Rightarrow> True
       | Some p \<Rightarrow> \<exists>st. fst (reset_result src p (ru_world ctx)) = Inr st \<and> st \<notin> {Rs_refused, Rs_rejected})"
  by (auto simp: approved_check_def at_intent_now_def Let_def split: list.splits option.splits sum.splits prod.splits)

lemma approved_check_world:
  "snd (approved_check env src us q r ctx) =
   (if ac_intent_read src \<and> at_intent_now env us r
    then (case q of None \<Rightarrow> ru_world ctx | Some p \<Rightarrow> snd (reset_result src p (ru_world ctx))) else ru_world ctx)"
  by (auto simp: approved_check_def at_intent_now_def Let_def split: list.splits option.splits sum.splits prod.splits)

text \<open>C14: a change that takes effect only through a process reset is never left half applied as far as
  the reset answers: it stays deployed exactly when it was read at intent, unit by unit, and then the
  reset was made (whatever its verify says); the reset is not even begun before that read, and with
  any other answer of it the change is taken back, its capture kept out of the golden.\<close>

theorem reset_made_or_taken_back:
  assumes "settle_one sg save_held (approved_check env src us (Some p)) r (Some ctx) = (r', ctx')"
    and "dr_outcome r = Deployed"
  shows "if ac_intent_read src \<and> at_intent_now env us r
    then (if \<exists>st. fst (reset_result src p (ru_world ctx)) = Inr st \<and> st \<notin> {Rs_refused, Rs_rejected}
          then dr_outcome r' = Deployed \<and> dr_saved r' = Some (fst (save_held (snd (reset_result src p (ru_world ctx)))))
          else dr_outcome r' = Failed_outcome \<and> dr_rolled r' \<and> dr_pending r' = [])
    else snd (approved_check env src us (Some p) r ctx) = ru_world ctx
      \<and> dr_outcome r' = Failed_outcome \<and> dr_rolled r' \<and> dr_pending r' = []"
  using check_after_verify_decides [OF assms, unfolded approved_check_kept]
  by (simp add: approved_check_world split: if_splits)

text \<open>C31: a reset that was made is taken back all the same when the session is lost after it. The device
  took the command, printed no question and no error, and then could not be read: the check after
  verify raises, so the change that the reset put into effect is rolled back.\<close>

theorem reset_made_and_lost_is_taken_back:
  assumes "settle_one sg save_held (approved_check env src us (Some p)) r (Some ctx) = (r', ctx')"
    and "dr_outcome r = Deployed" and "ac_intent_read src" and "at_intent_now env us r"
    and "ss_read (pr_session src) (rt_read p) (ru_world ctx) = (Inr before, w1)"
    and "ss_send (pr_session src) (rt_command p) w1 = (Inr printed, w2)"
    and "rt_prompt p = None" and "\<not> asks (last_line printed)" and "\<not> percent_line True printed"
    and "ss_read (pr_session src) (rt_read p) w2 = (Inl e, w3)"
  shows "snd (reset_result src p (ru_world ctx)) = w3 \<and> dr_outcome r' = Failed_outcome \<and> dr_rolled r'"
proof -
  have res: "reset_result src p (ru_world ctx) = (Inl e, w3)"
    using assms(5-10) by (simp add: reset_result_def send_reset_def after_answer_def)
  then show ?thesis
    using check_after_verify_decides [OF assms(1,2), unfolded approved_check_kept] by auto
qed

section \<open>A refusal takes nothing\<close>

lemma locked_acquired: "mark_acquire i mk = Inr mk' \<Longrightarrow> locked (mark_release i mk') = locked mk"
  by (intro ext mark_acquire_Inr(3))

text \<open>A refused approval took nothing: unless its job could not be started after its take, or a store
  could not be read or written, the log is what the other processes left it, no incident moved, and
  no mark is held that was not held before.\<close>

lemma refused_approval_takes_nothing:
  assumes "approve env src i confirmed reason actor verified person now s = (Inl why, s')"
    and "why \<noteq> Ap_not_started" and "\<forall>e. why \<noteq> Ap_raised e"
  shows "as_log s' \<in> {as_log s, pr_other src (as_log s)} \<and> as_store s' = as_store s
    \<and> locked (as_marks s') = locked (as_marks s)"
  using assms
  by (auto simp: approve_def Let_def locked_acquired split: if_splits option.splits sum.splits prod.splits)

text \<open>An approval whose take raises keeps the decision's mark. When the log can no longer be read as the
  decision is taken, the approval ends with nothing taken, and the mark it held stays held: from
  then on, once the log can be read again, each approval and each decline of that proposal is
  refused as one whose act is running, until this process ends.\<close>

lemma raised_take_keeps_its_mark:
  assumes "view_proposal src (as_log s) i now = Inr v" and "pv_refusals v = []"
    and "\<not> not_a_person actor verified person" and "reason_given reason \<noteq> None"
    and "se_opens env i" and "\<not> locked (as_marks s) i" and "pr_other src (as_log s) = Bad_log"
  defines "s1 \<equiv> snd (approve env src i (pv_hash v) reason actor verified person now s)"
  shows "fst (approve env src i (pv_hash v) reason actor verified person now s) = Inl (Ap_raised Store_unreadable)
    \<and> isl (fst (approve env' src' i confirmed' reason' actor' verified' person' now' (s1\<lparr>as_log := lg\<rparr>)))
    \<and> isl (fst (decline env' acs i reason' actor' verified' person' now' (s1\<lparr>as_log := lg\<rparr>, sl)))"
proof -
  from assms(1) have nw: "v_withdrawn (pv_decision v) = None"
    using assms(2)
    by (auto simp: view_proposal_def Let_def bind_result_eq_Inr_iff simp del: not_None_eq split: if_splits)
  obtain mk where mk: "mark_acquire i (as_marks s) = Inr mk" using mark_acquire_free [OF assms(6)] by blast
  have ap: "approve env src i (pv_hash v) reason actor verified person now s =
      (Inl (Ap_raised Store_unreadable), s\<lparr>as_log := Bad_log, as_marks := mk\<rparr>)"
    using assms(1-5,7) nw mk
    by (auto simp: approve_def Let_def take_decision_def find_decision_def take_refusal_def)
  then have "locked (as_marks s1) i" using mark_acquire_Inr(2) [OF mk] by (simp add: s1_def)
  then have m: "mark_acquire i (as_marks s1) = Inl Heal_busy" by (rule mark_acquire_locked)
  show ?thesis
    using ap m
    by (auto simp: approve_def [where s = "s1\<lparr>as_log := lg\<rparr>"] decline_def Let_def
        split: option.splits sum.splits if_splits)
qed

section \<open>A proposal is decided once\<close>

lemma taken_stays:
  assumes "r \<in> set rs" "takes i r" "log_ok rs" "grows rs rs'" "rows_of lg = Inr rs'" "find_decision lg i = Inr v"
  shows "v_taken v \<noteq> None"
proof -
  have v: "v \<in> set (decisions rs')" "d_id v = i" using find_decision_RowsD [OF assms(6,5)] by simp_all
  have "r \<in> set rs'" using assms(1) grows_prefix [OF assms(4)] by auto
  with decisions_taken [OF grows_log_ok [OF assms(4,3)] v(1)] v(2) assms(2) show ?thesis by auto
qed

lemma no_second_take:
  assumes "r \<in> set rs" "takes i r" "log_ok rs" "grows rs rs'" "rows_of lg = Inr rs'"
  shows "isl (take_decision e i by now lg)" "isl (withdraw e i how by now lg)"
  using taken_stays [OF assms]
  by (auto simp: take_decision_def withdraw_def bind_result_def split: sum.splits)

lemma take_leaves_row:
  assumes "take_decision e i by now lg = Inr (t, lg')" "rows_of lg = Inr rs" "log_ok rs"
  shows "\<exists>rs'. rows_of lg' = Inr rs' \<and> log_ok rs' \<and> (\<exists>r \<in> set rs'. takes i r)"
  using take_decision_rows [OF assms(1,2)] admissible_log_ok [OF assms(3)] by fastforce

lemma approve_InrD_take:
  assumes "approve env src i confirmed reason actor verified person now s = (Inr x, s')"
  shows "\<exists>t. take_decision (se_exists env) i (actor @ '': approved'') now (pr_other src (as_log s)) = Inr (t, as_log s')"
  using assms
  by (auto simp: approve_def Let_def split: if_splits option.splits sum.splits prod.splits)

lemma decline_InrD_take:
  assumes "decline env acs i reason actor verified person now (s, sl) = (Inr x, s', sl')"
  shows "\<exists>t lg v. take_decision (se_exists env) i (actor @ '': declined'') now (as_log s) = Inr (t, lg)
    \<and> record_applied (se_exists env) i DECLINED actor (se_halt_id env i) now lg = Inr (v, as_log s')"
  using assms
  by (auto simp: decline_def Let_def split: if_splits option.splits sum.splits prod.splits)

text \<open>What decides a proposal: a person's approval (the log may grow between its read and its take), a
  person's decline, or the heal's own withdrawal.\<close>

inductive decides :: "'w prop_sources \<Rightarrow> decision_id \<Rightarrow> approve_state \<Rightarrow> approve_state \<Rightarrow> bool" where
  by_approval: "approve env src i confirmed reason actor verified person now s = (Inr x, s') \<Longrightarrow>
     rows_of (as_log s) = Inr rs \<Longrightarrow> rows_of (pr_other src (as_log s)) = Inr rs' \<Longrightarrow> grows rs rs' \<Longrightarrow> decides src i s s'"
| by_decline: "decline env (act_sources.truncate src) i reason actor verified person now (s, sl) = (Inr t, s', sl') \<Longrightarrow> decides src i s s'"
| by_withdrawal: "withdraw e i how who now (as_log s) = Inr (v, lg) \<Longrightarrow> decides src i s (s\<lparr>as_log := lg\<rparr>)"

lemma decides_takes:
  assumes "decides src i s s'" "rows_of (as_log s) = Inr rs" "log_ok rs"
  shows "\<exists>rs'. rows_of (as_log s') = Inr rs' \<and> log_ok rs' \<and> (\<exists>r \<in> set rs'. takes i r)"
  using assms
proof (cases rule: decides.cases)
  case (by_approval env confirmed reason actor verified person now x ra rb)
  from approve_InrD_take [OF by_approval(1)] obtain t where
    "take_decision (se_exists env) i (actor @ '': approved'') now (pr_other src (as_log s)) = Inr (t, as_log s')" by blast
  from take_leaves_row [OF this by_approval(3)] grows_log_ok [OF by_approval(4)] by_approval(2) assms(2,3)
  show ?thesis by simp
next
  case (by_decline env reason actor verified person now sl t sl')
  from decline_InrD_take [OF by_decline] obtain t lg v where
    t: "take_decision (se_exists env) i (actor @ '': declined'') now (as_log s) = Inr (t, lg)"
    and a: "record_applied (se_exists env) i DECLINED actor (se_halt_id env i) now lg = Inr (v, as_log s')" by blast
  from take_leaves_row [OF t assms(2,3)] obtain rs' where
    r: "rows_of lg = Inr rs'" "log_ok rs'" "\<exists>r \<in> set rs'. takes i r" by blast
  let ?r = "Applied_row i DECLINED actor (iso now)"
  have "rows_of (as_log s') = Inr (rs' @ [?r])" "\<exists>v \<in> set (decisions rs'). d_id v = i"
    using record_applied_rows [OF a r(1)] by (simp_all add: DECLINED_def ROLLED_BACK_def)
  with r admissible_log_ok [OF r(2), of ?r] show ?thesis by (auto simp: admissible_def)
next
  case (by_withdrawal e how who now v lg)
  from withdraw_rows [OF by_withdrawal(2) assms(2)] admissible_log_ok [OF assms(3)] by_withdrawal(1)
  show ?thesis by fastforce
qed

lemma not_decided_again:
  assumes "decides src i s s'" "rows_of (as_log s) = Inr rs" "log_ok rs" "r \<in> set rs" "takes i r"
  shows False
  using assms
proof (cases rule: decides.cases)
  case (by_approval env confirmed reason actor verified person now x ra rb)
  from approve_InrD_take [OF by_approval(1)]
    no_second_take(1) [OF assms(4,5,3) _ by_approval(3)] by_approval(2,4) assms(2)
  show ?thesis by (metis sum.disc(2) sum.inject(2))
next
  case (by_decline env reason actor verified person now sl t sl')
  from decline_InrD_take [OF this] no_second_take(1) [OF assms(4,5,3) grows_refl assms(2)]
  show ?thesis by (metis sum.disc(2))
next
  case (by_withdrawal e how who now v lg)
  with no_second_take(2) [OF assms(4,5,3) grows_refl assms(2)] show ?thesis by (metis sum.disc(2))
qed

text \<open>C13: a proposal is decided once, by whoever is first: after an approval, a decline or a withdrawal of it
  succeeded, then however the network's log has grown since, none of the three succeeds again.\<close>

theorem proposal_decided_once:
  assumes "decides src i s s1" and "rows_of (as_log s) = Inr rs" "log_ok rs"
    and "rows_of (as_log s1) = Inr rs1" "grows rs1 rs2" "rows_of (as_log s2) = Inr rs2"
  shows "\<not> decides src' i s2 s3"
proof
  assume "decides src' i s2 s3"
  from decides_takes [OF assms(1-3)] assms(4) obtain r where "log_ok rs1" "r \<in> set rs1" "takes i r" by auto
  with not_decided_again [OF \<open>decides src' i s2 s3\<close> assms(6) grows_log_ok [OF assms(5)], of r] grows_prefix [OF assms(5)]
  show False by auto
qed

end
