(* ===== verification/Propose_Example.thy ===== *)
theory Propose_Example
  imports Propose
begin

text \<open>
  One proposal, from its view to its outcome: a router-id that differs from intent's, whose fix needs
  the OSPF process reset. It is approved, applied, its reset answered and its adjacency formed
  again; and the same reset with the session lost after it, which takes the change back. The
  properties of \<open>Propose\<close> are applied to it.
\<close>

section \<open>A proposal approved, and its router-id put back\<close>

definition ex_golden_rid :: "line list" where "ex_golden_rid = [''router ospf 1'', '' router-id 1.1.1.1'']"
definition ex_read_rid :: "line list" where "ex_read_rid = [''router ospf 1'', '' router-id 9.9.9.9'']"

definition ex_env_prop :: heal_env where
  "ex_env_prop = ex_env_heal\<lparr>he_feature := (\<lambda>c l. (take 1 (words_of l), True))\<rparr>"

definition ex_src_prop :: device_sources where
  "ex_src_prop = ex_src\<lparr>ds_golden := Some ex_golden_rid, ds_read := ex_read_rid, ds_intended := ex_golden_rid\<rparr>"

definition ex_pc :: classified where "ex_pc = act_classified ex_env_prop ex_src_prop (Some ex_claimed)"
definition ex_pprog :: heal_program where "ex_pprog = heal_program_of ex_env_prop ex_src_prop ex_pc"

lemma ex_pc_lit:
  "cl_units ex_pc = [\<lparr>u_op = Op_change, u_chain = [''router ospf 1''], u_stanza = False, u_feature = [''router-id''],
     u_add = [([''router ospf 1''], '' router-id 1.1.1.1'')], u_remove = [([''router ospf 1''], '' router-id 9.9.9.9'')],
     u_kind = K_process_reset, u_tier = 2, u_blocked = None, u_ids = []\<rparr>]"
  "cl_tier ex_pc = 2" "cl_blocked ex_pc = None" "cl_removal_ids ex_pc = []"
  by code_simp+

lemma ex_pprog_lit:
  "hp_commands ex_pprog = [''router ospf 1'', '' router-id 1.1.1.1'', ''exit'']" "hp_refused ex_pprog = []"
  "hp_fragment ex_pprog = ex_golden_rid"
  by code_simp+

definition ex_body :: proposal_body where
  "ex_body = \<lparr>pb_network = ''net'', pb_device = ''r1'', pb_decision = ''hd1'', pb_program_hash = hp_hash ex_pprog,
     pb_reset = ''clear ip ospf 1 process''\<rparr>"

text \<open>A hash that tells any two bodies apart.\<close>

definition ex_hash :: "proposal_body \<Rightarrow> string" where
  "ex_hash b = (if b = ex_body then ''shown'' else ''another'')"

definition ex_papply :: "bool apply_env" where
  "ex_papply = (ex_apply Done)\<lparr>ap_one := (ap_one (ex_apply Done))\<lparr>on_pending := (\<lambda>_. [ex_golden_rid]),
     on_prepared := Inr ex_golden_rid, on_intent_lines := (\<lambda>ls. ls)\<rparr>, ap_prepared := Inr ex_golden_rid\<rparr>"

definition ex_prop :: "bool session \<Rightarrow> bool prop_sources" where
  "ex_prop ss = act_sources.extend
     ((ex_act Done)\<lparr>ac_mode := ex_md\<lparr>m_mode := M_dry_run, m_propose := [K_process_reset]\<rparr>, ac_src := ex_src_prop,
        ac_plan := \<lparr>en_refused = False, en_deployable = True, en_blocking = False, en_commands = hp_commands ex_pprog,
           en_authorised = True, en_reach = None, en_capture_hash = ''cap'', en_command_hash = ''cmd''\<rparr>,
        ac_apply := ex_papply\<rparr>)
     \<lparr>pr_network = ''net'', pr_platform = ''cisco_ios'', pr_measured = ex_measured, pr_hash = ex_hash,
      pr_redact = strip, pr_session = ss, pr_clock = (\<lambda>n. 100 + 5 * real n), pr_started = 100, pr_other = (\<lambda>lg. lg)\<rparr>"

definition ex_proposal :: decision where
  "ex_proposal = (ex_decision O_propose)\<lparr>d_id := ''hd1'', d_incident := ''i1'', d_device := ''r1'',
     d_program_hash := hp_hash ex_pprog, d_units := map masked_unit (cl_units ex_pc), d_tier := 2\<rparr>"

definition ex_plog :: log where "ex_plog = Rows [Decision_row ex_proposal]"

definition ex_start :: start_env where
  "ex_start = \<lparr>se_exists = True, se_opens = (\<lambda>_. True), se_starts = (\<lambda>_. True), se_halt_id = (\<lambda>_. ''hh1'')\<rparr>"

definition ex_as :: approve_state where
  "ex_as = \<lparr>as_log = ex_plog, as_store = Stored [ex_claimed], as_marks = no_marks\<rparr>"

lemma ex_needs_reset:
  "resets_of ex_measured ''cisco_ios'' [''router ospf 1'']
   = \<lparr>rn_needed = True, rn_command = ''clear ip ospf 1 process'', rn_plan = Some ex_reset, rn_refused = None\<rparr>"
  by (simp add: resets_of_def sorted_set_def ex_reset_for ex_reset_plan) (simp add: ex_reset_def)

lemma ex_sections:
  "row_sections (d_units ex_proposal) = [''router ospf 1'']" "unit_sections (cl_units ex_pc) = [''router ospf 1'']"
  by (simp_all add: row_sections_def unit_sections_def ex_proposal_def ex_pc_lit masked_unit_def)

lemma ex_prop_fields [simp]:
  "pr_measured (ex_prop ss) = ex_measured" "pr_platform (ex_prop ss) = ''cisco_ios''" "pr_hash (ex_prop ss) = ex_hash"
  "pr_other (ex_prop ss) lg = lg" "ac_src (ex_prop ss) = ex_src_prop" "pr_redact (ex_prop ss) = strip"
  "ac_mode (ex_prop ss) = ex_md\<lparr>m_mode := M_dry_run, m_propose := [K_process_reset]\<rparr>"
  "pr_session (ex_prop ss) = ss" "pr_network (ex_prop ss) = ''net''" "ac_apply (ex_prop ss) = ex_papply"
  "ac_exists (ex_prop ss)" "ac_keeps_started (ex_prop ss)" "ac_intent_read (ex_prop ss)"
  "ac_recheck (ex_prop ss) = Inr Clean" "ac_symptom (ex_prop ss) = Sym_none"
  "ac_plan (ex_prop ss) = \<lparr>en_refused = False, en_deployable = True, en_blocking = False, en_commands = hp_commands ex_pprog,
           en_authorised = True, en_reach = None, en_capture_hash = ''cap'', en_command_hash = ''cmd''\<rparr>"
  "pr_clock (ex_prop ss) = (\<lambda>n. 100 + 5 * real n)" "pr_started (ex_prop ss) = 100"
  by (simp_all add: ex_prop_def act_sources.extend_def ex_act_def)

lemma ex_prop_stops: "rows_of lg = Inr rs \<Longrightarrow> halted rs = None \<Longrightarrow> \<not> prop_stops (ex_prop ss) lg ex_proposal now"
  by (simp add: prop_stops_def Let_def ex_md_def ex_proposal_def ex_pc_lit masked_unit_def ex_src_prop_def ex_src_def
      g3_planned_def)

lemma ex_plog_ok: "rows_of ex_plog = Inr [Decision_row ex_proposal]" "log_ok [Decision_row ex_proposal]"
  "decisions [Decision_row ex_proposal] = [plain_view ex_proposal]"
  using decisions_record [OF log_ok_Nil, of ex_proposal]
  by (simp_all add: ex_plog_def log_ok_def decisions_def)

lemma truncate_plain_view [simp]: "decision.truncate (plain_view d) = d"
  by (simp add: plain_view_def decision.truncate_def decision.extend_def)

lemma ex_view:
  "\<exists>v. view_proposal (ex_prop ss) ex_plog ''hd1'' now = Inr v \<and> pv_refusals v = [] \<and> pv_hash v = ex_hash ex_body
     \<and> v_withdrawn (pv_decision v) = None"
proof -
  have "d_id (plain_view ex_proposal) = ''hd1''" "d_outcome (plain_view ex_proposal) = O_propose"
    by (simp_all add: ex_proposal_def ex_decision_def)
  then have f: "find_proposal ex_plog ''hd1'' = Inr (plain_view ex_proposal)"
    by (simp add: find_proposal_def find_decision_def ex_plog_ok)
  have b: "prop_body (ex_prop ss) ex_proposal ''clear ip ospf 1 process'' = ex_body"
    by (simp add: prop_body_def ex_body_def ex_proposal_def)
  have h: "halted [Decision_row ex_proposal] = None" by (simp add: halted_def)
  have p: "d_units (plain_view ex_proposal) = d_units ex_proposal" "v_withdrawn (plain_view ex_proposal) = None"
    by (simp_all add: plain_view_def decision.extend_def)
  show ?thesis
    by (simp add: p view_proposal_def f Let_def ex_sections ex_needs_reset b ex_prop_stops [OF ex_plog_ok(1) h])
qed

lemma ex_taken_prop:
  "\<exists>t. take_decision True ''hd1'' by now ex_plog = Inr (t, append_to [Taken_row ''hd1'' by (iso now)] ex_plog)"
proof -
  have f: "find_decision ex_plog ''hd1'' = Inr (plain_view ex_proposal)"
    using ex_plog_ok by (simp add: find_decision_def) (simp add: ex_proposal_def ex_decision_def)
  have a: "append_row True (Taken_row ''hd1'' by (iso now)) ex_plog = Inr (append_to [Taken_row ''hd1'' by (iso now)] ex_plog)"
    by (simp add: append_row_def)
  from find_after_other [OF _ f ex_plog_ok(1) append_row_Inr [OF a ex_plog_ok(1)]] f a show ?thesis
    by (simp add: take_decision_def append_find_def) (simp add: ex_proposal_def ex_decision_def)
qed

text \<open>It is approved, by a person who gave a reason.\<close>

definition ex_reason :: string where "ex_reason = ''put the router id back''"

lemma ex_reason_given: "reason_given ex_reason = Some ex_reason"
  by code_simp

lemma ex_approves:
  "\<exists>av s1. approve ex_start (ex_prop ss) ''hd1'' (pr_hash (ex_prop ss) ex_body) ex_reason ''ann'' ''access'' True 10000 ex_as
     = (Inr (ex_proposal, av), s1) \<and> av_reason av = ex_reason \<and> av_reset av = Some ex_reset
     \<and> as_log s1 = append_to [Taken_row ''hd1'' ''ann: approved'' 10000] ex_plog \<and> av_by av = ''ann''"
proof -
  from ex_view obtain v where v: "view_proposal (ex_prop ss) ex_plog ''hd1'' 10000 = Inr v" "pv_refusals v = []"
    "pv_hash v = ex_hash ex_body" "v_withdrawn (pv_decision v) = None" by blast
  from ex_taken_prop [of "''ann: approved''" 10000] obtain t where
    t: "take_decision True ''hd1'' ''ann: approved'' 10000 ex_plog = Inr (t, append_to [Taken_row ''hd1'' ''ann: approved'' 10000] ex_plog)"
    by auto
  have f: "find_decision ex_plog ''hd1'' = Inr (plain_view ex_proposal)"
    using ex_plog_ok by (simp add: find_decision_def) (simp add: ex_proposal_def ex_decision_def)
  note tv = take_decision_view(1) [OF t f]
  have tr: "decision.truncate t = ex_proposal" using tv by simp
  have u: "d_units t = d_units ex_proposal"
    using truncate_fields(1) [OF tv] by (simp add: plain_view_def decision.extend_def)
  show ?thesis
    using v mark_acquire_free [OF locked_no_marks, of "''hd1''"]
    by (auto simp: approve_def not_a_person_def ex_reason_given ex_as_def ex_start_def Let_def
        t tr u ex_sections ex_needs_reset)
qed

definition ex_before_prop :: "log \<Rightarrow> bool act_state" where
  "ex_before_prop lg = \<lparr>at_store = Stored [ex_claimed], at_log = lg, at_steps = No_steps, at_world = False\<rparr>"

lemma ex_prop_incident: "incident_of (at_store (ex_before_prop lg)) (d_incident ex_proposal) = Some ex_claimed"
  by (simp add: incident_of_def ex_before_prop_def ex_proposal_def)

lemma ex_approved_checked:
  assumes "rows_of lg = Inr rs" "halted rs = None" "av_reset av = Some ex_reset"
  shows "approved_checked ex_env_prop (ex_prop ss) (at_store (ex_before_prop lg)) (at_log (ex_before_prop lg)) ex_proposal av 10000
    = Inr (ex_pc, ex_pprog, Some ex_reset)"
proof -
  have 1: "at_log (ex_before_prop lg) = lg" by (simp add: ex_before_prop_def)
  have 2: "golden_state_of ex_src_prop = G_at_intent" "golden_text ex_src_prop \<noteq> []" "ds_read ex_src_prop \<noteq> []"
    "ds_intended ex_src_prop \<noteq> []"
    by (simp_all add: golden_state_of_def golden_text_def ex_src_prop_def ex_src_def ex_golden_rid_def ex_read_rid_def)
  have 3: "d_program_hash ex_proposal = hp_hash ex_pprog" by (simp add: ex_proposal_def)
  have 4: "rt_command ex_reset = ''clear ip ospf 1 process''" by (simp add: ex_reset_def)
  show ?thesis
    by (simp add: approved_checked_def Let_def 1 2 3 4 ex_prop_incident ex_prop_stops [OF assms(1,2)] ex_pprog_lit(2)
        ex_pc_lit(2,3) ex_sections ex_needs_reset plan_refuses_def assms(3) flip: ex_pc_def ex_pprog_def)
qed

text \<open>The device it is applied to.\<close>

definition ex_pfull :: deploy_program where
  "ex_pfull = \<lparr>dp_merge = [''router ospf 1'', '' router-id 1.1.1.1'', ''exit''], dp_removals = [],
     dp_commands = [''router ospf 1'', '' router-id 1.1.1.1'', ''exit''], dp_removed = [], dp_refused = [], dp_ids = []\<rparr>"

lemma ex_pfull_lit:
  "deploy_program_of ex_program_env ex_golden_rid ex_read_rid [] ''10.0.0.1'' = ex_pfull"
  "rc_refused (recreate_plan (pe_recreate ex_program_env) (e_canon (pe_removal ex_program_env)) (pe_held ex_program_env)
      ex_golden_rid ex_read_rid) = []"
  by code_simp+

lemma ex_prop_env: "he_program ex_env_prop = ex_program_env" "pe_stored ex_program_env ls = ls"
  "ds_read ex_src_prop = ex_read_rid" "ds_mgmt_ip ex_src_prop = ''10.0.0.1''" "d_device ex_proposal = ''r1''"
  by (simp_all add: ex_env_prop_def ex_env_heal_def ex_program_env_def ex_src_prop_def ex_src_def ex_proposal_def)

lemma ex_no_keys: "removal_keys (ex_prop ss) ex_env_prop ex_pc ex_pprog = []" "authorised_lines (ex_prop ss) ex_env_prop ex_pc ex_pprog = []"
proof -
  show k: "removal_keys (ex_prop ss) ex_env_prop ex_pc ex_pprog = []"
    by (simp add: removal_keys_def ex_prop_env ex_pprog_lit ex_pc_lit ex_pfull_lit ex_pfull_def)
  have "flagged strip [''router ospf 1'', '' router-id 1.1.1.1'', ''exit''] [] = []" by code_simp
  with k show "authorised_lines (ex_prop ss) ex_env_prop ex_pc ex_pprog = []"
    by (simp add: authorised_lines_def ex_pprog_lit)
qed

definition ex_pone :: "bool session \<Rightarrow> approval \<Rightarrow> bool apply_env" where
  "ex_pone ss av = approved_one ex_env_prop (ex_prop ss) av ex_pc ex_pprog"

lemma ex_pone_fields:
  "ap_built (ex_pone ss av)" "ap_prepared (ex_pone ss av) = Inr ex_golden_rid" "ap_authorised (ex_pone ss av) [''router ospf 1'', '' router-id 1.1.1.1'', ''exit'']"
  "ap_fingerprint (ex_pone ss av) l i = ''cmd''" "ap_text_hash (ex_pone ss av) l = ''cap''" "\<not> ap_busy (ex_pone ss av)"
  "ap_deployable (ex_pone ss av)" "ap_save (ex_pone ss av) = (\<lambda>w. (True, w))" "ap_commit (ex_pone ss av) x = Inr True"
  "one_program (ap_one (ex_pone ss av)) prepared ex_read_rid = ex_pfull"
  "rc_refused (recreate_of (ap_one (ex_pone ss av)) prepared ex_read_rid) = []"
  "on_prepared (ap_one (ex_pone ss av)) = Inr ex_golden_rid" "on_declared_ok (ap_one (ex_pone ss av))"
  "on_stages (ap_one (ex_pone ss av)) = ex_stages_of Done" "on_drifted (ap_one (ex_pone ss av)) w = False"
  "on_pending (ap_one (ex_pone ss av)) w = [ex_golden_rid]" "on_saved (ap_one (ex_pone ss av)) w = None"
  "on_verify (ap_one (ex_pone ss av)) w = None" "unreasoned (ap_one (ex_pone ss av)) [] = []"
  "merge_only (e_canon (pe_removal (on_program (ap_one (ex_pone ss av))))) (dp_merge ex_pfull)
     (on_intent_lines (ap_one (ex_pone ss av)) ex_golden_rid)"
proof -
  have p: "problems strip [''router ospf 1'', '' router-id 1.1.1.1'', ''exit''] [] [] = []" by code_simp
  have m: "merge_only id [''router ospf 1'', '' router-id 1.1.1.1'', ''exit''] ex_golden_rid" by code_simp
  show "ap_authorised (ex_pone ss av) [''router ospf 1'', '' router-id 1.1.1.1'', ''exit'']"
    using p by (simp add: ex_pone_def ex_no_keys approved_auths_def)
  show "merge_only (e_canon (pe_removal (on_program (ap_one (ex_pone ss av))))) (dp_merge ex_pfull)
     (on_intent_lines (ap_one (ex_pone ss av)) ex_golden_rid)"
    using m by (simp add: ex_pone_def approved_one_def Let_def ex_papply_def ex_pfull_def ex_prop_env ex_program_env_def ex_env_def id_def)
qed (simp_all add: ex_pone_def approved_one_def Let_def ex_papply_def ex_apply_def ex_one_env_def one_program_def recreate_of_def
    ex_prop_env ex_pprog_lit ex_pc_lit ex_pfull_lit unreasoned_def)

definition ex_papplied :: "bool session \<Rightarrow> approval \<Rightarrow> (heal_error + (dres \<times> bool)) \<times> bool" where
  "ex_papplied ss av = apply_one_device (ex_pone ss av) ''r1'' ex_read_rid ''cap'' ''cmd''
     (approved_check ex_env_prop (ex_prop ss) (cl_units ex_pc) (Some ex_reset)) False"

definition ex_pres :: dres where
  "ex_pres = \<lparr>dr_device = ''r1'', dr_outcome = Deployed, dr_stage = '''', dr_commands = dp_commands ex_pfull, dr_rolled = False,
     dr_undone = [], dr_saved = None, dr_verify = None, dr_pending = [ex_golden_rid], dr_symptom = None\<rparr>"

lemma ex_papplied:
  "ex_papplied ss av =
     (case settle_one (ex_stages_of Done) (\<lambda>w. (True, w))
             (approved_check ex_env_prop (ex_prop ss) (cl_units ex_pc) (Some ex_reset)) ex_pres
             (Some (snd (run_pipeline (ex_stages_of Done) False))) of
        (r, ctx) \<Rightarrow> (Inr (r, dr_outcome r = Deployed \<and> dr_pending r \<noteq> []),
                     case ctx of None \<Rightarrow> True | Some c \<Rightarrow> ru_world c))"
proof -
  have full: "dp_refused ex_pfull = []" "dp_ids ex_pfull = []" "dp_removed ex_pfull = []"
    "dp_commands ex_pfull = [''router ospf 1'', '' router-id 1.1.1.1'', ''exit'']" by (simp_all add: ex_pfull_def)
  have d: "deploy_one (ap_one (ex_pone ss av)) ''r1'' ex_read_rid False
      = (ex_pres, Some (snd (run_pipeline (ex_stages_of Done) False)), True)"
    by (simp add: deploy_one_def Let_def ex_pone_fields full ex_runs run_result_def ex_pres_def)
  have dev: "dr_device ex_pres = ''r1''" by (simp add: ex_pres_def)
  show ?thesis
    unfolding ex_papplied_def apply_one_device_def Let_def
    by (simp add: ex_pone_fields full plan_one_def Let_def run_batch_def d dev
        new_breaker_def unaccounted_def batch_loop.simps(2) bind_result_def split: prod.split)
qed

lemma ex_left_rid: "units_left ex_env_prop (cl_units ex_pc) ex_golden_rid = []"
proof -
  have "set (paths_in (he_program ex_env_prop) (pe_stored (he_program ex_env_prop) ex_golden_rid))
      = {([], ''router ospf 1''), ([''router ospf 1''], '' router-id 1.1.1.1'')}" by code_simp
  then show ?thesis by (simp add: units_left_def ex_pc_lit)
qed

lemma ex_at_intent: "at_intent_now ex_env_prop (cl_units ex_pc) ex_pres"
  by (simp add: at_intent_now_def ex_pres_def ex_left_rid) (simp add: ex_golden_rid_def)

abbreviation ex_asked :: "bool session" where "ex_asked \<equiv> ex_session ''Reset OSPF process 1? [no]:''"

lemma ex_reset_done: "reset_result (ex_prop ex_asked) ex_reset w = (Inr Rs_done, True)"
proof -
  have l: "last_line ''Reset OSPF process 1? [no]:'' = ''Reset OSPF process 1? [no]:''"
    "\<not> percent_line True (''Reset OSPF process 1? [no]:'' @ ''r1#'')" by code_simp+
  show ?thesis
    using l by (simp add: reset_result_def RESET_ROUNDS_def send_reset_def ex_reset_def ex_session_def after_answer_def
        reset_verify_def ex_table_formed waited_state_def)
qed

lemma ex_settled:
  "settle_one (ex_stages_of Done) (\<lambda>w. (True, w)) (approved_check ex_env_prop (ex_prop ex_asked) (cl_units ex_pc) (Some ex_reset))
     ex_pres (Some (snd (run_pipeline (ex_stages_of Done) False)))
   = (ex_pres\<lparr>dr_saved := Some True\<rparr>, Some (snd (run_pipeline (ex_stages_of Done) False)))"
proof -
  have "approved_check ex_env_prop (ex_prop ex_asked) (cl_units ex_pc) (Some ex_reset) ex_pres ctx
      = (Inr \<lparr>vd_rollback = False, vd_symptom = None\<rparr>, True)" for ctx
    using ex_at_intent
    by (simp add: approved_check_def at_intent_now_def ex_reset_done Let_def split: list.splits)
  then show ?thesis by (simp add: settle_one_def ex_pres_def ex_runs)
qed

lemma ex_approved_applied:
  assumes "rows_of lg = Inr rs" "halted rs = None" "av_reset av = Some ex_reset"
  shows "\<exists>s'. apply_approved ex_env_prop (ex_prop ex_asked) ex_proposal av 10000 (ex_before_prop lg) = (Inr (A_healed, True), s')
    \<and> at_world s'"
proof -
  have a: "apply_one_device (approved_one ex_env_prop (ex_prop ex_asked) av ex_pc ex_pprog) ''r1'' ex_read_rid ''cap'' ''cmd''
      (approved_check ex_env_prop (ex_prop ex_asked) (cl_units ex_pc) (Some ex_reset)) False
      = (Inr (ex_pres\<lparr>dr_saved := Some True\<rparr>, True), True)"
  proof -
    have "ex_papplied ex_asked av = (Inr (ex_pres\<lparr>dr_saved := Some True\<rparr>, True), True)"
      unfolding ex_papplied ex_settled by (simp add: ex_runs) (simp add: ex_pres_def)
    then show ?thesis by (simp only: ex_papplied_def ex_pone_def)
  qed
  have w: "at_world (ex_before_prop lg) = False" "at_steps (ex_before_prop lg) = No_steps"
    by (simp_all add: ex_before_prop_def)
  show ?thesis
    by (simp add: apply_approved_def Let_def ex_approved_checked [OF assms] append_step_def ex_prop_env a w judge_act_def)
      (simp add: ex_pres_def)
qed

theorem sent_only_what_was_approved_witness:
  "cl_tier ex_pc = 2 \<and> hp_hash ex_pprog = pb_program_hash ex_body \<and> ''clear ip ospf 1 process'' = pb_reset ex_body"
proof -
  from ex_approves [of ex_asked] obtain av s1 where
    ap: "approve ex_start (ex_prop ex_asked) ''hd1'' (pr_hash (ex_prop ex_asked) ex_body) ex_reason ''ann'' ''access'' True 10000 ex_as
      = (Inr (ex_proposal, av), s1)" and r: "av_reset av = Some ex_reset"
    and l: "as_log s1 = append_to [Taken_row ''hd1'' ''ann: approved'' 10000] ex_plog" by blast
  have rows: "rows_of (as_log s1) = Inr [Decision_row ex_proposal, Taken_row ''hd1'' ''ann: approved'' 10000]"
    by (simp add: l ex_plog_def)
  have h: "halted [Decision_row ex_proposal, Taken_row ''hd1'' ''ann: approved'' 10000] = None" by (simp add: halted_def)
  from ex_approved_applied [OF rows h r] obtain s' where
    s': "apply_approved ex_env_prop (ex_prop ex_asked) ex_proposal av 10000 (ex_before_prop (as_log s1)) = (Inr (A_healed, True), s')"
    "at_world s'" by blast
  have w: "at_world s' \<noteq> at_world (ex_before_prop (as_log s1))" using s'(2) by (simp add: ex_before_prop_def)
  have i: "pr_hash (ex_prop ex_asked) b = pr_hash (ex_prop ex_asked) ex_body \<Longrightarrow> b = ex_body" for b
    by (simp add: ex_hash_def split: if_splits)
  have o: "rows_of (as_log ex_as) = Inr [Decision_row ex_proposal]" "log_ok [Decision_row ex_proposal]"
    "rows_of (pr_other (ex_prop ex_asked) (as_log ex_as)) = Inr [Decision_row ex_proposal]"
    "grows [Decision_row ex_proposal] [Decision_row ex_proposal]"
    using ex_plog_ok by (simp_all add: ex_as_def grows_refl)
  from sent_only_what_was_approved [OF ap s'(1) w i o] show ?thesis
    by (simp add: ex_prop_incident ex_sections ex_needs_reset flip: ex_pc_def ex_pprog_def)
qed

theorem reset_made_or_taken_back_witness:
  "dr_outcome (ex_pres\<lparr>dr_saved := Some True\<rparr>) = Deployed \<and> snd (reset_result (ex_prop ex_asked) ex_reset True)"
proof -
  have "dr_outcome ex_pres = Deployed" by (simp add: ex_pres_def)
  from reset_made_or_taken_back [OF ex_settled this] show ?thesis
    using ex_at_intent by (simp add: ex_reset_done)
qed

text \<open>The session lost after a reset that asks nothing.\<close>

definition ex_lost_session :: "bool session" where
  "ex_lost_session = \<lparr>ss_read = (\<lambda>cmd done. if done then (Inl Raised, done) else (Inr ex_table, done)),
     ss_send = (\<lambda>t done. (Inr ''r1#'', True))\<rparr>"

theorem reset_made_and_lost_is_taken_back_witness:
  "\<exists>r' ctx'. settle_one (ex_stages_of Done) (\<lambda>w. (True, w))
       (approved_check ex_env_prop (ex_prop ex_lost_session) (cl_units ex_pc) (Some (ex_reset\<lparr>rt_prompt := None\<rparr>))) ex_pres
       (Some ((snd (run_pipeline (ex_stages_of Done) False))\<lparr>ru_world := False\<rparr>)) = (r', ctx')
     \<and> snd (reset_result (ex_prop ex_lost_session) (ex_reset\<lparr>rt_prompt := None\<rparr>) False) \<and> dr_rolled r'"
proof -
  let ?ctx = "(snd (run_pipeline (ex_stages_of Done) False))\<lparr>ru_world := False\<rparr>"
  obtain r' ctx' where s: "settle_one (ex_stages_of Done) (\<lambda>w. (True, w))
       (approved_check ex_env_prop (ex_prop ex_lost_session) (cl_units ex_pc) (Some (ex_reset\<lparr>rt_prompt := None\<rparr>))) ex_pres
       (Some ?ctx) = (r', ctx')" by fastforce
  have l: "\<not> asks (last_line ''r1#'')" "\<not> percent_line True ''r1#''" by code_simp+
  have p: "rt_prompt (ex_reset\<lparr>rt_prompt := None\<rparr>) = None" "dr_outcome ex_pres = Deployed"
    by (simp_all add: ex_pres_def)
  have ss: "ss_read (pr_session (ex_prop ex_lost_session)) c False = (Inr ex_table, False)"
    "ss_send (pr_session (ex_prop ex_lost_session)) c False = (Inr ''r1#'', True)"
    "ss_read (pr_session (ex_prop ex_lost_session)) c True = (Inl Raised, True)" for c
    by (simp_all add: ex_lost_session_def)
  have w: "ru_world ?ctx = False" by simp
  note lost = reset_made_and_lost_is_taken_back [OF s p(2) _ ex_at_intent, unfolded w, OF _ ss(1) ss(2) p(1) l ss(3)]
  have "snd (reset_result (ex_prop ex_lost_session) (ex_reset\<lparr>rt_prompt := None\<rparr>) False) = True \<and> dr_rolled r'"
    using lost by simp
  with s show ?thesis by blast
qed

text \<open>An approval of another hash, and one whose take cannot read the log.\<close>

theorem proposal_decided_once_witness:
  "\<exists>s1. as_log s1 = append_to [Taken_row ''hd1'' ''ann: approved'' 10000] ex_plog
     \<and> \<not> decides (ex_prop ex_asked) ''hd1'' s1 ex_as"
proof -
  from ex_approves [of ex_asked] obtain av s1 where
    ap: "approve ex_start (ex_prop ex_asked) ''hd1'' (pr_hash (ex_prop ex_asked) ex_body) ex_reason ''ann'' ''access'' True 10000 ex_as
      = (Inr (ex_proposal, av), s1)"
    and l: "as_log s1 = append_to [Taken_row ''hd1'' ''ann: approved'' 10000] ex_plog" by blast
  have o: "rows_of (as_log ex_as) = Inr [Decision_row ex_proposal]"
    "rows_of (pr_other (ex_prop ex_asked) (as_log ex_as)) = Inr [Decision_row ex_proposal]"
    using ex_plog_ok by (simp_all add: ex_as_def)
  have d: "decides (ex_prop ex_asked) ''hd1'' ex_as s1" by (rule by_approval [OF ap o grows_refl])
  have r: "rows_of (as_log s1) = Inr [Decision_row ex_proposal, Taken_row ''hd1'' ''ann: approved'' 10000]"
    by (simp add: l ex_plog_def)
  from proposal_decided_once [OF d o(1) ex_plog_ok(2) r grows_refl r] l show ?thesis by blast
qed

end
