(* ===== verification/Triggers.thy ===== *)
theory Triggers
  imports Attribution Policy Authorise "HOL-Library.AList"
begin

text \<open>
  How what the readers store becomes sightings (\<open>modules/heal/triggers.py\<close>): a configuration change
  not from Mercury, a firing alert, an adjacency down, a logged drop, a duplicate router-id and a
  drift run's departures, each delivered into its network's incidents (\<open>Incidents.sight\<close>); and when
  a network's link set last changed.

  The state is the file of cursors, what each store showed that was consumed, and the incident
  stores; a step that raises keeps what it wrote. Its reads are the record \<open>trigger_env\<close>: where a
  device is, the networks' modes, committed intent, Mercury's records of changes, the blast radius,
  the ids of new incidents. The keys of triggers are hashes, of the identity \<open>trigger_id\<close> they are
  computed from. Which lines are configuration changes, and whom one names, are read by regular
  expressions and are arguments; an interface's subnets are those its addresses parse to. The
  sentences are not modelled.

  The lemmas: a store's value is consumed once (the locale \<open>reader\<close>, interpreted on every reader);
  exactly the outside changes of networks where healing is on are sighted; a network whose mode is
  off is left as it was by every step; and what a step that raised had consumed is lost.
\<close>

section \<open>What the readers hold\<close>

type_synonym store_id = string

record log_line =
  ln_ts :: epoch               \<comment> \<open>\<open>float(l.get("ts") or 0)\<close>\<close>
  ln_dev :: device
  ln_mn :: string
  ln_text :: string

record alert_inst =
  al_condition :: bool         \<comment> \<open>its kind is \<open>condition\<close>: it fires\<close>
  al_key :: string
  al_device :: device
  al_address :: string
  al_rule :: string
  al_labels :: "(string \<times> string) list"
  al_active :: "iso_time option"
  al_starts :: "iso_time option"

record adj_down =
  ad_network :: network
  ad_devices :: "device list"
  ad_protocol :: string
  ad_since :: string
  ad_reads :: nat

record logged_adj =
  la_network :: network
  la_device :: device
  la_neighbor :: string
  la_protocol :: string
  la_drops :: "epoch list"

record dup_report =
  dp_first :: epoch
  dp_last :: epoch
  dp_neighbors :: "string list"

record dup_group =
  dg_network :: network
  dg_router_id :: string
  dg_protocol :: string
  dg_reports :: "(device \<times> dup_report) list"

record drifted =
  dr_host :: device
  dr_read_at :: epoch
  dr_departure :: string
  dr_changed :: "int option"

section \<open>The cursors\<close>

record link_seen =
  ls_fingerprint :: string
  ls_first_seen :: iso_time
  ls_changed_epoch :: epoch    \<comment> \<open>0 until the set changed\<close>

record cursor_doc =
  cd_cursors :: "store_id \<Rightarrow> epoch option"
  cd_seen :: "store_id \<Rightarrow> string list"
  cd_duplicates :: "store_id \<Rightarrow> string \<Rightarrow> (epoch \<times> epoch) option"   \<comment> \<open>its last line, its episode's start\<close>
  cd_link_sets :: "network \<Rightarrow> link_seen option"

datatype cursor_file = No_cursors | Bad_cursors | Cursors cursor_doc

definition empty_doc :: cursor_doc where
  "empty_doc = \<lparr>cd_cursors = (\<lambda>_. None), cd_seen = (\<lambda>_. []), cd_duplicates = (\<lambda>_ _. None),
                cd_link_sets = (\<lambda>_. None)\<rparr>"

text \<open>\<open>_cursors\<close>: empty when the file is absent or unreadable. \<open>_move\<close> raises on an unreadable file.\<close>

fun cursors_of :: "cursor_file \<Rightarrow> cursor_doc" where
  "cursors_of (Cursors d) = d"
| "cursors_of _ = empty_doc"

definition move_cursors :: "(cursor_doc \<Rightarrow> cursor_doc) \<Rightarrow> cursor_file \<Rightarrow> heal_error + cursor_file" where
  "move_cursors f c = (if c = Bad_cursors then Inl Store_unreadable else Inr (Cursors (f (cursors_of c))))"

definition link_set :: "cursor_file \<Rightarrow> network \<Rightarrow> link_seen option" where
  "link_set c network = cd_link_sets (cursors_of c) network"

section \<open>Where a device is\<close>

type_synonym subnet = "nat \<times> nat \<times> nat"   \<comment> \<open>family, network, prefix length\<close>

record intent_iface =
  ii_name :: string
  ii_shutdown :: bool
  ii_subnets :: "subnet list"

type_synonym intents = "(device \<times> intent_iface list) list"

datatype trigger_id =
  Id_change device epoch string
| Id_alert string "device option"
| Id_adjacency string device
| Id_drop string epoch "device option"
| Id_duplicate string device epoch "device option"
| Id_drift device epoch

record trigger_env =
  te_now :: epoch
  te_networks :: "(device \<Rightarrow> network list) option"          \<comment> \<open>\<open>None\<close>: an inventory cannot be read\<close>
  te_addresses :: "(string \<Rightarrow> device list) option"
  te_mode :: "network \<Rightarrow> heal_error + policy_now"
  te_intents :: "network \<Rightarrow> heal_error + intents"
  te_peers :: "network \<Rightarrow> string \<Rightarrow> device option"
  te_radius :: "network \<Rightarrow> heal_error + radius_of"
  te_exists :: "network \<Rightarrow> bool"
  te_new :: "nat \<Rightarrow> incident_id"
  te_key :: "trigger_id \<Rightarrow> string"
  te_time :: "string \<Rightarrow> epoch"                             \<comment> \<open>\<open>_epoch\<close>, 0 where it will not parse\<close>
  te_is_change :: "string \<Rightarrow> string \<Rightarrow> bool"
  te_person :: "string \<Rightarrow> string \<Rightarrow> string"
  te_holder :: "network \<Rightarrow> device \<Rightarrow> epoch option source"
  te_receipts :: "network \<Rightarrow> device \<Rightarrow> iso_time option list source"
  te_rotation :: "network \<Rightarrow> device \<Rightarrow> epoch option source"
  te_planned :: "heal_error + (network \<Rightarrow> device \<Rightarrow> device option \<Rightarrow> epoch \<Rightarrow> bool)"

type_synonym allowed = "network set option"

definition networks_of :: "trigger_env \<Rightarrow> device \<Rightarrow> allowed \<Rightarrow> heal_error + network list" where
  "networks_of env d allowed =
     (case te_networks env of
        None \<Rightarrow> Inl Raised
      | Some kept \<Rightarrow> Inr (filter (\<lambda>n. case allowed of None \<Rightarrow> True | Some ns \<Rightarrow> n \<in> ns) (kept d)))"

definition one_network :: "trigger_env \<Rightarrow> device \<Rightarrow> allowed \<Rightarrow> heal_error + network option" where
  "one_network env d allowed =
     bind_result (networks_of env d allowed) (\<lambda>kept. Inr (case kept of [n] \<Rightarrow> Some n | _ \<Rightarrow> None))"

definition mode_of :: "trigger_env \<Rightarrow> network \<Rightarrow> heal_mode" where
  "mode_of env network = (case te_mode env network of Inl _ \<Rightarrow> M_off | Inr p \<Rightarrow> m_mode p)"

definition far_ends :: "intents \<Rightarrow> device \<Rightarrow> string \<Rightarrow> device list" where
  "far_ends intents d interface =
     (let want = lower (strip interface);
          mine = find (\<lambda>i. lower (strip (ii_name i)) = want)
                   (case map_of intents d of None \<Rightarrow> [] | Some is \<Rightarrow> is)
      in case mine of
           None \<Rightarrow> []
         | Some i \<Rightarrow>
             (if want = '''' then []
              else sorted_set (map fst (filter (\<lambda>(host, is). host \<noteq> d
                     \<and> (\<exists>x \<in> set is. \<not> ii_shutdown x \<and> set (ii_subnets x) \<inter> set (ii_subnets i) \<noteq> {})) intents))))"

section \<open>A value is consumed once\<close>

text \<open>The lines newer than a cursor, oldest first, and the newest of them.\<close>

definition newer :: "('l \<Rightarrow> epoch) \<Rightarrow> epoch option \<Rightarrow> 'l list \<Rightarrow> 'l list" where
  "newer ts seen ls = filter (\<lambda>l. case seen of None \<Rightarrow> True | Some s \<Rightarrow> s < ts l) (sort_key ts ls)"

definition newest :: "('l \<Rightarrow> epoch) \<Rightarrow> 'l list \<Rightarrow> epoch" where
  "newest ts ls = Max (set (map ts ls))"

definition line_cursor :: "('l \<Rightarrow> epoch) \<Rightarrow> 'l list \<Rightarrow> epoch option \<Rightarrow> epoch option" where
  "line_cursor ts ls seen = (if newer ts seen ls = [] then seen else Some (newest ts (newer ts seen ls)))"

text \<open>A dict of a comprehension: a key keeps its first place and its last value.\<close>

definition as_dict :: "(string \<times> 'v) list \<Rightarrow> (string \<times> 'v) list" where
  "as_dict kvs = fold (\<lambda>(k, v). AList.update k v) kvs []"

definition unseen :: "string list \<Rightarrow> (string \<times> 'v) list \<Rightarrow> (string \<times> 'v) list" where
  "unseen seen kvs = filter (\<lambda>(k, _). k \<notin> set seen) (as_dict kvs)"

definition seen_now :: "(string \<times> 'v) list \<Rightarrow> string list" where
  "seen_now kvs = sort (map fst (as_dict kvs))"

text \<open>\<open>_duplicate_episodes\<close>: the rows in their order, each continuing its episode or starting one.\<close>

definition QUIET_SECONDS :: epoch where "QUIET_SECONDS = 165"

type_synonym episode = "string \<times> dup_group \<times> device \<times> dup_report \<times> epoch"

definition dup_rows :: "(string \<times> dup_group) list \<Rightarrow> (string \<times> dup_group \<times> device \<times> dup_report) list" where
  "dup_rows dups = concat (map (\<lambda>(k, g). map (\<lambda>(d, r). (k, g, d, r)) (sort_key fst (dg_reports g))) (sort_key fst dups))"

definition episode_start :: "dup_report \<Rightarrow> (epoch \<times> epoch) option \<Rightarrow> epoch" where
  "episode_start r was =
     (case was of
        None \<Rightarrow> dp_first r
      | Some (lst, ep) \<Rightarrow> if QUIET_SECONDS < dp_first r - lst then dp_first r else or_num ep (dp_first r))"

fun dup_loop ::
    "(string \<times> dup_group \<times> device \<times> dup_report) list \<Rightarrow> (string \<Rightarrow> (epoch \<times> epoch) option)
     \<Rightarrow> episode list \<times> (string \<Rightarrow> (epoch \<times> epoch) option)" where
  "dup_loop [] kept = ([], kept)"
| "dup_loop ((k, g, d, r) # rows) kept =
     (let x = k @ ''|'' @ d in
      if (case kept x of None \<Rightarrow> False | Some (lst, _) \<Rightarrow> dp_last r \<le> lst) then dup_loop rows kept
      else
        (let start = episode_start r (kept x);
             starts = (case kept x of None \<Rightarrow> True | Some (_, ep) \<Rightarrow> start \<noteq> ep);
             (out, kept') = dup_loop rows (kept(x := Some (dp_last r, start)))
         in (if starts then (k, g, d, r, start) # out else out, kept')))"

section \<open>What becomes of each\<close>

datatype fate =
  No_trigger | Unplaced | Off_here | By_mercury | Is_explained | Sights "(network \<times> device \<times> trigger) list"

definition base_trigger :: "trigger_env \<Rightarrow> trigger_kind \<Rightarrow> trigger_id \<Rightarrow> epoch \<Rightarrow> store_id \<Rightarrow> trigger" where
  "base_trigger env k x tm store =
     \<lparr>t_kind = k, t_key = Some (te_key env x), t_epoch = tm, t_source = store, t_related = [], t_by = None,
      t_person = '''', t_interface = '''', t_protocol = '''', t_rule = '''', t_router_id = '''', t_read = None\<rparr>"

definition change_trigger :: "trigger_env \<Rightarrow> store_id \<Rightarrow> log_line \<Rightarrow> attributed \<Rightarrow> trigger" where
  "change_trigger env store l by =
     (base_trigger env Config_change (Id_change (ln_dev l) (ln_ts l) (ln_text l)) (ln_ts l) store)
       \<lparr>t_by := Some by, t_person := te_person env (ln_mn l) (ln_text l)\<rparr>"

definition change_fate :: "trigger_env \<Rightarrow> store_id \<Rightarrow> allowed \<Rightarrow> log_line \<Rightarrow> heal_error + fate" where
  "change_fate env store allowed l =
     (if \<not> te_is_change env (ln_mn l) (ln_text l) then Inr No_trigger
      else bind_result (one_network env (ln_dev l) allowed) (\<lambda>placed.
        case placed of
          None \<Rightarrow> Inr Unplaced
        | Some n \<Rightarrow>
            (if mode_of env n = M_off then Inr Off_here
             else let by = fst (attribute (te_holder env n (ln_dev l)) (te_receipts env n (ln_dev l))
                                  (te_rotation env n (ln_dev l)) (ln_ts l))
                  in if by = Mercury then Inr By_mercury
                     else Inr (Sights [(n, ln_dev l, change_trigger env store l by)]))))"

definition INTERFACE_LABELS :: "string list" where "INTERFACE_LABELS = [''ifDescr'', ''ifName'']"

definition alert_interface :: "alert_inst \<Rightarrow> string" where
  "alert_interface a =
     (case filter (\<lambda>v. v \<noteq> '''') (map (\<lambda>k. case map_of (al_labels a) k of None \<Rightarrow> '''' | Some v \<Rightarrow> v) INTERFACE_LABELS) of
        [] \<Rightarrow> '''' | v # _ \<Rightarrow> v)"

definition alert_device :: "trigger_env \<Rightarrow> alert_inst \<Rightarrow> heal_error + device option" where
  "alert_device env a =
     (if al_device a \<noteq> '''' then Inr (Some (al_device a))
      else if al_address a = '''' then Inr None
      else case te_addresses env of
        None \<Rightarrow> Inl Raised
      | Some found \<Rightarrow> Inr (case found (al_address a) of [d] \<Rightarrow> if d = '''' then None else Some d | _ \<Rightarrow> None))"

definition alert_triggers ::
    "trigger_env \<Rightarrow> store_id \<Rightarrow> string \<Rightarrow> alert_inst \<Rightarrow> device \<Rightarrow> network \<Rightarrow> device list
     \<Rightarrow> (network \<times> device \<times> trigger) list" where
  "alert_triggers env store key a d n far =
     (let tm = or_num (epoch_of (al_active a)) (or_num (epoch_of (al_starts a)) (te_now env));
          t = (\<lambda>x related. (base_trigger env Alert x tm store)
                 \<lparr>t_related := related, t_rule := al_rule a, t_interface := alert_interface a\<rparr>)
      in (n, d, t (Id_alert key None) far) # map (\<lambda>host. (n, host, t (Id_alert key (Some host)) [d])) far)"

definition alert_far :: "trigger_env \<Rightarrow> alert_inst \<Rightarrow> device \<Rightarrow> network \<Rightarrow> heal_error + device list" where
  "alert_far env a d n =
     (if alert_interface a = '''' then Inr []
      else bind_result (te_intents env n) (\<lambda>intents. Inr (far_ends intents d (alert_interface a))))"

definition alert_fate ::
    "trigger_env \<Rightarrow> store_id \<Rightarrow> allowed \<Rightarrow> string \<times> alert_inst \<Rightarrow> heal_error + fate" where
  "alert_fate env store allowed ka =
     (let (key, a) = ka in
      bind_result (alert_device env a) (\<lambda>dev. case dev of None \<Rightarrow> Inr Unplaced | Some d \<Rightarrow>
      bind_result (one_network env d allowed) (\<lambda>placed. case placed of None \<Rightarrow> Inr Unplaced | Some n \<Rightarrow>
        if mode_of env n = M_off then Inr Off_here
        else bind_result (alert_far env a d n) (\<lambda>far. Inr (Sights (alert_triggers env store key a d n far))))))"

definition PERSIST_READS :: nat where "PERSIST_READS = 2"

definition adjacency_fate :: "trigger_env \<Rightarrow> store_id \<Rightarrow> string \<times> adj_down \<Rightarrow> heal_error + fate" where
  "adjacency_fate env store ke =
     (let (ident, e) = ke in
      if mode_of env (ad_network e) = M_off then Inr Off_here
      else let devices = sort (ad_devices e); tm = or_num (te_time env (ad_since e)) (te_now env)
           in Inr (Sights (map (\<lambda>d. (ad_network e, d,
                (base_trigger env Adjacency (Id_adjacency ident d) tm store)
                  \<lparr>t_related := filter (\<lambda>x. x \<noteq> d) devices, t_protocol := ad_protocol e\<rparr>)) devices)))"

definition or_blank :: "device option \<Rightarrow> device" where
  "or_blank x = (case x of None \<Rightarrow> '''' | Some d \<Rightarrow> d)"

definition dup_fate :: "trigger_env \<Rightarrow> store_id \<Rightarrow> episode \<Rightarrow> heal_error + fate" where
  "dup_fate env store ep =
     (let (k, g, d, r, start) = ep; n = dg_network g in
      if mode_of env n = M_off then Inr Off_here
      else
        (let named = sorted_set (filter (\<lambda>x. x \<noteq> '''' \<and> x \<noteq> d) (map (\<lambda>a. or_blank (te_peers env n a)) (dp_neighbors r)));
             claimers = sorted_set (filter (\<lambda>x. x \<noteq> d) (map fst (dg_reports g)));
             t = (\<lambda>peer related. (base_trigger env Duplicate_router_id (Id_duplicate k d start peer) start store)
                    \<lparr>t_related := related, t_router_id := dg_router_id g,
                     t_protocol := if dg_protocol g = '''' then ''OSPF'' else dg_protocol g\<rparr>)
         in Inr (Sights ((n, d, t None (sorted_set (named @ claimers)))
              # map (\<lambda>peer. (n, peer, t (Some peer) [d])) (filter (\<lambda>p. p \<notin> set claimers) named)))))"

text \<open>A logged drop: \<open>attention._explained\<close> answers for a planned restart of the device or its peer,
  then a deploy around that time.\<close>

definition drop_fate ::
    "trigger_env \<Rightarrow> store_id \<Rightarrow> (network \<Rightarrow> device \<Rightarrow> device option \<Rightarrow> epoch \<Rightarrow> bool)
     \<Rightarrow> string \<times> logged_adj \<times> epoch \<Rightarrow> heal_error + fate" where
  "drop_fate env store planned kad =
     (let (k, a, tm) = kad; n = la_network a; d = la_device a; peer = te_peers env n (la_neighbor a) in
      if mode_of env n = M_off then Inr Off_here
      else if planned n d peer tm then Inr Is_explained
      else case te_receipts env n d of
        Inl _ \<Rightarrow> Inl Raised
      | Inr rs \<Rightarrow>
          (if \<exists>r \<in> set rs. receipt_covers tm r then Inr Is_explained
           else let t = (\<lambda>x related. (base_trigger env Adjacency_log x tm store)
                           \<lparr>t_related := related, t_protocol := la_protocol a\<rparr>);
                    p = or_blank peer
                in Inr (Sights ((n, d, t (Id_drop k tm None) (if p = '''' then [] else [p]))
                     # (if p = '''' \<or> p = d then [] else [(n, p, t (Id_drop k tm (Some p)) [d])])))))"

definition drift_fate :: "trigger_env \<Rightarrow> network \<Rightarrow> drifted \<Rightarrow> heal_error + fate" where
  "drift_fate env n e =
     (let tm = or_num (dr_read_at e) (te_now env) in
      Inr (Sights [(n, dr_host e, (base_trigger env Drift (Id_drift (dr_host e) tm) tm ''drift-check'')
        \<lparr>t_read := Some \<lparr>r_epoch = tm, r_state = Drifted, r_departure = dr_departure e, r_changed = dr_changed e,
                        r_error = ''''\<rparr>\<rparr>)]))"


section \<open>The delivery\<close>

record counts =
  ct_sighted :: nat
  ct_mercury :: nat
  ct_off :: nat
  ct_explained :: nat
  ct_unplaced :: nat
  ct_failed :: nat
  ct_incidents :: "(action \<times> incident_id) list"

definition no_counts :: counts where
  "no_counts = \<lparr>ct_sighted = 0, ct_mercury = 0, ct_off = 0, ct_explained = 0, ct_unplaced = 0, ct_failed = 0,
                ct_incidents = []\<rparr>"

record trig_world =
  tw_file :: cursor_file
  tw_stores :: "network \<Rightarrow> store"

definition deliver_one ::
    "trigger_env \<Rightarrow> nat \<Rightarrow> network \<Rightarrow> device \<Rightarrow> trigger \<Rightarrow> store \<Rightarrow> heal_error + ((action \<times> incident_id) \<times> store)" where
  "deliver_one env k n d t st =
     bind_result (te_radius env n) (\<lambda>radius.
     bind_result (sight (te_exists env n) (te_new env k) n d t (te_now env) radius st) (\<lambda>(got, st1).
       Inr (got,
         (case t_read t of
            None \<Rightarrow> st1
          | Some r \<Rightarrow>
              (if fst got = Duplicate then st1
               else case record_read (te_exists env n) (snd got) d r (Some (iso (r_epoch r))) st1 of
                 Inl _ \<Rightarrow> st1 | Inr (_, st2) \<Rightarrow> st2)))))"

fun deliver ::
    "trigger_env \<Rightarrow> nat \<Rightarrow> (network \<times> device \<times> trigger) list \<Rightarrow> counts \<Rightarrow> (network \<Rightarrow> store)
     \<Rightarrow> counts \<times> (network \<Rightarrow> store)" where
  "deliver env k [] c st = (c, st)"
| "deliver env k ((n, d, t) # out) c st =
     (case deliver_one env k n d t (st n) of
        Inl _ \<Rightarrow> deliver env (k + 1) out (c\<lparr>ct_failed := ct_failed c + 1\<rparr>) st
      | Inr (got, st1) \<Rightarrow>
          deliver env (k + 1) out (c\<lparr>ct_sighted := ct_sighted c + 1, ct_incidents := ct_incidents c @ [got]\<rparr>)
            (st(n := st1)))"

fun collect :: "('i \<Rightarrow> heal_error + 'f) \<Rightarrow> 'i list \<Rightarrow> heal_error + 'f list" where
  "collect f [] = Inr []"
| "collect f (x # xs) = bind_result (f x) (\<lambda>y. bind_result (collect f xs) (\<lambda>ys. Inr (y # ys)))"

fun sighting :: "fate \<Rightarrow> (network \<times> device \<times> trigger) list" where
  "sighting (Sights out) = out"
| "sighting _ = []"

definition tally :: "fate list \<Rightarrow> counts" where
  "tally fs = no_counts
     \<lparr>ct_mercury := length (filter (\<lambda>f. f = By_mercury) fs), ct_off := length (filter (\<lambda>f. f = Off_here) fs),
      ct_explained := length (filter (\<lambda>f. f = Is_explained) fs), ct_unplaced := length (filter (\<lambda>f. f = Unplaced) fs)\<rparr>"

text \<open>Each item judged in order, then what they sight delivered; a judgement that raises ends the step.\<close>

definition judge_and_deliver ::
    "trigger_env \<Rightarrow> ('i \<Rightarrow> heal_error + fate) \<Rightarrow> 'i list \<Rightarrow> trig_world \<Rightarrow> (heal_error + counts) \<times> trig_world" where
  "judge_and_deliver env f new w =
     (case collect f new of
        Inl e \<Rightarrow> (Inl e, w)
      | Inr fs \<Rightarrow>
          (case deliver env 0 (concat (map sighting fs)) (tally fs) (tw_stores w) of
             (c, st) \<Rightarrow> (Inr c, w\<lparr>tw_stores := st\<rparr>)))"

section \<open>The steps\<close>

definition from_logs_tail ::
    "trigger_env \<Rightarrow> store_id \<Rightarrow> allowed \<Rightarrow> log_line list \<Rightarrow> trig_world \<Rightarrow> (heal_error + counts) \<times> trig_world" where
  "from_logs_tail env store allowed ls w =
     (let seen = cd_cursors (cursors_of (tw_file w)) store; new = newer ln_ts seen ls in
      if new = [] then (Inr no_counts, w)
      else case move_cursors (\<lambda>d. d\<lparr>cd_cursors := (cd_cursors d)(store := line_cursor ln_ts ls seen)\<rparr>) (tw_file w) of
        Inl e \<Rightarrow> (Inl e, w)
      | Inr c \<Rightarrow> judge_and_deliver env (change_fate env store allowed) new (w\<lparr>tw_file := c\<rparr>))"

text \<open>The two readers of episodes: what is firing, or down for its reads, and was not there before.\<close>

definition from_episodes ::
    "trigger_env \<Rightarrow> store_id \<Rightarrow> (string \<times> 'v \<Rightarrow> heal_error + fate) \<Rightarrow> (string \<times> 'v) list \<Rightarrow> trig_world
     \<Rightarrow> (heal_error + counts) \<times> trig_world" where
  "from_episodes env store f kvs w =
     (let new = unseen (cd_seen (cursors_of (tw_file w)) store) kvs in
      case move_cursors (\<lambda>d. d\<lparr>cd_seen := (cd_seen d)(store := seen_now kvs)\<rparr>) (tw_file w) of
        Inl e \<Rightarrow> (Inl e, w)
      | Inr c \<Rightarrow>
          (if new = [] then (Inr no_counts, w\<lparr>tw_file := c\<rparr>)
           else judge_and_deliver env f new (w\<lparr>tw_file := c\<rparr>)))"

definition from_alerts ::
    "trigger_env \<Rightarrow> store_id \<Rightarrow> allowed \<Rightarrow> alert_inst list \<Rightarrow> trig_world \<Rightarrow> (heal_error + counts) \<times> trig_world" where
  "from_alerts env store allowed is =
     from_episodes env store (alert_fate env store allowed) (map (\<lambda>a. (al_key a, a)) (filter al_condition is))"

definition from_adjacencies ::
    "trigger_env \<Rightarrow> store_id \<Rightarrow> (string \<times> adj_down) list \<Rightarrow> trig_world \<Rightarrow> (heal_error + counts) \<times> trig_world" where
  "from_adjacencies env store adjs =
     from_episodes env store (adjacency_fate env store)
       (map (\<lambda>(k, e). (k @ ''|'' @ ad_since e, e)) (filter (\<lambda>(_, e). PERSIST_READS \<le> ad_reads e) adjs))"

definition drops_of :: "(string \<times> logged_adj) list \<Rightarrow> (string \<times> logged_adj \<times> epoch) list" where
  "drops_of adjs = concat (map (\<lambda>(k, a). map (\<lambda>tm. (k, a, tm)) (la_drops a)) adjs)"

abbreviation (input) drop_at :: "string \<times> logged_adj \<times> epoch \<Rightarrow> epoch" where
  "drop_at \<equiv> \<lambda>x. snd (snd x)"

definition duplicate_episodes ::
    "store_id \<Rightarrow> (string \<times> dup_group) list \<Rightarrow> cursor_file \<Rightarrow> heal_error + (episode list \<times> cursor_file)" where
  "duplicate_episodes store dups c =
     (if dups = [] then Inr ([], c)
      else let kept = cd_duplicates (cursors_of c) store in
        bind_result (move_cursors (\<lambda>d. d\<lparr>cd_duplicates := (cd_duplicates d)(store := snd (dup_loop (dup_rows dups) kept))\<rparr>) c)
          (\<lambda>c'. Inr (fst (dup_loop (dup_rows dups) kept), c')))"

definition from_adjacency_log ::
    "trigger_env \<Rightarrow> store_id \<Rightarrow> (string \<times> logged_adj) list \<Rightarrow> (string \<times> dup_group) list \<Rightarrow> trig_world
     \<Rightarrow> (heal_error + counts) \<times> trig_world" where
  "from_adjacency_log env store adjs dups w =
     (let seen = cd_cursors (cursors_of (tw_file w)) store; ds = drops_of adjs; new = newer drop_at seen ds in
      case duplicate_episodes store dups (tw_file w) of
        Inl e \<Rightarrow> (Inl e, w)
      | Inr (episodes, c) \<Rightarrow>
          (if new = [] \<and> episodes = [] then (Inr no_counts, w\<lparr>tw_file := c\<rparr>)
           else if new = [] then judge_and_deliver env (dup_fate env store) episodes (w\<lparr>tw_file := c\<rparr>)
           else case move_cursors (\<lambda>d. d\<lparr>cd_cursors := (cd_cursors d)(store := line_cursor drop_at ds seen)\<rparr>) c of
             Inl e \<Rightarrow> (Inl e, w\<lparr>tw_file := c\<rparr>)
           | Inr c' \<Rightarrow>
               (case te_planned env of
                  Inl e \<Rightarrow> (Inl e, w\<lparr>tw_file := c'\<rparr>)
                | Inr planned \<Rightarrow>
                    judge_and_deliver env (case_sum (dup_fate env store) (drop_fate env store planned))
                      (map Inl episodes @ map Inr new) (w\<lparr>tw_file := c'\<rparr>))))"

text \<open>When each network's observed link set last changed. \<open>found\<close> is the fingerprint of each graph read.\<close>

definition link_seen_next :: "epoch \<Rightarrow> string \<Rightarrow> link_seen option \<Rightarrow> link_seen" where
  "link_seen_next now fp was =
     (case was of
        None \<Rightarrow> \<lparr>ls_fingerprint = fp, ls_first_seen = iso now, ls_changed_epoch = 0\<rparr>
      | Some x \<Rightarrow> (if ls_fingerprint x = fp then x else x\<lparr>ls_fingerprint := fp, ls_changed_epoch := now\<rparr>))"

definition from_topology ::
    "trigger_env \<Rightarrow> bool \<Rightarrow> (network \<Rightarrow> string option) \<Rightarrow> trig_world \<Rightarrow> (heal_error + counts) \<times> trig_world" where
  "from_topology env configured found w =
     (if \<not> configured then (Inr no_counts, w)
      else case move_cursors (\<lambda>d. d\<lparr>cd_link_sets := (\<lambda>n. case found n of None \<Rightarrow> cd_link_sets d n
                | Some fp \<Rightarrow> Some (link_seen_next (te_now env) fp (cd_link_sets d n)))\<rparr>) (tw_file w) of
        Inl e \<Rightarrow> (Inl e, w) | Inr c \<Rightarrow> (Inr no_counts, w\<lparr>tw_file := c\<rparr>))"

definition after_drift_record ::
    "trigger_env \<Rightarrow> network \<Rightarrow> drifted list \<Rightarrow> trig_world \<Rightarrow> (heal_error + counts) \<times> trig_world" where
  "after_drift_record env n es w =
     (if es = [] then (Inr no_counts, w)
      else if mode_of env n = M_off then (Inr (no_counts\<lparr>ct_off := length es\<rparr>), w)
      else judge_and_deliver env (drift_fate env n) es w)"


section \<open>Consumed once\<close>

locale reader =
  fixes fresh :: "'v \<Rightarrow> 's \<Rightarrow> 'i list" and consume :: "'v \<Rightarrow> 's \<Rightarrow> 's"
  assumes consumed: "fresh v (consume v s) = []"
    and again: "consume v (consume v s) = consume v s"
begin

text \<open>What a sequence of stored values gives, each consumed in turn.\<close>

fun given :: "'v list \<Rightarrow> 's \<Rightarrow> 'i list" where
  "given [] s = []"
| "given (v # vs) s = fresh v s @ given vs (consume v s)"

lemma given_again: "given (v # v # vs) s = given (v # vs) s"
  by (simp add: consumed again)

lemma given_repeated: "given (replicate (Suc n) v @ vs) s = given (v # vs) s"
proof (induction n)
  case (Suc n)
  then show ?case using given_again [of v "replicate n v @ vs"] by simp
qed simp

end

lemma newer_append:
  assumes "\<And>l. l \<in> set old \<Longrightarrow> seen = Some s \<and> ts l \<le> s"
  shows "newer ts seen (old @ ls) = newer ts seen ls"
proof -
  have "filter (\<lambda>l. case seen of None \<Rightarrow> True | Some s \<Rightarrow> s < ts l) old = []"
    using assms by (force simp: filter_empty_conv)
  then show ?thesis by (simp add: newer_def filter_sort)
qed

lemma in_newer: "l \<in> set (newer ts seen ls) \<longleftrightarrow> l \<in> set ls \<and> (case seen of None \<Rightarrow> True | Some s \<Rightarrow> s < ts l)"
  by (simp add: newer_def)

lemma newest_ge: "l \<in> set ls \<Longrightarrow> ts l \<le> newest ts ls"
  by (simp add: newest_def)

lemma newest_in: "ls \<noteq> [] \<Longrightarrow> \<exists>l \<in> set ls. newest ts ls = ts l"
  using Max_in [of "ts ` set ls"] by (auto simp: newest_def simp del: Max_in)

lemma line_cursor_covers:
  assumes "l \<in> set ls"
  shows "\<exists>s. line_cursor ts ls seen = Some s \<and> ts l \<le> s"
proof (cases "newer ts seen ls = []")
  case True
  then have "l \<notin> set (newer ts seen ls)" by simp
  then obtain s where "seen = Some s" "ts l \<le> s" using assms by (auto simp: in_newer split: option.splits)
  with True show ?thesis by (simp add: line_cursor_def)
next
  case False
  from newest_in [OF this, of ts] obtain m where m: "m \<in> set (newer ts seen ls)" "newest ts (newer ts seen ls) = ts m"
    by blast
  have "ts l \<le> newest ts (newer ts seen ls)"
  proof (cases "l \<in> set (newer ts seen ls)")
    case True then show ?thesis by (rule newest_ge)
  next
    case no: False
    with assms m show ?thesis by (fastforce simp: in_newer split: option.splits)
  qed
  with False show ?thesis by (simp add: line_cursor_def)
qed

lemma newer_covered:
  assumes "set old \<subseteq> set ls"
  shows "newer ts (line_cursor ts ls seen) (old @ later) = newer ts (line_cursor ts ls seen) later"
proof (cases old)
  case (Cons l old')
  with assms line_cursor_covers [of l ls ts seen] obtain s where s: "line_cursor ts ls seen = Some s" by auto
  show ?thesis
    by (rule newer_append [where s = s]) (use assms s line_cursor_covers [of _ ls ts seen] in auto)
qed simp

interpretation log_lines: reader "\<lambda>ls seen. newer ts seen ls" "line_cursor ts" for ts
proof
  fix ls seen
  show n: "newer ts (line_cursor ts ls seen) ls = []"
    using newer_covered [of ls ls ts seen "[]"] by (simp add: newer_def)
  then show "line_cursor ts ls (line_cursor ts ls seen) = line_cursor ts ls seen"
    by (subst line_cursor_def) simp
qed

lemma keys_update: "fst ` set (AList.update k v kvs) = insert k (fst ` set kvs)"
  by (induction kvs) auto

lemma keys_as_dict: "fst ` set (as_dict kvs) = fst ` set kvs"
proof -
  have "fst ` set (fold (\<lambda>(k, v). AList.update k v) kvs acc) = fst ` set acc \<union> fst ` set kvs" for acc
    by (induction kvs arbitrary: acc) (simp_all add: keys_update split_beta Un_commute insert_commute)
  then show ?thesis by (simp add: as_dict_def)
qed

interpretation episodes: reader "\<lambda>kvs seen. unseen seen kvs" "\<lambda>kvs _. seen_now kvs"
  by unfold_locales (auto simp: unseen_def seen_now_def filter_empty_conv rev_image_eqI)

text \<open>The rows a loop went over are covered by what it keeps, and covered rows are passed over.\<close>

definition covered :: "(string \<Rightarrow> (epoch \<times> epoch) option) \<Rightarrow> string \<Rightarrow> epoch \<Rightarrow> bool" where
  "covered kept x t \<longleftrightarrow> (\<exists>lst ep. kept x = Some (lst, ep) \<and> t \<le> lst)"

lemma covered_iff: "covered kept x t \<longleftrightarrow> (case kept x of None \<Rightarrow> False | Some (lst, _) \<Rightarrow> t \<le> lst)"
  by (auto simp: covered_def split: option.splits)

definition keep_row :: "string \<Rightarrow> dup_report \<Rightarrow> (string \<Rightarrow> (epoch \<times> epoch) option) \<Rightarrow> string \<Rightarrow> (epoch \<times> epoch) option" where
  "keep_row x r kept =
     (if covered kept x (dp_last r) then kept else kept(x \<mapsto> (dp_last r, episode_start r (kept x))))"

lemma snd_dup_loop: "snd (dup_loop ((k, g, d, r) # rows) kept) = snd (dup_loop rows (keep_row (k @ ''|'' @ d) r kept))"
  unfolding dup_loop.simps Let_def keep_row_def covered_iff [symmetric] split_beta by (simp only: if_distrib snd_conv split: if_split) simp

lemma keep_row_covers: "covered (keep_row x r kept) x (dp_last r)"
  by (simp add: keep_row_def) (simp add: covered_def)

lemma keep_row_keeps: "covered kept y t \<Longrightarrow> covered (keep_row x r kept) y t"
  by (auto simp: keep_row_def covered_def)

lemma dup_loop_keeps: "covered kept x t \<Longrightarrow> covered (snd (dup_loop rows kept)) x t"
proof (induction rows arbitrary: kept)
  case (Cons row rows)
  obtain k g d r where row: "row = (k, g, d, r)" by (cases row)
  show ?case unfolding row snd_dup_loop by (intro Cons.IH keep_row_keeps Cons.prems)
qed simp

lemma dup_loop_covers: "(k, g, d, r) \<in> set rows \<Longrightarrow> covered (snd (dup_loop rows kept)) (k @ ''|'' @ d) (dp_last r)"
proof (induction rows arbitrary: kept)
  case (Cons row rows)
  obtain k' g' d' r' where row: "row = (k', g', d', r')" by (cases row)
  show ?case
  proof (cases "(k, g, d, r) = row")
    case True
    then show ?thesis unfolding row snd_dup_loop by (auto intro!: dup_loop_keeps keep_row_covers)
  next
    case False
    with Cons.prems have "(k, g, d, r) \<in> set rows" by simp
    then show ?thesis unfolding row snd_dup_loop by (rule Cons.IH)
  qed
qed simp

lemma dup_loop_passes:
  "(\<And>k g d r. (k, g, d, r) \<in> set rows \<Longrightarrow> covered kept (k @ ''|'' @ d) (dp_last r)) \<Longrightarrow> dup_loop rows kept = ([], kept)"
proof (induction rows)
  case (Cons row rows)
  obtain k g d r where row: "row = (k, g, d, r)" by (cases row)
  have "covered kept (k @ ''|'' @ d) (dp_last r)" using Cons.prems [of k g d r] by (simp add: row)
  moreover have "dup_loop rows kept = ([], kept)" 
  proof (rule Cons.IH)
    fix k g d r assume "(k, g, d, r) \<in> set rows"
    then show "covered kept (k @ ''|'' @ d) (dp_last r)" using Cons.prems [of k g d r] by simp
  qed
  ultimately show ?case unfolding row dup_loop.simps Let_def covered_iff by simp
qed simp

lemma dup_loop_again: "dup_loop rows (snd (dup_loop rows kept)) = ([], snd (dup_loop rows kept))"
  by (rule dup_loop_passes) (rule dup_loop_covers)

interpretation duplicates: reader "\<lambda>rows kept. fst (dup_loop rows kept)" "\<lambda>rows kept. snd (dup_loop rows kept)"
  by unfold_locales (simp_all add: dup_loop_again)


section \<open>What a step leaves\<close>

lemma judge_and_deliver_file [simp]: "tw_file (snd (judge_and_deliver env f new w)) = tw_file w"
  by (simp add: judge_and_deliver_def split: sum.split prod.split)

lemma move_cursors_readable: "c \<noteq> Bad_cursors \<Longrightarrow> move_cursors f c = Inr (Cursors (f (cursors_of c)))"
  by (simp add: move_cursors_def)

lemma logs_tail_cursor:
  assumes "tw_file w \<noteq> Bad_cursors"
  shows "cd_cursors (cursors_of (tw_file (snd (from_logs_tail env s al ls w)))) s
       = line_cursor ln_ts ls (cd_cursors (cursors_of (tw_file w)) s)"
    and "tw_file (snd (from_logs_tail env s al ls w)) \<noteq> Bad_cursors"
  using assms by (simp_all add: from_logs_tail_def Let_def move_cursors_readable line_cursor_def)

lemma from_logs_tail_newer:
  assumes "newer ln_ts (cd_cursors (cursors_of (tw_file w)) s) ls = newer ln_ts (cd_cursors (cursors_of (tw_file w)) s) ls'"
  shows "from_logs_tail env s al ls w = from_logs_tail env s al ls' w"
  unfolding from_logs_tail_def line_cursor_def Let_def assms ..

lemma deliver_counts:
  "ct_sighted (fst (deliver env k out c st)) + ct_failed (fst (deliver env k out c st))
   = ct_sighted c + ct_failed c + length out"
proof (induction out arbitrary: k c st)
  case (Cons x out)
  obtain n d t where x: "x = (n, d, t)" by (cases x)
  show ?case by (cases "deliver_one env k n d t (st n)") (simp_all add: x Cons.IH split_beta)
qed simp

lemma deliver_elsewhere: "n \<notin> fst ` set out \<Longrightarrow> snd (deliver env k out c st) n = st n"
proof (induction out arbitrary: k c st)
  case (Cons x out)
  obtain m d t where x: "x = (m, d, t)" by (cases x)
  with Cons.prems Cons.IH show ?case
    by (cases "deliver_one env k m d t (st m)") (simp_all add: split_beta)
qed simp

lemma collect_Inr: "(\<And>x. x \<in> set xs \<Longrightarrow> f x = Inr (g x)) \<Longrightarrow> collect f xs = Inr (map g xs)"
  by (induction xs) simp_all

lemma collect_InrD: "collect f xs = Inr fs \<Longrightarrow> y \<in> set fs \<Longrightarrow> \<exists>x \<in> set xs. f x = Inr y"
  by (induction xs arbitrary: fs) (auto simp: bind_result_eq_Inr_iff)

lemma collect_Inl:
  assumes "x \<in> set xs" "f x = Inl e" "\<And>y e'. f y = Inl e' \<Longrightarrow> e' = e"
  shows "collect f xs = Inl e"
  using assms(1)
proof (induction xs)
  case (Cons y xs)
  show ?case
  proof (cases "f y")
    case (Inl e')
    with assms(3) [OF Inl] show ?thesis by simp
  next
    case (Inr z)
    with Cons assms(2) show ?thesis by auto
  qed
qed simp

section \<open>Only where healing is on\<close>

definition fates_on :: "trigger_env \<Rightarrow> ('i \<Rightarrow> heal_error + fate) \<Rightarrow> 'i list \<Rightarrow> bool" where
  "fates_on env f xs \<longleftrightarrow>
     (\<forall>x \<in> set xs. \<forall>out. f x = Inr (Sights out) \<longrightarrow> (\<forall>s \<in> set out. mode_of env (fst s) \<noteq> M_off))"

lemma fates_on_stores:
  assumes "fates_on env f xs" "mode_of env n = M_off"
  shows "tw_stores (snd (judge_and_deliver env f xs w)) n = tw_stores w n"
proof (cases "collect f xs")
  case (Inr fs)
  have "n \<notin> fst ` set (concat (map sighting fs))"
  proof
    assume "n \<in> fst ` set (concat (map sighting fs))"
    then obtain y s where y: "y \<in> set fs" "s \<in> set (sighting y)" "fst s = n" by auto
    from y(2) obtain out where "y = Sights out" by (cases y) simp_all
    with y collect_InrD [OF Inr y(1)] assms show False by (auto simp: fates_on_def)
  qed
  from deliver_elsewhere [OF this] Inr show ?thesis by (simp add: judge_and_deliver_def split_beta)
qed (simp add: judge_and_deliver_def)

lemma change_fate_SightsD:
  assumes "change_fate env s al l = Inr (Sights out)"
  shows "\<exists>n by. one_network env (ln_dev l) al = Inr (Some n) \<and> mode_of env n \<noteq> M_off
    \<and> out = [(n, ln_dev l, change_trigger env s l by)]"
proof -
  from assms obtain n where n: "one_network env (ln_dev l) al = Inr (Some n)"
    by (auto simp: change_fate_def bind_result_eq_Inr_iff split: option.splits if_split_asm)
  with assms show ?thesis by (auto simp: change_fate_def Let_def split: if_split_asm)
qed

lemma change_fates_on: "fates_on env (change_fate env s al) xs"
  by (auto simp: fates_on_def dest!: change_fate_SightsD)

lemma alert_fate_SightsD:
  assumes "alert_fate env s al x = Inr (Sights out)"
  shows "\<exists>d n far. mode_of env n \<noteq> M_off \<and> out = alert_triggers env s (fst x) (snd x) d n far"
proof -
  from assms obtain d where d: "alert_device env (snd x) = Inr (Some d)"
    by (auto simp: alert_fate_def split_beta bind_result_eq_Inr_iff split: option.splits)
  with assms obtain n where n: "one_network env d al = Inr (Some n)"
    by (auto simp: alert_fate_def split_beta bind_result_eq_Inr_iff split: option.splits)
  with assms d show ?thesis
    by (auto simp: alert_fate_def split_beta bind_result_eq_Inr_iff split: if_split_asm)
qed

lemma alert_fates_on: "fates_on env (alert_fate env s al) xs"
  by (auto simp: fates_on_def alert_triggers_def Let_def dest!: alert_fate_SightsD)

lemma adjacency_fates_on: "fates_on env (adjacency_fate env s) xs"
  by (auto simp: fates_on_def adjacency_fate_def Let_def split: if_splits)

lemma dup_fates_on: "fates_on env (dup_fate env s) xs"
  by (auto simp: fates_on_def dup_fate_def Let_def split: if_splits)

lemma drop_fates_on: "fates_on env (drop_fate env s planned) xs"
  by (auto simp: fates_on_def drop_fate_def Let_def split: if_splits sum.splits)

lemma fates_on_sum: "fates_on env f xs \<Longrightarrow> fates_on env g ys \<Longrightarrow> fates_on env (case_sum f g) (map Inl xs @ map Inr ys)"
  unfolding fates_on_def by (simp add: ball_Un)

inductive trigger_step :: "trigger_env \<Rightarrow> trig_world \<Rightarrow> trig_world \<Rightarrow> bool" for env where
  step_logs_tail: "trigger_step env w (snd (from_logs_tail env s al ls w))"
| step_alerts: "trigger_step env w (snd (from_alerts env s al is w))"
| step_adjacencies: "trigger_step env w (snd (from_adjacencies env s adjs w))"
| step_adjacency_log: "trigger_step env w (snd (from_adjacency_log env s logged dups w))"
| step_topology: "trigger_step env w (snd (from_topology env configured found w))"
| step_drift: "trigger_step env w (snd (after_drift_record env n es w))"

lemma from_episodes_off:
  assumes "\<And>xs. fates_on env f xs" "mode_of env n = M_off"
  shows "tw_stores (snd (from_episodes env s f kvs w)) n = tw_stores w n"
  using fates_on_stores [OF assms] by (simp add: from_episodes_def Let_def split: sum.split)

lemma from_logs_tail_off:
  "mode_of env n = M_off \<Longrightarrow> tw_stores (snd (from_logs_tail env s al ls w)) n = tw_stores w n"
  using fates_on_stores [OF change_fates_on] by (simp add: from_logs_tail_def Let_def split: sum.split)

lemma from_adjacency_log_off:
  "mode_of env n = M_off \<Longrightarrow> tw_stores (snd (from_adjacency_log env s logged dups w)) n = tw_stores w n"
  using fates_on_stores [OF dup_fates_on, of env n] fates_on_stores [OF fates_on_sum [OF dup_fates_on drop_fates_on], of env n]
  by (simp add: from_adjacency_log_def Let_def split: sum.split prod.split)

lemma after_drift_off:
  assumes "mode_of env n = M_off"
  shows "tw_stores (snd (after_drift_record env m es w)) n = tw_stores w n"
proof (cases "mode_of env m = M_off")
  case False
  then have "fates_on env (drift_fate env m) es" by (auto simp: fates_on_def drift_fate_def Let_def)
  from fates_on_stores [OF this assms] False show ?thesis by (simp add: after_drift_record_def)
qed (simp add: after_drift_record_def)

text \<open>No step sights anything where healing is off. Whatever a reader stored and whatever its step
  came to, a network whose mode is off, or cannot be read, has its incidents left exactly as they
  were.\<close>

lemma off_network_sights_nothing:
  assumes "trigger_step env w w'" and "mode_of env n = M_off"
  shows "tw_stores w' n = tw_stores w n"
  using assms
proof (induction rule: trigger_step.induct)
  case (step_topology w configured found)
  show ?case by (simp add: from_topology_def split: sum.split)
qed (simp_all add: from_logs_tail_off from_adjacency_log_off after_drift_off from_alerts_def from_adjacencies_def
    from_episodes_off alert_fates_on adjacency_fates_on)

text \<open>C32: a configuration-change line is taken once. After a step took a store's lines, a later value that
  holds any of them again, with whatever is logged since, does exactly what the later lines alone
  do, and so the same value stored again does nothing.\<close>

theorem lines_taken_once:
  fixes env s al
  assumes "tw_file w \<noteq> Bad_cursors" and "set old \<subseteq> set ls"
  defines "w1 \<equiv> snd (from_logs_tail env s al ls w)"
  shows "from_logs_tail env' s al' (old @ later) w1 = from_logs_tail env' s al' later w1
    \<and> from_logs_tail env' s al' ls w1 = (Inr no_counts, w1)"
proof -
  note c = logs_tail_cursor(1) [OF assms(1), of env s al ls, folded w1_def]
  have "newer ln_ts (cd_cursors (cursors_of (tw_file w1)) s) ls = []"
    unfolding c by (rule log_lines.consumed)
  with newer_covered [OF assms(2), of ln_ts "cd_cursors (cursors_of (tw_file w)) s" later] show ?thesis
    by (auto simp: from_logs_tail_def [where ls = ls] Let_def c intro!: from_logs_tail_newer)
qed


section \<open>What the change lines sight\<close>

text \<open>The network a line is a change from outside Mercury on: it names a configuration change, exactly one
  network that the store serves holds its device, healing is on there, and no hold, receipt or
  rotation of Mercury's explains it.\<close>

definition outside_change :: "trigger_env \<Rightarrow> allowed \<Rightarrow> log_line \<Rightarrow> network option" where
  "outside_change env al l =
     (if \<not> te_is_change env (ln_mn l) (ln_text l) then None
      else case one_network env (ln_dev l) al of
        Inr (Some n) \<Rightarrow>
          (if mode_of env n \<noteq> M_off
              \<and> \<not> explained (te_holder env n (ln_dev l)) (te_receipts env n (ln_dev l)) (te_rotation env n (ln_dev l)) (ln_ts l)
           then Some n else None)
      | _ \<Rightarrow> None)"

definition change_sight :: "trigger_env \<Rightarrow> store_id \<Rightarrow> allowed \<Rightarrow> log_line \<Rightarrow> network \<times> device \<times> trigger" where
  "change_sight env s al l =
     (let n = the (outside_change env al l); d = ln_dev l
      in (n, d, change_trigger env s l
            (fst (attribute (te_holder env n d) (te_receipts env n d) (te_rotation env n d) (ln_ts l)))))"

definition change_judged :: "trigger_env \<Rightarrow> store_id \<Rightarrow> allowed \<Rightarrow> log_line \<Rightarrow> fate" where
  "change_judged env s al l = (case change_fate env s al l of Inl _ \<Rightarrow> No_trigger | Inr x \<Rightarrow> x)"

lemma change_judged_sights:
  "sighting (change_judged env s al l) = (if outside_change env al l = None then [] else [change_sight env s al l])"
  by (auto simp: change_judged_def change_fate_def outside_change_def change_sight_def Let_def attribute_cases
      split: sum.split option.split)

lemma networks_read: "te_networks env \<noteq> None \<Longrightarrow> \<exists>x. one_network env d al = Inr x"
  by (auto simp: one_network_def networks_of_def)

lemma change_fate_Inr:
  assumes "te_networks env \<noteq> None"
  shows "change_fate env s al l = Inr (change_judged env s al l)"
  using networks_read [OF assms, of "ln_dev l" al]
  by (auto simp: change_judged_def change_fate_def Let_def split: option.split)

lemma concat_map_if: "concat (map (\<lambda>x. if P x then [] else [f x]) xs) = map f (filter (\<lambda>x. \<not> P x) xs)"
  by (induction xs) simp_all

text \<open>C21: the log's changes are sighted exactly. Where the inventories and the cursors can be read, the step
  answers, and what it delivers is, in the order they were received, one trigger for each new line
  that is a change from outside Mercury on a network where healing is on, and nothing else; each
  was sighted or is counted as failed.\<close>

theorem outside_changes_sighted:
  assumes "te_networks env \<noteq> None" and "tw_file w \<noteq> Bad_cursors"
    and "from_logs_tail env s al ls w = (r, w')"
  defines "outs \<equiv> filter (\<lambda>l. outside_change env al l \<noteq> None) (newer ln_ts (cd_cursors (cursors_of (tw_file w)) s) ls)"
  shows "\<exists>c c0. r = Inr c \<and> ct_sighted c + ct_failed c = length outs
    \<and> deliver env 0 (map (change_sight env s al) outs) c0 (tw_stores w) = (c, tw_stores w')"
proof -
  let ?new = "newer ln_ts (cd_cursors (cursors_of (tw_file w)) s) ls"
  let ?fs = "map (change_judged env s al) ?new"
  let ?c = "fst (deliver env 0 (map (change_sight env s al) outs) (tally ?fs) (tw_stores w))"
  have fs: "collect (change_fate env s al) ?new = Inr ?fs"
    by (rule collect_Inr) (rule change_fate_Inr [OF assms(1)])
  have out: "concat (map sighting ?fs) = map (change_sight env s al) outs"
    by (simp add: comp_def change_judged_sights concat_map_if outs_def)
  have "ct_sighted ?c + ct_failed ?c = length outs"
    by (simp add: deliver_counts tally_def no_counts_def)
  moreover have "r = Inr ?c \<and> deliver env 0 (map (change_sight env s al) outs) (tally ?fs) (tw_stores w) = (?c, tw_stores w')"
  proof (cases "?new = []")
    case True
    with assms(3) show ?thesis by (simp add: from_logs_tail_def outs_def tally_def no_counts_def)
  next
    case False
    with assms(2,3) fs out show ?thesis
      by (auto simp: from_logs_tail_def move_cursors_readable judge_and_deliver_def Let_def split: prod.splits)
  qed
  ultimately show ?thesis by blast
qed

text \<open>C33: a step that raises has consumed its lines. When a change line is new and the inventories cannot be
  read, the step ends with nothing sighted and the cursor past the line: a later step on the same
  lines, with everything readable, sights nothing, so the change is never looked at.\<close>

theorem raised_step_loses_its_lines:
  fixes env s al
  assumes "te_networks env = None" and "tw_file w \<noteq> Bad_cursors"
    and "l \<in> set (newer ln_ts (cd_cursors (cursors_of (tw_file w)) s) ls)" and "te_is_change env (ln_mn l) (ln_text l)"
  defines "w1 \<equiv> snd (from_logs_tail env s al ls w)"
  shows "fst (from_logs_tail env s al ls w) = Inl Raised \<and> tw_stores w1 = tw_stores w
    \<and> from_logs_tail env' s al' ls w1 = (Inr no_counts, w1)"
proof -
  let ?new = "newer ln_ts (cd_cursors (cursors_of (tw_file w)) s) ls"
  have l: "change_fate env s al l = Inl Raised" using assms(1,4) by (simp add: change_fate_def one_network_def networks_of_def)
  have u: "\<And>y e'. change_fate env s al y = Inl e' \<Longrightarrow> e' = Raised"
    using assms(1) by (auto simp: change_fate_def one_network_def networks_of_def split: if_split_asm)
  have c: "collect (change_fate env s al) ?new = Inl Raised" by (rule collect_Inl [where f = "change_fate env s al" and x = l]) (use assms(3) l u in auto)
  have "?new \<noteq> []" using assms(3) by auto
  with c assms(2) have "fst (from_logs_tail env s al ls w) = Inl Raised \<and> tw_stores w1 = tw_stores w"
    by (simp add: w1_def from_logs_tail_def move_cursors_readable judge_and_deliver_def Let_def)
  moreover have "newer ln_ts (cd_cursors (cursors_of (tw_file w1)) s) ls = []"
    unfolding w1_def logs_tail_cursor(1) [OF assms(2)] by (rule log_lines.consumed)
  then have "from_logs_tail env' s al' ls w1 = (Inr no_counts, w1)" by (simp add: from_logs_tail_def)
  ultimately show ?thesis by blast
qed

section \<open>The stores the triggers reach\<close>

lemma mutate_InrD:
  assumes "mutate ex fn st = Inr (out, st')"
  shows "ex \<and> (\<exists>doc1. fn (held st) = Inr (out, doc1) \<and> st' = Stored (prune doc1))"
  using assms by (cases st) (auto simp: mutate_def bind_result_eq_Inr_iff split: if_splits)

lemma sight_reached:
  assumes "sight ex nid n d t now radius st = Inr (got, st')" "reached (held st)" "nid \<notin> set (map i_id (held st))"
  shows "reached (held st')" "set (map i_id (held st')) \<subseteq> insert nid (set (map i_id (held st)))"
proof -
  from assms(1) have ex: "ex" by (auto simp: sight_def dest: mutate_InrD split: if_split_asm)
  from assms(1) have st': "st' = Stored (prune (snd (sight_doc nid n d t now radius (held st))))"
    by (auto simp: sight_def dest!: mutate_InrD split: if_split_asm)
  have "sight True nid n d t now radius (Stored (held st)) = Inr (got, Stored (held st'))"
    using assms(1) ex st' by (auto simp: sight_def mutate_def split: if_split_asm store.splits)
  from step_sight [OF this] assms(3) reached_step [OF assms(2)] show "reached (held st')" by simp
  have "set (map i_id (snd (sight_doc nid n d t now radius (held st)))) \<subseteq> insert nid (set (map i_id (held st)))"
    by (rule disjE [OF sight_ids [of nid n d t now radius "held st"]]) (simp_all only: set_append list.set, blast+)
  moreover have "set (held st') \<subseteq> set (snd (sight_doc nid n d t now radius (held st)))"
    using set_prune_subset by (simp add: st')
  ultimately show "set (map i_id (held st')) \<subseteq> insert nid (set (map i_id (held st)))" by auto
qed

lemma record_read_reached:
  assumes "record_read ex x d r rat st = Inr (inc, st')" "reached (held st)"
  shows "reached (held st')" "set (map i_id (held st')) \<subseteq> set (map i_id (held st))"
proof -
  from mutate_InrD [OF assms(1) [unfolded record_read_def]] obtain doc1 where
    d: "ex" "on_incident x ((\<lambda>(d, r, rat) inc. record_read_inc d r rat inc) (d, r, rat)) (held st) = Inr (inc, doc1)"
      "st' = Stored (prune doc1)" by auto
  then have "record_read True x d r rat (Stored (held st)) = Inr (inc, Stored (held st'))"
    by (simp add: record_read_def mutate_def)
  from reached_step [OF assms(2) step_record_read [OF this]] show "reached (held st')" .
  from d(2) obtain k where k: "k < length (held st)" "doc1 = (held st)[k := inc]" "i_id inc = i_id (held st ! k)"
    by (rule reading.on_incidentE) (use reading.keeps_identity in \<open>auto\<close>)
  then have "map i_id doc1 = map i_id (held st)" by (simp add: map_update list_update_same_conv)
  then have "set (map i_id doc1) = set (map i_id (held st))" by (rule arg_cong)
  with d(3) set_prune_subset [of doc1] show "set (map i_id (held st')) \<subseteq> set (map i_id (held st))" by auto
qed

lemma deliver_one_reached:
  assumes "deliver_one env k n d t st = Inr (got, st')" "reached (held st)" "te_new env k \<notin> set (map i_id (held st))"
  shows "reached (held st') \<and> set (map i_id (held st')) \<subseteq> insert (te_new env k) (set (map i_id (held st)))"
proof -
  from assms(1) obtain radius st1 where s: "sight (te_exists env n) (te_new env k) n d t (te_now env) radius st = Inr (got, st1)"
    and r: "st' = (case t_read t of
            None \<Rightarrow> st1
          | Some r \<Rightarrow>
              (if fst got = Duplicate then st1
               else case record_read (te_exists env n) (snd got) d r (Some (iso (r_epoch r))) st1 of
                 Inl _ \<Rightarrow> st1 | Inr (_, st2) \<Rightarrow> st2))"
    by (auto simp: deliver_one_def bind_result_eq_Inr_iff)
  from r have st': "st' = st1 \<or> (\<exists>r inc. record_read (te_exists env n) (snd got) d r (Some (iso (r_epoch r))) st1 = Inr (inc, st'))"
    by (auto split: option.splits sum.splits if_split_asm)
  note s' = sight_reached [OF s assms(2,3)]
  from st' show ?thesis
  proof
    assume "\<exists>r inc. record_read (te_exists env n) (snd got) d r (Some (iso (r_epoch r))) st1 = Inr (inc, st')"
    then show ?thesis using record_read_reached [OF _ s'(1)] s'(2) by blast
  qed (use s' in auto)
qed

text \<open>The ids of new incidents are new: \<open>uuid4\<close>.\<close>

definition new_ids :: "trigger_env \<Rightarrow> nat \<Rightarrow> (network \<Rightarrow> store) \<Rightarrow> bool" where
  "new_ids env k st \<longleftrightarrow> (\<forall>n. \<forall>j \<ge> k. te_new env j \<notin> set (map i_id (held (st n))))"

lemma deliver_reached:
  assumes "inj (te_new env)" "new_ids env k st" "\<And>n. reached (held (st n))"
  shows "reached (held (snd (deliver env k out c st) n))"
  using assms(2,3)
proof (induction out arbitrary: k c st)
  case (Cons x out)
  obtain m d t where x: "x = (m, d, t)" by (cases x)
  have up: "new_ids env (Suc k) st" using Cons.prems(1) by (auto simp: new_ids_def)
  show ?case
  proof (cases "deliver_one env k m d t (st m)")
    case (Inl e)
    with Cons.IH [OF up Cons.prems(2)] show ?thesis by (simp add: x)
  next
    case (Inr y)
    obtain got st1 where y: "y = (got, st1)" by (cases y)
    from Cons.prems have "te_new env k \<notin> set (map i_id (held (st m)))" by (auto simp: new_ids_def)
    from deliver_one_reached [OF Inr [unfolded y] Cons.prems(2) this]
    have s1: "reached (held st1)" "set (map i_id (held st1)) \<subseteq> insert (te_new env k) (set (map i_id (held (st m))))"
      by simp_all
    have "te_new env j \<notin> set (map i_id (held ((st(m := st1)) n)))" if "Suc k \<le> j" for n j
    proof -
      from that assms(1) have "te_new env j \<noteq> te_new env k" by (auto simp: inj_eq)
      with up that s1(2) show ?thesis by (cases "n = m") (auto simp: new_ids_def simp del: set_map)
    qed
    then have "new_ids env (Suc k) (st(m := st1))" unfolding new_ids_def by blast
    moreover have "reached (held ((st(m := st1)) n))" for n using s1(1) Cons.prems(2) by simp
    ultimately have "reached (held (snd (deliver env (Suc k) out c' (st(m := st1))) n))" for c' by (rule Cons.IH)
    with Inr show ?thesis by (simp add: x y del: fun_upd_apply)
  qed
qed simp


lemma judge_and_deliver_reached:
  assumes "inj (te_new env)" "new_ids env 0 (tw_stores w)" "\<And>n. reached (held (tw_stores w n))"
  shows "reached (held (tw_stores (snd (judge_and_deliver env f xs w)) n))"
  using deliver_reached [OF assms] assms(3) by (simp add: judge_and_deliver_def split_beta split: sum.split)

text \<open>Whatever the readers store, and in whatever order their steps run, every network's incidents stay a
  store that the operations of the incidents reach: no device is in two open incidents, the ids are
  unique, and at most the kept number are closed.\<close>

lemma triggers_reach_good_stores:
  assumes "trigger_step env w w'" and "inj (te_new env)" and "new_ids env 0 (tw_stores w)"
    and "\<And>n. reached (held (tw_stores w n))"
  shows "reached (held (tw_stores w' n)) \<and> distinct (open_places (held (tw_stores w' n)))
    \<and> distinct (map i_id (held (tw_stores w' n)))"
proof -
  note j = judge_and_deliver_reached [where w = "w\<lparr>tw_file := c\<rparr>" for c, simplified, OF assms(2-4)]
  have "reached (held (tw_stores w' n))"
    using assms(1)
  proof (cases rule: trigger_step.cases)
    case (step_logs_tail s al ls)
    then show ?thesis by (simp add: j assms(4) from_logs_tail_def Let_def split: sum.split)
  next
    case (step_alerts s al "is")
    then show ?thesis by (simp add: j assms(4) from_alerts_def from_episodes_def Let_def split: sum.split)
  next
    case (step_adjacencies s adjs)
    then show ?thesis by (simp add: j assms(4) from_adjacencies_def from_episodes_def Let_def split: sum.split)
  next
    case (step_adjacency_log s logged dups)
    then show ?thesis by (simp add: j assms(4) from_adjacency_log_def Let_def split: sum.split prod.split)
  next
    case (step_topology configured found)
    then show ?thesis using assms(4) by (simp add: from_topology_def split: sum.split)
  next
    case (step_drift n es)
    then show ?thesis
      by (simp add: judge_and_deliver_reached [OF assms(2-4)] assms(4) after_drift_record_def)
  qed
  with reached_inv [OF this] show ?thesis
    by (auto simp: store_inv_def doc_inv_def ids_ok_def one_place_def)
qed


section \<open>Witnesses\<close>

definition ex_dry :: policy_now where
  "ex_dry = \<lparr>m_mode = M_dry_run, m_readable = True, m_expired = False, m_suspended = False, m_stopped = False,
             m_auto = [], m_propose = [], m_guards = None, m_fingerprint = ''f'', m_confirmed = None\<rparr>"

text \<open>Two networks hold a device each; healing is on in one, and the other's policy cannot be read.\<close>

definition ex_te :: trigger_env where
  "ex_te = \<lparr>te_now = 200, te_networks = Some (\<lambda>d. if d = ''r1'' then [''lab''] else [''prod'']),
     te_addresses = None, te_mode = (\<lambda>n. if n = ''lab'' then Inr ex_dry else Inl Raised),
     te_intents = (\<lambda>_. Inr []), te_peers = (\<lambda>_ _. None), te_radius = (\<lambda>_. Inr None), te_exists = (\<lambda>_. True),
     te_new = (\<lambda>k. replicate k CHR ''i''), te_key = (\<lambda>_. ''key''), te_time = (\<lambda>_. 0),
     te_is_change = (\<lambda>mn _. mn = ''CONFIG_I''), te_person = (\<lambda>_ _. ''''), te_holder = (\<lambda>_ _. Inr None),
     te_receipts = (\<lambda>_ _. Inr []), te_rotation = (\<lambda>_ _. Inr None), te_planned = Inr (\<lambda>_ _ _ _. False)\<rparr>"

definition ex_line :: "device \<Rightarrow> log_line" where
  "ex_line d = \<lparr>ln_ts = 100, ln_dev = d, ln_mn = ''CONFIG_I'', ln_text = ''from console''\<rparr>"

definition ex_tw :: trig_world where "ex_tw = \<lparr>tw_file = No_cursors, tw_stores = (\<lambda>_. Absent)\<rparr>"

abbreviation (input) ex_logged :: "trigger_env \<Rightarrow> device \<Rightarrow> (heal_error + counts) \<times> trig_world" where
  "ex_logged env d \<equiv> from_logs_tail env ''logs'' None [ex_line d] ex_tw"

lemma ex_tw_simps [simp]: "tw_file ex_tw = No_cursors" "tw_stores ex_tw n = Absent" "cd_cursors empty_doc s = None"
  by (simp_all add: ex_tw_def empty_doc_def)

lemma ex_newer: "newer ln_ts None [ex_line d] = [ex_line d]" by (simp add: newer_def)

theorem lines_taken_once_witness:
  "from_logs_tail ex_te ''logs'' None [ex_line ''r1''] (snd (ex_logged ex_te ''r1'')) = (Inr no_counts, snd (ex_logged ex_te ''r1''))"
  using lines_taken_once [where w = ex_tw and old = "[]" and ls = "[ex_line ''r1'']" and env = ex_te and s = "''logs''"
      and al = None and env' = ex_te and al' = None] by simp

theorem outside_changes_sighted_witness: "\<exists>c. fst (ex_logged ex_te ''r1'') = Inr c \<and> ct_sighted c + ct_failed c = 1"
proof -
  have "outside_change ex_te None (ex_line ''r1'') = Some ''lab''"
    by (simp add: outside_change_def one_network_def networks_of_def ex_te_def ex_line_def mode_of_def ex_dry_def
        explained_def)
  moreover obtain r w' where "ex_logged ex_te ''r1'' = (r, w')" by fastforce
  ultimately show ?thesis
    using outside_changes_sighted [of ex_te ex_tw "''logs''" None "[ex_line ''r1'']" r w'] by (auto simp: ex_newer ex_te_def)
qed

theorem raised_step_loses_its_lines_witness:
  "fst (ex_logged (ex_te\<lparr>te_networks := None\<rparr>) ''r1'') = Inl Raised
   \<and> fst (from_logs_tail ex_te ''logs'' None [ex_line ''r1''] (snd (ex_logged (ex_te\<lparr>te_networks := None\<rparr>) ''r1'')))
     = Inr no_counts"
  using raised_step_loses_its_lines [where env = "ex_te\<lparr>te_networks := None\<rparr>" and w = ex_tw and l = "ex_line ''r1''"
      and s = "''logs''" and ls = "[ex_line ''r1'']" and al = None and env' = ex_te and al' = None]
  by (simp add: ex_newer) (simp add: ex_te_def ex_line_def)

end
