(* ===== verification/Flaps.thy ===== *)
theory Flaps
  imports Triggers
begin

text \<open>
  Flap detection (\<open>modules/heal/flaps.py\<close>): the record of each interface's logged transitions, kept by a
  step on the reader of every device's syslog, and its reads for guard 13e and the stability window.

  The record is one file: absent, unreadable, or the stores' cursors and, for each network's id, device
  and lower-cased interface name, its entry. (In the file the entries are nested; an empty level is
  deleted at every write, so the levels carry nothing else.) Where a line's device is, and whether
  healing is on there, are answered as the triggers' are (\<open>Triggers\<close>). A text is ASCII.

  The lemmas: every entry is well formed, its transitions alternating, in order, bounded in number and
  age; what any steps record of an interface, from whatever was kept, is its states with their repetitions
  removed, so a link and its line protocol going down are one transition, and a flap is a count of them.
\<close>

section \<open>A transition\<close>

datatype link_state = Link_up | Link_down

definition MNEMONICS :: "string list" where "MNEMONICS = [''%LINK-3-UPDOWN'', ''%LINEPROTO-5-UPDOWN'']"

definition after_prefix :: "string \<Rightarrow> string \<Rightarrow> string option" where
  "after_prefix p s = (if starts p s then Some (drop (length p) s) else None)"

definition is_letter :: "char \<Rightarrow> bool" where
  "is_letter c \<longleftrightarrow> word_char c \<and> \<not> is_digit c \<and> c \<noteq> CHR ''_''"

definition iface_char :: "char \<Rightarrow> bool" where
  "iface_char c \<longleftrightarrow> word_char c \<or> c \<in> set ''./:-''"

text \<open>\<open>_TEXT\<close>: a letter and at most 47 of the name's characters, then the comma no name holds.\<close>

definition transition_of :: "log_line \<Rightarrow> (string \<times> link_state) option" where
  "transition_of l =
     (if ln_mn l \<notin> set MNEMONICS then None
      else
        (let t = strip (ln_text l);
             t = (case after_prefix ''Line protocol on '' t of None \<Rightarrow> t | Some r \<Rightarrow> r)
         in case after_prefix ''Interface '' t of
              None \<Rightarrow> None
            | Some r \<Rightarrow>
                (let i = takeWhile iface_char r; said = dropWhile iface_char r in
                 if i = '''' \<or> \<not> is_letter (hd i) \<or> 48 < length i then None
                 else if said = '', changed state to up'' then Some (i, Link_up)
                 else if said = '', changed state to down'' then Some (i, Link_down)
                 else None)))"

section \<open>The record\<close>

definition KEEP_SECONDS :: epoch where "KEEP_SECONDS = 3600"
definition MAX_KEPT :: nat where "MAX_KEPT = 100"

type_synonym flap_key = "string \<times> device \<times> string"

record flap_entry =
  fe_interface :: string
  fe_state :: link_state
  fe_transitions :: "(epoch \<times> link_state) list"

record flap_doc =
  fd_cursors :: "store_id \<Rightarrow> epoch option"
  fd_entries :: "flap_key \<Rightarrow> flap_entry option"

datatype flap_file = No_flaps | Bad_flaps | Flaps flap_doc

fun flaps_of :: "flap_file \<Rightarrow> flap_doc" where
  "flaps_of (Flaps d) = d"
| "flaps_of _ = \<lparr>fd_cursors = (\<lambda>_. None), fd_entries = (\<lambda>_. None)\<rparr>"

text \<open>A transition found: its network's id, device, interface, state and receive time.\<close>

record found_flap =
  ff_net :: string
  ff_device :: device
  ff_interface :: string
  ff_state :: link_state
  ff_time :: epoch

definition flap_key_of :: "found_flap \<Rightarrow> flap_key" where
  "flap_key_of x = (ff_net x, ff_device x, lower (ff_interface x))"

definition is_repeat :: "(flap_key \<Rightarrow> flap_entry option) \<Rightarrow> found_flap \<Rightarrow> bool" where
  "is_repeat m x \<longleftrightarrow> (case m (flap_key_of x) of None \<Rightarrow> False | Some e \<Rightarrow> fe_state e = ff_state x)"

definition record_flap :: "found_flap \<Rightarrow> (flap_key \<Rightarrow> flap_entry option) \<Rightarrow> flap_key \<Rightarrow> flap_entry option" where
  "record_flap x m =
     (if is_repeat m x then m
      else m(flap_key_of x \<mapsto>
        (case m (flap_key_of x) of
           None \<Rightarrow> \<lparr>fe_interface = ff_interface x, fe_state = ff_state x, fe_transitions = [(ff_time x, ff_state x)]\<rparr>
         | Some e \<Rightarrow> e\<lparr>fe_state := ff_state x, fe_transitions := fe_transitions e @ [(ff_time x, ff_state x)]\<rparr>)))"

fun record_flaps ::
    "found_flap list \<Rightarrow> (flap_key \<Rightarrow> flap_entry option) \<Rightarrow> nat \<times> (flap_key \<Rightarrow> flap_entry option)" where
  "record_flaps [] m = (0, m)"
| "record_flaps (x # xs) m =
     (case record_flaps xs (record_flap x m) of (n, m') \<Rightarrow> ((if is_repeat m x then n else n + 1), m'))"

definition prune_trans :: "epoch \<Rightarrow> (epoch \<times> link_state) list \<Rightarrow> (epoch \<times> link_state) list" where
  "prune_trans now ts = last_n MAX_KEPT (filter (\<lambda>t. now - KEEP_SECONDS \<le> fst t) ts)"

definition prune_flaps :: "epoch \<Rightarrow> (flap_key \<Rightarrow> flap_entry option) \<Rightarrow> flap_key \<Rightarrow> flap_entry option" where
  "prune_flaps now m k =
     (case m k of
        None \<Rightarrow> None
      | Some e \<Rightarrow>
          (let ts = prune_trans now (fe_transitions e) in if ts = [] then None else Some (e\<lparr>fe_transitions := ts\<rparr>)))"

section \<open>The step\<close>

datatype flap_fate = No_updown | Flap_unplaced | Flap_off | Flap_found found_flap

text \<open>\<open>nid\<close> is \<open>listref.network_id\<close>, which raises for a network it does not know.\<close>

definition flap_fate :: "trigger_env \<Rightarrow> (network \<Rightarrow> heal_error + string) \<Rightarrow> allowed \<Rightarrow> log_line \<Rightarrow> heal_error + flap_fate" where
  "flap_fate env nid allowed l =
     (case transition_of l of
        None \<Rightarrow> Inr No_updown
      | Some (i, st) \<Rightarrow>
          bind_result (one_network env (ln_dev l) allowed) (\<lambda>placed. case placed of
            None \<Rightarrow> Inr Flap_unplaced
          | Some n \<Rightarrow>
              (if mode_of env n = M_off then Inr Flap_off
               else bind_result (nid n) (\<lambda>x. Inr (Flap_found
                      \<lparr>ff_net = x, ff_device = ln_dev l, ff_interface = i, ff_state = st, ff_time = ln_ts l\<rparr>)))))"

fun found_in :: "flap_fate \<Rightarrow> found_flap list" where
  "found_in (Flap_found x) = [x]"
| "found_in _ = []"

record flap_counts =
  fc_recorded :: nat
  fc_off :: nat
  fc_unplaced :: nat

definition flaps_from_logs_tail ::
    "trigger_env \<Rightarrow> (network \<Rightarrow> heal_error + string) \<Rightarrow> store_id \<Rightarrow> allowed \<Rightarrow> log_line list \<Rightarrow> flap_file
     \<Rightarrow> (heal_error + flap_counts) \<times> flap_file" where
  "flaps_from_logs_tail env nid store allowed ls f =
     (let none = \<lparr>fc_recorded = 0, fc_off = 0, fc_unplaced = 0\<rparr>;
          seen = fd_cursors (flaps_of f) store; new = newer ln_ts seen ls
      in if f = Bad_flaps \<or> new = [] then (Inr none, f)
         else case collect (flap_fate env nid allowed) new of
           Inl e \<Rightarrow> (Inl e, f)
         | Inr fates \<Rightarrow>
             (let (n, m) = record_flaps (concat (map found_in fates)) (fd_entries (flaps_of f))
              in (Inr (none\<lparr>fc_recorded := n, fc_off := length (filter (\<lambda>x. x = Flap_off) fates),
                            fc_unplaced := length (filter (\<lambda>x. x = Flap_unplaced) fates)\<rparr>),
                  Flaps \<lparr>fd_cursors = (fd_cursors (flaps_of f))(store := line_cursor ln_ts ls seen),
                         fd_entries = prune_flaps (te_now env) m\<rparr>)))"

section \<open>The reads\<close>

datatype flap_read = Flaps_unreadable | Flaps_read "(epoch \<times> link_state) list"

definition transitions_of ::
    "(network \<Rightarrow> heal_error + string) \<Rightarrow> flap_file \<Rightarrow> network \<Rightarrow> device \<Rightarrow> string \<Rightarrow> epoch \<Rightarrow> epoch \<Rightarrow> flap_read" where
  "transitions_of nid f network device interface since until =
     (if since < until - KEEP_SECONDS \<or> f = Bad_flaps then Flaps_unreadable
      else case nid network of
        Inl _ \<Rightarrow> Flaps_unreadable
      | Inr x \<Rightarrow>
          Flaps_read (filter (\<lambda>t. since \<le> fst t \<and> fst t \<le> until)
            (case fd_entries (flaps_of f) (x, device, lower interface) of None \<Rightarrow> [] | Some e \<Rightarrow> fe_transitions e)))"

record flap_now =
  fn_read :: bool
  fn_flapping :: bool
  fn_transitions :: nat

definition flapping ::
    "(network \<Rightarrow> heal_error + string) \<Rightarrow> flap_file \<Rightarrow> network \<Rightarrow> device \<Rightarrow> string \<Rightarrow> epoch \<Rightarrow> nat \<Rightarrow> nat \<Rightarrow> flap_now" where
  "flapping nid f network device interface now at_least minutes =
     (case transitions_of nid f network device interface (now - real minutes * 60) now of
        Flaps_unreadable \<Rightarrow> \<lparr>fn_read = False, fn_flapping = False, fn_transitions = 0\<rparr>
      | Flaps_read ts \<Rightarrow> \<lparr>fn_read = True, fn_flapping = at_least \<le> length ts, fn_transitions = length ts\<rparr>)"

section \<open>A well-formed entry\<close>

definition entry_wf :: "flap_key \<Rightarrow> flap_entry \<Rightarrow> bool" where
  "entry_wf k e \<longleftrightarrow> fe_transitions e \<noteq> [] \<and> distinct_adj (map snd (fe_transitions e))
     \<and> snd (last (fe_transitions e)) = fe_state e \<and> sorted (map fst (fe_transitions e))
     \<and> lower (fe_interface e) = snd (snd k)"

lemma sorted_le_last: "sorted (map f xs) \<Longrightarrow> x \<in> set xs \<Longrightarrow> f x \<le> f (last xs)"
  by (induction xs) auto

lemma record_flap_wf:
  assumes "\<And>k e. m k = Some e \<Longrightarrow> entry_wf k e \<and> (fst k = ff_net x \<longrightarrow> fst (last (fe_transitions e)) \<le> ff_time x)"
    and "record_flap x m k = Some e"
  shows "entry_wf k e \<and> (fst (last (fe_transitions e)) = ff_time x \<and> fst k = ff_net x \<or> m k = Some e)"
proof (cases "is_repeat m x \<or> k \<noteq> flap_key_of x")
  case True
  with assms(2) have "m k = Some e" by (auto simp: record_flap_def split: if_splits)
  with assms(1) show ?thesis by blast
next
  case False
  then have k: "k = flap_key_of x" "\<not> is_repeat m x" by simp_all
  show ?thesis
  proof (cases "m k")
    case None
    with assms(2) k show ?thesis by (auto simp: record_flap_def entry_wf_def flap_key_of_def)
  next
    case (Some e0)
    from assms(1) [OF Some] have w: "entry_wf k e0" "fst (last (fe_transitions e0)) \<le> ff_time x"
      using k by (auto simp: flap_key_of_def)
    then have "fst t \<le> ff_time x" if "t \<in> set (fe_transitions e0)" for t
      using that sorted_le_last [of fst "fe_transitions e0" t] by (auto simp: entry_wf_def)
    with Some w assms(2) k show ?thesis
      by (auto simp: record_flap_def entry_wf_def flap_key_of_def is_repeat_def distinct_adj_append_iff sorted_append
          last_map)
  qed
qed

lemma sorted_filter_ge: "sorted (map f xs) \<Longrightarrow> filter (\<lambda>x. b \<le> f x) xs = dropWhile (\<lambda>x. f x < b) xs"
proof (induction xs)
  case (Cons x xs)
  show ?case
  proof (cases "f x < b")
    case False
    with Cons.prems have "filter (\<lambda>x. b \<le> f x) xs = xs" by (auto simp: filter_id_conv)
    with False show ?thesis by simp
  qed (use Cons in simp)
qed simp

lemma prune_trans_drop: "sorted (map fst ts) \<Longrightarrow> \<exists>n. prune_trans now ts = drop n ts"
  by (simp add: prune_trans_def last_n_def sorted_filter_ge dropWhile_eq_drop drop_drop) blast

lemma distinct_adj_drop: "distinct_adj xs \<Longrightarrow> distinct_adj (drop n xs)"
  by (metis append_take_drop_id distinct_adj_append_iff)

lemma prune_trans_bounds: "length (prune_trans now ts) \<le> MAX_KEPT" "t \<in> set (prune_trans now ts) \<Longrightarrow> now - KEEP_SECONDS \<le> fst t"
  by (auto simp: prune_trans_def last_n_def dest!: in_set_dropD)

lemma prune_flaps_wf:
  assumes "\<And>e. m k = Some e \<Longrightarrow> entry_wf k e" "prune_flaps now m k = Some e'"
  shows "entry_wf k e'"
    and "\<exists>e. m k = Some e \<and> last (fe_transitions e') = last (fe_transitions e)"
proof -
  from assms(2) obtain e where e: "m k = Some e" "prune_trans now (fe_transitions e) \<noteq> []"
    "e' = e\<lparr>fe_transitions := prune_trans now (fe_transitions e)\<rparr>"
    by (auto simp: prune_flaps_def Let_def split: option.splits if_splits)
  note w = assms(1) [OF e(1), unfolded entry_wf_def]
  then obtain n where n: "prune_trans now (fe_transitions e) = drop n (fe_transitions e)" using prune_trans_drop by blast
  with e(2) have l: "last (fe_transitions e') = last (fe_transitions e)" by (simp add: e(3) last_drop)
  with w n e(2) show "entry_wf k e'"
    by (auto simp: e(3) entry_wf_def drop_map [symmetric] distinct_adj_drop sorted_wrt_drop)
  from l e(1) show "\<exists>e. m k = Some e \<and> last (fe_transitions e') = last (fe_transitions e)" by blast
qed


lemma record_flaps_wf:
  assumes "sorted (map ff_time xs)" "\<And>x. x \<in> set xs \<Longrightarrow> ff_net x \<in> nets \<and> ff_time x \<le> c"
    and "\<And>k e x. m k = Some e \<Longrightarrow> entry_wf k e \<and> (fst k \<in> nets \<longrightarrow>
           fst (last (fe_transitions e)) \<le> c \<and> (x \<in> set xs \<longrightarrow> fst (last (fe_transitions e)) \<le> ff_time x))"
    and "snd (record_flaps xs m) k = Some e"
  shows "entry_wf k e \<and> (if fst k \<in> nets then fst (last (fe_transitions e)) \<le> c else m k = Some e)"
  using assms
proof (induction xs arbitrary: m)
  case (Cons x xs)
  have one: "entry_wf k e \<and> (fst (last (fe_transitions e)) = ff_time x \<and> fst k = ff_net x \<or> m k = Some e)"
    if "record_flap x m k = Some e" for k e
    by (rule record_flap_wf [OF _ that]) (use Cons.prems(2,3) in auto)
  have "entry_wf k e \<and> (if fst k \<in> nets then fst (last (fe_transitions e)) \<le> c else record_flap x m k = Some e)"
  proof (rule Cons.IH)
    fix k e y assume "record_flap x m k = Some e"
    from one [OF this] Cons.prems(1,2) Cons.prems(3) [of k e y]
    show "entry_wf k e \<and> (fst k \<in> nets \<longrightarrow>
        fst (last (fe_transitions e)) \<le> c \<and> (y \<in> set xs \<longrightarrow> fst (last (fe_transitions e)) \<le> ff_time y))"
      by auto
  qed (use Cons.prems in \<open>auto split: prod.splits\<close>)
  with one [of k e] Cons.prems(2) [of x] show ?case by (auto split: if_splits)
qed auto

lemma found_flaps_sorted:
  assumes "collect (flap_fate env nid al) ls = Inr fates" "sorted (map ln_ts ls)"
  shows "sorted (map ff_time (concat (map found_in fates))) \<and> (\<forall>x \<in> set (concat (map found_in fates)). \<exists>l \<in> set ls. ff_time x = ln_ts l \<and>
    (\<exists>n. one_network env (ln_dev l) al = Inr (Some n) \<and> nid n = Inr (ff_net x)))"
  using assms
proof (induction ls arbitrary: fates)
  case (Cons l ls)
  from Cons.prems(1) obtain y ys where y: "flap_fate env nid al l = Inr y" "collect (flap_fate env nid al) ls = Inr ys"
    "fates = y # ys" by (auto simp: bind_result_eq_Inr_iff)
  have "sorted (map ln_ts ls)" using Cons.prems(2) by simp
  note IH = Cons.IH [OF y(2) this]
  have f: "ff_time x = ln_ts l \<and> (\<exists>n. one_network env (ln_dev l) al = Inr (Some n) \<and> nid n = Inr (ff_net x))"
    if "y = Flap_found x" for x
    using y(1) that by (auto simp: flap_fate_def bind_result_eq_Inr_iff split: option.splits prod.splits if_splits)
  show ?case
  proof (cases "\<exists>x. y = Flap_found x")
    case True
    then obtain x where x: "y = Flap_found x" by blast
    from f [OF x] IH Cons.prems(2) show ?thesis unfolding y(3) x by fastforce
  next
    case False
    then have "found_in y = []" by (cases y) auto
    with IH show ?thesis unfolding y(3) by auto
  qed
qed simp


section \<open>The record is well formed\<close>

text \<open>\<open>srv\<close> is the store a network's lines come by. Every entry is that of its lower-cased name: it has a
  transition, at most \<open>MAX_KEPT\<close>, each other than the one before, in order of time, none older than
  \<open>KEEP_SECONDS\<close> when the record was written nor newer than what its store consumed, and its state is
  the last one's.\<close>

definition flap_record :: "(string \<Rightarrow> store_id) \<Rightarrow> epoch \<Rightarrow> flap_doc \<Rightarrow> bool" where
  "flap_record srv now d \<longleftrightarrow>
     (\<forall>k e. fd_entries d k = Some e \<longrightarrow>
        entry_wf k e \<and> length (fe_transitions e) \<le> MAX_KEPT
        \<and> (\<forall>t \<in> set (fe_transitions e). now - KEEP_SECONDS \<le> fst t)
        \<and> (\<exists>c. fd_cursors d (srv (fst k)) = Some c \<and> fst (last (fe_transitions e)) \<le> c))"

lemma flap_recordD:
  assumes "flap_record srv now d" "fd_entries d k = Some e"
  shows "entry_wf k e" "\<exists>c. fd_cursors d (srv (fst k)) = Some c \<and> fst (last (fe_transitions e)) \<le> c"
  using assms unfolding flap_record_def by blast+

lemma flap_record_empty: "flap_record srv now (flaps_of No_flaps)"
  by (simp add: flap_record_def)

lemma prune_flaps_bounds:
  assumes "prune_flaps now m k = Some e"
  shows "length (fe_transitions e) \<le> MAX_KEPT" "t \<in> set (fe_transitions e) \<Longrightarrow> now - KEEP_SECONDS \<le> fst t"
  using assms by (auto simp: prune_flaps_def Let_def prune_trans_bounds(1) split: option.splits if_splits
      dest: prune_trans_bounds(2))

lemma one_network_allowed:
  assumes "one_network env d (Some ns) = Inr (Some n)"
  shows "n \<in> ns"
proof -
  from assms obtain kept where "filter (\<lambda>n. n \<in> ns) kept = [n]"
    by (auto simp: one_network_def networks_of_def bind_result_eq_Inr_iff split: option.splits list.splits)
  then have "n \<in> set (filter (\<lambda>n. n \<in> ns) kept)" by simp
  then show ?thesis by simp
qed

text \<open>C34: the flap record is always well formed. A store that serves some networks, each served by it alone,
  leaves the record it found, or one written now that is well formed again, whatever it read.\<close>

theorem flap_record_wf:
  assumes "flaps_from_logs_tail env nid s (Some ns) ls f = (r, f')" and "flap_record srv t0 (flaps_of f)"
    and "\<And>n x. n \<in> ns \<Longrightarrow> nid n = Inr x \<Longrightarrow> srv x = s"
  shows "f' = f \<or> flap_record srv (te_now env) (flaps_of f')"
proof (cases "f' = f")
  case False
  let ?d = "flaps_of f"
  let ?seen = "fd_cursors ?d s"
  let ?new = "newer ln_ts ?seen ls"
  let ?c = "newest ln_ts ?new"
  from False assms(1) obtain fates where new: "?new \<noteq> []" and fates: "collect (flap_fate env nid (Some ns)) ?new = Inr fates"
    by (auto simp: flaps_from_logs_tail_def Let_def split: if_splits sum.splits)
  define xs where "xs = concat (map found_in fates)"
  define m where "m = snd (record_flaps xs (fd_entries ?d))"
  have f': "flaps_of f' = \<lparr>fd_cursors = (fd_cursors ?d)(s \<mapsto> ?c), fd_entries = prune_flaps (te_now env) m\<rparr>"
    using assms(1) False new fates
    by (auto simp: flaps_from_logs_tail_def Let_def xs_def m_def line_cursor_def split: if_splits prod.splits)
  have "sorted (map ln_ts ?new)" by (simp add: newer_def sorted_filter)
  note fs = found_flaps_sorted [OF fates this, folded xs_def]
  have xs: "sorted (map ff_time xs)" "\<And>x. x \<in> set xs \<Longrightarrow> \<exists>l \<in> set ?new. ff_time x = ln_ts l \<and> srv (ff_net x) = s"
    using fs one_network_allowed assms(3) by blast+
  have old: "fst (last (fe_transitions e)) \<le> ?c \<and> (x \<in> set xs \<longrightarrow> fst (last (fe_transitions e)) \<le> ff_time x)"
    if "fd_entries ?d k = Some e" "srv (fst k) = s" for k e x
  proof -
    from flap_recordD(2) [OF assms(2) that(1)] that(2) obtain c where c: "?seen = Some c" "fst (last (fe_transitions e)) \<le> c"
      by auto
    with new newest_in [OF new, of ln_ts] xs(2) [of x] show ?thesis by (fastforce simp: in_newer)
  qed
  have m: "entry_wf k e \<and> (if fst k \<in> {x. srv x = s} then fst (last (fe_transitions e)) \<le> ?c else fd_entries ?d k = Some e)"
    if "m k = Some e" for k e
  proof (rule record_flaps_wf [OF xs(1)])
    show "snd (record_flaps xs (fd_entries ?d)) k = Some e" using that by (simp add: m_def)
    show "ff_net x \<in> {x. srv x = s} \<and> ff_time x \<le> ?c" if "x \<in> set xs" for x
      using xs(2) [OF that] newest_ge by auto
    show "entry_wf k e \<and> (fst k \<in> {x. srv x = s} \<longrightarrow> fst (last (fe_transitions e)) \<le> ?c
        \<and> (x \<in> set xs \<longrightarrow> fst (last (fe_transitions e)) \<le> ff_time x))" if "fd_entries ?d k = Some e" for k e x
      using old [OF that] flap_recordD(1) [OF assms(2) that] by simp
  qed
  have "flap_record srv (te_now env) (flaps_of f')"
    unfolding flap_record_def f' flap_doc.simps
  proof (intro allI impI)
    fix k e assume e: "prune_flaps (te_now env) m k = Some e"
    from prune_flaps_wf [OF _ e] m obtain e0 where e0: "entry_wf k e" "m k = Some e0"
      "last (fe_transitions e) = last (fe_transitions e0)" by blast
    from m [OF e0(2)] flap_recordD(2) [OF assms(2), of k e0] have "\<exists>c. ((fd_cursors ?d)(s \<mapsto> ?c)) (srv (fst k)) = Some c \<and> fst (last (fe_transitions e0)) \<le> c"
      by (auto split: if_splits)
    with e0 prune_flaps_bounds [OF e] show "entry_wf k e \<and> length (fe_transitions e) \<le> MAX_KEPT
        \<and> (\<forall>t \<in> set (fe_transitions e). te_now env - KEEP_SECONDS \<le> fst t)
        \<and> (\<exists>c. ((fd_cursors ?d)(s \<mapsto> ?c)) (srv (fst k)) = Some c \<and> fst (last (fe_transitions e)) \<le> c)" by auto
  qed
  then show ?thesis ..
qed simp

section \<open>A flap is a count of changes\<close>

text \<open>The changes in a history of times and states, given the state known before it; the state after it.\<close>

fun changes :: "link_state option \<Rightarrow> (epoch \<times> link_state) list \<Rightarrow> (epoch \<times> link_state) list" where
  "changes st [] = []"
| "changes st (e # h) = (if st = Some (snd e) then changes st h else e # changes (Some (snd e)) h)"

definition state_after :: "link_state option \<Rightarrow> (epoch \<times> link_state) list \<Rightarrow> link_state option" where
  "state_after st h = (if h = [] then st else Some (snd (last h)))"

lemma state_after_simps [simp]: "state_after st [] = st" "state_after st (e # h) = state_after (Some (snd e)) h"
  by (simp_all add: state_after_def)

lemma changes_append: "changes st (a @ b) = changes st a @ changes (state_after st a) b"
  by (induction st a rule: changes.induct) auto

lemma state_after_append: "state_after st (a @ b) = state_after (state_after st a) b"
  by (simp add: state_after_def)

lemma changes_subset: "set (changes st h) \<subseteq> set h"
  by (induction st h rule: changes.induct) auto

text \<open>With nothing known before, they are the states with their repetitions removed.\<close>

lemma changes_remdups: "map snd (changes None h) = remdups_adj (map snd h)"
proof -
  have x: "remdups_adj (x # map snd h) = x # map snd (changes (Some x) h)" for x and h :: "(epoch \<times> link_state) list"
    by (induction h arbitrary: x) auto
  show ?thesis by (cases h) (simp_all add: x)
qed

text \<open>What is recorded of a key, and the state it is known to be in.\<close>

definition at_key :: "flap_key \<Rightarrow> found_flap list \<Rightarrow> (epoch \<times> link_state) list" where
  "at_key k xs = map (\<lambda>x. (ff_time x, ff_state x)) (filter (\<lambda>x. flap_key_of x = k) xs)"

definition recorded :: "(flap_key \<Rightarrow> flap_entry option) \<Rightarrow> flap_key \<Rightarrow> (epoch \<times> link_state) list" where
  "recorded m k = (case m k of None \<Rightarrow> [] | Some e \<Rightarrow> fe_transitions e)"

definition known_state :: "(flap_key \<Rightarrow> flap_entry option) \<Rightarrow> flap_key \<Rightarrow> link_state option" where
  "known_state m k = map_option fe_state (m k)"

lemma record_flap_changes:
  "recorded (record_flap x m) k = recorded m k @ changes (known_state m k) (at_key k [x])"
  "known_state (record_flap x m) k = state_after (known_state m k) (at_key k [x])"
  by (cases "m k"; auto simp: at_key_def recorded_def known_state_def record_flap_def is_repeat_def)+

lemma record_flaps_changes:
  "recorded (snd (record_flaps xs m)) k = recorded m k @ changes (known_state m k) (at_key k xs)
   \<and> known_state (snd (record_flaps xs m)) k = state_after (known_state m k) (at_key k xs)"
proof (induction xs arbitrary: m)
  case (Cons x xs)
  have "at_key k (x # xs) = at_key k [x] @ at_key k xs" by (simp add: at_key_def)
  moreover have "snd (record_flaps (x # xs) m) = snd (record_flaps xs (record_flap x m))" by (simp add: split_beta)
  ultimately show ?case
    using Cons.IH [of "record_flap x m"] by (simp add: record_flap_changes changes_append state_after_append)
qed (simp add: at_key_def)

text \<open>What the log says of an interface, in the order received.\<close>

definition logs_of ::
    "trigger_env \<Rightarrow> (network \<Rightarrow> heal_error + string) \<Rightarrow> allowed \<Rightarrow> string \<Rightarrow> device \<Rightarrow> string \<Rightarrow> log_line \<Rightarrow> bool" where
  "logs_of env nid al x device interface l \<longleftrightarrow>
     ln_dev l = device \<and> (\<exists>n. one_network env device al = Inr (Some n) \<and> mode_of env n \<noteq> M_off \<and> nid n = Inr x)
     \<and> (\<exists>i st. transition_of l = Some (i, st) \<and> lower i = lower interface)"

definition logged ::
    "(network \<Rightarrow> heal_error + string) \<Rightarrow> string \<Rightarrow> device \<Rightarrow> string \<Rightarrow> trigger_env \<times> allowed \<times> log_line list
     \<Rightarrow> (epoch \<times> link_state) list" where
  "logged nid x device interface = (\<lambda>(env, al, ls).
     map (\<lambda>l. (ln_ts l, snd (the (transition_of l)))) (filter (logs_of env nid al x device interface) ls))"

lemma flap_fate_logged:
  assumes "flap_fate env nid al l = Inr y"
  shows "at_key (x, device, lower interface) (found_in y) = logged nid x device interface (env, al, [l])"
proof (cases "\<exists>z. y = Flap_found z")
  case True
  then obtain z where z: "y = Flap_found z" by blast
  with assms obtain i st n where t: "transition_of l = Some (i, st)" and n: "one_network env (ln_dev l) al = Inr (Some n)"
    "mode_of env n \<noteq> M_off" "nid n = Inr (ff_net z)" "ff_device z = ln_dev l" "ff_interface z = i" "ff_state z = st"
    "ff_time z = ln_ts l"
    by (auto simp: flap_fate_def bind_result_eq_Inr_iff split: option.splits prod.splits if_splits)
  then have "flap_key_of z = (x, device, lower interface) \<longleftrightarrow> logs_of env nid al x device interface l"
    by (auto simp: flap_key_of_def logs_of_def)
  with z t n show ?thesis by (simp add: at_key_def logged_def)
next
  case False
  then have y: "found_in y = []" by (cases y) auto
  have "\<not> logs_of env nid al x device interface l"
    using assms False by (auto simp: flap_fate_def logs_of_def)
  with y show ?thesis by (simp add: at_key_def logged_def)
qed

lemma collected_logged:
  "collect (flap_fate env nid al) ls = Inr fates \<Longrightarrow>
   at_key (x, device, lower interface) (concat (map found_in fates)) = logged nid x device interface (env, al, ls)"
proof (induction ls arbitrary: fates)
  case (Cons l ls)
  then obtain y ys where y: "flap_fate env nid al l = Inr y" "collect (flap_fate env nid al) ls = Inr ys" "fates = y # ys"
    by (auto simp: bind_result_eq_Inr_iff)
  have "at_key k (found_in y @ zs) = at_key k (found_in y) @ at_key k zs" for k zs by (simp add: at_key_def)
  moreover have "logged nid x device interface (env, al, l # ls)
      = logged nid x device interface (env, al, [l]) @ logged nid x device interface (env, al, ls)" by (simp add: logged_def)
  ultimately show ?case using flap_fate_logged [OF y(1), of x device interface] Cons.IH [OF y(2)] by (simp add: y(3))
qed (simp add: at_key_def logged_def)

lemma recorded_prune:
  "recorded (prune_flaps now m) k = prune_trans now (recorded m k)"
  by (simp add: recorded_def prune_flaps_def prune_trans_def last_n_def Let_def split: option.split)

text \<open>The record of a key holds the end of its transitions \<open>T\<close>: those since some moment not later than \<open>from\<close>.\<close>

definition kept_as ::
    "epoch \<Rightarrow> (flap_key \<Rightarrow> flap_entry option) \<Rightarrow> flap_key \<Rightarrow> (epoch \<times> link_state) list \<Rightarrow> link_state option \<Rightarrow> bool" where
  "kept_as from_t m k T st \<longleftrightarrow> (\<exists>b \<le> from_t. recorded m k = filter (\<lambda>t. b \<le> fst t) T)
     \<and> known_state m k = st \<and> (if st = None then T = [] else T \<noteq> [] \<and> from_t \<le> fst (last T))"

lemma kept_as_record:
  assumes "kept_as from_t m k T st" "\<And>t. t \<in> set (at_key k xs) \<Longrightarrow> from_t \<le> fst t"
  shows "kept_as from_t (snd (record_flaps xs m)) k (T @ changes st (at_key k xs)) (state_after st (at_key k xs))"
proof -
  let ?h = "at_key k xs" and ?c = "changes st (at_key k xs)"
  from assms(1) obtain b where b: "b \<le> from_t" "recorded m k = filter (\<lambda>t. b \<le> fst t) T" and st: "known_state m k = st"
    and T: "if st = None then T = [] else T \<noteq> [] \<and> from_t \<le> fst (last T)" by (auto simp: kept_as_def)
  have c: "from_t \<le> fst t" if "t \<in> set ?c" for t using assms(2) changes_subset that by blast
  then have "filter (\<lambda>t. b \<le> fst t) ?c = ?c" using b(1) by (force simp: filter_id_conv)
  then have r: "recorded (snd (record_flaps xs m)) k = filter (\<lambda>t. b \<le> fst t) (T @ ?c)"
    using record_flaps_changes [of xs m k] b(2) st by simp
  have ne: "st = None \<Longrightarrow> ?h \<noteq> [] \<Longrightarrow> ?c \<noteq> []" by (cases ?h) auto
  have "if state_after st ?h = None then T @ ?c = [] else T @ ?c \<noteq> [] \<and> from_t \<le> fst (last (T @ ?c))"
    using T c ne by (cases st; cases "?c = []") (auto simp: state_after_def last_append)
  with r b(1) st record_flaps_changes [of xs m k] show ?thesis by (auto simp: kept_as_def)
qed

lemma kept_as_prune:
  assumes "kept_as from_t m k T st" "length T \<le> MAX_KEPT" "now - KEEP_SECONDS \<le> from_t"
  shows "kept_as from_t (prune_flaps now m) k T st"
proof -
  from assms(1) obtain b where b: "b \<le> from_t" "recorded m k = filter (\<lambda>t. b \<le> fst t) T" and st: "known_state m k = st"
    and T: "if st = None then T = [] else T \<noteq> [] \<and> from_t \<le> fst (last T)" by (auto simp: kept_as_def)
  let ?b = "max b (now - KEEP_SECONDS)"
  have f: "filter (\<lambda>t. now - KEEP_SECONDS \<le> fst t) (filter (\<lambda>t. b \<le> fst t) T) = filter (\<lambda>t. ?b \<le> fst t) T"
    by (simp add: conj_commute)
  have "length (filter (\<lambda>t. ?b \<le> fst t) T) \<le> MAX_KEPT" using assms(2) length_filter_le le_trans by blast
  then have r: "recorded (prune_flaps now m) k = filter (\<lambda>t. ?b \<le> fst t) T"
    unfolding recorded_prune b(2) prune_trans_def f by (simp add: last_n_def)
  have "known_state (prune_flaps now m) k = st"
  proof (cases "m k")
    case None
    with st show ?thesis by (simp add: known_state_def prune_flaps_def)
  next
    case (Some e)
    with st T have "last T \<in> set (filter (\<lambda>t. ?b \<le> fst t) T)" using b(1) assms(3) by (auto simp: known_state_def)
    moreover have "prune_trans now (fe_transitions e) = filter (\<lambda>t. ?b \<le> fst t) T"
      using r [unfolded recorded_prune] Some by (simp add: recorded_def)
    ultimately have "prune_trans now (fe_transitions e) \<noteq> []" by (metis empty_iff empty_set)
    with Some st show ?thesis by (simp add: known_state_def prune_flaps_def Let_def)
  qed
  with r T b(1) assms(3) show ?thesis unfolding kept_as_def by (intro conjI exI [of _ ?b]) auto
qed

text \<open>The steps of the reader, of any stores and at any moments, over one record; what each took: the lines its
  store held that it had not taken before, or nothing when the step raised.\<close>

fun flap_run ::
    "(network \<Rightarrow> heal_error + string) \<Rightarrow> (trigger_env \<times> store_id \<times> allowed \<times> log_line list) list \<Rightarrow> flap_file
     \<Rightarrow> (trigger_env \<times> allowed \<times> log_line list) list \<times> flap_file" where
  "flap_run nid [] f = ([], f)"
| "flap_run nid ((env, s, al, ls) # steps) f =
     (let (r, f1) = flaps_from_logs_tail env nid s al ls f; (taken, f') = flap_run nid steps f1
      in ((case r of Inl _ \<Rightarrow> [] | Inr _ \<Rightarrow> [(env, al, newer ln_ts (fd_cursors (flaps_of f) s) ls)]) @ taken, f'))"

lemma flap_step_kept:
  assumes "flaps_from_logs_tail env nid s al ls f = (r, f1)" "f \<noteq> Bad_flaps"
    and "kept_as from_t (fd_entries (flaps_of f)) (x, device, lower interface) T st" "te_now env - KEEP_SECONDS \<le> from_t"
  defines "h \<equiv> (case r of Inl _ \<Rightarrow> [] | Inr _ \<Rightarrow> logged nid x device interface (env, al, newer ln_ts (fd_cursors (flaps_of f) s) ls))"
  assumes "\<And>t. t \<in> set h \<Longrightarrow> from_t \<le> fst t" "length (T @ changes st h) \<le> MAX_KEPT"
  shows "f1 \<noteq> Bad_flaps
    \<and> kept_as from_t (fd_entries (flaps_of f1)) (x, device, lower interface) (T @ changes st h) (state_after st h)"
proof -
  let ?k = "(x, device, lower interface)" and ?new = "newer ln_ts (fd_cursors (flaps_of f) s) ls"
  show ?thesis
  proof (cases "?new = [] \<or> isl r")
    case True
    with assms(1,2) have "f1 = f" by (auto simp: flaps_from_logs_tail_def Let_def split: if_splits sum.splits prod.splits)
    moreover have "h = []" using True by (auto simp: h_def logged_def split: sum.splits)
    ultimately show ?thesis using assms(2,3) by simp
  next
    case False
    with assms(1,2) obtain fates c where fates: "collect (flap_fate env nid al) ?new = Inr fates" and r: "r = Inr c"
      and f1: "f1 \<noteq> Bad_flaps" "fd_entries (flaps_of f1)
        = prune_flaps (te_now env) (snd (record_flaps (concat (map found_in fates)) (fd_entries (flaps_of f))))"
      by (auto simp: flaps_from_logs_tail_def Let_def split: if_splits sum.splits prod.splits)
    have h: "at_key ?k (concat (map found_in fates)) = h" using collected_logged [OF fates] by (simp add: h_def r)
    from kept_as_record [OF assms(3), of "concat (map found_in fates)"] assms(6)
    have "kept_as from_t (snd (record_flaps (concat (map found_in fates)) (fd_entries (flaps_of f)))) ?k
        (T @ changes st h) (state_after st h)" unfolding h by blast
    from kept_as_prune [OF this assms(7,4)] f1 show ?thesis by simp
  qed
qed

definition history ::
    "(network \<Rightarrow> heal_error + string) \<Rightarrow> string \<Rightarrow> device \<Rightarrow> string \<Rightarrow> (trigger_env \<times> allowed \<times> log_line list) list
     \<Rightarrow> (epoch \<times> link_state) list" where
  "history nid x device interface taken = concat (map (logged nid x device interface) taken)"

lemma flap_run_kept:
  assumes "flap_run nid steps f = (taken, f')" "f \<noteq> Bad_flaps"
    and "kept_as from_t (fd_entries (flaps_of f)) (x, device, lower interface) T st"
    and "\<And>env s al ls. (env, s, al, ls) \<in> set steps \<Longrightarrow> te_now env - KEEP_SECONDS \<le> from_t"
    and "\<And>t. t \<in> set (history nid x device interface taken) \<Longrightarrow> from_t \<le> fst t"
    and "length (T @ changes st (history nid x device interface taken)) \<le> MAX_KEPT"
  shows "f' \<noteq> Bad_flaps \<and> kept_as from_t (fd_entries (flaps_of f')) (x, device, lower interface)
    (T @ changes st (history nid x device interface taken)) (state_after st (history nid x device interface taken))"
  using assms
proof (induction nid steps f arbitrary: taken T st rule: flap_run.induct)
  case (1 nid f)
  then show ?case by (auto simp: history_def)
next
  case (2 nid env s al ls steps f)
  let ?new = "newer ln_ts (fd_cursors (flaps_of f) s) ls"
  obtain r f1 where one: "flaps_from_logs_tail env nid s al ls f = (r, f1)" by force
  obtain rest f2 where run: "flap_run nid steps f1 = (rest, f2)" by force
  define h where "h = (case r of Inl _ \<Rightarrow> [] | Inr _ \<Rightarrow> logged nid x device interface (env, al, ?new))"
  have f2: "f2 = f'" and hist: "history nid x device interface taken = h @ history nid x device interface rest"
    using "2.prems"(1) one run by (auto simp: h_def history_def split: sum.splits)
  let ?hr = "history nid x device interface rest"
  have len: "length (T @ changes st h) \<le> MAX_KEPT" "length ((T @ changes st h) @ changes (state_after st h) ?hr) \<le> MAX_KEPT"
    using "2.prems"(6) by (simp_all add: hist changes_append)
  have "te_now env - KEEP_SECONDS \<le> from_t" by (rule "2.prems"(4) [of env s al ls]) simp
  from flap_step_kept [OF one "2.prems"(2,3) this, folded h_def] "2.prems"(5) hist len(1)
  have s1: "f1 \<noteq> Bad_flaps" "kept_as from_t (fd_entries (flaps_of f1)) (x, device, lower interface) (T @ changes st h) (state_after st h)"
    by auto
  have st: "\<And>env s al ls. (env, s, al, ls) \<in> set steps \<Longrightarrow> te_now env - KEEP_SECONDS \<le> from_t"
    by (rule "2.prems"(4)) (rule list.set_intros(2))
  have hr: "\<And>t. t \<in> set ?hr \<Longrightarrow> from_t \<le> fst t" by (rule "2.prems"(5)) (simp add: hist)
  note kept = "2.IH" [OF one [symmetric] refl run [unfolded f2] s1 st hr len(2)]
  from kept show ?case by (simp add: hist changes_append state_after_append)
qed

text \<open>C35: a flap is measured as it is defined, from whatever record was kept: over any steps of the reader, of
  any stores, raised ones among them, the flap read counts exactly the changes of the interface's state within the
  window asked about, an hour at most: the transitions kept before, and the changes of the states the lines taken
  since say, in their order, the repetitions (its line protocol following its link) left out. It is a flap when
  they are at least as many as the policy asks. This is stated for an interface whose last change is within the hour, and
  whose transitions are at most \<open>MAX_KEPT\<close>: an older state is forgotten, and more are not kept.\<close>

theorem flap_counts_changes:
  assumes "flap_run nid steps f = (taken, f')" and "f \<noteq> Bad_flaps" and "nid n = Inr x" and "minutes \<le> 60"
    and "\<And>env s al ls. (env, s, al, ls) \<in> set steps \<Longrightarrow> te_now env \<le> now"
    and "\<And>e. fd_entries (flaps_of f) (x, device, lower interface) = Some e
           \<Longrightarrow> fe_transitions e \<noteq> [] \<and> now - KEEP_SECONDS \<le> fst (last (fe_transitions e))"
    and "\<And>t. t \<in> set (history nid x device interface taken) \<Longrightarrow> now - KEEP_SECONDS \<le> fst t"
    and "length (recorded (fd_entries (flaps_of f)) (x, device, lower interface)
           @ changes (known_state (fd_entries (flaps_of f)) (x, device, lower interface)) (history nid x device interface taken)) \<le> MAX_KEPT"
  shows "flapping nid f' n device interface now at_least minutes =
    (let count = length (filter (\<lambda>t. now - real minutes * 60 \<le> fst t \<and> fst t \<le> now)
           (recorded (fd_entries (flaps_of f)) (x, device, lower interface)
            @ changes (known_state (fd_entries (flaps_of f)) (x, device, lower interface)) (history nid x device interface taken)))
     in \<lparr>fn_read = True, fn_flapping = at_least \<le> count, fn_transitions = count\<rparr>)"
proof -
  let ?k = "(x, device, lower interface)" and ?m = "fd_entries (flaps_of f)" and ?h = "history nid x device interface taken"
  let ?T = "recorded ?m ?k @ changes (known_state ?m ?k) ?h"
  let ?from = "now - real minutes * 60" and ?lo = "now - KEEP_SECONDS"
  let ?b0 = "Min (insert ?lo (fst ` set (recorded ?m ?k)))"
  have "kept_as ?lo ?m ?k (recorded ?m ?k) (known_state ?m ?k)"
    unfolding kept_as_def
  proof (intro conjI exI [of _ ?b0])
    show "?b0 \<le> ?lo" by simp
    show "recorded ?m ?k = filter (\<lambda>t. ?b0 \<le> fst t) (recorded ?m ?k)" by (simp add: filter_id_conv)
    show "if known_state ?m ?k = None then recorded ?m ?k = [] else recorded ?m ?k \<noteq> [] \<and> ?lo \<le> fst (last (recorded ?m ?k))"
      using assms(6) by (cases "?m ?k") (auto simp: known_state_def recorded_def)
  qed simp
  from flap_run_kept [OF assms(1,2) this _ assms(7,8)] assms(5) have f': "f' \<noteq> Bad_flaps" "kept_as ?lo (fd_entries (flaps_of f')) ?k ?T (state_after (known_state ?m ?k) ?h)"
    by (fastforce, fastforce)
  then obtain b where b: "b \<le> ?lo" "recorded (fd_entries (flaps_of f')) ?k = filter (\<lambda>t. b \<le> fst t) ?T" by (auto simp: kept_as_def)
  have window: "\<not> ?from < now - KEEP_SECONDS" using assms(4) by (simp add: KEEP_SECONDS_def)
  then have "filter (\<lambda>t. ?from \<le> fst t \<and> fst t \<le> now) (filter (\<lambda>t. b \<le> fst t) ?T) = filter (\<lambda>t. ?from \<le> fst t \<and> fst t \<le> now) ?T"
    unfolding filter_filter using b(1) by (intro filter_cong) auto
  moreover have "transitions_of nid f' n device interface ?from now
      = Flaps_read (filter (\<lambda>t. ?from \<le> fst t \<and> fst t \<le> now) (recorded (fd_entries (flaps_of f')) ?k))"
    using window assms(3) f'(1) by (simp add: transitions_of_def recorded_def)
  ultimately show ?thesis by (simp add: flapping_def Let_def b(2))
qed

section \<open>Witnesses\<close>

definition ex_updown :: "epoch \<Rightarrow> string \<Rightarrow> string \<Rightarrow> log_line" where
  "ex_updown tm mn text = \<lparr>ln_ts = tm, ln_dev = ''r1'', ln_mn = mn, ln_text = text\<rparr>"

text \<open>A link and its line protocol go down, then the link comes up.\<close>

definition ex_updowns :: "log_line list" where
  "ex_updowns =
     [ex_updown 100 ''%LINK-3-UPDOWN'' ''Interface Gi0/1, changed state to down'',
      ex_updown 101 ''%LINEPROTO-5-UPDOWN'' ''Line protocol on Interface Gi0/1, changed state to down'',
      ex_updown 110 ''%LINK-3-UPDOWN'' ''Interface Gi0/1, changed state to up'']"

lemma ex_transitions:
  "map transition_of ex_updowns = [Some (''Gi0/1'', Link_down), Some (''Gi0/1'', Link_down), Some (''Gi0/1'', Link_up)]"
  by code_simp

lemma ex_updowns_sorted: "sort_key ln_ts ex_updowns = ex_updowns"
  by (simp add: ex_updowns_def ex_updown_def)

lemma ex_one_network: "one_network ex_te ''r1'' al = Inr (Some ''lab'')" if "al = None \<or> al = Some {''lab''}"
  using that by (auto simp: one_network_def networks_of_def ex_te_def)

lemma ex_logs: "l \<in> set ex_updowns \<Longrightarrow> logs_of ex_te Inr (Some {''lab''}) ''lab'' ''r1'' ''gi0/1'' l"
proof -
  assume l: "l \<in> set ex_updowns"
  have on: "mode_of ex_te ''lab'' \<noteq> M_off" by (simp add: mode_of_def ex_te_def ex_dry_def)
  have low: "lower ''Gi0/1'' = lower ''gi0/1''" by code_simp
  have "ln_dev l = ''r1''" using l by (auto simp: ex_updowns_def ex_updown_def)
  moreover have "\<exists>st. transition_of l = Some (''Gi0/1'', st)" using l ex_transitions by (auto simp: ex_updowns_def)
  ultimately show ?thesis using on low ex_one_network by (fastforce simp: logs_of_def)
qed

lemma ex_flap_fates:
  assumes "set ls \<subseteq> set ex_updowns"
  shows "\<exists>fates. collect (flap_fate ex_te Inr (Some {''lab''})) ls = Inr fates"
proof -
  have "\<exists>y. flap_fate ex_te Inr (Some {''lab''}) l = Inr y" if "l \<in> set ex_updowns" for l
  proof -
    from that have "ln_dev l = ''r1''" by (auto simp: ex_updowns_def ex_updown_def)
    then show ?thesis using ex_one_network by (auto simp: flap_fate_def split: option.split prod.split)
  qed
  then obtain g where "\<And>l. l \<in> set ex_updowns \<Longrightarrow> flap_fate ex_te Inr (Some {''lab''}) l = Inr (g l)" by metis
  then have "collect (flap_fate ex_te Inr (Some {''lab''})) ls = Inr (map g ls)" using assms by (intro collect_Inr) blast
  then show ?thesis by blast
qed

lemma ex_flap_step:
  "\<exists>c f. flaps_from_logs_tail ex_te Inr ''logs'' (Some {''lab''}) ex_updowns No_flaps = (Inr c, f)"
  using ex_flap_fates [of ex_updowns]
  by (auto simp: flaps_from_logs_tail_def newer_def ex_updowns_sorted Let_def split: prod.split)

text \<open>Two steps of the reader: the first takes the link's and the line protocol's going down, and the second is
  given both again, and the link's coming up.\<close>

definition ex_steps2 :: "(trigger_env \<times> store_id \<times> allowed \<times> log_line list) list" where
  "ex_steps2 = [(ex_te, ''logs'', Some {''lab''}, take 2 ex_updowns), (ex_te, ''logs'', Some {''lab''}, ex_updowns)]"

lemma ex_flap_run:
  "\<exists>f. flap_run Inr ex_steps2 No_flaps
     = ([(ex_te, Some {''lab''}, take 2 ex_updowns), (ex_te, Some {''lab''}, drop 2 ex_updowns)], f)"
proof -
  let ?al = "Some {''lab''}"
  have two: "newer ln_ts None (take 2 ex_updowns) = take 2 ex_updowns" "newer ln_ts (Some 101) ex_updowns = drop 2 ex_updowns"
    "line_cursor ln_ts (take 2 ex_updowns) None = Some 101"
    by (simp_all add: newer_def line_cursor_def newest_def ex_updowns_def ex_updown_def)
  have ne: "take 2 ex_updowns \<noteq> []" "drop 2 ex_updowns \<noteq> []" by (simp_all add: ex_updowns_def)
  obtain f1 f2 where f1: "collect (flap_fate ex_te Inr ?al) (take 2 ex_updowns) = Inr f1"
    and f2: "collect (flap_fate ex_te Inr ?al) (drop 2 ex_updowns) = Inr f2"
    using ex_flap_fates [OF set_take_subset] ex_flap_fates [OF set_drop_subset] by blast
  obtain n1 m1 where r1: "record_flaps (concat (map found_in f1)) (\<lambda>_. None) = (n1, m1)" by force
  obtain c1 d1 where s1: "flaps_from_logs_tail ex_te Inr ''logs'' ?al (take 2 ex_updowns) No_flaps = (Inr c1, Flaps d1)"
    and d1: "fd_cursors d1 ''logs'' = Some 101"
    using ne(1) f1 two r1 by (auto simp: flaps_from_logs_tail_def Let_def)
  obtain n2 m2 where r2: "record_flaps (concat (map found_in f2)) (fd_entries d1) = (n2, m2)" by force
  obtain c2 g where s2: "flaps_from_logs_tail ex_te Inr ''logs'' ?al ex_updowns (Flaps d1) = (Inr c2, g)"
    using ne(2) f2 two(2) d1 r2 by (auto simp: flaps_from_logs_tail_def Let_def)
  show ?thesis by (simp add: ex_steps2_def s1 s2 two d1)
qed

theorem flap_record_wf_witness:
  "\<exists>c f. flaps_from_logs_tail ex_te Inr ''logs'' (Some {''lab''}) ex_updowns No_flaps = (Inr c, f)
     \<and> (f = No_flaps \<or> flap_record (\<lambda>_. ''logs'') 200 (flaps_of f))"
proof -
  obtain c f where s: "flaps_from_logs_tail ex_te Inr ''logs'' (Some {''lab''}) ex_updowns No_flaps = (Inr c, f)"
    using ex_flap_step by blast
  from flap_record_wf [OF s flap_record_empty, of "\<lambda>_. ''logs''"] s show ?thesis by (auto simp: ex_te_def)
qed

theorem flap_counts_changes_witness:
  "\<exists>taken f. flap_run Inr ex_steps2 No_flaps = (taken, f) \<and> length taken = 2
     \<and> fn_transitions (flapping Inr f ''lab'' ''r1'' ''gi0/1'' 200 3 10) = 2
     \<and> \<not> fn_flapping (flapping Inr f ''lab'' ''r1'' ''gi0/1'' 200 3 10)"
proof -
  let ?al = "Some {''lab''}"
  obtain f where s: "flap_run Inr ex_steps2 No_flaps = ([(ex_te, ?al, take 2 ex_updowns), (ex_te, ?al, drop 2 ex_updowns)], f)"
    using ex_flap_run by blast
  have h: "history Inr ''lab'' ''r1'' ''gi0/1'' [(ex_te, ?al, take 2 ex_updowns), (ex_te, ?al, drop 2 ex_updowns)]
      = [(100, Link_down), (101, Link_down), (110, Link_up)]"
  proof -
    have all: "filter (logs_of ex_te Inr ?al ''lab'' ''r1'' ''gi0/1'') ls = ls" if "set ls \<subseteq> set ex_updowns" for ls
      using that ex_logs by (auto simp: filter_id_conv)
    have "history Inr ''lab'' ''r1'' ''gi0/1'' [(ex_te, ?al, take 2 ex_updowns), (ex_te, ?al, drop 2 ex_updowns)]
        = map (\<lambda>l. (ln_ts l, snd (the (transition_of l)))) (take 2 ex_updowns @ drop 2 ex_updowns)"
      using all [OF set_take_subset] all [OF set_drop_subset]
      by (simp add: history_def logged_def del: append_take_drop_id)
    then show ?thesis using ex_transitions by (simp add: ex_updowns_def ex_updown_def)
  qed
  have now: "te_now ex_te = 200" by (simp add: ex_te_def)
  have p: "te_now env \<le> 200" if "(env, st, al, ls) \<in> set ex_steps2" for env st al ls
    using that now by (auto simp: ex_steps2_def)
  have q: "200 - KEEP_SECONDS \<le> fst t" if "t \<in> set [(100, Link_down), (101, Link_down), (110, Link_up)]" for t :: "epoch \<times> link_state"
    using that by (auto simp: KEEP_SECONDS_def)
  have "flapping Inr f ''lab'' ''r1'' ''gi0/1'' 200 3 10 = \<lparr>fn_read = True, fn_flapping = (3 \<le> (2 :: nat)), fn_transitions = 2\<rparr>"
    using flap_counts_changes [OF s, where n = "''lab''" and x = "''lab''" and device = "''r1''" and interface = "''gi0/1''"
        and minutes = 10 and now = 200 and at_least = 3, unfolded h, OF _ _ _ p _ q]
    by (simp add: MAX_KEPT_def recorded_def known_state_def numeral_2_eq_2)
  with s show ?thesis by simp
qed


end
