(* ===== verification/Actions.thy ===== *)
theory Actions
  imports Flaps Kinds
begin

text \<open>
  The action remediations (\<open>modules/heal/actions.py\<close>): the port bounce, the OSPF reset through it, the BGP
  session clear and the dampening proposal, their guards 13a to 13e and their judgement. None is built
  yet (\<open>BUILT\<close>): the judgement refuses each by name.

  A guard answers nothing when it passes, or the hit that stops the action. What it judges on is an
  argument: the reads of the precondition, the far end as read, who holds it and the changes seen on it,
  committed intent, the rows of the actions done
  (a person's changes are counted from one up, by the schema), and the flap record's answer (\<open>Flaps\<close>). Addresses are
  those an interface's lines parse to. The operands and the words are not modelled.

  The lemmas: each guard stops exactly its own condition (the locale \<open>action_guard\<close>, interpreted on all
  five); an action passes only when it is built and every guard that applies was judged and passed; and
  no bounce passes while guard 13c's last two parts are not built.
\<close>

section \<open>Kinds and guards\<close>

definition ACTION_KINDS :: "fix_kind list" where
  "ACTION_KINDS = [K_port_bounce, K_session_clear, K_ospf_reset, K_dampening_proposal]"

definition NOT_BUILT :: "fix_kind list" where
  "NOT_BUILT = [K_port_bounce, K_ospf_reset, K_session_clear, K_dampening_proposal]"

definition BUILT :: "fix_kind list" where "BUILT = filter (\<lambda>k. k \<notin> set NOT_BUILT) ACTION_KINDS"

definition BOUNCES :: "fix_kind list" where "BOUNCES = [K_port_bounce, K_ospf_reset]"

definition action_tier :: "fix_kind \<Rightarrow> bool \<Rightarrow> nat" where
  "action_tier k lab = (if k = K_session_clear \<and> \<not> lab then 2 else TIER k)"

datatype action_guard_id = G13a | G13b | G13c | G13d | G13e

definition ACTION_GUARDS :: "(action_guard_id \<times> fix_kind list) list" where
  "ACTION_GUARDS =
     [(G13a, [K_port_bounce, K_session_clear, K_ospf_reset, K_dampening_proposal]),
      (G13b, BOUNCES), (G13c, BOUNCES),
      (G13d, [K_port_bounce, K_session_clear, K_ospf_reset]),
      (G13e, [K_port_bounce, K_ospf_reset, K_dampening_proposal])]"

datatype action_outcome = Passes | Resolved | On_hold | Cannot | Instead

record action_hit =
  ah_guard :: action_guard_id
  ah_outcome :: action_outcome
  ah_until :: "epoch option"
  ah_tier :: nat
  ah_instead :: "fix_kind option"

definition stop_of :: "action_guard_id \<Rightarrow> action_outcome \<Rightarrow> nat \<Rightarrow> action_hit" where
  "stop_of g out tier = \<lparr>ah_guard = g, ah_outcome = out, ah_until = None, ah_tier = tier, ah_instead = None\<rparr>"

section \<open>13a: the precondition, read again\<close>

text \<open>What a read's facts hold; \<open>None\<close> is a fact that is absent.\<close>

record action_facts =
  af_state :: "string option"
  af_neighbours :: "string list option"
  af_established :: "bool option"
  af_soft :: bool
  af_flapping :: "bool option"

definition stuck :: "string \<Rightarrow> bool" where "stuck state \<longleftrightarrow> lower state \<notin> {''full'', ''2way''}"

definition precondition :: "fix_kind \<Rightarrow> action_facts option \<Rightarrow> bool option" where
  "precondition k facts =
     (case facts of
        None \<Rightarrow> None
      | Some f \<Rightarrow>
          (if k = K_port_bounce then Some (af_state f = Some ''down'')
           else if k = K_ospf_reset then
             map_option (\<lambda>rows. length rows = 1 \<and> length (filter stuck rows) = 1) (af_neighbours f)
           else if k = K_session_clear then map_option (\<lambda>est. if af_soft f then est else \<not> est) (af_established f)
           else if k = K_dampening_proposal then af_flapping f
           else None))"

definition g13a_fresh :: "bool option \<times> bool option \<Rightarrow> action_hit option" where
  "g13a_fresh da =
     (let (decided, again) = da in
      if decided \<noteq> Some True then Some (stop_of G13a Cannot 0)
      else case again of
        None \<Rightarrow> Some (stop_of G13a Cannot 0)
      | Some yes \<Rightarrow> if yes then None else Some (stop_of G13a Resolved 0))"

section \<open>13b: the far end up and not held\<close>

record far_end =
  fx_device :: device
  fx_managed :: bool
  fx_state :: string
  fx_holder :: "heal_error + bool"
  fx_working :: "heal_error + epoch list"
  fx_changes :: nat
  fx_minutes :: nat

text \<open>\<open>outside_changes_on\<close>: what guard 7 counts, for the far end.\<close>

definition outside_changes_on :: "store \<Rightarrow> device \<Rightarrow> heal_error + epoch list" where
  "outside_changes_on st d =
     (if st = Unreadable_store then Inl Store_unreadable
      else Inr (sort (concat (map (\<lambda>inc. outside_changes (inc\<lparr>i_defer_until := None\<rparr>))
             (filter (\<lambda>inc. i_device inc = d \<and> is_open inc) (held st))))))"

definition recent_on :: "far_end \<Rightarrow> epoch \<Rightarrow> epoch list \<Rightarrow> epoch list" where
  "recent_on far now seen = filter (\<lambda>t. now - real (fx_minutes far) * 60 \<le> t \<and> t \<le> now) seen"

definition hold_until :: "epoch \<Rightarrow> action_hit" where
  "hold_until u = (stop_of G13b On_hold 0)\<lparr>ah_until := Some u\<rparr>"

definition g13b_far_end :: "far_end \<times> epoch \<Rightarrow> action_hit option" where
  "g13b_far_end fn =
     (let (far, now) = fn in
      if fx_device far = '''' \<or> \<not> fx_managed far then Some (stop_of G13b Cannot 3)
      else if fx_state far \<noteq> ''up'' then Some (stop_of G13b Cannot 3)
      else case fx_holder far of
        Inl _ \<Rightarrow> Some (hold_until (now + 60))
      | Inr h \<Rightarrow>
          (if h then Some (hold_until (now + 60))
           else case fx_working far of
             Inl _ \<Rightarrow> Some (hold_until (now + 60))
           | Inr seen \<Rightarrow>
               (let recent = recent_on far now seen in
                if fx_changes far \<le> length recent
                then Some (hold_until (Max (set recent) + real (fx_minutes far) * 60))
                else None)))"

section \<open>13c: never Mercury's path\<close>

type_synonym ip_address = "family \<times> nat"

record path_read =
  px_interface :: string
  px_mgmt_ip :: string
  px_parse :: "string \<Rightarrow> ip_address option"
  px_intent :: "(string \<times> ip_address list) list"

definition carries :: "path_read \<Rightarrow> ip_address list \<Rightarrow> bool" where
  "carries px as = (case px_parse px (px_mgmt_ip px) of None \<Rightarrow> False | Some a \<Rightarrow> a \<in> set as)"

text \<open>Every branch stops: the device's route and only path are not read until the bounce is built.\<close>

definition g13c_path :: "path_read \<Rightarrow> action_hit option" where
  "g13c_path px =
     (if px_mgmt_ip px = '''' then Some (stop_of G13c Cannot 4)
      else case find (\<lambda>(name, _). lower (strip name) = lower (strip (px_interface px))) (px_intent px) of
        None \<Rightarrow> Some (stop_of G13c Cannot 4)
      | Some (_, as) \<Rightarrow>
          (if carries px as then Some (stop_of G13c Cannot 4) else Some (stop_of G13c Cannot 4)))"

section \<open>13d: once\<close>

record action_row =
  hr_kind :: fix_kind
  hr_device :: device
  hr_interface :: string
  hr_peer :: string
  hr_incident :: string
  hr_epoch :: epoch

record once_read =
  on_kind :: fix_kind
  on_rows :: "action_row list"
  on_device :: device
  on_interface :: string
  on_peer :: string
  on_incident :: string
  on_now :: epoch
  on_per_hour :: nat
  on_repeat_hours :: nat

definition bounced_before :: "once_read \<Rightarrow> action_row list" where
  "bounced_before x =
     filter (\<lambda>r. hr_kind r \<in> set BOUNCES \<and> hr_device r = on_device x
                \<and> lower (hr_interface r) = lower (on_interface x)
                \<and> on_now x - real (on_repeat_hours x) * 3600 \<le> hr_epoch r) (on_rows x)"

definition cleared_before :: "once_read \<Rightarrow> action_row list" where
  "cleared_before x =
     filter (\<lambda>r. hr_kind r = K_session_clear \<and> hr_device r = on_device x \<and> hr_peer r = on_peer x
                \<and> hr_incident r = on_incident x) (on_rows x)"

definition g13d_once :: "once_read \<Rightarrow> action_hit option" where
  "g13d_once x =
     (if on_kind x \<in> set BOUNCES then
        (if bounced_before x \<noteq> [] then Some ((stop_of G13d Instead 0)\<lparr>ah_instead := Some K_dampening_proposal\<rparr>)
         else if on_per_hour x < 1 then Some (stop_of G13d Cannot 3)
         else None)
      else if on_kind x = K_session_clear \<and> cleared_before x \<noteq> [] then Some (stop_of G13d Cannot 3)
      else None)"

section \<open>13e: a flap is measured\<close>

definition g13e_flap :: "fix_kind \<times> flap_now \<Rightarrow> action_hit option" where
  "g13e_flap kf =
     (let (k, flap) = kf in
      if \<not> fn_read flap then Some (stop_of G13e Cannot 0)
      else if k = K_dampening_proposal \<and> \<not> fn_flapping flap then Some (stop_of G13e Resolved 0)
      else None)"

section \<open>The judgement\<close>

record action_verdict =
  vx_outcome :: action_outcome
  vx_guard :: "action_guard_id option"
  vx_tier :: nat
  vx_instead :: "fix_kind option"

text \<open>A guard that applies and was not judged applies.\<close>

fun judge_guards :: "action_guard_id list \<Rightarrow> (action_guard_id \<Rightarrow> action_hit option option) \<Rightarrow> action_verdict" where
  "judge_guards [] facts = \<lparr>vx_outcome = Passes, vx_guard = None, vx_tier = 0, vx_instead = None\<rparr>"
| "judge_guards (g # gs) facts =
     (case (case facts g of None \<Rightarrow> Some (stop_of g Cannot 0) | Some a \<Rightarrow> a) of
        None \<Rightarrow> judge_guards gs facts
      | Some h \<Rightarrow> \<lparr>vx_outcome = ah_outcome h, vx_guard = Some (ah_guard h), vx_tier = ah_tier h, vx_instead = ah_instead h\<rparr>)"

definition guards_for :: "fix_kind \<Rightarrow> action_guard_id list" where
  "guards_for k = map fst (filter (\<lambda>(_, ks). k \<in> set ks) ACTION_GUARDS)"

definition judge_action ::
    "fix_kind \<Rightarrow> (action_guard_id \<Rightarrow> action_hit option option) \<Rightarrow> fix_kind list \<Rightarrow> action_verdict" where
  "judge_action k facts built =
     (if k \<notin> set ACTION_KINDS then \<lparr>vx_outcome = Cannot, vx_guard = None, vx_tier = 4, vx_instead = None\<rparr>
      else if k \<notin> set built then \<lparr>vx_outcome = Cannot, vx_guard = None, vx_tier = 0, vx_instead = None\<rparr>
      else judge_guards (guards_for k) facts)"

section \<open>What a guard stops\<close>

locale action_guard =
  fixes gid :: action_guard_id and stops :: "'s \<Rightarrow> bool" and answer :: "'s \<Rightarrow> action_hit option"
  assumes answers_iff: "answer s \<noteq> None \<longleftrightarrow> stops s"
    and never_passes: "answer s = Some h \<Longrightarrow> ah_guard h = gid \<and> ah_outcome h \<noteq> Passes"
begin

lemma passes_iff: "answer s = None \<longleftrightarrow> \<not> stops s"
  using answers_iff by blast

text \<open>An action judged on the guard's answer is stopped where the guard's condition holds.\<close>

lemma judged_not_passed:
  assumes "stops s" "facts gid = Some (answer s)" "gid \<in> set gs"
    and "\<And>g h. facts g = Some (Some h) \<Longrightarrow> ah_outcome h \<noteq> Passes"
  shows "vx_outcome (judge_guards gs facts) \<noteq> Passes"
  using assms(3)
proof (induction gs)
  case (Cons g gs)
  from assms(1) answers_iff [of s] obtain h where h: "answer s = Some h" by blast
  show ?case
  proof (cases "facts g")
    case None
    then show ?thesis by (simp add: stop_of_def)
  next
    case (Some a)
    show ?thesis
    proof (cases a)
      case None
      with Some h assms(2) Cons show ?thesis by (cases "g = gid") auto
    next
      case (Some h')
      with \<open>facts g = Some a\<close> assms(4) [of g h'] show ?thesis by simp
    qed
  qed
qed simp

end

interpretation a13a: action_guard G13a "\<lambda>(decided, again). decided \<noteq> Some True \<or> again \<noteq> Some True" g13a_fresh
  by unfold_locales (auto simp: g13a_fresh_def stop_of_def split: option.splits if_splits)

definition far_end_busy :: "far_end \<times> epoch \<Rightarrow> bool" where
  "far_end_busy fn \<longleftrightarrow> (let (far, now) = fn in
     fx_device far = '''' \<or> \<not> fx_managed far \<or> fx_state far \<noteq> ''up'' \<or> fx_holder far \<noteq> Inr False
     \<or> (\<forall>seen. fx_working far = Inr seen \<longrightarrow> fx_changes far \<le> length (recent_on far now seen)))"

interpretation a13b: action_guard G13b far_end_busy g13b_far_end
  by unfold_locales
    (auto simp: g13b_far_end_def far_end_busy_def hold_until_def stop_of_def Let_def split: sum.splits if_splits)

interpretation a13c: action_guard G13c "\<lambda>_. True" g13c_path
  by unfold_locales (auto simp: g13c_path_def stop_of_def split: option.splits if_splits)

interpretation a13d: action_guard G13d
  "\<lambda>x. if on_kind x \<in> set BOUNCES then bounced_before x \<noteq> [] \<or> on_per_hour x = 0
       else on_kind x = K_session_clear \<and> cleared_before x \<noteq> []" g13d_once
  by unfold_locales (auto simp: g13d_once_def stop_of_def split: if_splits)

interpretation a13e: action_guard G13e
  "\<lambda>(k, flap). \<not> fn_read flap \<or> k = K_dampening_proposal \<and> \<not> fn_flapping flap" g13e_flap
  by unfold_locales (auto simp: g13e_flap_def stop_of_def split: if_splits)

section \<open>What passes\<close>

lemma guards_for_simps:
  "guards_for K_port_bounce = [G13a, G13b, G13c, G13d, G13e]"
  "guards_for K_ospf_reset = [G13a, G13b, G13c, G13d, G13e]"
  "guards_for K_session_clear = [G13a, G13d]"
  "guards_for K_dampening_proposal = [G13a, G13e]"
  by (simp_all add: guards_for_def ACTION_GUARDS_def BOUNCES_def)

lemma judge_guards_passes:
  assumes "\<And>g h. facts g = Some (Some h) \<Longrightarrow> ah_outcome h \<noteq> Passes"
  shows "vx_outcome (judge_guards gs facts) = Passes \<longleftrightarrow> (\<forall>g \<in> set gs. facts g = Some None)"
proof (induction gs)
  case (Cons g gs)
  then show ?case using assms [of g] by (auto simp: stop_of_def split: option.splits)
qed simp

text \<open>The reads of an action, and each guard's answer on them.\<close>

record action_reads =
  rd_decided :: "action_facts option"
  rd_again :: "action_facts option"
  rd_far :: far_end
  rd_path :: path_read
  rd_once :: once_read
  rd_flap :: flap_now
  rd_now :: epoch

definition once_of :: "fix_kind \<Rightarrow> action_reads \<Rightarrow> once_read" where
  "once_of k rd = (rd_once rd)\<lparr>on_kind := k\<rparr>"

fun guard_answer :: "fix_kind \<Rightarrow> action_reads \<Rightarrow> action_guard_id \<Rightarrow> action_hit option" where
  "guard_answer k rd G13a = g13a_fresh (precondition k (rd_decided rd), precondition k (rd_again rd))"
| "guard_answer k rd G13b = g13b_far_end (rd_far rd, rd_now rd)"
| "guard_answer k rd G13c = g13c_path (rd_path rd)"
| "guard_answer k rd G13d = g13d_once (once_of k rd)"
| "guard_answer k rd G13e = g13e_flap (k, rd_flap rd)"

lemma guard_answer_stops: "guard_answer k rd g = Some h \<Longrightarrow> ah_outcome h \<noteq> Passes"
  by (cases g)
    (auto dest: a13a.never_passes a13b.never_passes a13c.never_passes a13d.never_passes a13e.never_passes)

lemma judge_action_passes:
  "vx_outcome (judge_action k (\<lambda>g. Some (guard_answer k rd g)) built) = Passes \<longleftrightarrow>
   k \<in> set ACTION_KINDS \<and> k \<in> set built \<and> (\<forall>g \<in> set (guards_for k). guard_answer k rd g = None)"
  using judge_guards_passes [of "\<lambda>g. Some (guard_answer k rd g)" "guards_for k"] guard_answer_stops
  by (auto simp: judge_action_def)

text \<open>C36: exactly this is ever done. Whatever is built, of the four actions no bounce passes, for guard 13c is not
  whole; a session clear passes exactly when its precondition held on the read it was decided on and
  again before the send and the session was not cleared in this incident; a dampening proposal exactly
  when, besides, a flap was measured. With what is built today, nothing passes.\<close>

theorem actions_pass_exactly:
  "(vx_outcome (judge_action k (\<lambda>g. Some (guard_answer k rd g)) built) = Passes \<longleftrightarrow>
     k \<in> {K_session_clear, K_dampening_proposal} \<and> k \<in> set built
     \<and> precondition k (rd_decided rd) = Some True \<and> precondition k (rd_again rd) = Some True
     \<and> (if k = K_session_clear then cleared_before (once_of k rd) = []
        else fn_read (rd_flap rd) \<and> fn_flapping (rd_flap rd)))
   \<and> vx_outcome (judge_action k facts BUILT) \<noteq> Passes"
proof (intro conjI)
  note p = a13a.passes_iff a13c.passes_iff a13d.passes_iff a13e.passes_iff
  have "k = K_port_bounce \<or> k = K_ospf_reset \<or> k = K_session_clear \<or> k = K_dampening_proposal \<or> k \<notin> set ACTION_KINDS"
    by (auto simp: ACTION_KINDS_def)
  then show "vx_outcome (judge_action k (\<lambda>g. Some (guard_answer k rd g)) built) = Passes \<longleftrightarrow>
     k \<in> {K_session_clear, K_dampening_proposal} \<and> k \<in> set built
     \<and> precondition k (rd_decided rd) = Some True \<and> precondition k (rd_again rd) = Some True
     \<and> (if k = K_session_clear then cleared_before (once_of k rd) = []
        else fn_read (rd_flap rd) \<and> fn_flapping (rd_flap rd))"
    unfolding judge_action_passes
    by (elim disjE) (auto simp: guards_for_simps p once_of_def BOUNCES_def ACTION_KINDS_def)
  show "vx_outcome (judge_action k facts BUILT) \<noteq> Passes"
    by (simp add: judge_action_def BUILT_def ACTION_KINDS_def NOT_BUILT_def)
qed

text \<open>A far end a person works on, or an operation holds, holds every bounce.\<close>

lemma bounce_held_by_far_end:
  assumes "far_end_busy (rd_far rd, rd_now rd)" "k \<in> set BOUNCES"
  shows "vx_outcome (judge_guards (guards_for k) (\<lambda>g. Some (guard_answer k rd g))) \<noteq> Passes"
  using a13b.judged_not_passed [OF assms(1), of "\<lambda>g. Some (guard_answer k rd g)" "guards_for k"] assms(2) guard_answer_stops
  by (auto simp: BOUNCES_def guards_for_simps)


end
