(* ===== verification/Holds.thy ===== *)
theory Holds
  imports Authorise "HOL-Library.AList"
begin

text \<open>
  One operation per device at a time (\<open>modules/nsot/device_ops.py\<close>): what a heal holds its device
  with, as every other operation that changes a device does. The lock is an exclusive \<open>flock\<close> on one
  file per device, which also holds the holder's record; beside the files a network's folder keeps a
  marker for each device whose file may carry a record.

  The state \<open>fleet\<close> is the folders on disk, the kernel's locks, and each process's table of holds
  (\<open>_held\<close>). The code's operations are cut at each change another process can see: \<open>perform\<close> is the
  next such step of any thread of any process, the retries of an acquire, its marking, the record of
  an operation that did not finish, the three steps of a release, a note between its truncation and
  its write, an indexing, a probe's shared lock, a failed system call and a process's end included;
  \<open>reach\<close> is what any interleaving of them reaches. A process's mutex (\<open>_mu\<close>) is its \<open>inside\<close>: the
  operation in progress under it. The readers (\<open>holder\<close>, \<open>held_in\<close>, \<open>interrupted_in\<close> and the rest)
  read one such state.

  The lock files' names are modelled on ASCII names. The sentences of a refusal, the announcements and
  the database the kept log may have moved to are not modelled; a file system without \<open>flock\<close> is not.
\<close>

section \<open>Names\<close>

type_synonym pid = nat
type_synonym tid = nat
type_synonym lkey = string
type_synonym key = "lkey \<times> string"        \<comment> \<open>of \<open>_held\<close>: the list's slug, the hostname\<close>
type_synonym lock_path = "lkey \<times> string"       \<comment> \<open>the list's folder, the lock file's name without \<open>.lock\<close>\<close>

definition name_char :: "char \<Rightarrow> bool" where
  "name_char c = (let n = (of_char c :: nat) in
     (48 \<le> n \<and> n \<le> 57) \<or> (65 \<le> n \<and> n \<le> 90) \<or> (97 \<le> n \<and> n \<le> 122) \<or> n = 95)"

text \<open>\<open>_safe\<close>: each character outside \<open>A-Za-z0-9_.-\<close> an underscore.\<close>

definition safe_char :: "char \<Rightarrow> char" where
  "safe_char c = (if name_char c \<or> c = CHR ''.'' \<or> c = CHR ''-'' then c else CHR ''_'')"

definition safe_name :: "string \<Rightarrow> string" where
  "safe_name s = (if s = '''' then ''_'' else map safe_char s)"

text \<open>\<open>config.list_slug\<close>: lower-cased, each run of other characters one underscore, none at an end.\<close>

fun one_run :: "bool \<Rightarrow> string \<Rightarrow> string" where
  "one_run after [] = []"
| "one_run after (c # s) =
     (if name_char c then c # one_run False s else if after then one_run True s else CHR ''_'' # one_run True s)"

definition strip_bars :: "string \<Rightarrow> string" where
  "strip_bars s = (let bar = (\<lambda>c. c = CHR ''_'') in rev (dropWhile bar (rev (dropWhile bar s))))"

definition list_slug :: "string \<Rightarrow> string" where
  "list_slug s = (let t = strip_bars (one_run False (lower s)) in if t = '''' then ''default'' else t)"

definition list_key :: "string \<Rightarrow> lkey" where "list_key s = list_slug s"

text \<open>A slug is its own slug, so that a folder's name names its list.\<close>

lemma lower_char_idem [simp]: "lower_char (lower_char c) = lower_char c"
  by (simp add: lower_char_def Let_def)

lemma one_run_word: "c \<in> set (one_run b s) \<Longrightarrow> name_char c \<and> (c \<in> set s \<or> c = CHR ''_'')"
  by (induction b s rule: one_run.induct) (auto simp: name_char_def split: if_splits)

lemma one_run_words: "\<forall>c \<in> set s. name_char c \<Longrightarrow> one_run b s = s"
  by (induction s arbitrary: b) simp_all

lemma strip_bars_ends:
  assumes "strip_bars s \<noteq> []"
  shows "hd (strip_bars s) \<noteq> CHR ''_''" "last (strip_bars s) \<noteq> CHR ''_''"
proof -
  define bar where "bar = (\<lambda>c. c = CHR ''_'')"
  define x where "x = dropWhile bar s"
  have u: "strip_bars s = rev (dropWhile bar (rev x))" by (simp add: strip_bars_def bar_def x_def Let_def)
  have ne: "dropWhile bar (rev x) \<noteq> []" using assms u by auto
  then show "last (strip_bars s) \<noteq> CHR ''_''" using hd_dropWhile [OF ne] by (simp add: u last_rev bar_def)
  have "rev x = takeWhile bar (rev x) @ dropWhile bar (rev x)" by simp
  then have "x = strip_bars s @ rev (takeWhile bar (rev x))" using u by (metis rev_append rev_rev_ident)
  then have "hd x = hd (strip_bars s)" "x \<noteq> []" using assms by (metis hd_append2, force)
  then show "hd (strip_bars s) \<noteq> CHR ''_''" using hd_dropWhile [of bar s] by (simp add: x_def bar_def)
qed

lemma strip_bars_id: "s = [] \<or> hd s \<noteq> CHR ''_'' \<and> last s \<noteq> CHR ''_'' \<Longrightarrow> strip_bars s = s"
proof -
  assume ends: "s = [] \<or> hd s \<noteq> CHR ''_'' \<and> last s \<noteq> CHR ''_''"
  have "dropWhile (\<lambda>c. c = CHR ''_'') xs = xs" if "xs = [] \<or> hd xs \<noteq> CHR ''_''" for xs
    using that by (cases xs) auto
  from this [of s] this [of "rev s"] ends show "strip_bars s = s" by (auto simp: strip_bars_def hd_rev)
qed

lemma strip_bars_set: "set (strip_bars s) \<subseteq> set s"
  by (auto simp: strip_bars_def Let_def dest!: set_dropWhileD)

lemma list_key_idem [simp]: "list_key (list_key s) = list_key s"
proof (cases "strip_bars (one_run False (lower s)) = []")
  case True
  then have "list_key s = ''default''" by (simp add: list_key_def list_slug_def)
  moreover have "list_key ''default'' = ''default''" by code_simp
  ultimately show ?thesis by simp
next
  case False
  let ?t = "strip_bars (one_run False (lower s))"
  have c: "name_char c \<and> lower_char c = c" if "c \<in> set ?t" for c
  proof -
    have "c \<in> set (one_run False (lower s))" using that strip_bars_set by blast
    then have "name_char c \<and> (c \<in> set (lower s) \<or> c = CHR ''_'')" by (rule one_run_word)
    moreover have "lower_char CHR ''_'' = CHR ''_''" by code_simp
    ultimately show ?thesis by (auto simp: lower_def)
  qed
  have "lower ?t = ?t" using map_idI [of ?t lower_char] c by (simp add: lower_def [of ?t])
  moreover have "one_run False ?t = ?t" by (rule one_run_words) (use c in blast)
  moreover have "strip_bars ?t = ?t" using strip_bars_ends [OF False] strip_bars_id by blast
  ultimately have "list_slug ?t = ?t" using False by (simp add: list_slug_def)
  then show ?thesis using False by (simp add: list_key_def list_slug_def)
qed

lemma safe_char_idem [simp]: "safe_char (safe_char c) = safe_char c"
proof -
  have "safe_char CHR ''_'' = CHR ''_''" by code_simp
  then show ?thesis by (cases "safe_char c = c") (auto simp: safe_char_def)
qed

lemma safe_name_idem [simp]: "safe_name (safe_name s) = safe_name s"
proof -
  have "safe_name ''_'' = ''_''" by code_simp
  then show ?thesis by (cases "s = []") (simp_all add: safe_name_def)
qed

definition path_of :: "key \<Rightarrow> lock_path" where "path_of k = (fst k, safe_name (snd k))"

section \<open>The folders\<close>

text \<open>A holder's record. What a record may lack is empty, and \<open>None\<close> where its absence is read.\<close>

record progress =
  pg_step :: string
  pg_at :: epoch
  pg_trail :: "(string \<times> epoch) list"

record hold_rec =
  hl_device :: string
  hl_list :: string
  hl_operation :: string
  hl_actor :: string
  hl_detail :: string
  hl_started :: "epoch option"
  hl_ip :: string
  hl_pid :: pid
  hl_progress :: "progress option"

definition no_rec :: hold_rec where
  "no_rec = \<lparr>hl_device = '''', hl_list = '''', hl_operation = '''', hl_actor = '''', hl_detail = '''',
     hl_started = None, hl_ip = '''', hl_pid = 0, hl_progress = None\<rparr>"

datatype content = Blank | Rec hold_rec | Damaged

text \<open>A line of the kept log: the record, when it was found and by whom; \<open>None\<close> is one that does not
  parse.\<close>

record kept_entry =
  ke_rec :: hold_rec
  ke_found_at :: epoch
  ke_operation :: string
  ke_actor :: string

record folder =
  lf_files :: "(string \<times> content) list"
  lf_marks :: "string list"
  lf_indexed :: bool
  lf_kept :: "kept_entry option list"

definition no_folder :: folder where
  "no_folder = \<lparr>lf_files = [], lf_marks = [], lf_indexed = False, lf_kept = []\<rparr>"

section \<open>The state\<close>

record hold =
  hd_count :: nat
  hd_thread :: tid
  hd_rec :: hold_rec

text \<open>Where an acquire is, once it has the \<open>flock\<close>: nothing done yet, its device marked, what was left
  in the file kept, the file emptied.\<close>

datatype taking_stage = Flocked | Marked | Kept | Emptied

text \<open>What a process does under its mutex: an acquire that has tried \<open>n\<close> times, an acquire that has the
  \<open>flock\<close>, or a note with the holds it has still to write (the first of them already truncated or
  not).\<close>

datatype inside =
    Trying tid key hold_rec nat
  | Taking tid key hold_rec taking_stage
  | Noting string epoch "key list" bool

text \<open>Where a release is, out of the table: its record still in the file, the file emptied, unmarked.\<close>

datatype leave = Popped | Cleared | Unmarked

text \<open>\<open>ended\<close> and \<open>unkept\<close> are history, which no step reads: the records in the lock files of the holds
  whose process ended, and the records whose append to the kept log failed.\<close>

record fleet =
  folders :: "(lkey \<times> folder) list"
  locks :: "lock_path \<Rightarrow> pid option"
  probes :: "lock_path \<Rightarrow> nat"
  table :: "pid \<Rightarrow> (key \<times> hold) list"
  inside_of :: "pid \<Rightarrow> inside option"
  leaving :: "lock_path \<Rightarrow> (pid \<times> leave) option"
  indexers :: "nat \<Rightarrow> (lkey \<times> string list \<times> string option) option"
  ended :: "(lock_path \<times> hold_rec) list"
  unkept :: "(lock_path \<times> hold_rec) list"

definition folder_of :: "fleet \<Rightarrow> lkey \<Rightarrow> folder" where
  "folder_of s l = (case map_of (folders s) l of None \<Rightarrow> no_folder | Some f \<Rightarrow> f)"

definition in_folder :: "lkey \<Rightarrow> (folder \<Rightarrow> folder) \<Rightarrow> fleet \<Rightarrow> fleet" where
  "in_folder l g s = s\<lparr>folders := AList.update l (g (folder_of s l)) (folders s)\<rparr>"

definition content_of :: "fleet \<Rightarrow> lock_path \<Rightarrow> content option" where
  "content_of s pt = map_of (lf_files (folder_of s (fst pt))) (snd pt)"

definition put_content :: "lock_path \<Rightarrow> content \<Rightarrow> fleet \<Rightarrow> fleet" where
  "put_content pt c = in_folder (fst pt) (\<lambda>f. f\<lparr>lf_files := AList.update (snd pt) c (lf_files f)\<rparr>)"

definition marked :: "fleet \<Rightarrow> lock_path \<Rightarrow> bool" where
  "marked s pt \<longleftrightarrow> snd pt \<in> set (lf_marks (folder_of s (fst pt)))"

definition mark :: "lock_path \<Rightarrow> fleet \<Rightarrow> fleet" where
  "mark pt = in_folder (fst pt) (\<lambda>f. f\<lparr>lf_marks := List.insert (snd pt) (lf_marks f)\<rparr>)"

definition unmark :: "lock_path \<Rightarrow> fleet \<Rightarrow> fleet" where
  "unmark pt = in_folder (fst pt) (\<lambda>f. f\<lparr>lf_marks := removeAll (snd pt) (lf_marks f)\<rparr>)"

definition indexed :: "fleet \<Rightarrow> lkey \<Rightarrow> bool" where
  "indexed s l = lf_indexed (folder_of s l)"

definition kept :: "fleet \<Rightarrow> lkey \<Rightarrow> kept_entry option list" where
  "kept s l = lf_kept (folder_of s l)"

text \<open>\<open>st_size\<close> is not zero.\<close>

definition sized :: "content option \<Rightarrow> bool" where
  "sized c = (c \<noteq> None \<and> c \<noteq> Some Blank)"

definition start_fleet :: "(lkey \<times> folder) list \<Rightarrow> fleet" where
  "start_fleet fs = \<lparr>folders = fs, locks = (\<lambda>_. None), probes = (\<lambda>_. 0), table = (\<lambda>_. []),
     inside_of = (\<lambda>_. None), leaving = (\<lambda>_. None), indexers = (\<lambda>_. None), ended = [], unkept = []\<rparr>"


section \<open>Taking a device\<close>

definition PROBE_RETRIES :: nat where "PROBE_RETRIES = 5"

text \<open>\<open>_read_holder_file\<close>: what says nothing reads as an unknown holder.\<close>

definition unknown_rec :: "string \<Rightarrow> hold_rec" where
  "unknown_rec host = no_rec\<lparr>hl_device := host, hl_operation := ''?'', hl_started := Some 0\<rparr>"

definition read_rec :: "content option \<Rightarrow> string \<Rightarrow> hold_rec" where
  "read_rec c host = (case c of Some (Rec r) \<Rightarrow> r | _ \<Rightarrow> unknown_rec host)"

definition new_info ::
    "pid \<Rightarrow> string \<Rightarrow> string \<Rightarrow> string \<Rightarrow> string \<Rightarrow> string \<Rightarrow> string \<Rightarrow> epoch \<Rightarrow> hold_rec" where
  "new_info p list_name host operation actor detail ip now =
     \<lparr>hl_device = host, hl_list = list_name, hl_operation = operation, hl_actor = actor, hl_detail = detail,
      hl_started = Some now, hl_ip = ip, hl_pid = p,
      hl_progress = Some \<lparr>pg_step = ''started'', pg_at = now, pg_trail = []\<rparr>\<rparr>"

text \<open>\<open>acquire\<close> before the file: refused as not managed (\<open>inventory.management.hold_refusal\<close>, an
  argument), entered again by the thread that holds it, refused to any other, or to be tried.\<close>

datatype front =
    Not_managed
  | Again "(key \<times> hold) list"
  | Busy_here hold_rec
  | Try key

definition acquire_front ::
    "(string \<Rightarrow> string \<Rightarrow> string \<Rightarrow> bool) \<Rightarrow> (key \<times> hold) list \<Rightarrow> tid \<Rightarrow> string \<Rightarrow> string \<Rightarrow> string \<Rightarrow> front" where
  "acquire_front refuses tb me list_name host operation =
     (if refuses list_name host operation then Not_managed
      else let k = (list_key list_name, host) in
        case map_of tb k of
          Some h \<Rightarrow>
            if hd_thread h = me then Again (AList.update k (h\<lparr>hd_count := hd_count h + 1\<rparr>) tb)
            else Busy_here (hd_rec h)
        | None \<Rightarrow> Try k)"

text \<open>One attempt at the \<open>flock\<close>, the \<open>n\<close>th: an empty record is a probe's instant lock, waited out.\<close>

datatype try_answer = Got | Wait | Refuse hold_rec

definition attempt :: "bool \<Rightarrow> content option \<Rightarrow> string \<Rightarrow> nat \<Rightarrow> try_answer" where
  "attempt free c host n =
     (if free then Got
      else let found = read_rec c host in
        if hl_operation found \<noteq> ''?'' \<or> n = PROBE_RETRIES then Refuse found else Wait)"

text \<open>\<open>_record_interrupted\<close>: what is kept of a record left in the file, with who took the device next.\<close>

definition with_device :: "string \<Rightarrow> hold_rec \<Rightarrow> hold_rec" where
  "with_device host r = (if hl_device r = '''' then r\<lparr>hl_device := host\<rparr> else r)"

definition left_rec :: "content \<Rightarrow> hold_rec option" where
  "left_rec c = (case c of Blank \<Rightarrow> None | Rec r \<Rightarrow> Some r | Damaged \<Rightarrow> Some no_rec)"

definition record_interrupted :: "string \<Rightarrow> hold_rec \<Rightarrow> hold_rec \<Rightarrow> epoch \<Rightarrow> kept_entry" where
  "record_interrupted host left info now =
     \<lparr>ke_rec = with_device host left, ke_found_at = now,
      ke_operation = hl_operation info, ke_actor = hl_actor info\<rparr>"

definition append_kept :: "lkey \<Rightarrow> kept_entry \<Rightarrow> fleet \<Rightarrow> fleet" where
  "append_kept l e = in_folder l (\<lambda>f. f\<lparr>lf_kept := lf_kept f @ [Some e]\<rparr>)"

section \<open>The steps of an acquire\<close>

text \<open>A step that is not the next one of any thread is \<open>None\<close>.\<close>

definition step_begin ::
    "(string \<Rightarrow> string \<Rightarrow> string \<Rightarrow> bool) \<Rightarrow> pid \<Rightarrow> tid \<Rightarrow> string \<Rightarrow> string \<Rightarrow> string \<Rightarrow> string \<Rightarrow> string \<Rightarrow> string
     \<Rightarrow> epoch \<Rightarrow> fleet \<Rightarrow> fleet option" where
  "step_begin refuses p t list_name host operation actor detail ip now s =
     (if inside_of s p \<noteq> None then None
      else case acquire_front refuses (table s p) t list_name host operation of
        Again tb \<Rightarrow> Some (s\<lparr>table := (table s)(p := tb)\<rparr>)
      | Try k \<Rightarrow>
          let info = new_info p list_name host operation actor detail ip now;
              s1 = (if content_of s (path_of k) = None then put_content (path_of k) Blank s else s)
          in Some (s1\<lparr>inside_of := (inside_of s1)(p := Some (Trying t k info 0))\<rparr>)
      | _ \<Rightarrow> Some s)"

definition step_attempt :: "pid \<Rightarrow> fleet \<Rightarrow> fleet option" where
  "step_attempt p s =
     (case inside_of s p of
        Some (Trying t k info n) \<Rightarrow>
          let pt = path_of k in
          Some (case attempt (locks s pt = None \<and> probes s pt = 0) (content_of s pt) (snd k) n of
            Got \<Rightarrow> s\<lparr>locks := (locks s)(pt := Some p), inside_of := (inside_of s)(p := Some (Taking t k info Flocked))\<rparr>
          | Wait \<Rightarrow> s\<lparr>inside_of := (inside_of s)(p := Some (Trying t k info (n + 1)))\<rparr>
          | Refuse _ \<Rightarrow> s\<lparr>inside_of := (inside_of s)(p := None)\<rparr>)
      | _ \<Rightarrow> None)"

text \<open>The device is marked, or the \<open>flock\<close> is given up and the acquire raises. In a folder not yet indexed
  the acquire indexes it first, and goes on whether that ends or raises: the steps of an indexing are
  those below, of any number of them at once.\<close>

definition step_mark :: "pid \<Rightarrow> bool \<Rightarrow> fleet \<Rightarrow> fleet option" where
  "step_mark p ok s =
     (case inside_of s p of
        Some (Taking t k info Flocked) \<Rightarrow>
          Some (if ok then (mark (path_of k) s)\<lparr>inside_of := (inside_of s)(p := Some (Taking t k info Marked))\<rparr>
                else s\<lparr>locks := (locks s)(path_of k := None), inside_of := (inside_of s)(p := None)\<rparr>)
      | _ \<Rightarrow> None)"

text \<open>What the last holder left is kept, when its process ended while it held the device.\<close>

definition step_keep :: "pid \<Rightarrow> bool \<Rightarrow> epoch \<Rightarrow> fleet \<Rightarrow> fleet option" where
  "step_keep p ok now s =
     (case inside_of s p of
        Some (Taking t k info Marked) \<Rightarrow>
          let pt = path_of k;
              s1 = (case Option.bind (content_of s pt) left_rec of
                      None \<Rightarrow> s
                    | Some left \<Rightarrow>
                        if ok then append_kept (fst pt) (record_interrupted (snd k) left info now) s
                        else s\<lparr>unkept := (pt, left) # unkept s\<rparr>)
          in Some (s1\<lparr>inside_of := (inside_of s)(p := Some (Taking t k info Kept))\<rparr>)
      | _ \<Rightarrow> None)"

definition step_empty :: "pid \<Rightarrow> fleet \<Rightarrow> fleet option" where
  "step_empty p s =
     (case inside_of s p of
        Some (Taking t k info Kept) \<Rightarrow>
          Some ((put_content (path_of k) Blank s)\<lparr>inside_of := (inside_of s)(p := Some (Taking t k info Emptied))\<rparr>)
      | _ \<Rightarrow> None)"

text \<open>The record written, the hold is the thread's.\<close>

definition step_write :: "pid \<Rightarrow> fleet \<Rightarrow> fleet option" where
  "step_write p s =
     (case inside_of s p of
        Some (Taking t k info Emptied) \<Rightarrow>
          Some ((put_content (path_of k) (Rec info) s)
            \<lparr>table := (table s)(p := AList.update k \<lparr>hd_count = 1, hd_thread = t, hd_rec = info\<rparr> (table s p)),
             inside_of := (inside_of s)(p := None)\<rparr>)
      | _ \<Rightarrow> None)"

text \<open>A system call that raises once the device is marked: the acquire raises and nothing closes the
  file, so the process keeps the \<open>flock\<close>. \<open>written\<close>: the write was made and its \<open>fsync\<close> raised.\<close>

definition step_raise :: "pid \<Rightarrow> bool \<Rightarrow> fleet \<Rightarrow> fleet option" where
  "step_raise p written s =
     (case inside_of s p of
        Some (Taking t k info sg) \<Rightarrow>
          if sg = Flocked \<or> (written \<and> sg \<noteq> Emptied) then None
          else Some ((if written then put_content (path_of k) (Rec info) s else s)
                       \<lparr>inside_of := (inside_of s)(p := None)\<rparr>)
      | _ \<Rightarrow> None)"

section \<open>The steps of a release, and a hold handed over\<close>

definition step_release :: "pid \<Rightarrow> tid \<Rightarrow> string \<Rightarrow> string \<Rightarrow> fleet \<Rightarrow> fleet option" where
  "step_release p me list_name host s =
     (let k = (list_key list_name, host) in
      if inside_of s p \<noteq> None then None
      else case map_of (table s p) k of
        None \<Rightarrow> Some s
      | Some h \<Rightarrow>
          if hd_thread h \<noteq> me then Some s
          else if 0 < hd_count h - 1
            then Some (s\<lparr>table := (table s)(p := AList.update k (h\<lparr>hd_count := hd_count h - 1\<rparr>) (table s p))\<rparr>)
          else Some (s\<lparr>table := (table s)(p := AList.delete k (table s p)),
                       leaving := (leaving s)(path_of k := Some (p, Popped))\<rparr>))"

text \<open>The file emptied, or the truncation raises and the file is closed with its record in it.\<close>

definition step_clear :: "lock_path \<Rightarrow> bool \<Rightarrow> fleet \<Rightarrow> fleet option" where
  "step_clear pt ok s =
     (case leaving s pt of
        Some (p, Popped) \<Rightarrow>
          Some (if ok then (put_content pt Blank s)\<lparr>leaving := (leaving s)(pt := Some (p, Cleared))\<rparr>
                else s\<lparr>locks := (locks s)(pt := None), leaving := (leaving s)(pt := None)\<rparr>)
      | _ \<Rightarrow> None)"

definition step_unmark :: "lock_path \<Rightarrow> bool \<Rightarrow> fleet \<Rightarrow> fleet option" where
  "step_unmark pt ok s =
     (case leaving s pt of
        Some (p, Cleared) \<Rightarrow>
          Some ((if ok then unmark pt s else s)\<lparr>leaving := (leaving s)(pt := Some (p, Unmarked))\<rparr>)
      | _ \<Rightarrow> None)"

definition step_unlock :: "lock_path \<Rightarrow> fleet \<Rightarrow> fleet option" where
  "step_unlock pt s =
     (case leaving s pt of
        Some (p, Unmarked) \<Rightarrow> Some (s\<lparr>locks := (locks s)(pt := None), leaving := (leaving s)(pt := None)\<rparr>)
      | _ \<Rightarrow> None)"

definition step_hand_over :: "pid \<Rightarrow> tid \<Rightarrow> string \<Rightarrow> string \<Rightarrow> tid \<Rightarrow> fleet \<Rightarrow> fleet option" where
  "step_hand_over p me list_name host to_thread s =
     (let k = (list_key list_name, host) in
      if inside_of s p \<noteq> None then None
      else case map_of (table s p) k of
        None \<Rightarrow> Some s
      | Some h \<Rightarrow>
          if hd_thread h \<noteq> me \<or> hd_count h \<noteq> 1 then Some s
          else Some (s\<lparr>table := (table s)(p := AList.update k (h\<lparr>hd_thread := to_thread\<rparr>) (table s p))\<rparr>))"


section \<open>Progress\<close>

definition TRAIL_MAX :: nat where "TRAIL_MAX = 64"

definition noted_rec :: "string \<Rightarrow> epoch \<Rightarrow> hold_rec \<Rightarrow> hold_rec" where
  "noted_rec step now r =
     (let trail = (case hl_progress r of
            None \<Rightarrow> [(''started'', case hl_started r of None \<Rightarrow> now | Some a \<Rightarrow> a)]
          | Some g \<Rightarrow> if pg_trail g = [] then [(pg_step g, pg_at g)] else pg_trail g)
      in r\<lparr>hl_progress := Some \<lparr>pg_step = step, pg_at = now, pg_trail = last_n TRAIL_MAX (trail @ [(step, now)])\<rparr>\<rparr>)"

text \<open>Whose holds a note moves: within \<open>working_on\<close> (\<open>current\<close>: the device, and the thread that holds
  it) that device's, else the calling thread's.\<close>

definition noted_keys :: "(key \<times> hold) list \<Rightarrow> tid \<Rightarrow> (string \<times> tid) option \<Rightarrow> string option \<Rightarrow> key list" where
  "noted_keys tb me current device =
     (let (dev, owner) = (case (device, current) of
            (None, Some (d, o')) \<Rightarrow> (Some d, o')
          | (Some d, Some (d', o')) \<Rightarrow> (Some d, if d' = d then o' else me)
          | (d, None) \<Rightarrow> (d, me))
      in map fst (filter (\<lambda>(k, h). hd_thread h = owner \<and> (dev = None \<or> dev = Some (hl_device (hd_rec h)))) tb))"

definition noting :: "string \<Rightarrow> epoch \<Rightarrow> key list \<Rightarrow> inside option" where
  "noting step now ks = (if ks = [] then None else Some (Noting step now ks False))"

definition step_note ::
    "pid \<Rightarrow> tid \<Rightarrow> (string \<times> tid) option \<Rightarrow> string option \<Rightarrow> string \<Rightarrow> epoch \<Rightarrow> fleet \<Rightarrow> fleet option" where
  "step_note p me current device step now s =
     (if inside_of s p \<noteq> None then None
      else Some (s\<lparr>inside_of := (inside_of s)(p := noting step now (noted_keys (table s p) me current device))\<rparr>))"

text \<open>One hold of a note: its record moved and its file truncated (or the truncation raises, and the
  note goes on to the next); then the record written (or not).\<close>

definition step_note_cut :: "pid \<Rightarrow> bool \<Rightarrow> fleet \<Rightarrow> fleet option" where
  "step_note_cut p ok s =
     (case inside_of s p of
        Some (Noting step now (k # ks) False) \<Rightarrow>
          (case map_of (table s p) k of
             None \<Rightarrow> Some (s\<lparr>inside_of := (inside_of s)(p := noting step now ks)\<rparr>)
           | Some h \<Rightarrow>
               let s1 = s\<lparr>table := (table s)(p := AList.update k (h\<lparr>hd_rec := noted_rec step now (hd_rec h)\<rparr>) (table s p))\<rparr>
               in Some (if ok then (put_content (path_of k) Blank s1)
                                     \<lparr>inside_of := (inside_of s)(p := Some (Noting step now (k # ks) True))\<rparr>
                        else s1\<lparr>inside_of := (inside_of s)(p := noting step now ks)\<rparr>))
      | _ \<Rightarrow> None)"

definition step_note_put :: "pid \<Rightarrow> bool \<Rightarrow> fleet \<Rightarrow> fleet option" where
  "step_note_put p ok s =
     (case inside_of s p of
        Some (Noting step now (k # ks) True) \<Rightarrow>
          Some ((case map_of (table s p) k of
                   Some h \<Rightarrow> if ok then put_content (path_of k) (Rec (hd_rec h)) s else s
                 | None \<Rightarrow> s)\<lparr>inside_of := (inside_of s)(p := noting step now ks)\<rparr>)
      | _ \<Rightarrow> None)"

section \<open>Probes, indexing and a process's end\<close>

text \<open>The shared lock a reader (\<open>holder\<close>, \<open>_leftover\<close>) takes and gives back.\<close>

definition step_probe :: "lock_path \<Rightarrow> fleet \<Rightarrow> fleet option" where
  "step_probe pt s =
     (if content_of s pt = None \<or> locks s pt \<noteq> None then None
      else Some (s\<lparr>probes := (probes s)(pt := probes s pt + 1)\<rparr>))"

definition step_unprobe :: "lock_path \<Rightarrow> fleet \<Rightarrow> fleet option" where
  "step_unprobe pt s =
     (if probes s pt = 0 then None else Some (s\<lparr>probes := (probes s)(pt := probes s pt - 1)\<rparr>))"

text \<open>\<open>_index\<close>: the folder listed; each file's size read, then its marker made; the folder said
  indexed. Any of its calls may raise, and it stops.\<close>

definition step_index_list :: "nat \<Rightarrow> lkey \<Rightarrow> fleet \<Rightarrow> fleet option" where
  "step_index_list i l s =
     (if indexers s i \<noteq> None then None
      else Some (s\<lparr>indexers := (indexers s)(i := Some (l, map fst (lf_files (folder_of s l)), None))\<rparr>))"

definition step_index_stat :: "nat \<Rightarrow> fleet \<Rightarrow> fleet option" where
  "step_index_stat i s =
     (case indexers s i of
        Some (l, n # ns, None) \<Rightarrow>
          Some (s\<lparr>indexers := (indexers s)(i := Some (l, ns, if sized (content_of s (l, n)) then Some n else None))\<rparr>)
      | _ \<Rightarrow> None)"

definition step_index_mark :: "nat \<Rightarrow> fleet \<Rightarrow> fleet option" where
  "step_index_mark i s =
     (case indexers s i of
        Some (l, ns, Some n) \<Rightarrow> Some ((mark (l, n) s)\<lparr>indexers := (indexers s)(i := Some (l, ns, None))\<rparr>)
      | _ \<Rightarrow> None)"

definition step_index_done :: "nat \<Rightarrow> fleet \<Rightarrow> fleet option" where
  "step_index_done i s =
     (case indexers s i of
        Some (l, [], None) \<Rightarrow>
          Some ((in_folder l (\<lambda>f. f\<lparr>lf_indexed := True\<rparr>) s)\<lparr>indexers := (indexers s)(i := None)\<rparr>)
      | _ \<Rightarrow> None)"

definition step_index_stop :: "nat \<Rightarrow> fleet \<Rightarrow> fleet option" where
  "step_index_stop i s = Some (s\<lparr>indexers := (indexers s)(i := None)\<rparr>)"

text \<open>The records in the lock files of a process's holds.\<close>

definition cut_off :: "fleet \<Rightarrow> pid \<Rightarrow> (lock_path \<times> hold_rec) list" where
  "cut_off s p =
     List.map_filter (\<lambda>(k, h). case content_of s (path_of k) of
        Some (Rec r) \<Rightarrow> Some (path_of k, r) | _ \<Rightarrow> None) (table s p)"

definition step_die :: "pid \<Rightarrow> fleet \<Rightarrow> fleet option" where
  "step_die p s =
     Some (s\<lparr>table := (table s)(p := []), inside_of := (inside_of s)(p := None),
       locks := (\<lambda>pt. if locks s pt = Some p then None else locks s pt),
       leaving := (\<lambda>pt. case leaving s pt of Some (q, _) \<Rightarrow> if q = p then None else leaving s pt | None \<Rightarrow> None),
       ended := cut_off s p @ ended s\<rparr>)"

section \<open>Every step\<close>

datatype lock_action =
    Begin pid tid string string string string string string epoch
  | Attempt pid
  | Do_mark pid bool
  | Keep pid bool epoch
  | Empty_file pid
  | Write pid
  | Raise_in pid bool
  | Release pid tid string string
  | Clear lock_path bool
  | Do_unmark lock_path bool
  | Unlock lock_path
  | Hand_over pid tid string string tid
  | Note pid tid "(string \<times> tid) option" "string option" string epoch
  | Note_cut pid bool
  | Note_put pid bool
  | Probe lock_path
  | Unprobe lock_path
  | Index_list nat lkey
  | Index_stat nat
  | Index_mark nat
  | Index_done nat
  | Index_stop nat
  | Die pid

fun perform :: "(string \<Rightarrow> string \<Rightarrow> string \<Rightarrow> bool) \<Rightarrow> lock_action \<Rightarrow> fleet \<Rightarrow> fleet option" where
  "perform refuses (Begin p t l h op actor detail ip now) s = step_begin refuses p t l h op actor detail ip now s"
| "perform refuses (Attempt p) s = step_attempt p s"
| "perform refuses (Do_mark p ok) s = step_mark p ok s"
| "perform refuses (Keep p ok now) s = step_keep p ok now s"
| "perform refuses (Empty_file p) s = step_empty p s"
| "perform refuses (Write p) s = step_write p s"
| "perform refuses (Raise_in p written) s = step_raise p written s"
| "perform refuses (Release p t l h) s = step_release p t l h s"
| "perform refuses (Clear pt ok) s = step_clear pt ok s"
| "perform refuses (Do_unmark pt ok) s = step_unmark pt ok s"
| "perform refuses (Unlock pt) s = step_unlock pt s"
| "perform refuses (Hand_over p t l h to) s = step_hand_over p t l h to s"
| "perform refuses (Note p t cur dev step now) s = step_note p t cur dev step now s"
| "perform refuses (Note_cut p ok) s = step_note_cut p ok s"
| "perform refuses (Note_put p ok) s = step_note_put p ok s"
| "perform refuses (Probe pt) s = step_probe pt s"
| "perform refuses (Unprobe pt) s = step_unprobe pt s"
| "perform refuses (Index_list i l) s = step_index_list i l s"
| "perform refuses (Index_stat i) s = step_index_stat i s"
| "perform refuses (Index_mark i) s = step_index_mark i s"
| "perform refuses (Index_done i) s = step_index_done i s"
| "perform refuses (Index_stop i) s = step_index_stop i s"
| "perform refuses (Die p) s = step_die p s"

fun run_all :: "('a \<Rightarrow> 's \<Rightarrow> 's option) \<Rightarrow> 'a list \<Rightarrow> 's \<Rightarrow> 's option" where
  "run_all step [] s = Some s"
| "run_all step (a # as) s = Option.bind (step a s) (run_all step as)"

lemma run_all_append: "run_all step (as @ bs) s = Option.bind (run_all step as s) (run_all step bs)"
  by (induction as arbitrary: s) (simp_all split: Option.bind_split)

text \<open>A disk no process has open: in a folder said indexed every file with a record is marked.\<close>

definition sound_disk :: "(lkey \<times> folder) list \<Rightarrow> bool" where
  "sound_disk fs \<longleftrightarrow> (\<forall>(l, f) \<in> set fs. lf_indexed f \<longrightarrow>
     (\<forall>(n, c) \<in> set (lf_files f). c \<noteq> Blank \<longrightarrow> n \<in> set (lf_marks f)))"

inductive reach :: "(string \<Rightarrow> string \<Rightarrow> string \<Rightarrow> bool) \<Rightarrow> (lkey \<times> folder) list \<Rightarrow> fleet \<Rightarrow> bool"
  for refuses fs where
  reach_start: "sound_disk fs \<Longrightarrow> reach refuses fs (start_fleet fs)"
| reach_step: "reach refuses fs s \<Longrightarrow> perform refuses a s = Some s' \<Longrightarrow> reach refuses fs s'"

lemma reach_all: "run_all (perform refuses) as s = Some s' \<Longrightarrow> reach refuses fs s \<Longrightarrow> reach refuses fs s'"
  by (induction as arbitrary: s) (auto split: Option.bind_splits intro: reach_step)


section \<open>What is read\<close>

definition candidates :: "fleet \<Rightarrow> lkey \<Rightarrow> string list" where
  "candidates s l =
     (let f = folder_of s l in if lf_indexed f then sort (lf_marks f) else sort (map fst (lf_files f)))"

text \<open>\<open>holder\<close>, asked by process \<open>q\<close>.\<close>

definition holder :: "fleet \<Rightarrow> pid \<Rightarrow> string \<Rightarrow> string \<Rightarrow> hold_rec option" where
  "holder s q list_name host =
     (let k = (list_key list_name, host) in
      case map_of (table s q) k of
        Some h \<Rightarrow> Some (hd_rec h)
      | None \<Rightarrow>
          if content_of s (path_of k) = None \<or> locks s (path_of k) = None then None
          else Some (read_rec (content_of s (path_of k)) host))"

definition started_num :: "hold_rec \<Rightarrow> epoch" where
  "started_num r = (case hl_started r of None \<Rightarrow> 0 | Some a \<Rightarrow> a)"

text \<open>\<open>held\<close>: this process's holds, then those of the candidates that another holds, newest first.\<close>

definition own_holds :: "fleet \<Rightarrow> pid \<Rightarrow> lkey \<Rightarrow> (key \<times> hold) list" where
  "own_holds s q l = filter (\<lambda>(k, _). fst k = l) (table s q)"

definition held_other :: "fleet \<Rightarrow> pid \<Rightarrow> string \<Rightarrow> string \<Rightarrow> hold_rec option" where
  "held_other s q list_name n =
     (let l = list_key list_name;
          seen = map (\<lambda>(k, _). snd k) (own_holds s q l);
          d = hl_device (read_rec (content_of s (l, n)) n);
          host = (if d = '''' then n else d)
      in if n \<in> set seen \<or> host \<in> set seen then None else holder s q list_name host)"

definition held_in :: "fleet \<Rightarrow> pid \<Rightarrow> string \<Rightarrow> hold_rec list" where
  "held_in s q list_name =
     sort_key (\<lambda>r. - started_num r)
       (map (\<lambda>(_, h). hd_rec h) (own_holds s q (list_key list_name))
        @ List.map_filter (held_other s q list_name) (candidates s (list_key list_name)))"

definition held_here :: "fleet \<Rightarrow> pid \<Rightarrow> tid \<Rightarrow> string \<Rightarrow> string \<Rightarrow> bool" where
  "held_here s q me list_name host =
     (case map_of (table s q) (list_key list_name, host) of None \<Rightarrow> False | Some h \<Rightarrow> hd_thread h = me)"

definition held_elsewhere :: "fleet \<Rightarrow> pid \<Rightarrow> tid \<Rightarrow> string \<Rightarrow> string list \<Rightarrow> hold_rec list" where
  "held_elsewhere s q me list_name hosts =
     filter (\<lambda>r. hl_device r \<in> set hosts \<and> \<not> held_here s q me list_name (hl_device r)) (held_in s q list_name)"

definition may_write :: "fleet \<Rightarrow> pid \<Rightarrow> tid \<Rightarrow> string \<Rightarrow> bool" where
  "may_write s q me ip =
     (\<exists>(k, h) \<in> set (table s q). hd_thread h = me \<and> (hl_ip (hd_rec h) = '''' \<or> hl_ip (hd_rec h) = ip))"

definition held_by_this_thread :: "fleet \<Rightarrow> pid \<Rightarrow> tid \<Rightarrow> string \<Rightarrow> hold_rec option" where
  "held_by_this_thread s q me ip =
     map_option (\<lambda>(k, h). hd_rec h)
       (find (\<lambda>(k, h). hd_thread h = me \<and> (hl_ip (hd_rec h) = '''' \<or> hl_ip (hd_rec h) = ip)) (table s q))"

definition STALL_AFTER_SECONDS :: epoch where "STALL_AFTER_SECONDS = 600"

definition moved_at :: "hold_rec \<Rightarrow> epoch" where
  "moved_at r = (case hl_progress r of None \<Rightarrow> started_num r | Some g \<Rightarrow> or_num (pg_at g) (started_num r))"

definition stalled :: "hold_rec \<Rightarrow> epoch \<Rightarrow> bool" where
  "stalled r now = (STALL_AFTER_SECONDS < now - moved_at r)"

text \<open>\<open>in_flight\<close>: each hold of the list, the step it noted last, whether it may be stuck.\<close>

definition in_flight :: "fleet \<Rightarrow> pid \<Rightarrow> string \<Rightarrow> epoch \<Rightarrow> (hold_rec \<times> string \<times> bool) list" where
  "in_flight s q list_name now =
     map (\<lambda>r. (r, case hl_progress r of None \<Rightarrow> '''' | Some g \<Rightarrow> pg_step g, stalled r now)) (held_in s q list_name)"

definition list_folders :: "fleet \<Rightarrow> lkey list" where "list_folders s = sort (map fst (folders s))"

text \<open>Rows gathered once by their key, the first of each.\<close>

fun once_by :: "('a \<Rightarrow> 'k) \<Rightarrow> 'k list \<Rightarrow> 'a list \<Rightarrow> 'a list" where
  "once_by f seen [] = []"
| "once_by f seen (x # xs) = (if f x \<in> set seen then once_by f seen xs else x # once_by f (f x # seen) xs)"

definition or_list :: "string \<Rightarrow> hold_rec \<Rightarrow> hold_rec" where
  "or_list l r = (if hl_list r = '''' then r\<lparr>hl_list := l\<rparr> else r)"

text \<open>\<open>held_anywhere\<close> lists the folders once and reads one after the other, while other processes go on: \<open>listed\<close> is the
  state it lists them in, \<open>rd\<close> the one it reads each in; nothing for one that cannot be listed or read, when it
  raises (\<open>HoldsUnreadable\<close>).\<close>

definition held_anywhere :: "fleet option \<Rightarrow> (lkey \<Rightarrow> fleet option) \<Rightarrow> pid \<Rightarrow> hold_rec list option" where
  "held_anywhere listed rd q =
     Option.bind listed (\<lambda>s.
       map_option (\<lambda>rows. sort_key (\<lambda>r. - started_num r)
           (once_by (\<lambda>r. (lower (hl_list r), hl_device r, hl_started r)) [] (concat rows)))
         (those (map (\<lambda>l. map_option (\<lambda>t. map (or_list l) (held_in t q l)) (rd l)) (list_folders s))))"

text \<open>\<open>_leftover\<close>: the record in a lock file nobody holds.\<close>

definition leftover :: "content option \<Rightarrow> bool \<Rightarrow> string \<Rightarrow> hold_rec option" where
  "leftover c locked host =
     (if locked then None
      else case c of
        Some (Rec r) \<Rightarrow> Some r
      | Some Damaged \<Rightarrow> Some (no_rec\<lparr>hl_device := host\<rparr>)
      | _ \<Rightarrow> None)"

text \<open>\<open>interrupted\<close>: the kept log's records, then the leftovers, once each, with when it was found.\<close>

definition interrupted_in :: "fleet \<Rightarrow> string \<Rightarrow> (hold_rec \<times> epoch option) list" where
  "interrupted_in s list_name =
     (let l = list_key list_name;
          logged = map (\<lambda>e. (ke_rec e, Some (ke_found_at e))) (List.map_filter id (kept s l));
          left = List.map_filter (\<lambda>n. map_option (\<lambda>r. (r, None))
                   (leftover (content_of s (l, n)) (locks s (l, n) \<noteq> None) n)) (candidates s l)
      in sort_key (\<lambda>(r, _). started_num r)
           (map (\<lambda>(r, a). (or_list list_name r, a))
             (once_by (\<lambda>(r, _). (hl_device r, hl_started r)) [] (logged @ left))))"

definition interrupted_anywhere :: "fleet \<Rightarrow> (hold_rec \<times> epoch option) list" where
  "interrupted_anywhere s = concat (map (interrupted_in s) (list_folders s))"

section \<open>A batch's devices\<close>

text \<open>What one acquire answers: the device held, refused by name, or any other raise.\<close>

datatype acquired = Have | Busy hold_rec | Acquire_raised

text \<open>\<open>acquire_many\<close>, over any acquire: the devices held and the rows refused, or a raise that leaves
  what was held before it held.\<close>

fun acquire_many ::
    "(string \<Rightarrow> 's \<Rightarrow> 's \<times> acquired) \<Rightarrow> string list \<Rightarrow> 's
     \<Rightarrow> 's \<times> (heal_error + string list \<times> (string \<times> hold_rec) list)" where
  "acquire_many acq [] s = (s, Inr ([], []))"
| "acquire_many acq (h # hs) s =
     (case acq h s of
        (s1, Acquire_raised) \<Rightarrow> (s1, Inl Raised)
      | (s1, a) \<Rightarrow>
          (case acquire_many acq hs s1 of
             (s2, Inl e) \<Rightarrow> (s2, Inl e)
           | (s2, Inr (got, refused)) \<Rightarrow>
               (s2, Inr (case a of Busy r \<Rightarrow> (got, (h, r) # refused) | _ \<Rightarrow> (h # got, refused)))))"

fun release_many :: "(string \<Rightarrow> 's \<Rightarrow> 's) \<Rightarrow> string list \<Rightarrow> 's \<Rightarrow> 's" where
  "release_many rel [] s = s"
| "release_many rel (h # hs) s = release_many rel hs (rel h s)"

text \<open>A whole acquire that meets nobody, and a whole release, as the steps they are.\<close>

definition acquire_steps ::
    "pid \<Rightarrow> tid \<Rightarrow> string \<Rightarrow> string \<Rightarrow> string \<Rightarrow> string \<Rightarrow> string \<Rightarrow> string \<Rightarrow> epoch \<Rightarrow> lock_action list" where
  "acquire_steps p t l host op actor detail ip now =
     [Begin p t l host op actor detail ip now, Attempt p, Do_mark p True, Keep p True now, Empty_file p, Write p]"

definition release_steps :: "pid \<Rightarrow> tid \<Rightarrow> string \<Rightarrow> string \<Rightarrow> lock_action list" where
  "release_steps p t l host =
     (let pt = path_of (list_key l, host) in
      [Release p t l host, Clear pt True, Do_unmark pt True, Unlock pt])"

end
