(* ===== verification/Holds_Laws.thy ===== *)
theory Holds_Laws
  imports Holds
begin

text \<open>
  What every step of \<open>Holds\<close> keeps, in the order the proofs need them: who has each lock
  (\<open>own_ok\<close>: a process in whose table a device is, that takes it or that leaves it, never two of
  them), which files carry a record and are marked (\<open>mark_ok\<close>), what the records of the holds say
  (\<open>rec_ok\<close>), what an indexing has still to mark (\<open>index_ok\<close>) and where the record of each hold a
  process's end cut off is (\<open>trace_ok\<close>).
\<close>

declare update_conv' [simp] delete_conv' [simp]

section \<open>Updates and reads\<close>

named_theorems fleet_simps "how the reads of a folder see its updates"

lemma folder_of_in_folder [fleet_simps]:
  "folder_of (in_folder l g s) l' = (if l' = l then g (folder_of s l) else folder_of s l')"
  by (simp add: folder_of_def in_folder_def update_conv')

lemma in_folder_sel [simp]:
  "locks (in_folder l g s) = locks s" "probes (in_folder l g s) = probes s"
  "table (in_folder l g s) = table s" "inside_of (in_folder l g s) = inside_of s"
  "leaving (in_folder l g s) = leaving s" "indexers (in_folder l g s) = indexers s"
  "ended (in_folder l g s) = ended s" "unkept (in_folder l g s) = unkept s"
  by (simp_all add: in_folder_def)

lemma folder_ops_sel [simp]:
  "locks (put_content pt c s) = locks s" "probes (put_content pt c s) = probes s"
  "table (put_content pt c s) = table s" "inside_of (put_content pt c s) = inside_of s"
  "leaving (put_content pt c s) = leaving s" "indexers (put_content pt c s) = indexers s"
  "ended (put_content pt c s) = ended s" "unkept (put_content pt c s) = unkept s"
  "locks (mark pt s) = locks s" "table (mark pt s) = table s" "inside_of (mark pt s) = inside_of s"
  "leaving (mark pt s) = leaving s" "indexers (mark pt s) = indexers s" "ended (mark pt s) = ended s"
  "unkept (mark pt s) = unkept s" "probes (mark pt s) = probes s"
  "locks (unmark pt s) = locks s" "table (unmark pt s) = table s" "inside_of (unmark pt s) = inside_of s"
  "leaving (unmark pt s) = leaving s" "indexers (unmark pt s) = indexers s" "ended (unmark pt s) = ended s"
  "unkept (unmark pt s) = unkept s" "probes (unmark pt s) = probes s"
  "locks (append_kept l e s) = locks s" "table (append_kept l e s) = table s"
  "inside_of (append_kept l e s) = inside_of s" "leaving (append_kept l e s) = leaving s"
  "indexers (append_kept l e s) = indexers s" "ended (append_kept l e s) = ended s"
  "unkept (append_kept l e s) = unkept s" "probes (append_kept l e s) = probes s"
  by (simp_all add: put_content_def mark_def unmark_def append_kept_def)

text \<open>A folder's reads do not see the rest of the state change.\<close>

lemma folder_of_upd [simp]:
  "folder_of (s\<lparr>locks := a\<rparr>) l = folder_of s l" "folder_of (s\<lparr>probes := b\<rparr>) l = folder_of s l"
  "folder_of (s\<lparr>table := c\<rparr>) l = folder_of s l" "folder_of (s\<lparr>inside_of := d\<rparr>) l = folder_of s l"
  "folder_of (s\<lparr>leaving := e\<rparr>) l = folder_of s l" "folder_of (s\<lparr>indexers := f\<rparr>) l = folder_of s l"
  "folder_of (s\<lparr>ended := g\<rparr>) l = folder_of s l" "folder_of (s\<lparr>unkept := h\<rparr>) l = folder_of s l"
  by (simp_all add: folder_of_def)

lemma content_of_upd [simp]:
  "content_of (s\<lparr>locks := a\<rparr>) pt = content_of s pt" "content_of (s\<lparr>probes := b\<rparr>) pt = content_of s pt"
  "content_of (s\<lparr>table := c\<rparr>) pt = content_of s pt" "content_of (s\<lparr>inside_of := d\<rparr>) pt = content_of s pt"
  "content_of (s\<lparr>leaving := e\<rparr>) pt = content_of s pt" "content_of (s\<lparr>indexers := f\<rparr>) pt = content_of s pt"
  "content_of (s\<lparr>ended := g\<rparr>) pt = content_of s pt" "content_of (s\<lparr>unkept := h\<rparr>) pt = content_of s pt"
  by (simp_all add: content_of_def)

lemma marked_upd [simp]:
  "marked (s\<lparr>locks := a\<rparr>) pt = marked s pt" "marked (s\<lparr>probes := b\<rparr>) pt = marked s pt"
  "marked (s\<lparr>table := c\<rparr>) pt = marked s pt" "marked (s\<lparr>inside_of := d\<rparr>) pt = marked s pt"
  "marked (s\<lparr>leaving := e\<rparr>) pt = marked s pt" "marked (s\<lparr>indexers := f\<rparr>) pt = marked s pt"
  "marked (s\<lparr>ended := g\<rparr>) pt = marked s pt" "marked (s\<lparr>unkept := h\<rparr>) pt = marked s pt"
  by (simp_all add: marked_def)

lemma indexed_upd [simp]:
  "indexed (s\<lparr>locks := a\<rparr>) l = indexed s l" "indexed (s\<lparr>probes := b\<rparr>) l = indexed s l"
  "indexed (s\<lparr>table := c\<rparr>) l = indexed s l" "indexed (s\<lparr>inside_of := d\<rparr>) l = indexed s l"
  "indexed (s\<lparr>leaving := e\<rparr>) l = indexed s l" "indexed (s\<lparr>indexers := f\<rparr>) l = indexed s l"
  "indexed (s\<lparr>ended := g\<rparr>) l = indexed s l" "indexed (s\<lparr>unkept := h\<rparr>) l = indexed s l"
  by (simp_all add: indexed_def)

lemma kept_upd [simp]:
  "kept (s\<lparr>locks := a\<rparr>) l = kept s l" "kept (s\<lparr>probes := b\<rparr>) l = kept s l"
  "kept (s\<lparr>table := c\<rparr>) l = kept s l" "kept (s\<lparr>inside_of := d\<rparr>) l = kept s l"
  "kept (s\<lparr>leaving := e\<rparr>) l = kept s l" "kept (s\<lparr>indexers := f\<rparr>) l = kept s l"
  "kept (s\<lparr>ended := g\<rparr>) l = kept s l" "kept (s\<lparr>unkept := h\<rparr>) l = kept s l"
  by (simp_all add: kept_def)

lemma content_of_ops [simp]:
  "content_of (put_content pt c s) pt' = (if pt' = pt then Some c else content_of s pt')"
  "content_of (mark pt s) pt' = content_of s pt'" "content_of (unmark pt s) pt' = content_of s pt'"
  "content_of (append_kept l e s) pt' = content_of s pt'"
  "content_of (in_folder l (\<lambda>f. f\<lparr>lf_indexed := b\<rparr>) s) pt' = content_of s pt'"
  by (auto simp: content_of_def put_content_def mark_def unmark_def append_kept_def fleet_simps update_conv'
      prod_eq_iff)

lemma marked_ops [simp]:
  "marked (put_content pt c s) pt' = marked s pt'"
  "marked (mark pt s) pt' = (pt' = pt \<or> marked s pt')" "marked (unmark pt s) pt' = (pt' \<noteq> pt \<and> marked s pt')"
  "marked (append_kept l e s) pt' = marked s pt'"
  "marked (in_folder l (\<lambda>f. f\<lparr>lf_indexed := b\<rparr>) s) pt' = marked s pt'"
  by (auto simp: marked_def put_content_def mark_def unmark_def append_kept_def fleet_simps prod_eq_iff)

lemma indexed_ops [simp]:
  "indexed (put_content pt c s) l' = indexed s l'" "indexed (mark pt s) l' = indexed s l'"
  "indexed (unmark pt s) l' = indexed s l'" "indexed (append_kept l e s) l' = indexed s l'"
  "indexed (in_folder l (\<lambda>f. f\<lparr>lf_indexed := b\<rparr>) s) l' = (if l' = l then b else indexed s l')"
  by (simp_all add: indexed_def put_content_def mark_def unmark_def append_kept_def fleet_simps)

lemma kept_ops [simp]:
  "kept (put_content pt c s) l' = kept s l'" "kept (mark pt s) l' = kept s l'"
  "kept (unmark pt s) l' = kept s l'"
  "kept (append_kept l e s) l' = (if l' = l then kept s l @ [Some e] else kept s l')"
  "kept (in_folder l (\<lambda>f. f\<lparr>lf_indexed := b\<rparr>) s) l' = kept s l'"
  by (simp_all add: kept_def put_content_def mark_def unmark_def append_kept_def fleet_simps)

section \<open>Who has each lock\<close>

text \<open>What a process has a lock for: a hold in its table, an acquire in progress, a release in progress.\<close>

datatype use = Held key | Takes | Leaves

definition taking :: "inside option \<Rightarrow> lock_path option" where
  "taking x = (case x of Some (Taking t k i st) \<Rightarrow> Some (path_of k) | _ \<Rightarrow> None)"

definition leaver :: "(pid \<times> leave) option \<Rightarrow> pid option" where
  "leaver x = (case x of Some (q, _) \<Rightarrow> Some q | None \<Rightarrow> None)"

lemma taking_simps [simp]:
  "taking None = None" "taking (Some (Trying t k i n)) = None" "taking (Some (Noting st a ks b)) = None"
  "taking (Some (Taking t k i sg)) = Some (path_of k)" "taking (noting st a ks) = None"
  by (simp_all add: taking_def noting_def)

lemma leaver_simps [simp]: "leaver None = None" "leaver (Some (q, lv)) = Some q"
  by (simp_all add: leaver_def)

definition uses :: "fleet \<Rightarrow> pid \<Rightarrow> lock_path \<Rightarrow> use \<Rightarrow> bool" where
  "uses s p pt u =
     (case u of
        Held k \<Rightarrow> path_of k = pt \<and> k \<in> dom (map_of (table s p))
      | Takes \<Rightarrow> taking (inside_of s p) = Some pt
      | Leaves \<Rightarrow> leaver (leaving s pt) = Some p)"

definition own_ok :: "fleet \<Rightarrow> bool" where
  "own_ok s \<longleftrightarrow> (\<forall>p pt u. uses s p pt u \<longrightarrow> locks s pt = Some p \<and> (\<forall>u'. uses s p pt u' \<longrightarrow> u' = u))"

lemma uses_simps [simp]:
  "uses s p pt (Held k) \<longleftrightarrow> path_of k = pt \<and> k \<in> dom (map_of (table s p))"
  "uses s p pt Takes \<longleftrightarrow> taking (inside_of s p) = Some pt"
  "uses s p pt Leaves \<longleftrightarrow> leaver (leaving s pt) = Some p"
  by (simp_all add: uses_def)

lemma own_okD:
  assumes "own_ok s" "uses s p pt u"
  shows "locks s pt = Some p" "uses s q pt u' \<Longrightarrow> q = p \<and> u' = u"
  using assms unfolding own_ok_def by (blast, metis option.inject)

text \<open>A step after which nobody uses what they did not.\<close>

lemma own_ok_shrink:
  assumes "own_ok s" "\<And>p pt u. uses s' p pt u \<Longrightarrow> uses s p pt u \<and> locks s' pt = locks s pt"
  shows "own_ok s'"
  using assms unfolding own_ok_def by metis

text \<open>A step that changes what one process has one lock for.\<close>

lemma own_ok_change:
  assumes ok: "own_ok s" and had: "locks s' pt = Some p" "\<And>q u. uses s q pt u \<Longrightarrow> q = p"
    and new: "\<And>q u. uses s' q pt u \<Longrightarrow> q = p \<and> u = new"
    and rest: "\<And>q pt' u. pt' \<noteq> pt \<Longrightarrow> uses s' q pt' u \<Longrightarrow> uses s q pt' u \<and> locks s' pt' = locks s pt'"
  shows "own_ok s'"
  unfolding own_ok_def
proof (intro allI impI conjI)
  fix q pt' u assume u: "uses s' q pt' u"
  show "locks s' pt' = Some q" using had new rest own_okD(1) [OF ok] u by (cases "pt' = pt") metis+
  fix u' assume "uses s' q pt' u'"
  with u show "u' = u" using new rest own_okD(2) [OF ok] by (cases "pt' = pt") metis+
qed

lemmas step_defs = step_begin_def step_attempt_def step_mark_def step_keep_def step_empty_def step_write_def
  step_raise_def step_release_def step_clear_def step_unmark_def step_unlock_def step_hand_over_def
  step_note_def step_note_cut_def step_note_put_def step_probe_def step_unprobe_def step_index_list_def
  step_index_stat_def step_index_mark_def step_index_done_def step_index_stop_def step_die_def

lemma acquire_front_Again:
  "acquire_front refuses tb me l host op = Again tb' \<Longrightarrow>
     \<exists>h. map_of tb (list_key l, host) = Some h \<and> hd_thread h = me
       \<and> tb' = AList.update (list_key l, host) (h\<lparr>hd_count := hd_count h + 1\<rparr>) tb"
  by (auto simp: acquire_front_def Let_def split: if_splits option.splits)

lemma acquire_front_Try:
  "acquire_front refuses tb me l host op = Try k \<Longrightarrow> k = (list_key l, host) \<and> map_of tb k = None"
  by (auto simp: acquire_front_def Let_def split: if_splits option.splits)

lemma noting_not_taking [simp]: "noting step now ks \<noteq> Some (Taking t k i st)"
  by (simp add: noting_def)


lemma own_ok_alone:
  assumes "own_ok s" "uses s p pt u" "uses s q pt u'"
  shows "q = p" "u' = u"
  using own_okD(2) [OF assms] by simp_all

lemma own_ok_begin:
  assumes "own_ok s" "step_begin refuses p t l h op ac de ip now s = Some s'"
  shows "own_ok s'"
proof (rule own_ok_shrink [OF assms(1)])
  fix q pt u assume "uses s' q pt u"
  then show "uses s q pt u \<and> locks s' pt = locks s pt"
    using assms(2) by (cases u) (auto simp: step_begin_def Let_def dest!: acquire_front_Again split: if_splits front.splits)
qed

lemma own_ok_attempt:
  assumes "own_ok s" "step_attempt p s = Some s'"
  shows "own_ok s'"
proof -
  obtain t k i n where i: "inside_of s p = Some (Trying t k i n)"
    using assms(2) by (auto simp: step_attempt_def split: option.splits inside.splits)
  show ?thesis
  proof (cases "locks s (path_of k) = None \<and> probes s (path_of k) = 0")
    case True
    then have s': "s' = s\<lparr>locks := (locks s)(path_of k := Some p), inside_of := (inside_of s)(p := Some (Taking t k i Flocked))\<rparr>"
      using assms(2) i by (simp add: step_attempt_def attempt_def)
    have free: "\<not> uses s q (path_of k) u" for q u using own_okD(1) [OF assms(1)] True by fastforce
    show ?thesis
    proof (rule own_ok_change [OF assms(1), where pt = "path_of k" and p = p and new = Takes])
      show "uses s' q (path_of k) u \<Longrightarrow> q = p \<and> u = Takes" for q u
        using free [of q u] by (cases u) (auto simp: s' split: if_splits)
      show "pt \<noteq> path_of k \<Longrightarrow> uses s' q pt u \<Longrightarrow> uses s q pt u \<and> locks s' pt = locks s pt" for q pt u
        by (cases u) (auto simp: s' split: if_splits)
    qed (use free in \<open>auto simp: s'\<close>)
  next
    case False
    show ?thesis
    proof (rule own_ok_shrink [OF assms(1)])
      fix q pt u assume "uses s' q pt u"
      then show "uses s q pt u \<and> locks s' pt = locks s pt"
        using assms(2) i False
        by (cases u) (auto simp: step_attempt_def attempt_def Let_def split: try_answer.splits if_splits)
    qed
  qed
qed

text \<open>A lock given up by the one use of it.\<close>

lemma own_ok_free:
  assumes "own_ok s" "uses s p pt u0" "locks s' = (locks s)(pt := None)"
    and old: "\<And>q pt' u. uses s' q pt' u \<Longrightarrow> uses s q pt' u" and gone: "\<not> uses s' p pt u0"
  shows "own_ok s'"
proof (rule own_ok_shrink [OF assms(1)])
  fix q pt' u assume u: "uses s' q pt' u"
  have "pt' \<noteq> pt"
    using own_ok_alone [OF assms(1,2), of q u] old [OF u] u gone by auto
  then show "uses s q pt' u \<and> locks s' pt' = locks s pt'" using old [OF u] assms(3) by simp
qed

lemma own_ok_mark:
  assumes "own_ok s" "step_mark p ok s = Some s'"
  shows "own_ok s'"
proof -
  obtain t k i where i: "inside_of s p = Some (Taking t k i Flocked)"
    using assms(2) by (auto simp: step_mark_def split: option.splits inside.splits taking_stage.splits)
  have u: "uses s' q pt u \<Longrightarrow> uses s q pt u" for q pt u
    using assms(2) i by (cases u; cases ok) (auto simp: step_mark_def split: if_splits)
  show ?thesis
  proof (cases ok)
    case True
    then show ?thesis using assms(2) i
      by (intro own_ok_shrink [OF assms(1)]) (frule u, auto simp: step_mark_def)
  next
    case False
    show ?thesis
      by (rule own_ok_free [OF assms(1), of p "path_of k" Takes, OF _ _ u]) (use assms(2) i False in \<open>auto simp: step_mark_def\<close>)
  qed
qed

text \<open>The steps that move no lock, and no hold into or out of a table.\<close>

lemma own_ok_still:
  assumes "own_ok s" "locks s' = locks s" "\<And>p. dom (map_of (table s' p)) \<subseteq> dom (map_of (table s p))"
    "\<And>pt. leaver (leaving s' pt) = leaver (leaving s pt)"
    "\<And>p. taking (inside_of s' p) \<in> {None, taking (inside_of s p)}"
  shows "own_ok s'"
proof (rule own_ok_shrink [OF assms(1)])
  fix q pt u assume "uses s' q pt u"
  then show "uses s q pt u \<and> locks s' pt = locks s pt"
    using assms(2,4) assms(3,5) [of q] by (cases u) auto
qed

lemma own_ok_keep: "own_ok s \<Longrightarrow> step_keep p ok now s = Some s' \<Longrightarrow> own_ok s'"
  by (erule own_ok_still) (auto simp: step_keep_def Let_def split: option.splits inside.splits taking_stage.splits if_splits)

lemma own_ok_empty: "own_ok s \<Longrightarrow> step_empty p s = Some s' \<Longrightarrow> own_ok s'"
  by (erule own_ok_still) (auto simp: step_empty_def split: option.splits inside.splits taking_stage.splits)

lemma own_ok_raise: "own_ok s \<Longrightarrow> step_raise p w s = Some s' \<Longrightarrow> own_ok s'"
  by (erule own_ok_still) (auto simp: step_raise_def split: option.splits inside.splits taking_stage.splits if_splits)

lemma own_ok_hand_over: "own_ok s \<Longrightarrow> step_hand_over p me l h to s = Some s' \<Longrightarrow> own_ok s'"
  by (erule own_ok_still) (auto simp: step_hand_over_def Let_def split: option.splits if_splits)

lemma own_ok_note: "own_ok s \<Longrightarrow> step_note p me cur dev st now s = Some s' \<Longrightarrow> own_ok s'"
  by (erule own_ok_still) (auto simp: step_note_def split: if_splits)

lemma own_ok_note_cut: "own_ok s \<Longrightarrow> step_note_cut p ok s = Some s' \<Longrightarrow> own_ok s'"
  by (erule own_ok_still)
    (auto simp: step_note_cut_def Let_def split: option.splits inside.splits list.splits bool.splits if_splits)

lemma own_ok_note_put: "own_ok s \<Longrightarrow> step_note_put p ok s = Some s' \<Longrightarrow> own_ok s'"
  by (erule own_ok_still)
    (auto simp: step_note_put_def split: option.splits inside.splits list.splits bool.splits if_splits)

lemma own_ok_clear:
  assumes "own_ok s" "step_clear pt ok s = Some s'"
  shows "own_ok s'"
proof -
  obtain p where l: "leaving s pt = Some (p, Popped)"
    using assms(2) by (auto simp: step_clear_def split: option.splits leave.splits)
  have u: "\<not> ok \<Longrightarrow> uses s' q pt' u \<Longrightarrow> uses s q pt' u" for q pt' u
    using assms(2) l by (cases u) (auto simp: step_clear_def split: if_splits)
  show ?thesis
  proof (cases ok)
    case False
    show ?thesis
      by (rule own_ok_free [OF assms(1), of p pt Leaves, OF _ _ u]) (use assms(2) l False in \<open>auto simp: step_clear_def\<close>)
  qed (use assms l in \<open>auto elim!: own_ok_still simp: step_clear_def\<close>)
qed

lemma own_ok_unmark: "own_ok s \<Longrightarrow> step_unmark pt ok s = Some s' \<Longrightarrow> own_ok s'"
  by (erule own_ok_still; cases ok) (auto simp: step_unmark_def split: option.splits leave.splits)

lemma own_ok_unlock:
  assumes "own_ok s" "step_unlock pt s = Some s'"
  shows "own_ok s'"
proof -
  obtain p where l: "leaving s pt = Some (p, Unmarked)"
    using assms(2) by (auto simp: step_unlock_def split: option.splits leave.splits)
  have u: "uses s' q pt' u \<Longrightarrow> uses s q pt' u" for q pt' u
    using assms(2) l by (cases u) (auto simp: step_unlock_def split: if_splits)
  show ?thesis
    by (rule own_ok_free [OF assms(1), of p pt Leaves, OF _ _ u]) (use assms(2) l in \<open>auto simp: step_unlock_def\<close>)
qed

lemma own_ok_die: "own_ok s \<Longrightarrow> step_die p s = Some s' \<Longrightarrow> own_ok s'"
proof -
  assume ok: "own_ok s" and st: "step_die p s = Some s'"
  show "own_ok s'"
  proof (rule own_ok_shrink [OF ok])
    fix q pt u assume u: "uses s' q pt u"
    have "q \<noteq> p \<and> uses s q pt u"
      using u st by (cases u) (auto simp: step_die_def leaver_def split: if_splits option.splits)
    then show "uses s q pt u \<and> locks s' pt = locks s pt"
      using own_okD(1) [OF ok, of q pt u] st by (auto simp: step_die_def)
  qed
qed

lemma own_ok_probe: "own_ok s \<Longrightarrow> step_probe pt s = Some s' \<Longrightarrow> own_ok s'"
  "own_ok s \<Longrightarrow> step_unprobe pt s = Some s' \<Longrightarrow> own_ok s'"
  by (auto elim!: own_ok_still simp: step_probe_def step_unprobe_def split: if_splits)

lemma own_ok_index:
  "own_ok s \<Longrightarrow> step_index_list i l s = Some s' \<Longrightarrow> own_ok s'"
  "own_ok s \<Longrightarrow> step_index_stat i s = Some s' \<Longrightarrow> own_ok s'"
  "own_ok s \<Longrightarrow> step_index_mark i s = Some s' \<Longrightarrow> own_ok s'"
  "own_ok s \<Longrightarrow> step_index_done i s = Some s' \<Longrightarrow> own_ok s'"
  "own_ok s \<Longrightarrow> step_index_stop i s = Some s' \<Longrightarrow> own_ok s'"
  by (auto elim!: own_ok_still simp: step_index_list_def step_index_stat_def step_index_mark_def step_index_done_def
      step_index_stop_def split: option.splits list.splits if_splits)

lemma own_ok_release:
  assumes "own_ok s" "step_release p me l host s = Some s'"
  shows "own_ok s'"
proof -
  let ?k = "(list_key l, host)"
  show ?thesis
  proof (cases "\<exists>h. map_of (table s p) ?k = Some h \<and> \<not> 0 < hd_count h - 1 \<and> hd_thread h = me")
    case False
    then show ?thesis using assms
      by (elim own_ok_still) (auto simp: step_release_def Let_def split: option.splits if_splits)
  next
    case True
    then have s': "s' = s\<lparr>table := (table s)(p := AList.delete ?k (table s p)),
        leaving := (leaving s)(path_of ?k := Some (p, Popped))\<rparr>" and h: "uses s p (path_of ?k) (Held ?k)"
      using assms(2) by (auto simp: step_release_def Let_def split: option.splits if_splits)
    show ?thesis
    proof (rule own_ok_change [OF assms(1), where pt = "path_of ?k" and p = p and new = Leaves])
      show "locks s' (path_of ?k) = Some p" using own_okD(1) [OF assms(1) h] by (simp add: s')
      show "uses s q (path_of ?k) u \<Longrightarrow> q = p" for q u using own_ok_alone(1) [OF assms(1) h] .
      show "uses s' q (path_of ?k) u \<Longrightarrow> q = p \<and> u = Leaves" for q u
        using own_ok_alone [OF assms(1) h, of q u] by (cases u) (auto simp: s' split: if_splits)
      show "pt \<noteq> path_of ?k \<Longrightarrow> uses s' q pt u \<Longrightarrow> uses s q pt u \<and> locks s' pt = locks s pt" for q pt u
        by (cases u) (auto simp: s' split: if_splits)
    qed
  qed
qed

lemma own_ok_write:
  assumes "own_ok s" "step_write p s = Some s'"
  shows "own_ok s'"
proof -
  obtain t k i where i: "inside_of s p = Some (Taking t k i Emptied)"
    using assms(2) by (auto simp: step_write_def split: option.splits inside.splits taking_stage.splits)
  define h where "h = \<lparr>hd_count = 1, hd_thread = t, hd_rec = i\<rparr>"
  have s': "s' = (put_content (path_of k) (Rec i) s)
      \<lparr>table := (table s)(p := AList.update k h (table s p)), inside_of := (inside_of s)(p := None)\<rparr>"
    using assms(2) i by (simp add: step_write_def h_def)
  have t: "uses s p (path_of k) Takes" using i by simp
  show ?thesis
  proof (rule own_ok_change [OF assms(1), where pt = "path_of k" and p = p and new = "Held k"])
    show "locks s' (path_of k) = Some p" using own_okD(1) [OF assms(1) t] by (simp add: s')
    show "uses s q (path_of k) u \<Longrightarrow> q = p" for q u using own_ok_alone(1) [OF assms(1) t] .
    show "uses s' q (path_of k) u \<Longrightarrow> q = p \<and> u = Held k" for q u
      using own_ok_alone [OF assms(1) t, of q u] by (cases u) (auto simp: s' split: if_splits)
    show "pt \<noteq> path_of k \<Longrightarrow> uses s' q pt u \<Longrightarrow> uses s q pt u \<and> locks s' pt = locks s pt" for q pt u
      by (cases u) (auto simp: s' split: if_splits)
  qed
qed

lemmas own_ok_steps = own_ok_begin own_ok_attempt own_ok_mark own_ok_keep own_ok_empty own_ok_write
  own_ok_raise own_ok_release own_ok_clear own_ok_unmark own_ok_unlock own_ok_hand_over own_ok_note
  own_ok_note_cut own_ok_note_put own_ok_probe own_ok_index own_ok_die

lemma own_ok_perform: "own_ok s \<Longrightarrow> perform refuses a s = Some s' \<Longrightarrow> own_ok s'"
  by (cases a; simp only: perform.simps) (erule (1) own_ok_steps)+

lemma own_ok_start: "own_ok (start_fleet fs)"
  by (auto simp: own_ok_def uses_def start_fleet_def split: use.splits)

lemma reach_own_ok: "reach refuses fs s \<Longrightarrow> own_ok s"
  by (induction rule: reach.induct) (auto intro: own_ok_start own_ok_perform)


section \<open>Which files carry a record, and are marked\<close>

text \<open>From its mark on an acquire's device is marked, as are a hold's and a release's until its unmark;
  between an acquire's truncation and its write, and from a release's truncation on, the file is
  empty.\<close>

definition wants_mark :: "fleet \<Rightarrow> pid \<Rightarrow> lock_path \<Rightarrow> use \<Rightarrow> bool" where
  "wants_mark s p pt u =
     (case u of
        Held k \<Rightarrow> True
      | Takes \<Rightarrow> (case inside_of s p of Some (Taking t k i st) \<Rightarrow> st \<noteq> Flocked | _ \<Rightarrow> False)
      | Leaves \<Rightarrow> (case leaving s pt of Some (q, lv) \<Rightarrow> lv \<noteq> Unmarked | None \<Rightarrow> False))"

definition wants_blank :: "fleet \<Rightarrow> pid \<Rightarrow> lock_path \<Rightarrow> use \<Rightarrow> bool" where
  "wants_blank s p pt u =
     (case u of
        Held k \<Rightarrow> False
      | Takes \<Rightarrow> (case inside_of s p of Some (Taking t k i st) \<Rightarrow> st = Emptied | _ \<Rightarrow> False)
      | Leaves \<Rightarrow> (case leaving s pt of Some (q, lv) \<Rightarrow> lv \<noteq> Popped | None \<Rightarrow> False))"

text \<open>Every record of an indexed folder is marked; what an indexing has still to mark is on its list.\<close>

definition mark_ok :: "fleet \<Rightarrow> bool" where
  "mark_ok s \<longleftrightarrow>
     (\<forall>pt. sized (content_of s pt) \<longrightarrow> indexed s (fst pt) \<longrightarrow> marked s pt)
   \<and> (\<forall>p pt u. uses s p pt u \<longrightarrow> (wants_mark s p pt u \<longrightarrow> marked s pt)
        \<and> (wants_blank s p pt u \<longrightarrow> content_of s pt = Some Blank))
   \<and> (\<forall>i l ns pend n. indexers s i = Some (l, ns, pend) \<longrightarrow> sized (content_of s (l, n))
        \<longrightarrow> marked s (l, n) \<or> n \<in> set ns \<or> pend = Some n)"

lemma mark_okD:
  assumes "mark_ok s"
  shows "sized (content_of s pt) \<Longrightarrow> indexed s (fst pt) \<Longrightarrow> marked s pt"
    "uses s p pt u \<Longrightarrow> wants_mark s p pt u \<Longrightarrow> marked s pt"
    "uses s p pt u \<Longrightarrow> wants_blank s p pt u \<Longrightarrow> content_of s pt = Some Blank"
    "indexers s i = Some (l, ns, pend) \<Longrightarrow> sized (content_of s (l, n)) \<Longrightarrow> marked s (l, n) \<or> n \<in> set ns \<or> pend = Some n"
  using assms unfolding mark_ok_def by blast+

text \<open>A step at one path.\<close>

lemma mark_ok_at:
  assumes ok: "mark_ok s" and idx: "\<And>l. indexed s' l = indexed s l" "indexers s' = indexers s"
    and rest: "\<And>q pt u. pt \<noteq> pt0 \<Longrightarrow> uses s' q pt u
      \<Longrightarrow> uses s q pt u \<and> wants_mark s' q pt u = wants_mark s q pt u \<and> wants_blank s' q pt u = wants_blank s q pt u"
    and same: "\<And>pt. pt \<noteq> pt0 \<Longrightarrow> content_of s' pt = content_of s pt" "\<And>pt. pt \<noteq> pt0 \<Longrightarrow> marked s' pt = marked s pt"
    and grew: "sized (content_of s' pt0) \<Longrightarrow> marked s' pt0 \<or> sized (content_of s pt0) \<and> \<not> marked s pt0"
    and here: "\<And>q u. uses s' q pt0 u \<Longrightarrow> (wants_mark s' q pt0 u \<longrightarrow> marked s' pt0)
      \<and> (wants_blank s' q pt0 u \<longrightarrow> content_of s' pt0 = Some Blank)"
  shows "mark_ok s'"
  unfolding mark_ok_def
proof (intro conjI allI impI)
  fix pt assume "sized (content_of s' pt)" "indexed s' (fst pt)"
  then show "marked s' pt"
    using mark_okD(1) [OF ok, of pt] same grew idx by (cases "pt = pt0") auto
next
  fix p pt u assume "uses s' p pt u" "wants_mark s' p pt u"
  then show "marked s' pt" using mark_okD(2) [OF ok] rest same here by (cases "pt = pt0") metis+
next
  fix p pt u assume "uses s' p pt u" "wants_blank s' p pt u"
  then show "content_of s' pt = Some Blank"
    using mark_okD(3) [OF ok] rest same here by (cases "pt = pt0") metis+
next
  fix i l ns pend n assume "indexers s' i = Some (l, ns, pend)" "sized (content_of s' (l, n))"
  then show "marked s' (l, n) \<or> n \<in> set ns \<or> pend = Some n"
    using mark_okD(4) [OF ok, of i l ns pend n] same grew idx by (cases "(l, n) = pt0") auto
qed

text \<open>A step that changes no file, and of the uses at most their use of a file that is as it was.\<close>

lemma mark_ok_still:
  assumes ok: "mark_ok s" and idx: "\<And>l. indexed s' l = indexed s l" "indexers s' = indexers s"
    and same: "\<And>pt. content_of s' pt = content_of s pt" "\<And>pt. marked s' pt = marked s pt"
    and uses: "\<And>q pt u. uses s' q pt u \<Longrightarrow> (wants_mark s' q pt u \<longrightarrow> marked s pt)
      \<and> (wants_blank s' q pt u \<longrightarrow> content_of s pt = Some Blank)"
  shows "mark_ok s'"
  unfolding mark_ok_def
  using mark_okD(1,4) [OF ok] idx same uses by simp

lemma mark_ok_still_uses:
  assumes "mark_ok s" "\<And>l. indexed s' l = indexed s l" "indexers s' = indexers s"
    and "\<And>pt. content_of s' pt = content_of s pt" "\<And>pt. marked s' pt = marked s pt"
    and "\<And>q pt u. uses s' q pt u
      \<Longrightarrow> uses s q pt u \<and> wants_mark s' q pt u = wants_mark s q pt u \<and> wants_blank s' q pt u = wants_blank s q pt u
        \<or> \<not> wants_mark s' q pt u \<and> \<not> wants_blank s' q pt u"
  shows "mark_ok s'"
  by (rule mark_ok_still [OF assms(1-5)]) (use assms(6) mark_okD(2,3) [OF assms(1)] in metis)

lemma sized_Blank [simp]: "\<not> sized (Some Blank)" "\<not> sized None" "sized (Some (Rec r))"
  by (simp_all add: sized_def)

lemma mark_ok_begin:
  assumes "mark_ok s" "step_begin refuses p t l h op ac de ip now s = Some s'"
  shows "mark_ok s'"
proof (cases "\<exists>k. acquire_front refuses (table s p) t l h op = Try k \<and> content_of s (path_of k) = None")
  case True
  then obtain k where k: "acquire_front refuses (table s p) t l h op = Try k" "content_of s (path_of k) = None" by blast
  show ?thesis
  proof (rule mark_ok_at [OF assms(1), of _ "path_of k"])
  show "uses s' q (path_of k) u \<Longrightarrow> (wants_mark s' q (path_of k) u \<longrightarrow> marked s' (path_of k))
      \<and> (wants_blank s' q (path_of k) u \<longrightarrow> content_of s' (path_of k) = Some Blank)" for q u
    using mark_okD(2) [OF assms(1), of q "path_of k" u] assms(2) k
    by (cases u) (auto simp: domIff step_begin_def Let_def wants_mark_def wants_blank_def split: if_splits)
  show "pt \<noteq> path_of k \<Longrightarrow> uses s' q pt u \<Longrightarrow>
      uses s q pt u \<and> wants_mark s' q pt u = wants_mark s q pt u \<and> wants_blank s' q pt u = wants_blank s q pt u" for pt q u
    using assms(2) k
    by (cases u) (auto simp: step_begin_def Let_def wants_mark_def wants_blank_def split: if_splits)
  qed (use assms(2) k in \<open>auto simp: step_begin_def Let_def split: if_splits\<close>)
next
  case False
  show ?thesis
  proof (rule mark_ok_still_uses [OF assms(1)])
    show "uses s' q pt u \<Longrightarrow>
      uses s q pt u \<and> wants_mark s' q pt u = wants_mark s q pt u \<and> wants_blank s' q pt u = wants_blank s q pt u
        \<or> \<not> wants_mark s' q pt u \<and> \<not> wants_blank s' q pt u" for pt q u
      using assms(2) False
      by (cases u) (auto simp: step_begin_def Let_def wants_mark_def wants_blank_def dest!: acquire_front_Again
        split: if_splits front.splits)
  qed (use assms(2) False in \<open>auto simp: step_begin_def Let_def split: if_splits front.splits\<close>)
qed


lemmas wants_defs = wants_mark_def wants_blank_def

lemma mark_ok_attempt:
  assumes "mark_ok s" "step_attempt p s = Some s'"
  shows "mark_ok s'"
proof (rule mark_ok_still_uses [OF assms(1)])
  fix q pt u assume "uses s' q pt u"
  then show "uses s q pt u \<and> wants_mark s' q pt u = wants_mark s q pt u \<and> wants_blank s' q pt u = wants_blank s q pt u
      \<or> \<not> wants_mark s' q pt u \<and> \<not> wants_blank s' q pt u"
    using assms(2) by (cases u) (auto simp: wants_defs step_attempt_def Let_def split: option.splits inside.splits
      try_answer.splits if_splits)
qed (use assms(2) in \<open>auto simp: step_attempt_def Let_def split: option.splits inside.splits try_answer.splits\<close>)

lemma mark_ok_mark:
  assumes ok: "own_ok s" and "mark_ok s" "step_mark p b s = Some s'"
  shows "mark_ok s'"
proof -
  obtain t k i where i: "inside_of s p = Some (Taking t k i Flocked)"
    using assms(3) by (auto simp: step_mark_def split: option.splits inside.splits taking_stage.splits)
  show ?thesis
  proof (cases b)
    case True
    then have s': "s' = (mark (path_of k) s)\<lparr>inside_of := (inside_of s)(p := Some (Taking t k i Marked))\<rparr>"
      using assms(3) i by (simp add: step_mark_def)
    have t: "uses s' p (path_of k) Takes" by (simp add: s')
    have ok': "own_ok s'" using own_ok_mark [OF ok assms(3)] .
    show ?thesis
    proof (rule mark_ok_at [OF assms(2), of _ "path_of k"])
      show "uses s' q (path_of k) u \<Longrightarrow> (wants_mark s' q (path_of k) u \<longrightarrow> marked s' (path_of k))
          \<and> (wants_blank s' q (path_of k) u \<longrightarrow> content_of s' (path_of k) = Some Blank)" for q u
        using own_ok_alone [OF ok' t, of q u] by (auto simp: s' wants_blank_def)
      show "pt \<noteq> path_of k \<Longrightarrow> uses s' q pt u \<Longrightarrow>
          uses s q pt u \<and> wants_mark s' q pt u = wants_mark s q pt u \<and> wants_blank s' q pt u = wants_blank s q pt u" for pt q u
        by (cases u) (auto simp: s' wants_defs split: if_splits)
    qed (auto simp: s')
  next
    case False
    show ?thesis
    proof (rule mark_ok_still_uses [OF assms(2)])
      fix q pt u assume "uses s' q pt u"
      then show "uses s q pt u \<and> wants_mark s' q pt u = wants_mark s q pt u \<and> wants_blank s' q pt u = wants_blank s q pt u
          \<or> \<not> wants_mark s' q pt u \<and> \<not> wants_blank s' q pt u"
        using assms(3) False i by (cases u) (auto simp: wants_defs step_mark_def split: if_splits)
    qed (use assms(3) False i in \<open>auto simp: step_mark_def\<close>)
  qed
qed

lemma mark_ok_keep:
  assumes "mark_ok s" "step_keep p ok now s = Some s'"
  shows "mark_ok s'"
proof -
  obtain t k i where i: "inside_of s p = Some (Taking t k i Marked)"
    using assms(2) by (auto simp: step_keep_def split: option.splits inside.splits taking_stage.splits)
  show ?thesis
  proof (rule mark_ok_still_uses [OF assms(1)])
    fix q pt u assume "uses s' q pt u"
    then show "uses s q pt u \<and> wants_mark s' q pt u = wants_mark s q pt u \<and> wants_blank s' q pt u = wants_blank s q pt u
        \<or> \<not> wants_mark s' q pt u \<and> \<not> wants_blank s' q pt u"
      using assms(2) i by (cases u) (auto simp: wants_defs step_keep_def Let_def split: option.splits if_splits)
  qed (use assms(2) i in \<open>auto simp: step_keep_def Let_def split: option.splits if_splits\<close>)
qed

text \<open>A file written by the one that uses it.\<close>

lemma mark_ok_put:
  assumes ok: "mark_ok s" and idx: "\<And>l. indexed s' l = indexed s l" "indexers s' = indexers s"
    and cont: "\<And>pt. content_of s' pt = (if pt = pt0 then Some c else content_of s pt)"
    and marks: "\<And>pt. marked s' pt = marked s pt" and m: "marked s pt0"
    and rest: "\<And>q pt u. pt \<noteq> pt0 \<Longrightarrow> uses s' q pt u
      \<Longrightarrow> uses s q pt u \<and> wants_mark s' q pt u = wants_mark s q pt u \<and> wants_blank s' q pt u = wants_blank s q pt u"
    and here: "\<And>q u. uses s' q pt0 u \<Longrightarrow> wants_blank s' q pt0 u \<Longrightarrow> c = Blank"
  shows "mark_ok s'"
  by (rule mark_ok_at [OF ok idx, of pt0]) (use cont marks m rest here in auto)

lemma mark_ok_empty:
  assumes "own_ok s" "mark_ok s" "step_empty p s = Some s'"
  shows "mark_ok s'"
proof -
  obtain t k i where i: "inside_of s p = Some (Taking t k i Kept)"
    using assms(3) by (auto simp: step_empty_def split: option.splits inside.splits taking_stage.splits)
  then have s': "s' = (put_content (path_of k) Blank s)\<lparr>inside_of := (inside_of s)(p := Some (Taking t k i Emptied))\<rparr>"
    using assms(3) by (simp add: step_empty_def)
  show ?thesis
  proof (rule mark_ok_put [OF assms(2), of _ "path_of k" Blank])
    show "marked s (path_of k)" using mark_okD(2) [OF assms(2), of p "path_of k" Takes] i by (simp add: wants_mark_def)
    show "pt \<noteq> path_of k \<Longrightarrow> uses s' q pt u \<Longrightarrow>
        uses s q pt u \<and> wants_mark s' q pt u = wants_mark s q pt u \<and> wants_blank s' q pt u = wants_blank s q pt u" for pt q u
      by (cases u) (auto simp: s' wants_defs split: if_splits)
  qed (auto simp: s')
qed

lemma mark_ok_write:
  assumes "own_ok s" "mark_ok s" "step_write p s = Some s'"
  shows "mark_ok s'"
proof -
  obtain t k i where i: "inside_of s p = Some (Taking t k i Emptied)"
    using assms(3) by (auto simp: step_write_def split: option.splits inside.splits taking_stage.splits)
  define h where "h = \<lparr>hd_count = 1, hd_thread = t, hd_rec = i\<rparr>"
  have s': "s' = (put_content (path_of k) (Rec i) s)
      \<lparr>table := (table s)(p := AList.update k h (table s p)), inside_of := (inside_of s)(p := None)\<rparr>"
    using assms(3) i by (simp add: step_write_def h_def)
  have t: "uses s' p (path_of k) (Held k)" by (simp add: s')
  show ?thesis
  proof (rule mark_ok_put [OF assms(2), of _ "path_of k" "Rec i"])
    show "marked s (path_of k)" using mark_okD(2) [OF assms(2), of p "path_of k" Takes] i by (simp add: wants_mark_def)
    show "pt \<noteq> path_of k \<Longrightarrow> uses s' q pt u \<Longrightarrow>
        uses s q pt u \<and> wants_mark s' q pt u = wants_mark s q pt u \<and> wants_blank s' q pt u = wants_blank s q pt u" for pt q u
      by (cases u) (auto simp: s' wants_defs split: if_splits)
    show "uses s' q (path_of k) u \<Longrightarrow> wants_blank s' q (path_of k) u \<Longrightarrow> Rec i = Blank" for q u
      using own_ok_alone [OF own_ok_write [OF assms(1,3)] t, of q u] by (simp add: wants_blank_def)
  qed (auto simp: s')
qed

lemma mark_ok_raise:
  assumes "own_ok s" "mark_ok s" "step_raise p w s = Some s'"
  shows "mark_ok s'"
proof -
  obtain t k i st where i: "inside_of s p = Some (Taking t k i st)" "st \<noteq> Flocked"
    using assms(3) by (auto simp: step_raise_def split: option.splits inside.splits if_splits)
  have only: "uses s q (path_of k) u \<Longrightarrow> q = p \<and> u = Takes" for q u
    using own_ok_alone [OF assms(1), of p "path_of k" Takes q u] i by simp
  have old: "uses s' q pt u \<Longrightarrow>
      uses s q pt u \<and> wants_mark s' q pt u = wants_mark s q pt u \<and> wants_blank s' q pt u = wants_blank s q pt u" for pt q u
    using assms(3) i by (cases u) (auto simp: step_raise_def wants_defs split: if_splits)
  show ?thesis
  proof (cases w)
    case True
    then have s': "s' = (put_content (path_of k) (Rec i) s)\<lparr>inside_of := (inside_of s)(p := None)\<rparr>"
      using assms(3) i by (simp add: step_raise_def split: if_splits)
    show ?thesis
    proof (rule mark_ok_put [OF assms(2), of _ "path_of k" "Rec i", OF _ _ _ _ _ old])
      show "marked s (path_of k)" using mark_okD(2) [OF assms(2), of p "path_of k" Takes] i by (simp add: wants_mark_def)
      fix q u assume "uses s' q (path_of k) u"
      moreover have "\<not> uses s' p (path_of k) Takes" by (simp add: s')
      ultimately have False using only [of q u] old [of q "path_of k" u] by metis
      then show "Rec i = Blank" ..
    qed (auto simp: s')
  next
    case False
    show ?thesis
      by (rule mark_ok_still_uses [OF assms(2) _ _ _ _ disjI1 [OF old]])
        (use assms(3) i False in \<open>auto simp: step_raise_def split: if_splits\<close>)
  qed
qed

lemma mark_ok_clear:
  assumes "own_ok s" "mark_ok s" "step_clear pt ok s = Some s'"
  shows "mark_ok s'"
proof -
  obtain p where l: "leaving s pt = Some (p, Popped)"
    using assms(3) by (auto simp: step_clear_def split: option.splits leave.splits)
  show ?thesis
  proof (cases ok)
    case True
    then have s': "s' = (put_content pt Blank s)\<lparr>leaving := (leaving s)(pt := Some (p, Cleared))\<rparr>"
      using assms(3) l by (simp add: step_clear_def)
    show ?thesis
    proof (rule mark_ok_put [OF assms(2), of _ pt Blank])
      show "marked s pt" using mark_okD(2) [OF assms(2), of p pt Leaves] l by (simp add: wants_mark_def)
      show "pt' \<noteq> pt \<Longrightarrow> uses s' q pt' u \<Longrightarrow>
          uses s q pt' u \<and> wants_mark s' q pt' u = wants_mark s q pt' u \<and> wants_blank s' q pt' u = wants_blank s q pt' u" for pt' q u
        by (cases u) (auto simp: s' wants_defs split: if_splits)
    qed (auto simp: s')
  next
    case False
    show ?thesis
    proof (rule mark_ok_still_uses [OF assms(2)])
      fix q pt' u assume "uses s' q pt' u"
      then show "uses s q pt' u \<and> wants_mark s' q pt' u = wants_mark s q pt' u \<and> wants_blank s' q pt' u = wants_blank s q pt' u
          \<or> \<not> wants_mark s' q pt' u \<and> \<not> wants_blank s' q pt' u"
        using assms(3) False l by (cases u) (auto simp: wants_defs step_clear_def split: if_splits)
    qed (use assms(3) False l in \<open>auto simp: step_clear_def\<close>)
  qed
qed

lemma mark_ok_unmark:
  assumes "own_ok s" "mark_ok s" "step_unmark pt ok s = Some s'"
  shows "mark_ok s'"
proof -
  obtain p where l: "leaving s pt = Some (p, Cleared)"
    using assms(3) by (auto simp: step_unmark_def split: option.splits leave.splits)
  have blank: "content_of s pt = Some Blank"
    using mark_okD(3) [OF assms(2), of p pt Leaves] l by (simp add: wants_blank_def)
  have s': "s' = (if ok then unmark pt s else s)\<lparr>leaving := (leaving s)(pt := Some (p, Unmarked))\<rparr>"
    using assms(3) l by (simp add: step_unmark_def)
  have t: "uses s' p pt Leaves" by (simp add: s')
  show ?thesis
  proof (rule mark_ok_at [OF assms(2), of _ pt])
    show "uses s' q pt u \<Longrightarrow> (wants_mark s' q pt u \<longrightarrow> marked s' pt)
        \<and> (wants_blank s' q pt u \<longrightarrow> content_of s' pt = Some Blank)" for q u
      using own_ok_alone [OF own_ok_unmark [OF assms(1,3)] t, of q u] blank by (auto simp: s' wants_mark_def)
    show "pt' \<noteq> pt \<Longrightarrow> uses s' q pt' u \<Longrightarrow>
        uses s q pt' u \<and> wants_mark s' q pt' u = wants_mark s q pt' u \<and> wants_blank s' q pt' u = wants_blank s q pt' u" for pt' q u
      by (cases u) (auto simp: s' wants_defs split: if_splits)
  qed (use blank in \<open>auto simp: s'\<close>)
qed

text \<open>The steps that change no file and whose uses ask nothing new of one.\<close>

lemma mark_ok_unlock:
  assumes "mark_ok s" "step_unlock pt s = Some s'"
  shows "mark_ok s'"
proof (rule mark_ok_still_uses [OF assms(1)])
  fix q pt' u assume "uses s' q pt' u"
  then show "uses s q pt' u \<and> wants_mark s' q pt' u = wants_mark s q pt' u \<and> wants_blank s' q pt' u = wants_blank s q pt' u
      \<or> \<not> wants_mark s' q pt' u \<and> \<not> wants_blank s' q pt' u"
    using assms(2) by (cases u) (auto simp: wants_defs step_unlock_def split: option.splits leave.splits if_splits)
qed (use assms(2) in \<open>auto simp: step_unlock_def split: option.splits leave.splits\<close>)

lemma mark_ok_release:
  assumes "mark_ok s" "step_release p me l host s = Some s'"
  shows "mark_ok s'"
proof -
  let ?k = "(list_key l, host)"
  show ?thesis
  proof (cases "leaving s' = leaving s")
    case True
    show ?thesis
    proof (rule mark_ok_still_uses [OF assms(1)])
      fix q pt u assume "uses s' q pt u"
      then show "uses s q pt u \<and> wants_mark s' q pt u = wants_mark s q pt u \<and> wants_blank s' q pt u = wants_blank s q pt u
          \<or> \<not> wants_mark s' q pt u \<and> \<not> wants_blank s' q pt u"
        using assms(2) True
        by (cases u) (auto simp: wants_defs step_release_def Let_def split: option.splits if_splits)
    qed (use assms(2) in \<open>auto simp: step_release_def Let_def split: option.splits if_splits\<close>)
  next
    case False
    then obtain h where h: "map_of (table s p) ?k = Some h"
      and s': "s' = s\<lparr>table := (table s)(p := AList.delete ?k (table s p)),
        leaving := (leaving s)(path_of ?k := Some (p, Popped))\<rparr>"
      using assms(2) by (auto simp: step_release_def Let_def split: option.splits if_splits)
    have m: "marked s (path_of ?k)"
      using mark_okD(2) [OF assms(1), of p "path_of ?k" "Held ?k"] h by (simp add: wants_mark_def domI)
    show ?thesis
    proof (rule mark_ok_at [OF assms(1), of _ "path_of ?k"])
      show "uses s' q (path_of ?k) u \<Longrightarrow> (wants_mark s' q (path_of ?k) u \<longrightarrow> marked s' (path_of ?k))
          \<and> (wants_blank s' q (path_of ?k) u \<longrightarrow> content_of s' (path_of ?k) = Some Blank)" for q u
        using mark_okD(3) [OF assms(1), of q "path_of ?k" u] m
        by (cases u) (auto simp: s' wants_blank_def split: if_splits)
      show "pt \<noteq> path_of ?k \<Longrightarrow> uses s' q pt u \<Longrightarrow>
          uses s q pt u \<and> wants_mark s' q pt u = wants_mark s q pt u \<and> wants_blank s' q pt u = wants_blank s q pt u" for pt q u
        by (cases u) (auto simp: s' wants_defs split: if_splits)
    qed (use m in \<open>auto simp: s'\<close>)
  qed
qed

lemma mark_ok_hand_over:
  assumes "mark_ok s" "step_hand_over p me l h to s = Some s'"
  shows "mark_ok s'"
proof (rule mark_ok_still_uses [OF assms(1)])
  fix q pt u assume "uses s' q pt u"
  then show "uses s q pt u \<and> wants_mark s' q pt u = wants_mark s q pt u \<and> wants_blank s' q pt u = wants_blank s q pt u
      \<or> \<not> wants_mark s' q pt u \<and> \<not> wants_blank s' q pt u"
    using assms(2) by (cases u) (auto simp: wants_defs step_hand_over_def Let_def split: option.splits if_splits)
qed (use assms(2) in \<open>auto simp: step_hand_over_def Let_def split: option.splits if_splits\<close>)

lemma mark_ok_note:
  assumes "mark_ok s" "step_note p me cur dev st now s = Some s'"
  shows "mark_ok s'"
proof (rule mark_ok_still_uses [OF assms(1)])
  fix q pt u assume "uses s' q pt u"
  then show "uses s q pt u \<and> wants_mark s' q pt u = wants_mark s q pt u \<and> wants_blank s' q pt u = wants_blank s q pt u
      \<or> \<not> wants_mark s' q pt u \<and> \<not> wants_blank s' q pt u"
    using assms(2) by (cases u) (auto simp: wants_defs step_note_def noting_def split: option.splits if_splits)
qed (use assms(2) in \<open>auto simp: step_note_def split: if_splits\<close>)

lemma mark_ok_note_cut:
  assumes "own_ok s" "mark_ok s" "step_note_cut p ok s = Some s'"
  shows "mark_ok s'"
proof -
  obtain st now k ks where i: "inside_of s p = Some (Noting st now (k # ks) False)"
    using assms(3) by (auto simp: step_note_cut_def split: option.splits inside.splits list.splits bool.splits)
  have old: "uses s' q pt u \<Longrightarrow>
      uses s q pt u \<and> wants_mark s' q pt u = wants_mark s q pt u \<and> wants_blank s' q pt u = wants_blank s q pt u" for pt q u
    using assms(3) i by (cases u) (auto simp: step_note_cut_def Let_def wants_defs noting_def split: option.splits if_splits)
  show ?thesis
  proof (cases "ok \<and> map_of (table s p) k \<noteq> None")
    case True
    then obtain h where h: "map_of (table s p) k = Some h" by auto
    show ?thesis
    proof (rule mark_ok_put [OF assms(2), of _ "path_of k" Blank, OF _ _ _ _ _ old])
      show "marked s (path_of k)" using mark_okD(2) [OF assms(2), of p "path_of k" "Held k"] h
        by (simp add: wants_mark_def domI)
    qed (use assms(3) i h True in \<open>auto simp: step_note_cut_def\<close>)
  next
    case False
    show ?thesis
      by (rule mark_ok_still_uses [OF assms(2) _ _ _ _ disjI1 [OF old]])
        (use assms(3) i False in \<open>auto simp: step_note_cut_def Let_def split: option.splits if_splits\<close>)
  qed
qed

lemma mark_ok_note_put:
  assumes "own_ok s" "mark_ok s" "step_note_put p ok s = Some s'"
  shows "mark_ok s'"
proof -
  obtain st now k ks where i: "inside_of s p = Some (Noting st now (k # ks) True)"
    using assms(3) by (auto simp: step_note_put_def split: option.splits inside.splits list.splits bool.splits)
  have old: "uses s' q pt u \<Longrightarrow>
      uses s q pt u \<and> wants_mark s' q pt u = wants_mark s q pt u \<and> wants_blank s' q pt u = wants_blank s q pt u" for pt q u
    using assms(3) i by (cases u) (auto simp: step_note_put_def wants_defs noting_def split: option.splits if_splits)
  show ?thesis
  proof (cases "ok \<and> map_of (table s p) k \<noteq> None")
    case True
    then obtain h where h: "map_of (table s p) k = Some h" by auto
    have held: "uses s p (path_of k) (Held k)" using h by (simp add: domI)
    show ?thesis
    proof (rule mark_ok_put [OF assms(2), of _ "path_of k" "Rec (hd_rec h)", OF _ _ _ _ _ old])
      show "marked s (path_of k)" using mark_okD(2) [OF assms(2) held] by (simp add: wants_mark_def)
      show "uses s' q (path_of k) u \<Longrightarrow> wants_blank s' q (path_of k) u \<Longrightarrow> Rec (hd_rec h) = Blank" for q u
        using own_ok_alone [OF assms(1) held, of q u] old [of q "path_of k" u] by (auto simp: wants_blank_def)
    qed (use assms(3) i h True in \<open>auto simp: step_note_put_def\<close>)
  next
    case False
    show ?thesis
      by (rule mark_ok_still_uses [OF assms(2) _ _ _ _ disjI1 [OF old]])
        (use assms(3) i False in \<open>auto simp: step_note_put_def split: option.splits if_splits\<close>)
  qed
qed

lemma mark_ok_probe:
  assumes "mark_ok s" "step_probe pt s = Some s' \<or> step_unprobe pt s = Some s'"
  shows "mark_ok s'"
proof (rule mark_ok_still_uses [OF assms(1)])
  fix q pt' u assume "uses s' q pt' u"
  then show "uses s q pt' u \<and> wants_mark s' q pt' u = wants_mark s q pt' u \<and> wants_blank s' q pt' u = wants_blank s q pt' u
      \<or> \<not> wants_mark s' q pt' u \<and> \<not> wants_blank s' q pt' u"
    using assms(2) by (cases u) (auto simp: wants_defs step_probe_def step_unprobe_def split: if_splits)
qed (use assms(2) in \<open>auto simp: step_probe_def step_unprobe_def split: if_splits\<close>)

lemma mark_ok_die:
  assumes "mark_ok s" "step_die p s = Some s'"
  shows "mark_ok s'"
proof (rule mark_ok_still_uses [OF assms(1)])
  fix q pt u assume "uses s' q pt u"
  then show "uses s q pt u \<and> wants_mark s' q pt u = wants_mark s q pt u \<and> wants_blank s' q pt u = wants_blank s q pt u
      \<or> \<not> wants_mark s' q pt u \<and> \<not> wants_blank s' q pt u"
    using assms(2) by (cases u) (auto simp: wants_defs step_die_def leaver_def split: if_splits option.splits)
qed (use assms(2) in \<open>auto simp: step_die_def\<close>)

text \<open>The steps of an indexing: no file changes, marks are only added, and a folder is said indexed once
  nothing is left to mark.\<close>

lemma mark_ok_indexing:
  assumes ok: "mark_ok s" and same: "\<And>pt. content_of s' pt = content_of s pt"
    "inside_of s' = inside_of s" "leaving s' = leaving s" "table s' = table s"
    and more: "\<And>pt. marked s pt \<Longrightarrow> marked s' pt"
    and idx: "\<And>pt. indexed s' (fst pt) \<Longrightarrow> sized (content_of s pt) \<Longrightarrow> indexed s (fst pt) \<or> marked s' pt"
    and todo: "\<And>i l ns pend n. indexers s' i = Some (l, ns, pend) \<Longrightarrow> sized (content_of s (l, n))
      \<Longrightarrow> marked s' (l, n) \<or> n \<in> set ns \<or> pend = Some n"
  shows "mark_ok s'"
proof -
  have w: "wants_mark s' q pt u = wants_mark s q pt u" "wants_blank s' q pt u = wants_blank s q pt u"
    "uses s' q pt u = uses s q pt u" for q pt u
    by (cases u; simp add: wants_defs same)+
  show ?thesis
    unfolding mark_ok_def same(1) w using mark_okD(1-3) [OF ok] more idx todo by blast
qed

lemma mark_ok_index_list:
  assumes ok: "mark_ok s" and st: "step_index_list i l s = Some s'"
  shows "mark_ok s'"
proof (rule mark_ok_indexing [OF ok])
  have s': "s' = s\<lparr>indexers := (indexers s)(i := Some (l, map fst (lf_files (folder_of s l)), None))\<rparr>"
    using st by (simp add: step_index_list_def split: if_splits)
  have listed: "sized (content_of s (l, n)) \<Longrightarrow> n \<in> fst ` set (lf_files (folder_of s l))" for n
    by (force simp: sized_def content_of_def dest: map_of_SomeD)
  show "marked s' (l', n) \<or> n \<in> set ns \<or> pend = Some n"
    if "indexers s' j = Some (l', ns, pend)" "sized (content_of s (l', n))" for j l' ns pend n
  proof (cases "j = i")
    case True
    then have "l' = l" "ns = map fst (lf_files (folder_of s l))" using that(1) by (auto simp: s')
    then show ?thesis using listed that(2) by simp
  next
    case False
    then show ?thesis using that mark_okD(4) [OF ok, of j l' ns pend n] by (simp add: s')
  qed
qed (use st in \<open>auto simp: step_index_list_def split: if_splits\<close>)

lemma mark_ok_index_stat:
  assumes ok: "mark_ok s" and st: "step_index_stat i s = Some s'"
  shows "mark_ok s'"
proof -
  obtain l n ns where x: "indexers s i = Some (l, n # ns, None)"
    using st by (auto simp: step_index_stat_def split: option.splits list.splits)
  then have s': "s' = s\<lparr>indexers := (indexers s)(i := Some (l, ns, if sized (content_of s (l, n)) then Some n else None))\<rparr>"
    using st by (simp add: step_index_stat_def)
  show ?thesis
  proof (rule mark_ok_indexing [OF ok])
    show "marked s' (l', m) \<or> m \<in> set ms \<or> pend = Some m"
      if "indexers s' j = Some (l', ms, pend)" "sized (content_of s (l', m))" for j l' ms pend m
      using that mark_okD(4) [OF ok, of j l' ms pend m] mark_okD(4) [OF ok x, of m]
      by (auto simp: s' split: if_splits)
  qed (auto simp: s')
qed

lemma mark_ok_index_mark:
  assumes ok: "mark_ok s" and st: "step_index_mark i s = Some s'"
  shows "mark_ok s'"
proof -
  obtain l n ns where x: "indexers s i = Some (l, ns, Some n)"
    using st by (auto simp: step_index_mark_def split: option.splits)
  then have s': "s' = (mark (l, n) s)\<lparr>indexers := (indexers s)(i := Some (l, ns, None))\<rparr>"
    using st by (simp add: step_index_mark_def)
  show ?thesis
  proof (rule mark_ok_indexing [OF ok])
    show "marked s' (l', m) \<or> m \<in> set ms \<or> pend = Some m"
      if "indexers s' j = Some (l', ms, pend)" "sized (content_of s (l', m))" for j l' ms pend m
      using that mark_okD(4) [OF ok, of j l' ms pend m] mark_okD(4) [OF ok x, of m]
      by (auto simp: s' split: if_splits)
  qed (auto simp: s')
qed

lemma mark_ok_index_done:
  assumes ok: "mark_ok s" and st: "step_index_done i s = Some s'"
  shows "mark_ok s'"
proof -
  obtain l where x: "indexers s i = Some (l, [], None)"
    using st by (auto simp: step_index_done_def split: option.splits list.splits)
  then have s': "s' = (in_folder l (\<lambda>f. f\<lparr>lf_indexed := True\<rparr>) s)\<lparr>indexers := (indexers s)(i := None)\<rparr>"
    using st by (simp add: step_index_done_def)
  show ?thesis
  proof (rule mark_ok_indexing [OF ok])
    show "indexed s (fst pt) \<or> marked s' pt" if "indexed s' (fst pt)" "sized (content_of s pt)" for pt
      using that mark_okD(4) [OF ok x, of "snd pt"] by (cases "fst pt = l") (auto simp: s')
    show "marked s' (l', m) \<or> m \<in> set ms \<or> pend = Some m"
      if "indexers s' j = Some (l', ms, pend)" "sized (content_of s (l', m))" for j l' ms pend m
      using that mark_okD(4) [OF ok, of j l' ms pend m] by (auto simp: s' split: if_splits)
  qed (auto simp: s')
qed

lemma mark_ok_index_stop:
  assumes ok: "mark_ok s" and st: "step_index_stop i s = Some s'"
  shows "mark_ok s'"
proof (rule mark_ok_indexing [OF ok])
  show "marked s' (l', m) \<or> m \<in> set ms \<or> pend = Some m"
    if "indexers s' j = Some (l', ms, pend)" "sized (content_of s (l', m))" for j l' ms pend m
    using that mark_okD(4) [OF ok, of j l' ms pend m] st by (auto simp: step_index_stop_def split: if_splits)
qed (use st in \<open>auto simp: step_index_stop_def\<close>)

lemmas mark_ok_index = mark_ok_index_list mark_ok_index_stat mark_ok_index_mark mark_ok_index_done
  mark_ok_index_stop
lemmas mark_ok_steps = mark_ok_begin mark_ok_attempt mark_ok_keep mark_ok_release mark_ok_unlock mark_ok_hand_over
  mark_ok_note mark_ok_die mark_ok_index
lemmas mark_ok_own_steps = mark_ok_mark mark_ok_empty mark_ok_write mark_ok_raise mark_ok_clear mark_ok_unmark
  mark_ok_note_cut mark_ok_note_put

lemma mark_ok_perform: "own_ok s \<Longrightarrow> mark_ok s \<Longrightarrow> perform refuses a s = Some s' \<Longrightarrow> mark_ok s'"
  by (cases a; simp only: perform.simps)
    (erule (1) mark_ok_steps | erule (2) mark_ok_own_steps | (erule mark_ok_probe, blast))+

lemma mark_ok_start:
  assumes "sound_disk fs"
  shows "mark_ok (start_fleet fs)"
proof -
  let ?s = "start_fleet fs"
  have none: "\<not> uses ?s p pt u" for p pt u by (cases u) (simp_all add: start_fleet_def)
  have "marked ?s pt" if sz: "sized (content_of ?s pt)" "indexed ?s (fst pt)" for pt
  proof (cases "map_of fs (fst pt)")
    case (Some f)
    then have f: "folder_of ?s (fst pt) = f" "(fst pt, f) \<in> set fs"
      by (auto simp: folder_of_def start_fleet_def dest: map_of_SomeD)
    with sz obtain c where "map_of (lf_files f) (snd pt) = Some c" "c \<noteq> Blank" "lf_indexed f"
      by (auto simp: sized_def content_of_def indexed_def)
    with assms f show ?thesis by (auto simp: sound_disk_def marked_def dest!: map_of_SomeD)
  qed (use sz in \<open>simp add: indexed_def folder_of_def start_fleet_def no_folder_def\<close>)
  then show ?thesis using none by (auto simp: mark_ok_def start_fleet_def)
qed

lemma reach_mark_ok: "reach refuses fs s \<Longrightarrow> mark_ok s"
  by (induction rule: reach.induct) (auto intro: mark_ok_start mark_ok_perform reach_own_ok)

end
