(* ===== verification/Holds_Trace.thy ===== *)
theory Holds_Trace
  imports Holds_Laws
begin

text \<open>
  What the lock files say in every reachable state of \<open>Holds\<close>: the file of a hold carries its record
  or, within a note, nothing (\<open>rec_ok\<close>); and the record of a hold that its process's end cut off is in
  its file until the next operation has kept it (\<open>trace_ok\<close>).
\<close>

section \<open>The records of the holds\<close>

text \<open>Two records of one hold differ in their progress alone.\<close>

definition same_hold :: "hold_rec \<Rightarrow> hold_rec \<Rightarrow> bool" where
  "same_hold r r' \<longleftrightarrow> r\<lparr>hl_progress := None\<rparr> = r'\<lparr>hl_progress := None\<rparr>"

lemma same_hold_refl [simp]: "same_hold r r"
  by (simp add: same_hold_def)

lemma same_hold_trans: "same_hold r r' \<Longrightarrow> same_hold r' r'' \<Longrightarrow> same_hold r r''"
  by (simp add: same_hold_def)

lemma same_hold_noted [simp]: "same_hold r (noted_rec step now r') = same_hold r r'"
  by (simp add: same_hold_def noted_rec_def Let_def)

lemma same_hold_sel:
  assumes "same_hold r r'"
  shows "hl_device r = hl_device r'" "hl_started r = hl_started r'" "hl_operation r = hl_operation r'"
    "hl_list r = hl_list r'" "hl_actor r = hl_actor r'"
proof -
  have eq: "f (r\<lparr>hl_progress := None\<rparr>) = f (r'\<lparr>hl_progress := None\<rparr>)" for f :: "hold_rec \<Rightarrow> 'b"
    using assms by (simp add: same_hold_def)
  show "hl_device r = hl_device r'" "hl_operation r = hl_operation r'" "hl_list r = hl_list r'" "hl_actor r = hl_actor r'"
    using eq [of hl_device] eq [of hl_operation] eq [of hl_list] eq [of hl_actor] by simp_all
  have "hl_started (r\<lparr>hl_progress := None\<rparr>) = hl_started (r'\<lparr>hl_progress := None\<rparr>)"
    using assms by (simp add: same_hold_def)
  then show "hl_started r = hl_started r'" by simp
qed

text \<open>What an acquire in progress is to write.\<close>

definition intent :: "inside option \<Rightarrow> (key \<times> hold_rec) option" where
  "intent x = (case x of Some (Trying t k i n) \<Rightarrow> Some (k, i) | Some (Taking t k i st) \<Rightarrow> Some (k, i) | _ \<Rightarrow> None)"

lemma intent_simps [simp]:
  "intent None = None" "intent (Some (Trying t k i n)) = Some (k, i)" "intent (Some (Taking t k i st)) = Some (k, i)"
  "intent (Some (Noting st' a ks b)) = None" "intent (noting st' a ks) = None"
  by (simp_all add: intent_def noting_def)

definition says :: "content option \<Rightarrow> hold_rec \<Rightarrow> bool" where
  "says c r \<longleftrightarrow> c = Some Blank \<or> (\<exists>r'. c = Some (Rec r') \<and> same_hold r' r)"

definition rec_ok :: "fleet \<Rightarrow> bool" where
  "rec_ok s \<longleftrightarrow>
     (\<forall>p k h. map_of (table s p) k = Some h \<longrightarrow> hl_device (hd_rec h) = snd k \<and> list_key (fst k) = fst k
        \<and> says (content_of s (path_of k)) (hd_rec h))
   \<and> (\<forall>p k i. intent (inside_of s p) = Some (k, i) \<longrightarrow> hl_device i = snd k \<and> list_key (fst k) = fst k)"

lemma rec_okD:
  assumes "rec_ok s"
  shows "map_of (table s p) k = Some h \<Longrightarrow> hl_device (hd_rec h) = snd k"
    "map_of (table s p) k = Some h \<Longrightarrow> says (content_of s (path_of k)) (hd_rec h)"
    "intent (inside_of s p) = Some (k, i) \<Longrightarrow> hl_device i = snd k \<and> list_key (fst k) = fst k"
    "map_of (table s p) k = Some h \<Longrightarrow> list_key (fst k) = fst k"
  using assms unfolding rec_ok_def by blast+

lemma says_simps [simp]: "says (Some Blank) r" "says (Some (Rec r')) r \<longleftrightarrow> same_hold r' r" "\<not> says None r"
  by (simp_all add: says_def)

text \<open>A step whose holds were holds, with the same record up to progress and a file that is as it was or
  emptied.\<close>

lemma rec_ok_still:
  assumes ok: "rec_ok s"
    and tb: "\<And>p k h'. map_of (table s' p) k = Some h'
      \<Longrightarrow> \<exists>h. map_of (table s p) k = Some h \<and> same_hold (hd_rec h) (hd_rec h')"
    and cont: "\<And>p k h. map_of (table s p) k = Some h
      \<Longrightarrow> content_of s' (path_of k) = content_of s (path_of k) \<or> content_of s' (path_of k) = Some Blank"
    and ins: "\<And>p k i. intent (inside_of s' p) = Some (k, i) \<Longrightarrow> intent (inside_of s p) = Some (k, i) \<or> hl_device i = snd k \<and> list_key (fst k) = fst k"
  shows "rec_ok s'"
  unfolding rec_ok_def
proof (intro conjI allI impI)
  fix p k h' assume h': "map_of (table s' p) k = Some h'"
  then obtain h where h: "map_of (table s p) k = Some h"
    and r: "same_hold (hd_rec h) (hd_rec h')" using tb by blast
  show "hl_device (hd_rec h') = snd k" using rec_okD(1) [OF ok h] same_hold_sel(1) [OF r] by simp
  show "list_key (fst k) = fst k" using rec_okD(4) [OF ok h] .
  show "says (content_of s' (path_of k)) (hd_rec h')"
    using rec_okD(2) [OF ok h] cont [OF h] same_hold_trans [OF _ r] by (auto simp: says_def)
next
  fix p k i assume "intent (inside_of s' p) = Some (k, i)"
  then show "hl_device i = snd k" "list_key (fst k) = fst k" using ins rec_okD(3) [OF ok] by blast+
qed

lemma rec_ok_begin:
  assumes "rec_ok s" "step_begin refuses p t l h op ac de ip now s = Some s'"
  shows "rec_ok s'"
proof (rule rec_ok_still [OF assms(1)])
  fix q k h' assume "map_of (table s' q) k = Some h'"
  then show "\<exists>h. map_of (table s q) k = Some h \<and> same_hold (hd_rec h) (hd_rec h')"
    using assms(2) by (auto simp: step_begin_def Let_def dest!: acquire_front_Again split: if_splits front.splits)
next
  fix q k i assume "intent (inside_of s' q) = Some (k, i)"
  then show "intent (inside_of s q) = Some (k, i) \<or> hl_device i = snd k \<and> list_key (fst k) = fst k"
    using assms(2) by (auto simp: step_begin_def Let_def new_info_def dest!: acquire_front_Try split: if_splits front.splits)
next
  fix q k h assume "map_of (table s q) k = Some h"
  show "content_of s' (path_of k) = content_of s (path_of k) \<or> content_of s' (path_of k) = Some Blank"
    using assms(2) by (auto simp: step_begin_def Let_def split: if_splits front.splits)
qed

lemma rec_ok_attempt: "rec_ok s \<Longrightarrow> step_attempt p s = Some s' \<Longrightarrow> rec_ok s'"
  by (erule rec_ok_still) (auto simp: step_attempt_def Let_def split: option.splits inside.splits try_answer.splits if_splits)

lemma rec_ok_mark: "rec_ok s \<Longrightarrow> step_mark p ok s = Some s' \<Longrightarrow> rec_ok s'"
  by (erule rec_ok_still) (auto simp: step_mark_def split: option.splits inside.splits taking_stage.splits if_splits)

lemma rec_ok_keep: "rec_ok s \<Longrightarrow> step_keep p ok now s = Some s' \<Longrightarrow> rec_ok s'"
  by (erule rec_ok_still) (auto simp: step_keep_def Let_def split: option.splits inside.splits taking_stage.splits if_splits)

lemma rec_ok_empty: "rec_ok s \<Longrightarrow> step_empty p s = Some s' \<Longrightarrow> rec_ok s'"
  by (erule rec_ok_still) (auto simp: step_empty_def split: option.splits inside.splits taking_stage.splits if_splits)

lemma rec_ok_release: "rec_ok s \<Longrightarrow> step_release p me l h s = Some s' \<Longrightarrow> rec_ok s'"
  by (erule rec_ok_still) (auto simp: step_release_def Let_def split: option.splits if_splits)

lemma rec_ok_leave:
  "rec_ok s \<Longrightarrow> step_clear pt ok s = Some s' \<Longrightarrow> rec_ok s'"
  "rec_ok s \<Longrightarrow> step_unmark pt ok s = Some s' \<Longrightarrow> rec_ok s'"
  "rec_ok s \<Longrightarrow> step_unlock pt s = Some s' \<Longrightarrow> rec_ok s'"
  by (cases ok; auto elim!: rec_ok_still simp: step_clear_def step_unmark_def step_unlock_def
      split: option.splits leave.splits if_splits)+

lemma rec_ok_hand_over: "rec_ok s \<Longrightarrow> step_hand_over p me l h to s = Some s' \<Longrightarrow> rec_ok s'"
  by (erule rec_ok_still) (auto simp: step_hand_over_def Let_def split: option.splits if_splits)

lemma rec_ok_note: "rec_ok s \<Longrightarrow> step_note p me cur dev st now s = Some s' \<Longrightarrow> rec_ok s'"
  by (erule rec_ok_still) (auto simp: step_note_def split: if_splits)

lemma rec_ok_note_cut: "rec_ok s \<Longrightarrow> step_note_cut p ok s = Some s' \<Longrightarrow> rec_ok s'"
  by (erule rec_ok_still)
    (auto simp: step_note_cut_def Let_def split: option.splits inside.splits list.splits bool.splits if_splits)

lemma rec_ok_others:
  "rec_ok s \<Longrightarrow> step_probe pt s = Some s' \<Longrightarrow> rec_ok s'"
  "rec_ok s \<Longrightarrow> step_unprobe pt s = Some s' \<Longrightarrow> rec_ok s'"
  "rec_ok s \<Longrightarrow> step_index_list i l s = Some s' \<Longrightarrow> rec_ok s'"
  "rec_ok s \<Longrightarrow> step_index_stop i s = Some s' \<Longrightarrow> rec_ok s'"
  "rec_ok s \<Longrightarrow> step_die p s = Some s' \<Longrightarrow> rec_ok s'"
  by (erule rec_ok_still;
      auto simp: step_probe_def step_unprobe_def step_index_list_def step_index_stop_def step_die_def split: if_splits)+

lemma rec_ok_index:
  "rec_ok s \<Longrightarrow> step_index_stat i s = Some s' \<Longrightarrow> rec_ok s'"
  "rec_ok s \<Longrightarrow> step_index_mark i s = Some s' \<Longrightarrow> rec_ok s'"
  "rec_ok s \<Longrightarrow> step_index_done i s = Some s' \<Longrightarrow> rec_ok s'"
  by (erule rec_ok_still;
      auto simp: step_index_stat_def step_index_mark_def step_index_done_def split: option.splits list.splits)+


text \<open>A record written at the path of one who uses it.\<close>

lemma rec_ok_write:
  assumes own: "own_ok s" and ok: "rec_ok s" and st: "step_write p s = Some s'"
  shows "rec_ok s'"
proof -
  obtain t k i where i: "inside_of s p = Some (Taking t k i Emptied)"
    using st by (auto simp: step_write_def split: option.splits inside.splits taking_stage.splits)
  have dev: "hl_device i = snd k \<and> list_key (fst k) = fst k" using rec_okD(3) [OF ok, of p k i] i by simp
  have takes: "uses s p (path_of k) Takes" using i by simp
  have other: "map_of (table s q) k' = Some h \<Longrightarrow> path_of k' \<noteq> path_of k" for q k' h
    using own_ok_alone(2) [OF own takes, of q "Held k'"] by (auto simp: domI)
  show ?thesis
    unfolding rec_ok_def
    using st i dev other rec_okD [OF ok] by (auto simp: step_write_def split: if_splits)
qed

lemma rec_ok_raise:
  assumes own: "own_ok s" and ok: "rec_ok s" and st: "step_raise p w s = Some s'"
  shows "rec_ok s'"
proof -
  obtain t k i sg where i: "inside_of s p = Some (Taking t k i sg)"
    using st by (auto simp: step_raise_def split: option.splits inside.splits)
  have takes: "uses s p (path_of k) Takes" using i by simp
  have other: "map_of (table s q) k' = Some h \<Longrightarrow> path_of k' \<noteq> path_of k" for q k' h
    using own_ok_alone(2) [OF own takes, of q "Held k'"] by (auto simp: domI)
  show ?thesis
    by (rule rec_ok_still [OF ok]) (use st i other in \<open>auto simp: step_raise_def split: if_splits\<close>)
qed

lemma rec_ok_note_put:
  assumes own: "own_ok s" and ok: "rec_ok s" and st: "step_note_put p b s = Some s'"
  shows "rec_ok s'"
proof -
  obtain st' now k ks where i: "inside_of s p = Some (Noting st' now (k # ks) True)"
    using st by (auto simp: step_note_put_def split: option.splits inside.splits list.splits bool.splits)
  show ?thesis
  proof (cases "b \<and> map_of (table s p) k \<noteq> None")
    case True
    then obtain h where h: "map_of (table s p) k = Some h" by auto
    have held: "uses s p (path_of k) (Held k)" using h by (simp add: domI)
    have s': "s' = (put_content (path_of k) (Rec (hd_rec h)) s)\<lparr>inside_of := (inside_of s)(p := noting st' now ks)\<rparr>"
      using st i h True by (simp add: step_note_put_def)
    show ?thesis
      unfolding rec_ok_def
    proof (intro conjI allI impI)
      fix q k' h' assume h': "map_of (table s' q) k' = Some h'"
      then have old: "map_of (table s q) k' = Some h'" by (simp add: s')
      show "hl_device (hd_rec h') = snd k'" using rec_okD(1) [OF ok old] .
      show "list_key (fst k') = fst k'" using rec_okD(4) [OF ok old] .
      show "says (content_of s' (path_of k')) (hd_rec h')"
      proof (cases "path_of k' = path_of k")
        case True
        then have "q = p" "k' = k"
          using own_ok_alone [OF own held, of q "Held k'"] old by (auto simp: domI)
        with old h show ?thesis by (simp add: s')
      next
        case False
        then show ?thesis using rec_okD(2) [OF ok old] by (simp add: s')
      qed
    next
      fix q k' j assume "intent (inside_of s' q) = Some (k', j)"
      then have "intent (inside_of s q) = Some (k', j)" by (simp add: s' split: if_splits)
      then show "hl_device j = snd k'" "list_key (fst k') = fst k'" using rec_okD(3) [OF ok] by blast+
    qed
  next
    case False
    show ?thesis
      by (rule rec_ok_still [OF ok]) (use st i False in \<open>auto simp: step_note_put_def split: if_splits option.splits\<close>)
  qed
qed

lemmas rec_ok_steps = rec_ok_begin rec_ok_attempt rec_ok_mark rec_ok_keep rec_ok_empty rec_ok_release rec_ok_leave
  rec_ok_hand_over rec_ok_note rec_ok_note_cut rec_ok_others rec_ok_index
lemmas rec_ok_own_steps = rec_ok_write rec_ok_raise rec_ok_note_put

lemma rec_ok_perform: "own_ok s \<Longrightarrow> rec_ok s \<Longrightarrow> perform refuses a s = Some s' \<Longrightarrow> rec_ok s'"
  by (cases a; simp only: perform.simps) (erule (1) rec_ok_steps | erule (2) rec_ok_own_steps)+

lemma rec_ok_start: "rec_ok (start_fleet fs)"
  by (simp add: rec_ok_def start_fleet_def)

lemma reach_rec_ok: "reach refuses fs s \<Longrightarrow> rec_ok s"
  by (induction rule: reach.induct) (auto intro: rec_ok_start rec_ok_perform reach_own_ok)


section \<open>The records of the holds cut off\<close>

definition saved :: "fleet \<Rightarrow> lock_path \<Rightarrow> hold_rec \<Rightarrow> bool" where
  "saved s pt r \<longleftrightarrow> (\<exists>e host. Some e \<in> set (kept s (fst pt)) \<and> ke_rec e = with_device host r) \<or> (pt, r) \<in> set (unkept s)"

lemma saved_kept: "Some e \<in> set (kept s (fst pt)) \<Longrightarrow> ke_rec e = with_device host r \<Longrightarrow> saved s pt r"
  by (auto simp: saved_def)

definition held_paths :: "(pid \<Rightarrow> (key \<times> hold) list) \<Rightarrow> lock_path set" where
  "held_paths tb = (\<Union>p. path_of ` dom (map_of (tb p)))"

definition busy :: "fleet \<Rightarrow> lock_path \<Rightarrow> bool" where
  "busy s pt \<longleftrightarrow> pt \<in> held_paths (table s) \<or> leaving s pt \<noteq> None"

lemma held_paths_insert: "held_paths (tb(p := AList.update k h (tb p))) = insert (path_of k) (held_paths tb)"
proof (intro set_eqI iffI)
  fix pt assume "pt \<in> held_paths (tb(p := AList.update k h (tb p)))"
  then obtain q where "pt \<in> path_of ` dom (map_of ((tb(p := AList.update k h (tb p))) q))" by (auto simp only: held_paths_def)
  then show "pt \<in> insert (path_of k) (held_paths tb)"
    unfolding held_paths_def by (cases "q = p") (simp, blast, simp, blast)
next
  fix pt assume "pt \<in> insert (path_of k) (held_paths tb)"
  then consider "pt = path_of k" | q where "pt \<in> path_of ` dom (map_of (tb q))" by (auto simp only: held_paths_def)
  then show "pt \<in> held_paths (tb(p := AList.update k h (tb p)))"
  proof cases
    case 1
    have "pt \<in> path_of ` dom (map_of ((tb(p := AList.update k h (tb p))) p))" by (simp add: 1)
    then show ?thesis unfolding held_paths_def by blast
  next
    case 2
    have "pt \<in> path_of ` dom (map_of ((tb(p := AList.update k h (tb p))) q))"
      using image_mono [of "dom (map_of (tb q))" "dom (map_of ((tb(p := AList.update k h (tb p))) q))" path_of] 2
      by (auto simp only: fun_upd_apply update_conv' dom_fun_upd subset_insertI order_refl split: if_splits)
    then show ?thesis unfolding held_paths_def by blast
  qed
qed

lemma held_pathsI: "map_of (tb p) k = Some h \<Longrightarrow> path_of k \<in> held_paths tb"
  by (auto simp: held_paths_def)

lemma held_paths_update [simp]:
  "map_of (tb p) k = Some h \<Longrightarrow> held_paths (tb(p := AList.update k h' (tb p))) = held_paths tb"
  using held_pathsI [of tb p k h] by (simp add: held_paths_insert insert_absorb)

lemma held_paths_delete: "pt \<in> held_paths (tb(p := AList.delete k (tb p))) \<Longrightarrow> pt \<in> held_paths tb"
  by (fastforce simp: held_paths_def split: if_splits)

lemma held_pathsE:
  assumes "pt \<in> held_paths tb"
  obtains p k h where "map_of (tb p) k = Some h" "path_of k = pt"
  using assms by (auto simp: held_paths_def)

definition in_file :: "fleet \<Rightarrow> lock_path \<Rightarrow> hold_rec \<Rightarrow> bool" where
  "in_file s pt r \<longleftrightarrow> content_of s pt = Some (Rec r) \<and> \<not> busy s pt"

definition trace_ok :: "fleet \<Rightarrow> bool" where
  "trace_ok s \<longleftrightarrow> (\<forall>pt r. (pt, r) \<in> set (ended s) \<longrightarrow> saved s pt r \<or> in_file s pt r)
     \<and> (\<forall>p t k i r. inside_of s p = Some (Taking t k i Kept) \<longrightarrow> content_of s (path_of k) = Some (Rec r)
          \<longrightarrow> saved s (path_of k) r)"

lemma trace_okD:
  assumes "trace_ok s"
  shows "(pt, r) \<in> set (ended s) \<Longrightarrow> saved s pt r \<or> in_file s pt r"
    "inside_of s p = Some (Taking t k i Kept) \<Longrightarrow> content_of s (path_of k) = Some (Rec r) \<Longrightarrow> saved s (path_of k) r"
  using assms unfolding trace_ok_def by blast+

definition keeps_records :: "fleet \<Rightarrow> fleet \<Rightarrow> bool" where
  "keeps_records s s' \<longleftrightarrow> (\<forall>l. set (kept s l) \<subseteq> set (kept s' l)) \<and> set (unkept s) \<subseteq> set (unkept s')"

lemma saved_grows: "keeps_records s s' \<Longrightarrow> saved s pt r \<Longrightarrow> saved s' pt r"
  by (auto simp: keeps_records_def saved_def)

lemma keeps_records_begin: "step_begin refuses p t l h op ac de ip now s = Some s' \<Longrightarrow> keeps_records s s'"
  by (auto simp: keeps_records_def step_begin_def Let_def split: if_splits front.splits)

lemma keeps_records_attempt: "step_attempt p s = Some s' \<Longrightarrow> keeps_records s s'"
  by (auto simp: keeps_records_def step_attempt_def Let_def split: option.splits inside.splits try_answer.splits if_splits)

lemma keeps_records_mark: "step_mark p ok s = Some s' \<Longrightarrow> keeps_records s s'"
  by (auto simp: keeps_records_def step_mark_def split: option.splits inside.splits taking_stage.splits if_splits)

lemma keeps_records_keep: "step_keep p ok now s = Some s' \<Longrightarrow> keeps_records s s'"
  by (auto simp: keeps_records_def step_keep_def Let_def split: option.splits inside.splits taking_stage.splits if_splits)

lemma keeps_records_empty: "step_empty p s = Some s' \<Longrightarrow> keeps_records s s'"
  by (auto simp: keeps_records_def step_empty_def split: option.splits inside.splits taking_stage.splits)

lemma keeps_records_write: "step_write p s = Some s' \<Longrightarrow> keeps_records s s'"
  by (auto simp: keeps_records_def step_write_def split: option.splits inside.splits taking_stage.splits)

lemma keeps_records_raise: "step_raise p w s = Some s' \<Longrightarrow> keeps_records s s'"
  by (auto simp: keeps_records_def step_raise_def split: option.splits inside.splits if_splits)

lemma keeps_records_release: "step_release p me l h s = Some s' \<Longrightarrow> keeps_records s s'"
  by (auto simp: keeps_records_def step_release_def Let_def split: option.splits if_splits)

lemma keeps_records_leave:
  "step_clear pt ok s = Some s' \<Longrightarrow> keeps_records s s'" "step_unmark pt ok s = Some s' \<Longrightarrow> keeps_records s s'"
  "step_unlock pt s = Some s' \<Longrightarrow> keeps_records s s'"
  by (cases ok; auto simp: keeps_records_def step_clear_def step_unmark_def step_unlock_def split: option.splits leave.splits)+

lemma keeps_records_hand_over: "step_hand_over p me l h to s = Some s' \<Longrightarrow> keeps_records s s'"
  by (auto simp: keeps_records_def step_hand_over_def Let_def split: option.splits if_splits)

lemma keeps_records_note: "step_note p me cur dev st now s = Some s' \<Longrightarrow> keeps_records s s'"
  by (auto simp: keeps_records_def step_note_def split: if_splits)

lemma keeps_records_note_cut: "step_note_cut p ok s = Some s' \<Longrightarrow> keeps_records s s'"
  by (auto simp: keeps_records_def step_note_cut_def Let_def split: option.splits inside.splits list.splits bool.splits if_splits)

lemma keeps_records_note_put: "step_note_put p ok s = Some s' \<Longrightarrow> keeps_records s s'"
  by (auto simp: keeps_records_def step_note_put_def split: option.splits inside.splits list.splits bool.splits if_splits)

lemma keeps_records_others:
  "step_probe pt s = Some s' \<Longrightarrow> keeps_records s s'" "step_unprobe pt s = Some s' \<Longrightarrow> keeps_records s s'"
  "step_index_list i l s = Some s' \<Longrightarrow> keeps_records s s'" "step_index_stat i s = Some s' \<Longrightarrow> keeps_records s s'"
  "step_index_mark i s = Some s' \<Longrightarrow> keeps_records s s'" "step_index_done i s = Some s' \<Longrightarrow> keeps_records s s'"
  "step_index_stop i s = Some s' \<Longrightarrow> keeps_records s s'" "step_die p s = Some s' \<Longrightarrow> keeps_records s s'"
  by (auto simp: keeps_records_def step_probe_def step_unprobe_def step_index_list_def step_index_stat_def step_index_mark_def
      step_index_done_def step_index_stop_def step_die_def split: option.splits list.splits if_splits)

text \<open>A step that ends no process: a record in a file nobody holds stays there or is saved, and so does
  what a taking operation has kept.\<close>

lemma trace_ok_still:
  assumes ok: "trace_ok s" and g: "keeps_records s s'" and e: "ended s' = ended s"
    and left: "\<And>pt r. in_file s pt r \<Longrightarrow> in_file s' pt r \<or> saved s' pt r"
    and taking: "\<And>p t k i r. inside_of s' p = Some (Taking t k i Kept) \<Longrightarrow> content_of s' (path_of k) = Some (Rec r)
      \<Longrightarrow> saved s' (path_of k) r \<or> inside_of s p = Some (Taking t k i Kept) \<and> content_of s (path_of k) = Some (Rec r)"
  shows "trace_ok s'"
  unfolding trace_ok_def e using trace_okD [OF ok] saved_grows [OF g] left taking by blast

lemma trace_ok_same:
  assumes "trace_ok s" "keeps_records s s'" "ended s' = ended s" "\<And>pt. content_of s' pt = content_of s pt"
    and "\<And>pt. busy s' pt \<Longrightarrow> busy s pt \<or> \<not> sized (content_of s pt)"
    and "\<And>p t k i. inside_of s' p = Some (Taking t k i Kept) \<Longrightarrow> inside_of s p = Some (Taking t k i Kept)"
  shows "trace_ok s'"
proof (rule trace_ok_still [OF assms(1-3)])
  show "in_file s pt r \<Longrightarrow> in_file s' pt r \<or> saved s' pt r" for pt r
    using assms(4,5) [of pt] by (auto simp: in_file_def)
qed (use assms(4,6) in simp)


lemma trace_ok_begin:
  assumes "trace_ok s" "step_begin refuses p t l h op ac de ip now s = Some s'"
  shows "trace_ok s'"
proof (rule trace_ok_still [OF assms(1) keeps_records_begin [OF assms(2)]])
  have b: "busy s' pt \<Longrightarrow> busy s pt" for pt
    using assms(2)
    by (auto simp: busy_def step_begin_def Let_def dest!: acquire_front_Again split: if_splits front.splits)
  show "in_file s' pt r \<or> saved s' pt r" if "in_file s pt r" for pt r
    using that b [of pt] assms(2)
    by (auto simp: in_file_def step_begin_def Let_def split: if_splits front.splits)
  show "saved s' (path_of k) r \<or> inside_of s q = Some (Taking t' k i Kept) \<and> content_of s (path_of k) = Some (Rec r)"
    if "inside_of s' q = Some (Taking t' k i Kept)" "content_of s' (path_of k) = Some (Rec r)" for q t' k i r
    using that assms(2) by (auto simp: step_begin_def Let_def split: if_splits front.splits)
qed (use assms(2) in \<open>auto simp: step_begin_def Let_def split: if_splits front.splits\<close>)

lemma trace_ok_attempt: "trace_ok s \<Longrightarrow> step_attempt p s = Some s' \<Longrightarrow> trace_ok s'"
  by (rule trace_ok_same, assumption, erule keeps_records_attempt)
    (auto simp: step_attempt_def Let_def busy_def split: option.splits inside.splits try_answer.splits if_splits)

lemma trace_ok_mark: "trace_ok s \<Longrightarrow> step_mark p ok s = Some s' \<Longrightarrow> trace_ok s'"
  by (rule trace_ok_same, assumption, erule keeps_records_mark)
    (auto simp: step_mark_def busy_def split: option.splits inside.splits taking_stage.splits if_splits)

lemma trace_ok_release: "trace_ok s \<Longrightarrow> step_release p me l h s = Some s' \<Longrightarrow> trace_ok s'"
  by (rule trace_ok_same, assumption, erule keeps_records_release)
    (auto simp: step_release_def Let_def busy_def dest: held_paths_delete intro: held_pathsI split: option.splits if_splits)

lemma trace_ok_hand_over: "trace_ok s \<Longrightarrow> step_hand_over p me l h to s = Some s' \<Longrightarrow> trace_ok s'"
  by (rule trace_ok_same, assumption, erule keeps_records_hand_over)
    (auto simp: step_hand_over_def Let_def busy_def split: option.splits if_splits)

lemma trace_ok_note: "trace_ok s \<Longrightarrow> step_note p me cur dev st now s = Some s' \<Longrightarrow> trace_ok s'"
  by (rule trace_ok_same, assumption, erule keeps_records_note)
    (auto simp: step_note_def busy_def split: if_splits)

lemma trace_ok_unlock:
  "trace_ok s \<Longrightarrow> step_unmark pt ok s = Some s' \<Longrightarrow> trace_ok s'"
  "trace_ok s \<Longrightarrow> step_unlock pt s = Some s' \<Longrightarrow> trace_ok s'"
  by (rule trace_ok_same, assumption, erule keeps_records_leave; cases ok;
      auto simp: step_unmark_def step_unlock_def busy_def split: option.splits leave.splits if_splits)+

lemma trace_ok_others:
  "trace_ok s \<Longrightarrow> step_probe pt s = Some s' \<Longrightarrow> trace_ok s'"
  "trace_ok s \<Longrightarrow> step_unprobe pt s = Some s' \<Longrightarrow> trace_ok s'"
  "trace_ok s \<Longrightarrow> step_index_list i l s = Some s' \<Longrightarrow> trace_ok s'"
  "trace_ok s \<Longrightarrow> step_index_stat i s = Some s' \<Longrightarrow> trace_ok s'"
  "trace_ok s \<Longrightarrow> step_index_mark i s = Some s' \<Longrightarrow> trace_ok s'"
  "trace_ok s \<Longrightarrow> step_index_done i s = Some s' \<Longrightarrow> trace_ok s'"
  "trace_ok s \<Longrightarrow> step_index_stop i s = Some s' \<Longrightarrow> trace_ok s'"
  by (rule trace_ok_same, assumption, erule keeps_records_others;
      auto simp: step_probe_def step_unprobe_def step_index_list_def step_index_stat_def step_index_mark_def
        step_index_done_def step_index_stop_def busy_def split: option.splits list.splits if_splits)+


lemma trace_ok_keep:
  assumes "trace_ok s" "step_keep p ok now s = Some s'"
  shows "trace_ok s'"
proof -
  obtain t k i where i: "inside_of s p = Some (Taking t k i Marked)"
    using assms(2) by (auto simp: step_keep_def split: option.splits inside.splits taking_stage.splits)
  show ?thesis
  proof (rule trace_ok_still [OF assms(1) keeps_records_keep [OF assms(2)]])
    show "in_file s' pt r \<or> saved s' pt r" if "in_file s pt r" for pt r
      using that assms(2) i
      by (auto simp: in_file_def busy_def step_keep_def Let_def split: option.splits if_splits)
    fix q t' k' i' r
    assume q: "inside_of s' q = Some (Taking t' k' i' Kept)" and c: "content_of s' (path_of k') = Some (Rec r)"
    show "saved s' (path_of k') r
        \<or> inside_of s q = Some (Taking t' k' i' Kept) \<and> content_of s (path_of k') = Some (Rec r)"
    proof (cases "q = p")
      case True
      then have "k' = k" "content_of s (path_of k) = Some (Rec r)"
        using q c assms(2) i by (auto simp: step_keep_def Let_def split: option.splits if_splits)
      then have "saved s' (path_of k') r"
        using assms(2) i saved_kept [of "record_interrupted (snd k) r i now" s' "path_of k" "snd k" r]
        by (cases ok) (auto simp: step_keep_def Let_def left_rec_def record_interrupted_def saved_def)
      then show ?thesis ..
    next
      case False
      then show ?thesis using q c assms(2) i
        by (auto simp: step_keep_def Let_def split: option.splits if_splits)
    qed
  qed (use assms(2) i in \<open>auto simp: step_keep_def Let_def split: option.splits if_splits\<close>)
qed

lemma trace_ok_empty:
  assumes "trace_ok s" "step_empty p s = Some s'"
  shows "trace_ok s'"
proof -
  obtain t k i where i: "inside_of s p = Some (Taking t k i Kept)"
    using assms(2) by (auto simp: step_empty_def split: option.splits inside.splits taking_stage.splits)
  then have s': "s' = (put_content (path_of k) Blank s)\<lparr>inside_of := (inside_of s)(p := Some (Taking t k i Emptied))\<rparr>"
    using assms(2) by (simp add: step_empty_def)
  show ?thesis
  proof (rule trace_ok_still [OF assms(1) keeps_records_empty [OF assms(2)]])
    show "in_file s' pt r \<or> saved s' pt r" if "in_file s pt r" for pt r
    proof (cases "pt = path_of k")
      case True
      then have "saved s pt r" using trace_okD(2) [OF assms(1) i] that by (simp add: in_file_def)
      then show ?thesis using saved_grows [OF keeps_records_empty [OF assms(2)]] by blast
    qed (use that in \<open>simp add: s' in_file_def busy_def\<close>)
  qed (auto simp: s' split: if_splits)
qed

text \<open>A record written by the one that uses the path: nobody else takes it.\<close>

lemma trace_ok_write:
  assumes own: "own_ok s" and mk: "mark_ok s" and ok: "trace_ok s" and st: "step_write p s = Some s'"
  shows "trace_ok s'"
proof -
  obtain t k i where i: "inside_of s p = Some (Taking t k i Emptied)"
    using st by (auto simp: step_write_def split: option.splits inside.splits taking_stage.splits)
  define h where "h = \<lparr>hd_count = 1, hd_thread = t, hd_rec = i\<rparr>"
  have s': "s' = (put_content (path_of k) (Rec i) s)
      \<lparr>table := (table s)(p := AList.update k h (table s p)), inside_of := (inside_of s)(p := None)\<rparr>"
    using st i by (simp add: step_write_def h_def)
  have blank: "content_of s (path_of k) = Some Blank"
    using mark_okD(3) [OF mk, of p "path_of k" Takes] i by (simp add: wants_blank_def)
  have takes: "uses s p (path_of k) Takes" using i by simp
  show ?thesis
  proof (rule trace_ok_still [OF ok keeps_records_write [OF st]])
    show "in_file s' pt r \<or> saved s' pt r" if "in_file s pt r" for pt r
    proof -
      have "pt \<noteq> path_of k" using that blank by (auto simp: in_file_def)
      moreover have "held_paths (table s') = insert (path_of k) (held_paths (table s))"
        by (simp add: s' held_paths_insert)
      ultimately show ?thesis using that by (auto simp: in_file_def busy_def s')
    qed
    show "saved s' (path_of k') r
        \<or> inside_of s q = Some (Taking t' k' i' Kept) \<and> content_of s (path_of k') = Some (Rec r)"
      if q: "inside_of s' q = Some (Taking t' k' i' Kept)" and c: "content_of s' (path_of k') = Some (Rec r)" for q t' k' i' r
      using own_ok_alone(1) [OF own takes, of q Takes] q c by (auto simp: s' split: if_splits)
  qed (simp add: s')
qed

lemma trace_ok_raise:
  assumes own: "own_ok s" and mk: "mark_ok s" and ok: "trace_ok s" and st: "step_raise p w s = Some s'"
  shows "trace_ok s'"
proof -
  obtain t k i sg where i: "inside_of s p = Some (Taking t k i sg)" "w \<Longrightarrow> sg = Emptied"
    and s': "s' = (if w then put_content (path_of k) (Rec i) s else s)\<lparr>inside_of := (inside_of s)(p := None)\<rparr>"
    using st by (auto simp: step_raise_def split: option.splits inside.splits if_splits)
  have blank: "w \<Longrightarrow> content_of s (path_of k) = Some Blank"
    using mark_okD(3) [OF mk, of p "path_of k" Takes] i by (simp add: wants_blank_def)
  have takes: "uses s p (path_of k) Takes" using i by simp
  show ?thesis
  proof (rule trace_ok_still [OF ok keeps_records_raise [OF st]])
    show "in_file s' pt r \<or> saved s' pt r" if "in_file s pt r" for pt r
      using that blank by (auto simp: s' in_file_def busy_def)
    show "saved s' (path_of k') r
        \<or> inside_of s q = Some (Taking t' k' i' Kept) \<and> content_of s (path_of k') = Some (Rec r)"
      if q: "inside_of s' q = Some (Taking t' k' i' Kept)" and c: "content_of s' (path_of k') = Some (Rec r)" for q t' k' i' r
      using own_ok_alone(1) [OF own takes, of q Takes] q c by (auto simp: s' split: if_splits)
  qed (simp add: s')
qed

lemma trace_ok_clear:
  assumes ok: "trace_ok s" and st: "step_clear pt b s = Some s'"
  shows "trace_ok s'"
proof -
  obtain p where l: "leaving s pt = Some (p, Popped)"
    using st by (auto simp: step_clear_def split: option.splits leave.splits)
  then have busy: "busy s pt" by (simp add: busy_def)
  show ?thesis
  proof (rule trace_ok_still [OF ok keeps_records_leave(1) [OF st]])
    show "in_file s' pt' r \<or> saved s' pt' r" if "in_file s pt' r" for pt' r
      using that busy st l by (cases b) (auto simp: in_file_def busy_def step_clear_def split: if_splits)
  qed (use st l in \<open>cases b; auto simp: step_clear_def split: if_splits\<close>)+
qed

lemma trace_ok_note_cut:
  assumes ok: "trace_ok s" and st: "step_note_cut p b s = Some s'"
  shows "trace_ok s'"
proof -
  obtain st' now k ks where i: "inside_of s p = Some (Noting st' now (k # ks) False)"
    using st by (auto simp: step_note_cut_def split: option.splits inside.splits list.splits bool.splits)
  show ?thesis
  proof (cases "map_of (table s p) k")
    case None
    show ?thesis
      by (rule trace_ok_same [OF ok keeps_records_note_cut [OF st]])
        (use st i None in \<open>auto simp: step_note_cut_def busy_def split: if_splits\<close>)
  next
    case (Some h)
    show ?thesis
    proof (rule trace_ok_still [OF ok keeps_records_note_cut [OF st]])
      show "in_file s' pt r \<or> saved s' pt r" if "in_file s pt r" for pt r
        using that st i Some held_pathsI [where tb = "table s", OF Some]
        by (cases b) (auto simp: in_file_def busy_def step_note_cut_def split: if_splits)
    qed (use st i Some in \<open>cases b; auto simp: step_note_cut_def split: if_splits\<close>)+
  qed
qed

lemma trace_ok_note_put:
  assumes own: "own_ok s" and ok: "trace_ok s" and st: "step_note_put p b s = Some s'"
  shows "trace_ok s'"
proof -
  obtain st' now k ks where i: "inside_of s p = Some (Noting st' now (k # ks) True)"
    using st by (auto simp: step_note_put_def split: option.splits inside.splits list.splits bool.splits)
  show ?thesis
  proof (cases "map_of (table s p) k")
    case None
    show ?thesis
      by (rule trace_ok_same [OF ok keeps_records_note_put [OF st]])
        (use st i None in \<open>auto simp: step_note_put_def busy_def split: if_splits\<close>)
  next
    case (Some h)
    have held: "uses s p (path_of k) (Held k)" using Some by (simp add: domI)
    have s': "s' = (if b then put_content (path_of k) (Rec (hd_rec h)) s else s)\<lparr>inside_of := (inside_of s)(p := noting st' now ks)\<rparr>"
      using st i Some by (simp add: step_note_put_def)
    show ?thesis
    proof (rule trace_ok_still [OF ok keeps_records_note_put [OF st]])
      show "in_file s' pt r \<or> saved s' pt r" if "in_file s pt r" for pt r
        using that held_pathsI [where tb = "table s", OF Some] by (auto simp: in_file_def busy_def s')
      show "saved s' (path_of k') r
          \<or> inside_of s q = Some (Taking t' k' i' Kept) \<and> content_of s (path_of k') = Some (Rec r)"
        if q: "inside_of s' q = Some (Taking t' k' i' Kept)" and c: "content_of s' (path_of k') = Some (Rec r)" for q t' k' i' r
        using own_ok_alone(2) [OF own held, of q Takes] q c by (auto simp: s' split: if_splits)
    qed (simp add: s')
  qed
qed

lemma trace_ok_die:
  assumes own: "own_ok s" and ok: "trace_ok s" and st: "step_die p s = Some s'"
  shows "trace_ok s'"
proof -
  have g: "keeps_records s s'" using keeps_records_others(8) [OF st] .
  have c: "content_of s' pt = content_of s pt" for pt using st by (auto simp: step_die_def)
  have b: "busy s' pt \<Longrightarrow> busy s pt" for pt
    using st by (fastforce simp: step_die_def busy_def held_paths_def split: if_splits option.splits)
  have new: "in_file s' pt r" if cut: "(pt, r) \<in> set (cut_off s p)" for pt r
  proof -
    obtain k h where kh: "(k, h) \<in> set (table s p)" "path_of k = pt" "content_of s pt = Some (Rec r)"
      using cut by (auto simp: cut_off_def List.map_filter_def split: option.splits content.splits)
    have held: "uses s p pt (Held k)" using kh(1,2) by (force simp: dom_map_of_conv_image_fst)
    have alone: "uses s q pt u \<Longrightarrow> q = p" for q u using own_ok_alone(1) [OF own held] .
    have "\<not> busy s' pt"
    proof
      assume "busy s' pt"
      then consider q k' h' where "map_of (table s' q) k' = Some h'" "path_of k' = pt" | q lv where "leaving s' pt = Some (q, lv)"
        by (auto simp: busy_def elim: held_pathsE)
      then show False
      proof cases
        case 1
        then have "q \<noteq> p" "uses s q pt (Held k')" using st by (auto simp: step_die_def domI split: if_splits)
        then show False using alone by blast
      next
        case 2
        then have "q \<noteq> p" "uses s q pt Leaves" using st by (auto simp: step_die_def split: if_splits option.splits)
        then show False using alone by blast
      qed
    qed
    then show ?thesis using kh c by (simp add: in_file_def)
  qed
  show ?thesis
    unfolding trace_ok_def
  proof (intro conjI allI impI)
    fix pt r assume "(pt, r) \<in> set (ended s')"
    then consider "(pt, r) \<in> set (cut_off s p)" | "(pt, r) \<in> set (ended s)" using st by (auto simp: step_die_def)
    then show "saved s' pt r \<or> in_file s' pt r"
    proof cases
      case 2
      then show ?thesis
        using trace_okD(1) [OF ok 2] saved_grows [OF g, of pt r] b [of pt] c [of pt] by (auto simp: in_file_def)
    qed (use new in blast)
  next
    fix q t k i r assume "inside_of s' q = Some (Taking t k i Kept)" "content_of s' (path_of k) = Some (Rec r)"
    then show "saved s' (path_of k) r"
      using trace_okD(2) [OF ok, of q t k i r] saved_grows [OF g, of "path_of k" r] st c [of "path_of k"]
      by (auto simp: step_die_def split: if_splits)
  qed
qed

lemmas trace_ok_steps = trace_ok_begin trace_ok_attempt trace_ok_mark trace_ok_keep trace_ok_empty trace_ok_release
  trace_ok_clear trace_ok_unlock trace_ok_hand_over trace_ok_note trace_ok_note_cut trace_ok_others
lemmas trace_ok_own_steps = trace_ok_note_put trace_ok_die

lemma trace_ok_perform:
  "own_ok s \<Longrightarrow> mark_ok s \<Longrightarrow> trace_ok s \<Longrightarrow> perform refuses a s = Some s' \<Longrightarrow> trace_ok s'"
  by (cases a; simp only: perform.simps)
    (rule trace_ok_steps, assumption, assumption | rule trace_ok_own_steps, assumption, assumption, assumption
     | erule (3) trace_ok_write | erule (3) trace_ok_raise)+

lemma trace_ok_start: "trace_ok (start_fleet fs)"
  by (simp add: trace_ok_def start_fleet_def)

lemma reach_trace_ok: "reach refuses fs s \<Longrightarrow> trace_ok s"
  by (induction rule: reach.induct) (auto intro: trace_ok_start trace_ok_perform reach_own_ok reach_mark_ok)

end
