(* ===== verification/Device_Holds.thy ===== *)
theory Device_Holds
  imports Holds_Trace
begin

text \<open>
  What holding a device promises, over every interleaving of the operations of every process
  (\<open>Holds\<close>, by the invariants of \<open>Holds_Laws\<close> and \<open>Holds_Trace\<close>): one operation holds a device, as an
  abstract lock service would have it; every reader sees it; an operation its process's end cut off
  is kept or still in its file; a free device is taken and given back as it was; and two ways the
  code loses what it means to keep: a lock no operation has, and a record truncated by a note.
\<close>

section \<open>One holder\<close>

text \<open>C17: In every reachable state at most one hold, of one process and one thread, has a device's lock
  file: two holds of one lock file are the same hold of the same process.\<close>

theorem one_holder:
  assumes "reach refuses fs s" "map_of (table s p) k = Some h" "map_of (table s q) k' = Some h'"
    and "path_of k = path_of k'"
  shows "p = q \<and> k = k' \<and> h = h'"
proof -
  have "uses s p (path_of k) (Held k)" "uses s q (path_of k) (Held k')"
    using assms(2-4) by (simp_all add: domI)
  from own_ok_alone [OF reach_own_ok [OF assms(1)] this] show ?thesis using assms(2,3) by simp
qed

section \<open>What the readers see\<close>

lemma candidates_iff:
  "n \<in> set (candidates s l) \<longleftrightarrow> (if indexed s l then marked s (l, n) else content_of s (l, n) \<noteq> None)"
  by (simp add: candidates_def indexed_def marked_def content_of_def Let_def map_of_eq_None_iff)

text \<open>A file written again is not a new one.\<close>

lemma map_fst_update: "map_of xs k \<noteq> None \<Longrightarrow> map fst (AList.update k v xs) = map fst xs"
  by (induction xs) (auto split: if_splits)

lemma candidates_put:
  "content_of s pt \<noteq> None \<Longrightarrow> candidates (put_content pt c s) l = candidates s l"
  by (simp add: candidates_def put_content_def folder_of_in_folder content_of_def map_fst_update Let_def)

lemma candidates_upd [simp]:
  "candidates (s\<lparr>locks := a\<rparr>) l = candidates s l" "candidates (s\<lparr>table := b\<rparr>) l = candidates s l"
  "candidates (s\<lparr>inside_of := c\<rparr>) l = candidates s l" "candidates (s\<lparr>leaving := d\<rparr>) l = candidates s l"
  "candidates (s\<lparr>ended := e\<rparr>) l = candidates s l"
  by (simp_all add: candidates_def)

lemma safe_name_nonempty [simp]: "safe_name s \<noteq> []"
  by (simp add: safe_name_def)

lemma held_candidate:
  assumes "reach refuses fs s" "map_of (table s p) k = Some h"
  shows "safe_name (snd k) \<in> set (candidates s (fst k))"
proof -
  have "uses s p (path_of k) (Held k)" using assms(2) by (simp add: domI)
  then have "marked s (path_of k)"
    using mark_okD(2) [OF reach_mark_ok [OF assms(1)], of p "path_of k" "Held k"] by (simp add: wants_mark_def)
  moreover have "content_of s (path_of k) \<noteq> None"
    using rec_okD(2) [OF reach_rec_ok [OF assms(1)] assms(2)] by (auto simp: says_def)
  ultimately show ?thesis by (simp add: candidates_iff path_of_def)
qed

text \<open>What another process reads of a hold.\<close>

lemma held_other_sees:
  assumes s: "reach refuses fs s" and h: "map_of (table s p) k = Some h" and q: "q \<noteq> p"
    and l: "list_key l = fst k"
  shows "\<exists>r. held_other s q l (safe_name (snd k)) = Some r \<and> safe_name (hl_device r) = safe_name (snd k)
    \<and> (content_of s (path_of k) \<noteq> Some Blank \<longrightarrow> same_hold r (hd_rec h))"
proof -
  let ?n = "safe_name (snd k)" and ?c = "content_of s (path_of k)"
  have held: "uses s p (path_of k) (Held k)" using h by (simp add: domI)
  have lock: "locks s (path_of k) = Some p" using own_okD(1) [OF reach_own_ok [OF s] held] .
  have says: "says ?c (hd_rec h)" and dev: "hl_device (hd_rec h) = snd k"
    using rec_okD(1,2) [OF reach_rec_ok [OF s] h] by simp_all
  define d where "d = hl_device (read_rec ?c ?n)"
  define host where "host = (if d = '''' then ?n else d)"
  have d: "d = ?n \<or> d = snd k"
    using says dev by (auto simp: d_def says_def read_rec_def unknown_rec_def dest: same_hold_sel(1))
  then have host: "safe_name host = ?n" by (auto simp: host_def)
  have none: "map_of (table s q) (fst k, m) = None" if "safe_name m = ?n" for m
  proof (rule ccontr)
    assume "map_of (table s q) (fst k, m) \<noteq> None"
    then have "uses s q (path_of k) (Held (fst k, m))" using that by (auto simp: path_of_def)
    then show False using own_ok_alone(1) [OF reach_own_ok [OF s] held] q by blast
  qed
  have unseen: "m \<notin> set (map (\<lambda>(k, _). snd k) (own_holds s q (fst k)))" if "safe_name m = ?n" for m
    using none [OF that] by (fastforce simp: own_holds_def map_of_eq_None_iff image_iff)
  let ?seen = "set (map (\<lambda>(k, _). snd k) (own_holds s q (fst k)))"
  have "held_other s q l ?n = (if ?n \<in> ?seen \<or> host \<in> ?seen then None else holder s q l host)"
    unfolding held_other_def Let_def l host_def d_def path_of_def by simp
  also have "\<dots> = holder s q l host" using unseen [of ?n] unseen [OF host] by simp
  also have "\<dots> = Some (read_rec ?c host)"
    using none [OF host] says lock host by (auto simp: holder_def Let_def l path_of_def says_def)
  finally have "held_other s q l ?n = Some (read_rec ?c host)" .
  moreover have "safe_name (hl_device (read_rec ?c host)) = ?n"
    using says dev host by (auto simp: says_def read_rec_def unknown_rec_def no_rec_def dest: same_hold_sel(1))
  moreover have "?c \<noteq> Some Blank \<Longrightarrow> same_hold (read_rec ?c host) (hd_rec h)"
    using says by (auto simp: says_def read_rec_def)
  ultimately show ?thesis by blast
qed

text \<open>Every hold is read by every process: the list's holds name its lock file, and carry its record
  except within a note, when its file is empty.\<close>

lemma holds_in_list:
  assumes "reach refuses fs s" "map_of (table s p) k = Some h" "list_key l = fst k"
  shows "\<exists>r \<in> set (held_in s q l). safe_name (hl_device r) = safe_name (snd k)
    \<and> (content_of s (path_of k) \<noteq> Some Blank \<longrightarrow> same_hold r (hd_rec h))"
proof (cases "q = p")
  case True
  then have "(k, h) \<in> set (own_holds s q (list_key l))"
    using assms(2,3) map_of_SomeD by (fastforce simp: own_holds_def)
  then have "hd_rec h \<in> set (held_in s q l)" by (force simp: held_in_def)
  moreover have "hl_device (hd_rec h) = snd k" using rec_okD(1) [OF reach_rec_ok [OF assms(1)] assms(2)] .
  ultimately show ?thesis by (intro bexI [of _ "hd_rec h"]) simp_all
next
  case False
  from held_other_sees [OF assms(1,2) False assms(3)] obtain r where
    r: "held_other s q l (safe_name (snd k)) = Some r" and rest: "safe_name (hl_device r) = safe_name (snd k)"
      "content_of s (path_of k) \<noteq> Some Blank \<longrightarrow> same_hold r (hd_rec h)" by blast
  have "r \<in> set (held_in s q l)"
    using r held_candidate [OF assms(1,2)] by (force simp: held_in_def assms(3) List.map_filter_def)
  with rest show ?thesis by blast
qed


lemma once_by_covers: "x \<in> set xs \<Longrightarrow> f x \<notin> set seen \<Longrightarrow> \<exists>y \<in> set (once_by f seen xs). f y = f x"
  by (induction f seen xs rule: once_by.induct) (auto, metis)

lemma once_by_set: "y \<in> set (once_by f seen xs) \<Longrightarrow> y \<in> set xs"
  by (induction f seen xs rule: once_by.induct) (auto split: if_splits)

lemma content_folder: "content_of s (l, n) \<noteq> None \<Longrightarrow> l \<in> set (list_folders s)"
  by (force simp: content_of_def folder_of_def no_folder_def list_folders_def
      dest!: map_of_SomeD split: option.splits)

lemma those_SomeD: "those xs = Some ys \<Longrightarrow> x \<in> set xs \<Longrightarrow> \<exists>y \<in> set ys. x = Some y"
  by (induction xs arbitrary: ys) (auto split: option.splits)

text \<open>The folder of every hold is listed, and a folder read with no hold in it has none.\<close>

lemma hold_listed:
  assumes "reach refuses fs s" "(k, h0) \<in> set (table s p)"
  shows "fst k \<in> set (list_folders s) \<and> held_in s q (fst k) \<noteq> []"
proof -
  obtain h where h: "map_of (table s p) k = Some h" using assms(2) by (metis weak_map_of_SomeI)
  have "list_key (fst k) = fst k" using rec_okD(4) [OF reach_rec_ok [OF assms(1)] h] .
  from holds_in_list [OF assms(1) h this, of q] have "held_in s q (fst k) \<noteq> []" by fastforce
  moreover have "content_of s (path_of k) \<noteq> None"
    using rec_okD(2) [OF reach_rec_ok [OF assms(1)] h] by (auto simp: says_def)
  ultimately show ?thesis by (simp add: path_of_def content_folder)
qed

text \<open>C20: The update gate: when every folder is listed and read and no hold is found in any, each hold there was
  when the folders were listed is in one of those read, and no process held a device in a folder at the moment it
  was read, whatever went on between the reads; read in one moment, no process held any device.\<close>

theorem update_gate_sound:
  assumes "held_anywhere (Some s) rd q = Some []" "reach refuses fs s" "\<And>l t. rd l = Some t \<Longrightarrow> reach refuses fs t"
  shows "(\<forall>p. \<forall>(k, h) \<in> set (table s p). fst k \<in> set (list_folders s))
    \<and> (\<forall>l \<in> set (list_folders s). \<exists>t. rd l = Some t \<and> (\<forall>p. \<forall>(k, h) \<in> set (table t p). fst k \<noteq> l))
    \<and> ((\<forall>l \<in> set (list_folders s). rd l = Some s) \<longrightarrow> (\<forall>p. table s p = []))"
proof -
  from assms(1) obtain rows where rows: "those (map (\<lambda>l. map_option (\<lambda>t. map (or_list l) (held_in t q l)) (rd l)) (list_folders s)) = Some rows"
    "once_by (\<lambda>r. (lower (hl_list r), hl_device r, hl_started r)) [] (concat rows) = []"
    by (auto simp: held_anywhere_def dest: arg_cong [where f = set])
  have "concat rows = []"
  proof (rule ccontr)
    assume "concat rows \<noteq> []"
    then obtain r where "r \<in> set (concat rows)" by (cases "concat rows") auto
    from once_by_covers [OF this, of "\<lambda>r. (lower (hl_list r), hl_device r, hl_started r)" "[]"] rows(2) show False by simp
  qed
  then have read: "\<exists>t. rd l = Some t \<and> held_in t q l = []" if "l \<in> set (list_folders s)" for l
    using those_SomeD [OF rows(1), of "map_option (\<lambda>t. map (or_list l) (held_in t q l)) (rd l)"] that by auto
  have here: "\<forall>(k, h) \<in> set (table s p). fst k \<in> set (list_folders s)" for p
    using hold_listed [OF assms(2)] by fast
  have at: "\<exists>t. rd l = Some t \<and> (\<forall>p. \<forall>(k, h) \<in> set (table t p). fst k \<noteq> l)" if l: "l \<in> set (list_folders s)" for l
  proof -
    from read [OF l] obtain t where t: "rd l = Some t" "held_in t q l = []" by blast
    then have "\<forall>(k, h) \<in> set (table t p). fst k \<noteq> l" for p using hold_listed [OF assms(3) [OF t(1)], of _ _ p q] by auto
    with t(1) show ?thesis by blast
  qed
  have "table s p = []" if all: "\<forall>l \<in> set (list_folders s). rd l = Some s" for p
  proof (rule ccontr)
    assume "table s p \<noteq> []"
    then obtain k h where kh: "(k, h) \<in> set (table s p)" by (cases "table s p") auto
    with here have "fst k \<in> set (list_folders s)" by blast
    with at all kh show False by fastforce
  qed
  with here at show ?thesis by blast
qed


section \<open>What a process's end leaves\<close>

text \<open>The rows \<open>interrupted\<close> gathers: the kept log's, then the leftovers.\<close>

definition logged_rows :: "fleet \<Rightarrow> lkey \<Rightarrow> (hold_rec \<times> epoch option) list" where
  "logged_rows s l = map (\<lambda>e. (ke_rec e, Some (ke_found_at e))) (List.map_filter id (kept s l))"

definition left_rows :: "fleet \<Rightarrow> lkey \<Rightarrow> (hold_rec \<times> epoch option) list" where
  "left_rows s l = List.map_filter (\<lambda>n. map_option (\<lambda>r. (r, None))
     (leftover (content_of s (l, n)) (locks s (l, n) \<noteq> None) n)) (candidates s l)"

lemma interrupted_in_rows:
  "interrupted_in s list_name =
     sort_key (\<lambda>(r, _). started_num r)
       (map (\<lambda>(r, a). (or_list list_name r, a))
         (once_by (\<lambda>(r, _). (hl_device r, hl_started r)) []
           (logged_rows s (list_key list_name) @ left_rows s (list_key list_name))))"
  by (simp add: interrupted_in_def logged_rows_def left_rows_def Let_def)

lemma interrupted_covers:
  assumes "(r, a) \<in> set (logged_rows s (list_key l) @ left_rows s (list_key l))"
  shows "\<exists>(r', a') \<in> set (interrupted_in s l). hl_device r' = hl_device r \<and> hl_started r' = hl_started r"
proof -
  from once_by_covers [OF assms, of "\<lambda>(r, _). (hl_device r, hl_started r)" "[]"]
  obtain r1 a1 where "(r1, a1) \<in> set (once_by (\<lambda>(r, _). (hl_device r, hl_started r)) []
      (logged_rows s (list_key l) @ left_rows s (list_key l)))" "hl_device r1 = hl_device r" "hl_started r1 = hl_started r"
    by auto
  moreover from this(1) have "(or_list l r1, a1) \<in> set (interrupted_in s l)"
    by (force simp: interrupted_in_rows)
  ultimately show ?thesis by (intro bexI [of _ "(or_list l r1, a1)"]) (auto simp: or_list_def)
qed

lemma leftover_row:
  assumes s: "reach refuses fs s" and c: "content_of s pt = Some (Rec r)" and free: "locks s pt = None"
  shows "(r, None) \<in> set (left_rows s (fst pt))"
proof -
  have "snd pt \<in> set (candidates s (fst pt))"
    using mark_okD(1) [OF reach_mark_ok [OF s], of pt] c by (simp add: candidates_iff)
  then show ?thesis using c free by (force simp: left_rows_def List.map_filter_def leftover_def)
qed

text \<open>C19: The record of a hold that its process's end cut off is listed as interrupted from then on, in its
  file or in the kept log, unless the append to the log failed; only between the next operation's
  lock and its append is it in the file alone.\<close>

theorem cut_off_is_listed:
  assumes s: "reach refuses fs s" and e: "(pt, r) \<in> set (ended s)" and k: "(pt, r) \<notin> set (unkept s)"
    and l: "list_key l = fst pt"
  shows "(\<exists>(r', a) \<in> set (interrupted_in s l). hl_started r' = hl_started r
      \<and> (hl_device r \<noteq> '''' \<longrightarrow> hl_device r' = hl_device r))
    \<or> locks s pt \<noteq> None \<and> content_of s pt = Some (Rec r)"
proof -
  have "saved s pt r \<or> in_file s pt r" using trace_okD(1) [OF reach_trace_ok [OF s] e] .
  then consider e host where "Some e \<in> set (kept s (fst pt))" "ke_rec e = with_device host r"
    | "content_of s pt = Some (Rec r)"
    using k by (auto simp: saved_def in_file_def)
  then show ?thesis
  proof cases
    case 1
    then have "(with_device host r, Some (ke_found_at e)) \<in> set (logged_rows s (fst pt))"
      by (force simp: logged_rows_def List.map_filter_def)
    then obtain r' a where "(r', a) \<in> set (interrupted_in s l)" "hl_device r' = hl_device (with_device host r)"
      "hl_started r' = hl_started (with_device host r)"
      using interrupted_covers [of "with_device host r" "Some (ke_found_at e)" s l] l by auto
    then show ?thesis by (intro disjI1 bexI [of _ "(r', a)"]) (auto simp: with_device_def)
  next
    case 2
    show ?thesis
    proof (cases "locks s pt")
      case None
      then obtain r' a where "(r', a) \<in> set (interrupted_in s l)" "hl_device r' = hl_device r" "hl_started r' = hl_started r"
        using interrupted_covers [of r None s l] leftover_row [OF s 2] l by auto
      then show ?thesis by (intro disjI1 bexI [of _ "(r', a)"]) auto
    qed (use 2 in simp)
  qed
qed

text \<open>C40: A process that ends between the truncation and the write of a note leaves nothing of the operation:
  its device is free, and what is listed as interrupted is what was before.\<close>

theorem end_within_a_note_leaves_nothing:
  assumes s: "reach refuses fs s" and i: "inside_of s p = Some (Noting st a (k # ks) False)"
    and h: "map_of (table s p) k = Some h" and only: "\<forall>pt. locks s pt = Some p \<longrightarrow> pt = path_of k"
    and run: "run_all (perform refuses) [Note_cut p True, Die p] s = Some s'"
  shows "locks s' (path_of k) = None \<and> interrupted_in s' l = interrupted_in s l"
proof -
  have held: "uses s p (path_of k) (Held k)" using h by (simp add: domI)
  have lock: "locks s (path_of k) = Some p" using own_okD(1) [OF reach_own_ok [OF s] held] .
  obtain m where m: "step_note_cut p True s = Some m" and die: "step_die p m = Some s'"
    using run by (simp add: bind_eq_Some_conv) blast
  have m': "m = (put_content (path_of k) Blank
      (s\<lparr>table := (table s)(p := AList.update k (h\<lparr>hd_rec := noted_rec st a (hd_rec h)\<rparr>) (table s p))\<rparr>))
      \<lparr>inside_of := (inside_of s)(p := Some (Noting st a (k # ks) True))\<rparr>"
    using m i h by (simp add: step_note_cut_def)
  have cand: "content_of s (path_of k) \<noteq> None"
    using rec_okD(2) [OF reach_rec_ok [OF s] h] by (auto simp: says_def)
  have "locks s' pt = (if locks m pt = Some p then None else locks m pt)" for pt
    using die by (auto simp: step_die_def)
  moreover have "locks m = locks s" by (simp add: m')
  moreover have "pt \<noteq> path_of k \<Longrightarrow> locks s pt \<noteq> Some p" for pt using only by blast
  ultimately have locks: "locks s' pt = (if pt = path_of k then None else locks s pt)" for pt
    using lock by (cases "pt = path_of k") simp_all
  have "content_of s' = content_of m" "kept s' = kept m" "candidates s' = candidates m"
    using die by (auto simp: step_die_def)
  then have cont: "content_of s' pt = (if pt = path_of k then Some Blank else content_of s pt)"
    and marks: "kept s' x = kept s x" and "candidates s' x = candidates s x" for pt x
    using cand by (simp_all add: m' candidates_put)
  moreover have "leftover (content_of s' pt) (locks s' pt \<noteq> None) n = leftover (content_of s pt) (locks s pt \<noteq> None) n" for pt n
    using lock by (auto simp: locks cont leftover_def)
  ultimately have "left_rows s' x = left_rows s x" for x by (simp add: left_rows_def)
  then show ?thesis by (simp add: locks interrupted_in_rows logged_rows_def marks)
qed


section \<open>A lock no operation has\<close>

text \<open>The process's lock on a file that no hold, acquire or release of any process is of.\<close>

definition orphan :: "fleet \<Rightarrow> pid \<Rightarrow> lock_path \<Rightarrow> bool" where
  "orphan s p pt \<longleftrightarrow> locks s pt = Some p \<and> (\<forall>q u. \<not> uses s q pt u)"

lemma orphanD: "orphan s p pt \<Longrightarrow> locks s pt = Some p" "orphan s p pt \<Longrightarrow> \<not> uses s q pt u"
  by (simp_all add: orphan_def)

lemma orphan_not:
  assumes "orphan s p pt"
  shows "map_of (table s q) k = Some h \<Longrightarrow> path_of k \<noteq> pt" "inside_of s q = Some (Taking t k i sg) \<Longrightarrow> path_of k \<noteq> pt"
    "leaving s pt = None"
  using assms orphanD(2) [OF assms, of q "Held k"] orphanD(2) [OF assms, of q Takes] orphanD(2) [OF assms, of "fst (the (leaving s pt))" Leaves]
  by (auto simp: domI leaver_def split: option.splits)

text \<open>A step that neither gives up its lock nor begins to use it.\<close>

lemma orphan_keeps:
  assumes o': "orphan s p pt" and "locks s' pt = locks s pt"
    and "\<And>r k. path_of k = pt \<Longrightarrow> map_of (table s' r) k \<noteq> None \<Longrightarrow> map_of (table s r) k \<noteq> None"
    and "\<And>r. taking (inside_of s' r) \<noteq> Some pt" "leaving s' pt = leaving s pt"
  shows "orphan s' p pt"
proof -
  have "\<not> uses s' r pt u" for r u
  proof (cases u)
    case (Held k)
    then show ?thesis using assms(3) [of k r] orphanD(2) [OF o', of r u]
      by (cases "map_of (table s' r) k") (auto simp: domIff)
  qed (use assms(4,5) orphanD(2) [OF o', of r Leaves] in simp_all)
  then show ?thesis using assms(1,2) by (simp add: orphan_def)
qed

lemma orphan_taking: "orphan s p pt \<Longrightarrow> taking (inside_of s r) \<noteq> Some pt"
  using orphanD(2) [of s p pt r Takes] by simp

lemma orphan_acquire:
  assumes o': "orphan s p pt"
  shows "step_begin refuses q t l h op ac de ip now s = Some s' \<Longrightarrow> orphan s' p pt"
    and "step_attempt q s = Some s' \<Longrightarrow> orphan s' p pt"
    and "step_mark q ok s = Some s' \<Longrightarrow> orphan s' p pt"
    and "step_keep q ok now s = Some s' \<Longrightarrow> orphan s' p pt"
    and "step_empty q s = Some s' \<Longrightarrow> orphan s' p pt"
    and "step_write q s = Some s' \<Longrightarrow> orphan s' p pt"
    and "step_raise q w s = Some s' \<Longrightarrow> orphan s' p pt"
proof -
  note no = orphan_not [OF o'] and lock = orphanD(1) [OF o'] and tk = orphan_taking [OF o'] and I = orphan_keeps [OF o']
  show "step_begin refuses q t l h op ac de ip now s = Some s' \<Longrightarrow> orphan s' p pt"
    by (rule I) (use tk in \<open>auto simp: step_begin_def Let_def dest!: acquire_front_Again split: if_splits front.splits\<close>)
  show "step_attempt q s = Some s' \<Longrightarrow> orphan s' p pt"
    by (rule I) (use tk lock in \<open>auto simp: step_attempt_def Let_def attempt_def split: option.splits inside.splits
      try_answer.splits if_splits\<close>)
  show "step_mark q ok s = Some s' \<Longrightarrow> orphan s' p pt"
    by (rule I) (use tk in \<open>auto simp: step_mark_def dest: no(2) split: option.splits inside.splits taking_stage.splits if_splits\<close>)
  show "step_keep q ok now s = Some s' \<Longrightarrow> orphan s' p pt"
    by (rule I) (use tk in \<open>auto simp: step_keep_def Let_def dest: no(2) split: option.splits inside.splits taking_stage.splits if_splits\<close>)
  show "step_empty q s = Some s' \<Longrightarrow> orphan s' p pt"
    by (rule I) (use tk in \<open>auto simp: step_empty_def dest: no(2) split: option.splits inside.splits taking_stage.splits if_splits\<close>)
  show "step_write q s = Some s' \<Longrightarrow> orphan s' p pt"
    by (rule I) (use tk in \<open>auto simp: step_write_def dest: no(2) split: option.splits inside.splits taking_stage.splits if_splits\<close>)
  show "step_raise q w s = Some s' \<Longrightarrow> orphan s' p pt"
    by (rule I) (use tk in \<open>auto simp: step_raise_def split: option.splits inside.splits taking_stage.splits if_splits\<close>)
qed

lemma orphan_release:
  assumes o': "orphan s p pt"
  shows "step_release q me l h s = Some s' \<Longrightarrow> orphan s' p pt"
    and "step_clear pt' ok s = Some s' \<Longrightarrow> orphan s' p pt"
    and "step_unmark pt' ok s = Some s' \<Longrightarrow> orphan s' p pt"
    and "step_unlock pt' s = Some s' \<Longrightarrow> orphan s' p pt"
    and "step_hand_over q me l h to s = Some s' \<Longrightarrow> orphan s' p pt"
proof -
  note no = orphan_not [OF o'] and tk = orphan_taking [OF o'] and I = orphan_keeps [OF o']
  show "step_release q me l h s = Some s' \<Longrightarrow> orphan s' p pt"
    by (rule I) (use tk in \<open>auto simp: step_release_def Let_def dest: no(1) split: option.splits if_splits\<close>)
  show "step_clear pt' ok s = Some s' \<Longrightarrow> orphan s' p pt"
    by (rule I) (use tk no(3) in \<open>auto simp: step_clear_def split: option.splits leave.splits if_splits\<close>)
  show "step_unmark pt' ok s = Some s' \<Longrightarrow> orphan s' p pt"
    by (rule I; cases ok) (use tk no(3) in \<open>auto simp: step_unmark_def split: option.splits leave.splits if_splits\<close>)
  show "step_unlock pt' s = Some s' \<Longrightarrow> orphan s' p pt"
    by (rule I) (use tk no(3) in \<open>auto simp: step_unlock_def split: option.splits leave.splits if_splits\<close>)
  show "step_hand_over q me l h to s = Some s' \<Longrightarrow> orphan s' p pt"
    by (rule I) (use tk in \<open>auto simp: step_hand_over_def Let_def split: option.splits if_splits\<close>)
qed

lemma orphan_note:
  assumes o': "orphan s p pt"
  shows "step_note q me cur dev st now s = Some s' \<Longrightarrow> orphan s' p pt"
    and "step_note_cut q ok s = Some s' \<Longrightarrow> orphan s' p pt"
    and "step_note_put q ok s = Some s' \<Longrightarrow> orphan s' p pt"
proof -
  note tk = orphan_taking [OF o'] and I = orphan_keeps [OF o']
  show "step_note q me cur dev st now s = Some s' \<Longrightarrow> orphan s' p pt"
    by (rule I) (use tk in \<open>auto simp: step_note_def split: if_splits\<close>)
  show "step_note_cut q ok s = Some s' \<Longrightarrow> orphan s' p pt"
    by (rule I) (use tk in \<open>auto simp: step_note_cut_def Let_def
      split: option.splits inside.splits list.splits bool.splits if_splits\<close>)
  show "step_note_put q ok s = Some s' \<Longrightarrow> orphan s' p pt"
    by (rule I) (use tk in \<open>auto simp: step_note_put_def
      split: option.splits inside.splits list.splits bool.splits if_splits\<close>)
qed

lemma orphan_others:
  assumes o': "orphan s p pt"
  shows "step_probe pt' s = Some s' \<Longrightarrow> orphan s' p pt" "step_unprobe pt' s = Some s' \<Longrightarrow> orphan s' p pt"
    "step_index_list i l s = Some s' \<Longrightarrow> orphan s' p pt" "step_index_stat i s = Some s' \<Longrightarrow> orphan s' p pt"
    "step_index_mark i s = Some s' \<Longrightarrow> orphan s' p pt" "step_index_done i s = Some s' \<Longrightarrow> orphan s' p pt"
    "step_index_stop i s = Some s' \<Longrightarrow> orphan s' p pt"
  by (rule orphan_keeps [OF o']; use orphan_taking [OF o'] in \<open>auto simp: step_probe_def step_unprobe_def step_index_list_def
      step_index_stat_def step_index_mark_def step_index_done_def step_index_stop_def
      split: option.splits list.splits if_splits\<close>)+

lemma orphan_die:
  assumes o': "orphan s p pt" and st: "step_die q s = Some s'" and "q \<noteq> p"
  shows "orphan s' p pt"
  by (rule orphan_keeps [OF o'])
    (use st assms(3) orphanD(1) [OF o'] orphan_taking [OF o'] orphan_not(3) [OF o'] in \<open>auto simp: step_die_def split: if_splits\<close>)

lemma orphan_perform:
  "orphan s p pt \<Longrightarrow> perform refuses a s = Some s' \<Longrightarrow> a \<noteq> Die p \<Longrightarrow> orphan s' p pt"
  by (cases a; simp only: perform.simps lock_action.inject)
    (erule (1) orphan_acquire | erule (1) orphan_release | erule (1) orphan_note | erule (1) orphan_others
     | erule (2) orphan_die)+

text \<open>C39: An acquire whose file cannot be read, emptied or written once its device is marked leaves the
  lock to its process: no step of any process but that one's end gives it up, and no operation can
  release it.\<close>

theorem raised_acquire_keeps_its_lock:
  assumes s: "reach refuses fs s" and i: "inside_of s p = Some (Taking t k i sg)"
    and r: "perform refuses (Raise_in p w) s = Some s1"
    and run: "run_all (perform refuses) as s1 = Some s2" and "Die p \<notin> set as"
  shows "locks s2 (path_of k) = Some p \<and> (\<forall>q k' h. map_of (table s2 q) k' = Some h \<longrightarrow> path_of k' \<noteq> path_of k)"
proof -
  have takes: "uses s p (path_of k) Takes" using i by simp
  have "locks s1 (path_of k) = Some p"
    using own_okD(1) [OF reach_own_ok [OF s] takes] r i by (auto simp: step_raise_def split: if_splits)
  moreover have "\<not> uses s1 q (path_of k) u" for q u
  proof
    assume u: "uses s1 q (path_of k) u"
    then have "uses s q (path_of k) u" "u \<noteq> Takes \<or> q \<noteq> p"
      using r i by (cases u; auto simp: step_raise_def split: if_splits)+
    then show False using own_ok_alone [OF reach_own_ok [OF s] takes] by blast
  qed
  ultimately have "orphan s1 p (path_of k)" by (simp add: orphan_def)
  then have "orphan s2 p (path_of k)" using run \<open>Die p \<notin> set as\<close>
    by (induction as arbitrary: s1) (auto simp: bind_eq_Some_conv intro: orphan_perform)
  then show ?thesis using orphanD(1) orphan_not(1) by blast
qed


section \<open>The lock service the holds implement\<close>

text \<open>Abstractly each lock file has at most one owner: a process, the key it holds it by, a thread and how
  often it entered. A request enters it again for its owner's thread and changes nothing for any other; a file is
  taken only while it is free; its owner's thread alone leaves it, and alone passes it on, when it entered
  once; and with a process go the locks it owns.\<close>

type_synonym lock_state = "lock_path \<Rightarrow> (pid \<times> key \<times> tid \<times> nat) option"

datatype lock_op =
    L_request pid tid key
  | L_take pid tid key
  | L_release pid tid key
  | L_pass pid tid key tid
  | L_end pid

text \<open>What the owner of the key makes of its lock; nothing changes for any other.\<close>

definition as_owner ::
    "pid \<Rightarrow> tid \<Rightarrow> key \<Rightarrow> (nat \<Rightarrow> (pid \<times> key \<times> tid \<times> nat) option) \<Rightarrow> lock_state \<Rightarrow> lock_state" where
  "as_owner p t k f A =
     (case A (path_of k) of
        Some (q, k', u, n) \<Rightarrow> if q = p \<and> k' = k \<and> u = t then A(path_of k := f n) else A
      | None \<Rightarrow> A)"

fun lock_step :: "lock_op \<Rightarrow> lock_state \<Rightarrow> lock_state option" where
  "lock_step (L_request p t k) A = Some (as_owner p t k (\<lambda>n. Some (p, k, t, n + 1)) A)"
| "lock_step (L_take p t k) A = (if A (path_of k) = None then Some (A(path_of k := Some (p, k, t, 1))) else None)"
| "lock_step (L_release p t k) A = Some (as_owner p t k (\<lambda>n. if n \<le> 1 then None else Some (p, k, t, n - 1)) A)"
| "lock_step (L_pass p t k t') A = Some (as_owner p t k (\<lambda>n. Some (p, k, if n = 1 then t' else t, n)) A)"
| "lock_step (L_end p) A = Some (\<lambda>pt. case A pt of Some (q, _) \<Rightarrow> if q = p then None else A pt | None \<Rightarrow> None)"

text \<open>What each step of the code asks of the lock service: an acquire that may be made requests its key as it begins
  and takes it as its record is written; a release and a hand over ask for just that; every other step asks nothing.\<close>

fun asks :: "(string \<Rightarrow> string \<Rightarrow> string \<Rightarrow> bool) \<Rightarrow> lock_action \<Rightarrow> fleet \<Rightarrow> lock_op list" where
  "asks refuses (Begin p t l h op ac de ip now) s = (if refuses l h op then [] else [L_request p t (list_key l, h)])"
| "asks refuses (Write p) s = (case inside_of s p of Some (Taking t k info sg) \<Rightarrow> [L_take p t k] | _ \<Rightarrow> [])"
| "asks refuses (Release p t l h) s = [L_release p t (list_key l, h)]"
| "asks refuses (Hand_over p t l h to) s = [L_pass p t (list_key l, h) to]"
| "asks refuses (Die p) s = [L_end p]"
| "asks refuses _ s = []"

text \<open>What a run asks, in the order of its steps.\<close>

fun asked :: "('a \<Rightarrow> 's \<Rightarrow> 's option) \<Rightarrow> ('a \<Rightarrow> 's \<Rightarrow> 'b list) \<Rightarrow> 'a list \<Rightarrow> 's \<Rightarrow> 'b list" where
  "asked step ops [] s = []"
| "asked step ops (a # as) s = ops a s @ (case step a s of None \<Rightarrow> [] | Some s' \<Rightarrow> asked step ops as s')"

text \<open>One system simulated by another: each step of the detailed one, from a state that is good, is what it asks
  of the abstract one.\<close>

locale simulation =
  fixes cstep :: "'a \<Rightarrow> 's \<Rightarrow> 's option" and astep :: "'b \<Rightarrow> 't \<Rightarrow> 't option" and ops :: "'a \<Rightarrow> 's \<Rightarrow> 'b list"
    and good :: "'s \<Rightarrow> bool" and implements :: "'s \<Rightarrow> 't \<Rightarrow> bool"
  assumes keeps: "good s \<Longrightarrow> cstep a s = Some s' \<Longrightarrow> good s'"
    and matched: "good s \<Longrightarrow> implements s A \<Longrightarrow> cstep a s = Some s'
      \<Longrightarrow> \<exists>A'. run_all astep (ops a s) A = Some A' \<and> implements s' A'"
begin

lemma simulated:
  "good s \<Longrightarrow> implements s A \<Longrightarrow> run_all cstep as s = Some s'
     \<Longrightarrow> \<exists>A'. run_all astep (asked cstep ops as s) A = Some A' \<and> implements s' A'"
proof (induction as arbitrary: s A)
  case (Cons a as)
  then obtain m where m: "cstep a s = Some m" "run_all cstep as m = Some s'" by (auto simp: bind_eq_Some_conv)
  from matched [OF Cons.prems(1,2) m(1)] obtain A1 where A1: "run_all astep (ops a s) A = Some A1" "implements m A1" by blast
  from Cons.IH [OF keeps [OF Cons.prems(1) m(1)] A1(2) m(2)] A1(1) m(1) show ?case by (auto simp: run_all_append)
qed auto

end

definition owner_view :: "fleet \<Rightarrow> pid \<Rightarrow> key \<Rightarrow> (tid \<times> nat) option" where
  "owner_view s p k = map_option (\<lambda>h. (hd_thread h, hd_count h)) (map_of (table s p) k)"

definition implements_locks :: "fleet \<Rightarrow> lock_state \<Rightarrow> bool" where
  "implements_locks s A \<longleftrightarrow>
     (\<forall>pt p k t n. A pt = Some (p, k, t, n) \<longleftrightarrow> path_of k = pt \<and> owner_view s p k = Some (t, n))"

lemma implements_same: "implements_locks s A \<Longrightarrow> (\<And>p k. owner_view s' p k = owner_view s p k) \<Longrightarrow> implements_locks s' A"
  by (simp add: implements_locks_def)

lemma implementsD:
  "implements_locks s A \<Longrightarrow> A pt = Some (p, k, t, n) \<longleftrightarrow> path_of k = pt \<and> owner_view s p k = Some (t, n)"
  unfolding implements_locks_def by blast

lemma implements_owner:
  assumes "implements_locks s A" "map_of (table s p) k = Some h"
  shows "A (path_of k) = Some (p, k, hd_thread h, hd_count h)"
  using assms(2) by (simp add: implementsD [OF assms(1)] owner_view_def)

text \<open>The owner of one path changed.\<close>

lemma implements_change:
  assumes A: "implements_locks s A"
    and here: "\<And>p k x. path_of k = pt \<Longrightarrow> owner_view s' p k = Some x \<longleftrightarrow> new = Some (p, k, x)"
    and rest: "\<And>p k. path_of k \<noteq> pt \<Longrightarrow> owner_view s' p k = owner_view s p k"
    and at: "\<And>p k x. new = Some (p, k, x) \<Longrightarrow> path_of k = pt"
  shows "implements_locks s' (A(pt := new))"
  unfolding implements_locks_def
proof (intro allI)
  fix pt' p k t n
  show "(A(pt := new)) pt' = Some (p, k, t, n) \<longleftrightarrow> path_of k = pt' \<and> owner_view s' p k = Some (t, n)"
  proof (cases "pt' = pt")
    case True
    then show ?thesis using here [of k p "(t, n)"] at [of p k "(t, n)"] by auto
  next
    case False
    then show ?thesis using implementsD [OF A, of pt' p k t n] rest [of k p] by auto
  qed
qed


text \<open>A process's key is its path's only owner, so what is under it is what the lock state has there.\<close>

lemma implements_update:
  assumes own: "own_ok s" and A: "implements_locks s A" and h: "map_of (table s p) k = Some h"
    and tb: "table s' = (table s)(p := AList.update k h' (table s p))"
  shows "implements_locks s' (A(path_of k := Some (p, k, hd_thread h', hd_count h')))"
proof (rule implements_change [OF A])
  have held: "uses s p (path_of k) (Held k)" using h by (simp add: domI)
  fix q k' x assume pk: "path_of k' = path_of k"
  have "map_of (table s q) k' \<noteq> None \<Longrightarrow> q = p \<and> k' = k"
    using own_ok_alone [OF own held, of q "Held k'"] pk by (auto simp: domIff)
  then show "owner_view s' q k' = Some x \<longleftrightarrow> Some (p, k, hd_thread h', hd_count h') = Some (q, k', x)"
    by (cases "q = p \<and> k' = k") (auto simp: owner_view_def tb)
qed (auto simp: owner_view_def tb split: if_splits)

lemma implements_delete:
  assumes own: "own_ok s" and A: "implements_locks s A" and h: "map_of (table s p) k = Some h"
    and tb: "table s' = (table s)(p := AList.delete k (table s p))"
  shows "implements_locks s' (A(path_of k := None))"
proof (rule implements_change [OF A])
  have held: "uses s p (path_of k) (Held k)" using h by (simp add: domI)
  fix q k' x assume pk: "path_of k' = path_of k"
  have "map_of (table s q) k' \<noteq> None \<Longrightarrow> q = p \<and> k' = k"
    using own_ok_alone [OF own held, of q "Held k'"] pk by (auto simp: domIff)
  then show "owner_view s' q k' = Some x \<longleftrightarrow> None = Some (q, k', x)"
    by (cases "q = p \<and> k' = k") (auto simp: owner_view_def tb)
qed (auto simp: owner_view_def tb split: if_splits)

text \<open>What one who owns a key, and one who does not, makes of the locks.\<close>

lemma as_owner_held:
  assumes "implements_locks s A" "map_of (table s p) k = Some h"
  shows "as_owner p t k f A = (if hd_thread h = t then A(path_of k := f (hd_count h)) else A)"
  using implements_owner [OF assms] by (simp add: as_owner_def)

lemma as_owner_not:
  assumes "implements_locks s A" "map_of (table s p) k = None"
  shows "as_owner p t k f A = A"
proof (cases "A (path_of k)")
  case (Some x)
  obtain q k' u n where x: "x = (q, k', u, n)" by (cases x) auto
  have "owner_view s p k = None" using assms(2) by (simp add: owner_view_def)
  with Some x implementsD [OF assms(1), of "path_of k" q k' u n] show ?thesis by (auto simp: as_owner_def)
qed (simp add: as_owner_def)

lemma implements_table: "implements_locks s A \<Longrightarrow> table s' = table s \<Longrightarrow> implements_locks s' A"
  using implements_same [of s A s'] by (simp add: owner_view_def)

lemma implements_begin:
  assumes own: "own_ok s" and A: "implements_locks s A"
    and st: "step_begin refuses p t l host op ac de ip now s = Some s'"
  shows "\<exists>A'. run_all lock_step (asks refuses (Begin p t l host op ac de ip now) s) A = Some A' \<and> implements_locks s' A'"
proof -
  let ?k = "(list_key l, host)"
  consider (refused) "refuses l host op" | (new) "\<not> refuses l host op" "map_of (table s p) ?k = None"
    | (here) h where "\<not> refuses l host op" "map_of (table s p) ?k = Some h" by (cases "map_of (table s p) ?k") auto
  then show ?thesis
  proof cases
    case refused
    then have "table s' = table s" using st by (auto simp: step_begin_def acquire_front_def split: if_splits)
    with refused implements_table [OF A] show ?thesis by simp
  next
    case new
    then have "table s' = table s" using st by (auto simp: step_begin_def acquire_front_def Let_def split: if_splits)
    with new implements_table [OF A] as_owner_not [OF A new(2)] show ?thesis by simp
  next
    case here
    show ?thesis
    proof (cases "hd_thread h = t")
      case True
      have s': "table s' = (table s)(p := AList.update ?k (h\<lparr>hd_count := hd_count h + 1\<rparr>) (table s p))"
        using st here True by (auto simp: step_begin_def acquire_front_def Let_def split: if_splits)
      from implements_update [OF own A here(2) s'] as_owner_held [OF A here(2)] here(1) True show ?thesis by simp
    next
      case False
      then have "table s' = table s" using st here by (auto simp: step_begin_def acquire_front_def Let_def split: if_splits)
      with implements_table [OF A] as_owner_held [OF A here(2)] here(1) False show ?thesis by simp
    qed
  qed
qed

lemma implements_write:
  assumes own: "own_ok s" and A: "implements_locks s A" and st: "step_write p s = Some s'"
  shows "\<exists>A'. run_all lock_step (asks refuses (Write p) s) A = Some A' \<and> implements_locks s' A'"
proof -
  obtain t k i where i: "inside_of s p = Some (Taking t k i Emptied)"
    using st by (auto simp: step_write_def split: option.splits inside.splits taking_stage.splits)
  have takes: "uses s p (path_of k) Takes" using i by simp
  have none: "owner_view s q k' = None" if "path_of k' = path_of k" for q k'
    using own_ok_alone(2) [OF own takes, of q "Held k'"] that
    by (cases "map_of (table s q) k'") (auto simp: owner_view_def domI)
  have tb: "table s' = (table s)(p := AList.update k \<lparr>hd_count = 1, hd_thread = t, hd_rec = i\<rparr> (table s p))"
    using st i by (auto simp: step_write_def)
  have "A (path_of k) = None"
  proof (cases "A (path_of k)")
    case (Some x)
    then obtain q k' u n where "A (path_of k) = Some (q, k', u, n)" by (cases x) auto
    then show ?thesis using none [of k' q] by (simp add: implementsD [OF A])
  qed
  then have "run_all lock_step (asks refuses (Write p) s) A = Some (A(path_of k := Some (p, k, t, 1)))" using i by simp
  moreover have "implements_locks s' (A(path_of k := Some (p, k, t, 1)))"
  proof (rule implements_change [OF A])
    fix q k' x assume pk: "path_of k' = path_of k"
    show "owner_view s' q k' = Some x \<longleftrightarrow> Some (p, k, t, 1) = Some (q, k', x)"
      using none [OF pk, of q] by (cases "q = p \<and> k' = k") (auto simp: owner_view_def tb)
  qed (auto simp: owner_view_def tb split: if_splits)
  ultimately show ?thesis by blast
qed

lemma implements_release:
  assumes own: "own_ok s" and A: "implements_locks s A" and st: "step_release p me l host s = Some s'"
  shows "\<exists>A'. run_all lock_step (asks refuses (Release p me l host) s) A = Some A' \<and> implements_locks s' A'"
proof (cases "map_of (table s p) (list_key l, host)")
  case None
  then have "table s' = table s" using st by (auto simp: step_release_def Let_def split: if_splits)
  with implements_table [OF A] as_owner_not [OF A None] show ?thesis by simp
next
  case (Some h)
  let ?k = "(list_key l, host)"
  note o = as_owner_held [OF A Some]
  consider (other) "hd_thread h \<noteq> me" | (down) "hd_thread h = me" "0 < hd_count h - 1" | (out) "hd_thread h = me" "\<not> 0 < hd_count h - 1"
    by blast
  then show ?thesis
  proof cases
    case other
    then have "table s' = table s" using st Some by (auto simp: step_release_def Let_def split: if_splits)
    with implements_table [OF A] o other show ?thesis by simp
  next
    case down
    then have "table s' = (table s)(p := AList.update ?k (h\<lparr>hd_count := hd_count h - 1\<rparr>) (table s p))"
      using st Some by (auto simp: step_release_def Let_def split: if_splits)
    from implements_update [OF own A Some this] o down show ?thesis by simp
  next
    case out
    then have "table s' = (table s)(p := AList.delete ?k (table s p))"
      using st Some by (auto simp: step_release_def Let_def split: if_splits)
    from implements_delete [OF own A Some this] o out show ?thesis by simp
  qed
qed

lemma implements_hand_over:
  assumes own: "own_ok s" and A: "implements_locks s A" and st: "step_hand_over p me l host to s = Some s'"
  shows "\<exists>A'. run_all lock_step (asks refuses (Hand_over p me l host to) s) A = Some A' \<and> implements_locks s' A'"
proof (cases "map_of (table s p) (list_key l, host)")
  case None
  then have "table s' = table s" using st by (auto simp: step_hand_over_def Let_def split: if_splits)
  with implements_table [OF A] as_owner_not [OF A None] show ?thesis by simp
next
  case (Some h)
  let ?k = "(list_key l, host)"
  note o = as_owner_held [OF A Some]
  show ?thesis
  proof (cases "hd_thread h = me \<and> hd_count h = 1")
    case True
    then have "table s' = (table s)(p := AList.update ?k (h\<lparr>hd_thread := to\<rparr>) (table s p))"
      using st Some by (auto simp: step_hand_over_def Let_def split: if_splits)
    from implements_update [OF own A Some this] o True show ?thesis by simp
  next
    case False
    then have "table s' = table s" using st Some by (auto simp: step_hand_over_def Let_def split: if_splits)
    moreover have "as_owner p me ?k (\<lambda>n. Some (p, ?k, if n = 1 then to else me, n)) A = A"
      using o False implements_owner [OF A Some] by (auto simp: fun_upd_idem)
    ultimately show ?thesis using implements_table [OF A] by simp
  qed
qed

lemma implements_die:
  assumes A: "implements_locks s A" and st: "step_die p s = Some s'"
  shows "\<exists>A'. run_all lock_step (asks refuses (Die p) s) A = Some A' \<and> implements_locks s' A'"
proof -
  let ?A = "\<lambda>pt. case A pt of Some (q, _) \<Rightarrow> if q = p then None else A pt | None \<Rightarrow> None"
  have tb: "owner_view s' q k = (if q = p then None else owner_view s q k)" for q k
    using st by (auto simp: step_die_def owner_view_def)
  have "implements_locks s' ?A"
    unfolding implements_locks_def
  proof (intro allI)
    fix pt q k t n
    show "?A pt = Some (q, k, t, n) \<longleftrightarrow> path_of k = pt \<and> owner_view s' q k = Some (t, n)"
      using implementsD [OF A, of pt q k t n] by (auto simp: tb split: option.splits)
  qed
  then show ?thesis by simp
qed

text \<open>The other steps change no key, thread or count.\<close>

lemma owner_view_same:
  "step_attempt p s = Some s' \<Longrightarrow> owner_view s' = owner_view s"
  "step_mark p ok s = Some s' \<Longrightarrow> owner_view s' = owner_view s"
  "step_keep p ok now s = Some s' \<Longrightarrow> owner_view s' = owner_view s"
  "step_empty p s = Some s' \<Longrightarrow> owner_view s' = owner_view s"
  "step_raise p w s = Some s' \<Longrightarrow> owner_view s' = owner_view s"
  "step_clear pt ok s = Some s' \<Longrightarrow> owner_view s' = owner_view s"
  "step_unlock pt s = Some s' \<Longrightarrow> owner_view s' = owner_view s"
  "step_note p me cur dev st now s = Some s' \<Longrightarrow> owner_view s' = owner_view s"
  "step_note_put p ok s = Some s' \<Longrightarrow> owner_view s' = owner_view s"
  "step_probe pt s = Some s' \<Longrightarrow> owner_view s' = owner_view s"
  "step_unprobe pt s = Some s' \<Longrightarrow> owner_view s' = owner_view s"
  "step_index_list i l s = Some s' \<Longrightarrow> owner_view s' = owner_view s"
  "step_index_stat i s = Some s' \<Longrightarrow> owner_view s' = owner_view s"
  "step_index_mark i s = Some s' \<Longrightarrow> owner_view s' = owner_view s"
  "step_index_done i s = Some s' \<Longrightarrow> owner_view s' = owner_view s"
  "step_index_stop i s = Some s' \<Longrightarrow> owner_view s' = owner_view s"
  by (auto simp: owner_view_def fun_eq_iff step_attempt_def step_mark_def step_keep_def step_empty_def step_raise_def
      step_clear_def step_unlock_def step_note_def step_note_put_def step_probe_def step_unprobe_def
      step_index_list_def step_index_stat_def step_index_mark_def step_index_done_def step_index_stop_def Let_def
      split: option.splits inside.splits taking_stage.splits try_answer.splits leave.splits list.splits bool.splits if_splits)

lemma owner_view_unmark: "step_unmark pt ok s = Some s' \<Longrightarrow> owner_view s' = owner_view s"
  by (cases ok) (auto simp: owner_view_def fun_eq_iff step_unmark_def split: option.splits leave.splits)

lemma owner_view_note_cut: "step_note_cut p ok s = Some s' \<Longrightarrow> owner_view s' = owner_view s"
  by (auto simp: owner_view_def fun_eq_iff step_note_cut_def Let_def
      split: option.splits inside.splits list.splits bool.splits if_splits)

lemma implements_view:
  "implements_locks s A \<Longrightarrow> owner_view s' = owner_view s
     \<Longrightarrow> \<exists>A'. run_all lock_step [] A = Some A' \<and> implements_locks s' A'"
  using implements_same [of s A s'] by simp

lemma implements_perform:
  assumes own: "own_ok s" and A: "implements_locks s A" and st: "perform refuses a s = Some s'"
  shows "\<exists>A'. run_all lock_step (asks refuses a s) A = Some A' \<and> implements_locks s' A'"
  using st
proof (cases a)
  case (Begin p t l h op ac de ip now)
  with st implements_begin [OF own A, of refuses p t l h op ac de ip now s'] show ?thesis by simp
next
  case (Write p)
  with st implements_write [OF own A, of p s' refuses] show ?thesis by simp
next
  case (Release p t l h)
  with st implements_release [OF own A, of p t l h s' refuses] show ?thesis by simp
next
  case (Hand_over p t l h to)
  with st implements_hand_over [OF own A, of p t l h to s' refuses] show ?thesis by simp
next
  case (Die p)
  with st implements_die [OF A, of p s' refuses] show ?thesis by simp
qed (simp only: perform.simps asks.simps,
    rule implements_view [OF A], erule owner_view_same owner_view_unmark owner_view_note_cut)+

interpretation device_lock: simulation "perform refuses" lock_step "asks refuses" own_ok implements_locks for refuses
  by unfold_locales (erule (1) own_ok_perform, erule (2) implements_perform)

text \<open>C18: The holds of all processes implement the lock service: whatever runs, from any disk, the lock service that
  is asked what the steps ask, one by one and in their order (an acquire's request and take, a release, a hand
  over, a process's end), can do it all, and its owners are then the holds: who holds each device, by which key, in
  which thread, entered how often.\<close>

theorem holds_refine_lock_service:
  assumes "run_all (perform refuses) as (start_fleet fs) = Some s"
  shows "\<exists>A. run_all lock_step (asked (perform refuses) (asks refuses) as (start_fleet fs)) (\<lambda>_. None) = Some A
    \<and> implements_locks s A"
proof (rule device_lock.simulated [OF own_ok_start _ assms])
  show "implements_locks (start_fleet fs) (\<lambda>_. None)"
    by (simp add: implements_locks_def owner_view_def start_fleet_def)
qed


section \<open>A device taken and given back\<close>

lemma acquire_runs:
  assumes k_def: "k = (list_key l, host)" and pt_def: "pt = path_of k"
    and "inside_of s p = None" "\<not> refuses l host op" "map_of (table s p) k = None"
    and free: "locks s pt = None" "probes s pt = 0"
  shows "\<exists>s1. run_all (perform refuses) (acquire_steps p t l host op actor detail ip now) s = Some s1
    \<and> table s1 = (table s)(p := AList.update k \<lparr>hd_count = 1, hd_thread = t,
        hd_rec = new_info p l host op actor detail ip now\<rparr> (table s p))
    \<and> locks s1 = (locks s)(pt := Some p) \<and> leaving s1 = leaving s \<and> inside_of s1 = inside_of s
    \<and> probes s1 = probes s \<and> ended s1 = ended s \<and> unkept s1 = unkept s
    \<and> content_of s1 pt = Some (Rec (new_info p l host op actor detail ip now)) \<and> marked s1 pt
    \<and> (\<forall>r. content_of s pt = Some (Rec r) \<longrightarrow>
         (\<exists>e. Some e \<in> set (kept s1 (fst pt)) \<and> ke_rec e = with_device host r \<and> ke_actor e = actor))"
proof -
  let ?i = "new_info p l host op actor detail ip now"
  let ?in = "\<lambda>st s. s\<lparr>inside_of := (inside_of s)(p := Some st)\<rparr>"
  define s0 where "s0 = (if content_of s pt = None then put_content pt Blank s else s)"
  have s0: "table s0 = table s" "locks s0 = locks s" "probes s0 = probes s" "inside_of s0 = inside_of s"
    "leaving s0 = leaving s" "ended s0 = ended s" "unkept s0 = unkept s" "content_of s0 pt = (case content_of s pt of None \<Rightarrow> Some Blank | c \<Rightarrow> c)"
    by (auto simp: s0_def split: option.splits)
  have k: "k = (list_key l, host)" "pt = path_of (list_key l, host)" by (simp_all add: k_def pt_def)
  have f: "acquire_front refuses (table s p) t l host op = Try k"
    using assms(3-5) by (simp add: acquire_front_def Let_def k_def)
  have b: "step_begin refuses p t l host op actor detail ip now s = Some (?in (Trying t k ?i 0) s0)"
    using assms(3) f by (simp add: step_begin_def Let_def s0_def pt_def)
  define s1 where "s1 = s0\<lparr>locks := (locks s)(pt := Some p), inside_of := (inside_of s)(p := Some (Taking t k ?i Flocked))\<rparr>"
  have a: "step_attempt p (?in (Trying t k ?i 0) s0) = Some s1"
    using free by (simp add: step_attempt_def attempt_def s0 pt_def s1_def Let_def)
  define s2 where "s2 = (mark pt s1)\<lparr>inside_of := (inside_of s)(p := Some (Taking t k ?i Marked))\<rparr>"
  have m: "step_mark p True s1 = Some s2" by (simp add: step_mark_def s1_def s2_def s0 pt_def)
  define s3 where "s3 = (case Option.bind (content_of s0 pt) left_rec of
      None \<Rightarrow> s2 | Some left \<Rightarrow> append_kept (fst pt) (record_interrupted host left ?i now) s2)"
  have s3: "table s3 = table s" "locks s3 = (locks s)(pt := Some p)" "leaving s3 = leaving s"
      "inside_of s3 = (inside_of s)(p := Some (Taking t k ?i Marked))" "marked s3 pt"
      "probes s3 = probes s" "ended s3 = ended s" "unkept s3 = unkept s"
    by (auto simp: s3_def s2_def s1_def s0 split: option.splits)
  define s4 where "s4 = ?in (Taking t k ?i Kept) s3"
  have kp: "step_keep p True now s2 = Some s4"
    by (auto simp: step_keep_def s4_def s3_def s2_def s1_def k pt_def Let_def split: option.splits)
  define s5 where "s5 = (put_content pt Blank s4)\<lparr>inside_of := (inside_of s4)(p := Some (Taking t k ?i Emptied))\<rparr>"
  have e: "step_empty p s4 = Some s5"
    by (simp add: step_empty_def s4_def s5_def s3 pt_def)
  define s6 where "s6 = (put_content pt (Rec ?i) s5)
      \<lparr>table := (table s)(p := AList.update k \<lparr>hd_count = 1, hd_thread = t, hd_rec = ?i\<rparr> (table s p)),
       inside_of := (inside_of s)(p := None)\<rparr>"
  have w: "step_write p s5 = Some s6"
    by (simp add: step_write_def s6_def s5_def s4_def s3 pt_def)
  have run: "run_all (perform refuses) (acquire_steps p t l host op actor detail ip now) s = Some s6"
    by (simp add: acquire_steps_def b a m kp e w)
  have log: "\<exists>e. Some e \<in> set (kept s6 (fst pt)) \<and> ke_rec e = with_device host r \<and> ke_actor e = actor"
    if "content_of s pt = Some (Rec r)" for r
    using that by (auto simp: s6_def s5_def s4_def s3_def s0 left_rec_def record_interrupted_def new_info_def)
  have "(inside_of s)(p := None) = inside_of s" using assms(3) by (simp add: fun_upd_idem)
  then have "table s6 = (table s)(p := AList.update k \<lparr>hd_count = 1, hd_thread = t, hd_rec = ?i\<rparr> (table s p))"
    "locks s6 = (locks s)(pt := Some p)" "leaving s6 = leaving s" "inside_of s6 = inside_of s"
    "probes s6 = probes s" "ended s6 = ended s" "unkept s6 = unkept s" "content_of s6 pt = Some (Rec ?i)" "marked s6 pt"
    by (simp_all add: s6_def s5_def s4_def s3)
  with run log show ?thesis by blast
qed

lemma release_runs:
  assumes k_def: "k = (list_key l, host)" and pt_def: "pt = path_of k"
    and "inside_of s p = None" "map_of (table s p) k = Some h" "hd_thread h = t" "hd_count h = 1"
  shows "\<exists>s1. run_all (perform refuses) (release_steps p t l host) s = Some s1
    \<and> table s1 = (table s)(p := AList.delete k (table s p)) \<and> locks s1 = (locks s)(pt := None)
    \<and> leaving s1 = (leaving s)(pt := None) \<and> inside_of s1 = inside_of s
    \<and> content_of s1 pt = Some Blank \<and> \<not> marked s1 pt"
proof -
  let ?l = "\<lambda>lv s. s\<lparr>leaving := (leaving s)(pt := Some (p, lv))\<rparr>"
  define s1 where "s1 = s\<lparr>table := (table s)(p := AList.delete k (table s p)), leaving := (leaving s)(pt := Some (p, Popped))\<rparr>"
  have r: "step_release p t l host s = Some s1"
    using assms(3-6) by (simp add: step_release_def Let_def k_def pt_def s1_def)
  define s2 where "s2 = ?l Cleared (put_content pt Blank s1)"
  have c: "step_clear pt True s1 = Some s2" by (simp add: step_clear_def s1_def s2_def)
  define s3 where "s3 = ?l Unmarked (unmark pt s2)"
  have u: "step_unmark pt True s2 = Some s3" by (simp add: step_unmark_def s2_def s3_def)
  define s4 where "s4 = s3\<lparr>locks := (locks s)(pt := None), leaving := (leaving s)(pt := None)\<rparr>"
  have v: "step_unlock pt s3 = Some s4" by (simp add: step_unlock_def s4_def s3_def s2_def s1_def)
  have "run_all (perform refuses) (release_steps p t l host) s = Some s4"
    by (simp add: release_steps_def Let_def r c u v flip: k_def pt_def)
  then show ?thesis by (intro exI [of _ s4]) (simp add: s4_def s3_def s2_def s1_def)
qed


text \<open>C37: A device that is free is taken by an acquire that meets nobody: its record is in the file and
  marked, and what an operation cut off had left there is kept. Its release puts every hold and lock
  back, and leaves the file empty and unmarked.\<close>

theorem taken_and_given_back:
  assumes s: "reach refuses fs s" and idle: "inside_of s p = None" and may: "\<not> refuses l host op"
    and k: "k = (list_key l, host)" "map_of (table s p) k = None"
    and free: "locks s (path_of k) = None" "probes s (path_of k) = 0"
  shows "\<exists>s1 s2. run_all (perform refuses) (acquire_steps p t l host op actor detail ip now) s = Some s1
    \<and> map_of (table s1 p) k = Some \<lparr>hd_count = 1, hd_thread = t, hd_rec = new_info p l host op actor detail ip now\<rparr>
    \<and> content_of s1 (path_of k) = Some (Rec (new_info p l host op actor detail ip now)) \<and> marked s1 (path_of k)
    \<and> (\<forall>r. content_of s (path_of k) = Some (Rec r) \<longrightarrow>
         (\<exists>e. Some e \<in> set (kept s1 (list_key l)) \<and> ke_rec e = with_device host r \<and> ke_actor e = actor))
    \<and> run_all (perform refuses) (release_steps p t l host) s1 = Some s2
    \<and> table s2 = table s \<and> locks s2 = locks s \<and> leaving s2 = leaving s \<and> inside_of s2 = inside_of s
    \<and> content_of s2 (path_of k) = Some Blank \<and> \<not> marked s2 (path_of k)"
proof -
  from acquire_runs [where s = s and p = p and refuses = refuses and l = l and host = host and op = op and t = t
      and actor = actor and detail = detail and ip = ip and now = now, OF k(1) refl idle may k(2) free] obtain s1 where
    s1: "run_all (perform refuses) (acquire_steps p t l host op actor detail ip now) s = Some s1"
    "table s1 = (table s)(p := AList.update k \<lparr>hd_count = 1, hd_thread = t,
        hd_rec = new_info p l host op actor detail ip now\<rparr> (table s p))"
    "locks s1 = (locks s)(path_of k := Some p)" "leaving s1 = leaving s" "inside_of s1 = inside_of s"
    "content_of s1 (path_of k) = Some (Rec (new_info p l host op actor detail ip now))" "marked s1 (path_of k)"
    "\<forall>r. content_of s (path_of k) = Some (Rec r) \<longrightarrow>
       (\<exists>e. Some e \<in> set (kept s1 (fst (path_of k))) \<and> ke_rec e = with_device host r \<and> ke_actor e = actor)"
    by blast
  have h: "map_of (table s1 p) k = Some \<lparr>hd_count = 1, hd_thread = t, hd_rec = new_info p l host op actor detail ip now\<rparr>"
    by (simp add: s1)
  from release_runs [OF k(1) refl _ h, of t refuses] s1(5) idle obtain s2 where
    s2: "run_all (perform refuses) (release_steps p t l host) s1 = Some s2"
    "table s2 = (table s1)(p := AList.delete k (table s1 p))" "locks s2 = (locks s1)(path_of k := None)"
    "leaving s2 = (leaving s1)(path_of k := None)" "inside_of s2 = inside_of s1"
    "content_of s2 (path_of k) = Some Blank" "\<not> marked s2 (path_of k)"
    by auto
  have "AList.delete k (AList.update k x (table s p)) = table s p" for x
    using k(2) by (simp add: delete_update_same map_of_eq_None_iff)
  then have "table s2 = table s" by (simp add: s2 s1 fun_upd_idem)
  moreover have "locks s2 = locks s" using free by (simp add: s2 s1 fun_upd_idem)
  moreover have "leaving s (path_of k) = None"
    using own_okD(1) [OF reach_own_ok [OF s], of _ "path_of k" Leaves] free(1)
    by (cases "leaving s (path_of k)") (auto simp: leaver_def split: option.splits)
  then have "leaving s2 = leaving s" by (simp add: s2 s1 fun_upd_idem)
  moreover have "fst (path_of k) = list_key l" using k(1) by (simp add: path_of_def)
  ultimately show ?thesis using s1(1,5-8) h s2(1,5-7) by metis
qed

text \<open>C38: When a process ends, a device it held is free at once: the next acquire that meets nobody takes it,
  and keeps the record of what was cut off with who took the device next.\<close>

theorem cut_off_device_is_taken:
  assumes s: "reach refuses fs s" and h: "map_of (table s p) k = Some h" and c: "content_of s (path_of k) = Some (Rec r)"
    and q: "q \<noteq> p" "inside_of s q = None" and may: "\<not> refuses l host op" and k: "k = (list_key l, host)"
    and probes: "probes s (path_of k) = 0"
  shows "\<exists>s1. run_all (perform refuses) (Die p # acquire_steps q t l host op actor detail ip now) s = Some s1
    \<and> map_of (table s1 q) k = Some \<lparr>hd_count = 1, hd_thread = t, hd_rec = new_info q l host op actor detail ip now\<rparr>
    \<and> (\<exists>e. Some e \<in> set (kept s1 (list_key l)) \<and> ke_rec e = with_device host r \<and> ke_actor e = actor)"
proof -
  obtain m where m: "step_die p s = Some m" by (simp add: step_die_def)
  have held: "uses s p (path_of k) (Held k)" using h by (simp add: domI)
  have lock: "locks s (path_of k) = Some p" using own_okD(1) [OF reach_own_ok [OF s] held] .
  have "map_of (table s q) k = None"
    using own_ok_alone(1) [OF reach_own_ok [OF s] held, of q "Held k"] q(1) by (cases "map_of (table s q) k") (auto simp: domI)
  then have f: "inside_of m q = None" "map_of (table m q) k = None"
      "locks m (path_of k) = None" "probes m (path_of k) = 0"
      "content_of m (path_of k) = Some (Rec r)"
    using m q lock probes c k by (auto simp: step_die_def)
  from acquire_runs [where s = m and p = q and refuses = refuses and l = l and host = host and op = op and t = t
      and actor = actor and detail = detail and ip = ip and now = now, OF k refl f(1) may f(2-4)] obtain s1 where
    s1: "run_all (perform refuses) (acquire_steps q t l host op actor detail ip now) m = Some s1"
    "table s1 = (table m)(q := AList.update k \<lparr>hd_count = 1, hd_thread = t,
        hd_rec = new_info q l host op actor detail ip now\<rparr> (table m q))"
    "\<exists>e. Some e \<in> set (kept s1 (fst (path_of k))) \<and> ke_rec e = with_device host r \<and> ke_actor e = actor"
    using f(5) k by blast
  have "fst (path_of k) = list_key l" using k by (simp add: path_of_def)
  with s1 m show ?thesis by simp
qed


section \<open>An acquire's answer\<close>

text \<open>A probe's shared lock on an empty file is waited out; on a file an operation cut off left its record
  in, the acquire is refused at once, by the name of an operation nobody runs.\<close>

lemma probed_leftover_refused:
  assumes "locks s (path_of k) = None" "0 < probes s (path_of k)" "content_of s (path_of k) = Some (Rec r)"
    and "hl_operation r \<noteq> ''?''"
  shows "attempt (locks s (path_of k) = None \<and> probes s (path_of k) = 0) (content_of s (path_of k)) (snd k) n = Refuse r"
  using assms by (simp add: attempt_def read_rec_def)

text \<open>No acquire tries more than six times.\<close>

lemma attempts_bounded: "attempt free c host n = Wait \<Longrightarrow> n \<noteq> PROBE_RETRIES"
  by (auto simp: attempt_def Let_def split: if_splits)

section \<open>A batch's devices\<close>

text \<open>A batch's answer: each device asked is held or refused.\<close>

lemma acquire_many_partition:
  "acquire_many acq hs s = (s', Inr (got, refused))
     \<Longrightarrow> mset got + mset (map fst refused) = mset hs"
  by (induction hs arbitrary: s s' got refused)
    (auto split: prod.splits acquired.splits sum.splits)

text \<open>A raise out of one acquire leaves the devices before it as their acquires left them: nothing gives
  them back.\<close>

lemma acquire_many_raised:
  "acquire_many acq hs s = (s', Inl e)
     \<Longrightarrow> \<exists>before h after. hs = before @ h # after
       \<and> acq h (fold (\<lambda>h s. fst (acq h s)) before s) = (s', Acquire_raised)"
proof (induction hs arbitrary: s)
  case (Cons h hs)
  show ?case
  proof (cases "snd (acq h s)")
    case Acquire_raised
    then show ?thesis using Cons.prems by (intro exI [of _ "[]"] exI [of _ h] exI [of _ hs]) (auto split: prod.splits)
  next
    case (Have)
    then have "acquire_many acq hs (fst (acq h s)) = (s', Inl e)"
      using Cons.prems by (auto split: prod.splits sum.splits)
    from Cons.IH [OF this] obtain b x a where "hs = b @ x # a"
      "acq x (fold (\<lambda>h s. fst (acq h s)) b (fst (acq h s))) = (s', Acquire_raised)" by blast
    then show ?thesis by (intro exI [of _ "h # b"]) auto
  next
    case (Busy r)
    then have "acquire_many acq hs (fst (acq h s)) = (s', Inl e)"
      using Cons.prems by (auto split: prod.splits sum.splits)
    from Cons.IH [OF this] obtain b x a where "hs = b @ x # a"
      "acq x (fold (\<lambda>h s. fst (acq h s)) b (fst (acq h s))) = (s', Acquire_raised)" by blast
    then show ?thesis by (intro exI [of _ "h # b"]) auto
  qed
qed simp

section \<open>At work\<close>

text \<open>A deploy of \<open>r1\<close> by one thread of process 1, on an empty disk.\<close>

definition ex_may :: "string \<Rightarrow> string \<Rightarrow> string \<Rightarrow> bool" where "ex_may l h op = False"
definition ex_key :: key where "ex_key = (''lab'', ''r1'')"
definition ex_info :: hold_rec where "ex_info = new_info 1 ''lab'' ''r1'' ''deploy'' ''ann'' '''' '''' 10"
definition ex_hold :: hold where "ex_hold = \<lparr>hd_count = 1, hd_thread = 7, hd_rec = ex_info\<rparr>"
definition ex_run :: "lock_action list" where
  "ex_run = acquire_steps 1 7 ''lab'' ''r1'' ''deploy'' ''ann'' '''' '''' 10"

lemma ex_list [simp]: "list_key ''lab'' = ''lab''"
  by code_simp

lemma ex_path [simp]: "path_of ex_key = (''lab'', ''r1'')"
  by code_simp

lemma ex_keyE: "ex_key = (list_key ''lab'', ''r1'')"
  by (simp add: ex_key_def)

lemma ex_first: "reach ex_may [] (start_fleet [])"
  by (rule reach_start) (simp add: sound_disk_def)

lemma ex_first_sel [simp]:
  "table (start_fleet fs) = (\<lambda>_. [])" "locks (start_fleet fs) = (\<lambda>_. None)" "probes (start_fleet fs) = (\<lambda>_. 0)"
  "inside_of (start_fleet fs) = (\<lambda>_. None)" "ended (start_fleet fs) = []" "unkept (start_fleet fs) = []"
  "leaving (start_fleet fs) = (\<lambda>_. None)"
  by (simp_all add: start_fleet_def)

lemma ex_content [simp]: "content_of (start_fleet []) pt = None"
  by (simp add: content_of_def folder_of_def start_fleet_def no_folder_def)

lemma ex_held:
  obtains s where "run_all (perform ex_may) ex_run (start_fleet []) = Some s" "reach ex_may [] s"
    "table s = (\<lambda>_. [])(1 := [(ex_key, ex_hold)])" "locks s = (\<lambda>_. None)((''lab'', ''r1'') := Some 1)"
    "inside_of s = (\<lambda>_. None)" "probes s = (\<lambda>_. 0)" "ended s = []" "unkept s = []"
    "content_of s (''lab'', ''r1'') = Some (Rec ex_info)"
proof -
  have "\<not> ex_may ''lab'' ''r1'' ''deploy''" by (simp add: ex_may_def)
  from acquire_runs [where s = "start_fleet []" and p = 1 and refuses = ex_may and t = 7 and actor = "''ann''" and
      detail = "''''" and ip = "''''" and now = 10, OF ex_keyE refl _ this]
  obtain s where s: "run_all (perform ex_may) ex_run (start_fleet []) = Some s"
    and "table s = (\<lambda>_. [])(1 := [(ex_key, ex_hold)])" "locks s = (\<lambda>_. None)((''lab'', ''r1'') := Some 1)"
    "inside_of s = (\<lambda>_. None)" "probes s = (\<lambda>_. 0)" "ended s = []" "unkept s = []"
    "content_of s (''lab'', ''r1'') = Some (Rec ex_info)"
    by (auto simp: ex_run_def ex_hold_def ex_info_def)
  then show ?thesis using that [OF s reach_all [OF s ex_first]] by blast
qed


theorem one_holder_witness:
  "\<exists>s. reach ex_may [] s \<and> map_of (table s 1) ex_key = Some ex_hold \<and> (1 :: pid) = 1 \<and> ex_key = ex_key \<and> ex_hold = ex_hold"
proof -
  obtain s where s: "reach ex_may [] s" "table s = (\<lambda>_. [])(1 := [(ex_key, ex_hold)])" by (rule ex_held)
  have h: "map_of (table s 1) ex_key = Some ex_hold" by (simp add: s)
  note one_holder [OF s(1) h h refl]
  with s(1) h show ?thesis by blast
qed

theorem update_gate_sound_witness:
  "\<exists>s t. reach ex_may [] s \<and> reach ex_may [] t \<and> table s 1 \<noteq> [] \<and> ''lab'' \<in> set (list_folders s)
    \<and> held_anywhere (Some s) (\<lambda>_. Some t) 2 = Some [] \<and> (\<forall>(k, h) \<in> set (table t 1). fst k \<noteq> ''lab'')"
proof -
  obtain s where s: "reach ex_may [] s" "table s = (\<lambda>_. [])(1 := [(ex_key, ex_hold)])"
    "content_of s (''lab'', ''r1'') = Some (Rec ex_info)" by (rule ex_held)
  have l: "''lab'' \<in> set (list_folders s)" using content_folder [of s "''lab''" "''r1''"] s(3) by simp
  let ?t = "start_fleet []"
  have "held_in ?t 2 l = []" for l
    by (simp add: held_in_def own_holds_def candidates_def folder_of_def start_fleet_def no_folder_def List.map_filter_def)
  then have "those (map (\<lambda>l. map_option (\<lambda>t. map (or_list l) (held_in t 2 l)) (Some ?t)) ls) = Some (map (\<lambda>_. []) ls)" for ls
    by (induction ls) auto
  moreover have c: "concat (map (\<lambda>_. []) ls) = ([] :: hold_rec list)" for ls :: "lkey list" by (induction ls) auto
  ultimately have h: "held_anywhere (Some s) (\<lambda>_. Some ?t) 2 = Some []" by (simp add: held_anywhere_def c)
  from update_gate_sound [OF h s(1)] ex_first l have "\<forall>(k, h) \<in> set (table ?t 1). fst k \<noteq> ''lab''" by blast
  with s l h ex_first show ?thesis by (intro exI [of _ s] exI [of _ ?t]) simp
qed

theorem cut_off_is_listed_witness:
  "\<exists>s. reach ex_may [] s \<and> ((''lab'', ''r1''), ex_info) \<in> set (ended s)
    \<and> (\<exists>(r', a) \<in> set (interrupted_in s ''lab''). hl_started r' = Some 10 \<and> hl_device r' = ''r1'')"
proof -
  obtain s where s: "reach ex_may [] s" "table s = (\<lambda>_. [])(1 := [(ex_key, ex_hold)])"
    "locks s = (\<lambda>_. None)((''lab'', ''r1'') := Some 1)" "unkept s = []"
    "content_of s (''lab'', ''r1'') = Some (Rec ex_info)" by (rule ex_held)
  obtain m where m: "perform ex_may (Die 1) s = Some m" by (simp add: step_die_def)
  have r: "reach ex_may [] m" using reach_step [OF s(1) m] .
  have e: "((''lab'', ''r1''), ex_info) \<in> set (ended m)" and u: "((''lab'', ''r1''), ex_info) \<notin> set (unkept m)"
    and free: "locks m (''lab'', ''r1'') = None"
    using m s by (auto simp: step_die_def cut_off_def)
  have "list_key ''lab'' = fst (''lab'', ''r1'')" by simp
  from cut_off_is_listed [OF r e u this] free r e show ?thesis by (auto simp: ex_info_def new_info_def)
qed

theorem end_within_a_note_leaves_nothing_witness:
  "\<exists>s s'. reach ex_may [] s \<and> map_of (table s 1) ex_key = Some ex_hold
    \<and> run_all (perform ex_may) [Note_cut 1 True, Die 1] s = Some s'
    \<and> locks s' (''lab'', ''r1'') = None \<and> interrupted_in s' ''lab'' = interrupted_in s ''lab''"
proof -
  obtain s0 where s0: "reach ex_may [] s0" "table s0 = (\<lambda>_. [])(1 := [(ex_key, ex_hold)])"
    "locks s0 = (\<lambda>_. None)((''lab'', ''r1'') := Some 1)" "inside_of s0 = (\<lambda>_. None)" by (rule ex_held)
  define s where "s = s0\<lparr>inside_of := (inside_of s0)(1 := Some (Noting ''verify'' 20 [ex_key] False))\<rparr>"
  have "perform ex_may (Note 1 7 None None ''verify'' 20) s0 = Some s"
    by (simp add: step_note_def s0(2,4) s_def noted_keys_def noting_def ex_hold_def)
  then have r: "reach ex_may [] s" by (rule reach_step [OF s0(1)])
  have h: "map_of (table s 1) ex_key = Some ex_hold" by (simp add: s_def s0)
  have i: "inside_of s 1 = Some (Noting ''verify'' 20 [ex_key] False)" by (simp add: s_def)
  have only: "\<forall>pt. locks s pt = Some 1 \<longrightarrow> pt = path_of ex_key" by (simp add: s_def s0)
  obtain s' where run: "run_all (perform ex_may) [Note_cut 1 True, Die 1] s = Some s'"
    using i h by (simp add: step_note_cut_def step_die_def)
  from end_within_a_note_leaves_nothing [OF r i h only run, of "''lab''"] r h run show ?thesis by auto
qed

theorem raised_acquire_keeps_its_lock_witness:
  "\<exists>s s1 s2. reach ex_may [] s \<and> perform ex_may (Raise_in 1 False) s = Some s1
    \<and> run_all (perform ex_may) [Release 1 7 ''lab'' ''r1'', Die 2] s1 = Some s2
    \<and> locks s2 (''lab'', ''r1'') = Some 1 \<and> map_of (table s2 1) ex_key = None"
proof -
  let ?as = "[Begin 1 7 ''lab'' ''r1'' ''deploy'' ''ann'' '''' '''' 10, Attempt 1, Do_mark 1 True]"
  obtain s where run: "run_all (perform ex_may) ?as (start_fleet []) = Some s"
    and i: "inside_of s 1 = Some (Taking 7 ex_key ex_info Marked)" and tb: "table s = (\<lambda>_. [])"
    by (simp add: step_begin_def acquire_front_def ex_may_def Let_def step_attempt_def attempt_def step_mark_def
        ex_info_def flip: ex_key_def)
  have r: "reach ex_may [] s" using reach_all [OF run ex_first] .
  obtain s1 where s1: "perform ex_may (Raise_in 1 False) s = Some s1" using i by (simp add: step_raise_def)
  then have "inside_of s1 1 = None" "table s1 1 = []" using i tb by (auto simp: step_raise_def)
  then obtain s2 where s2: "run_all (perform ex_may) [Release 1 7 ''lab'' ''r1'', Die 2] s1 = Some s2"
    by (simp add: step_release_def step_die_def)
  then have "table s2 1 = []" using \<open>table s1 1 = []\<close> \<open>inside_of s1 1 = None\<close>
    by (auto simp: step_release_def step_die_def)
  moreover have "Die 1 \<notin> set [Release 1 7 ''lab'' ''r1'', Die 2]" by simp
  from raised_acquire_keeps_its_lock [OF r i s1 s2 this]
  have "locks s2 (''lab'', ''r1'') = Some 1" by simp
  ultimately show ?thesis using r s1 s2 by auto
qed

theorem holds_refine_lock_service_witness:
  "\<exists>s A. run_all (perform ex_may) ex_run (start_fleet []) = Some s
    \<and> run_all lock_step (asked (perform ex_may) (asks ex_may) ex_run (start_fleet [])) (\<lambda>_. None) = Some A
    \<and> A (''lab'', ''r1'') = Some (1, ex_key, 7, 1)"
proof -
  obtain s where s: "run_all (perform ex_may) ex_run (start_fleet []) = Some s"
    "table s = (\<lambda>_. [])(1 := [(ex_key, ex_hold)])" by (rule ex_held)
  from holds_refine_lock_service [OF s(1)] obtain A where
    A: "run_all lock_step (asked (perform ex_may) (asks ex_may) ex_run (start_fleet [])) (\<lambda>_. None) = Some A"
      "implements_locks s A" by blast
  have "A (path_of ex_key) = Some (1, ex_key, hd_thread ex_hold, hd_count ex_hold)"
    by (rule implements_owner [OF A(2)]) (simp add: s)
  with s(1) A(1) show ?thesis by (auto simp: ex_hold_def)
qed

theorem taken_and_given_back_witness:
  "\<exists>s1 s2. run_all (perform ex_may) ex_run (start_fleet []) = Some s1
    \<and> map_of (table s1 1) ex_key = Some ex_hold
    \<and> run_all (perform ex_may) (release_steps 1 7 ''lab'' ''r1'') s1 = Some s2
    \<and> table s2 1 = [] \<and> locks s2 (''lab'', ''r1'') = None \<and> content_of s2 (''lab'', ''r1'') = Some Blank"
proof -
  have may: "\<not> ex_may ''lab'' ''r1'' ''deploy''" by (simp add: ex_may_def)
  have f: "inside_of (start_fleet []) 1 = None" "map_of (table (start_fleet []) 1) ex_key = None"
    "locks (start_fleet []) (path_of ex_key) = None" "probes (start_fleet []) (path_of ex_key) = 0"
    by simp_all
  from taken_and_given_back [where t = 7 and actor = "''ann''" and detail = "''''" and ip = "''''" and now = 10,
      OF ex_first f(1) may ex_keyE f(2-4)]
  obtain s1 s2 where s: "run_all (perform ex_may) ex_run (start_fleet []) = Some s1"
    "map_of (table s1 1) ex_key = Some ex_hold" "run_all (perform ex_may) (release_steps 1 7 ''lab'' ''r1'') s1 = Some s2"
    "table s2 = table (start_fleet [])" "locks s2 = locks (start_fleet [])" "content_of s2 (path_of ex_key) = Some Blank"
    unfolding ex_run_def ex_hold_def ex_info_def by blast
  then show ?thesis by (intro exI [of _ s1] exI [of _ s2]) simp
qed

theorem cut_off_device_is_taken_witness:
  "\<exists>s s1. reach ex_may [] s \<and> map_of (table s 1) ex_key = Some ex_hold
    \<and> run_all (perform ex_may) (Die 1 # acquire_steps 2 8 ''lab'' ''r1'' ''restore'' ''bob'' '''' '''' 30) s = Some s1
    \<and> (\<exists>e. Some e \<in> set (kept s1 ''lab'') \<and> hl_operation (ke_rec e) = ''deploy'' \<and> ke_actor e = ''bob'')"
proof -
  obtain s where s: "reach ex_may [] s" "table s = (\<lambda>_. [])(1 := [(ex_key, ex_hold)])"
    "inside_of s = (\<lambda>_. None)" "probes s = (\<lambda>_. 0)" "content_of s (''lab'', ''r1'') = Some (Rec ex_info)"
    by (rule ex_held)
  have h: "map_of (table s 1) ex_key = Some ex_hold" by (simp add: s)
  have may: "\<not> ex_may ''lab'' ''r1'' ''restore''" by (simp add: ex_may_def)
  have c: "content_of s (path_of ex_key) = Some (Rec ex_info)" "(2 :: pid) \<noteq> 1" "inside_of s 2 = None"
    "probes s (path_of ex_key) = 0" by (simp_all add: s)
  from cut_off_device_is_taken [where t = 8 and actor = "''bob''" and detail = "''''" and ip = "''''" and now = 30,
      OF s(1) h c(1-3) may ex_keyE c(4)]
  obtain s1 e where s1: "run_all (perform ex_may) (Die 1 # acquire_steps 2 8 ''lab'' ''r1'' ''restore'' ''bob'' '''' '''' 30) s = Some s1"
    and e: "Some e \<in> set (kept s1 ''lab'')" "ke_rec e = with_device ''r1'' ex_info" "ke_actor e = ''bob''"
    by auto
  have "hl_operation (ke_rec e) = ''deploy''" by (simp add: e(2) with_device_def ex_info_def new_info_def)
  with s(1) h s1 e show ?thesis by blast
qed

end
