(* ===== verification/Spec2Isabelle.thy ===== *)
theory Spec2Isabelle
  imports Incidents Attribution Decide_Run Act_Run Detect Ledger Propose_Example Actions Device_Holds
begin

text \<open>
  Mercury's self-healing, verified: what a network's ``heal to intent'' may do to a device.

  \<^bold>\<open>The program.\<close> Mercury keeps a network's intended configuration (the golden, rendered from
  its source of truth) and deploys it. The subsystem \<open>src/modules/heal\<close> notices that a device has
  departed from its golden and, when a person has confirmed a policy for it, puts back what was
  intended. It is the part of the program that writes to routers with nobody watching, so it is the
  part modelled here, with the code a heal goes through to reach a device: the configuration program
  (\<open>src/modules/nsot\<close>), the batch and its routes (\<open>src/routes/deploy.py\<close>) and the stage runner
  (\<open>src/modules/pipeline.py\<close>).

  \<^bold>\<open>How the parts interact.\<close> What the readers store becomes sightings (\<open>Triggers\<close>): a log line, an
  alert, an adjacency down, a drift run's departures. A sighting opens an incident or joins one
  (\<open>Incidents\<close>). The detect pass reads a watching incident's device until its departure has
  persisted (\<open>Detect\<close>, by \<open>Grace\<close>; \<open>Attribution\<close> says whose change restarts the wait). The
  decision claims each ready incident, asks every guard, computes the program and records one row
  (\<open>Decide\<close>, \<open>Decide_Run\<close>, over \<open>Guards\<close>, \<open>Hold\<close>, \<open>Policy\<close>, \<open>Kinds\<close>, \<open>Program\<close> and
  \<open>Decisions\<close>). The runner takes each heal decided (\<open>Act_Run\<close>) and the act checks again, sends,
  verifies, reads the symptom again and records the outcome (\<open>Act\<close>, over \<open>Batch\<close>, \<open>Pipeline\<close>,
  \<open>Symptom\<close> and \<open>Steplog\<close>). A fix that needs a person waits as a proposal, which a person approves
  or declines (\<open>Propose\<close>); approved, it goes through the same act as that person. Whatever changes a
  device holds it first, against every other process of the machine (\<open>Holds\<close>). An act that ended
  without an outcome is found by its mark and reaped (\<open>Interrupted\<close>).

  \<^bold>\<open>Theories and sources.\<close>

  \<^item> \<open>Heal_Prelude\<close>: types, time, refusals as sums, list places, shared by all.
  \<^item> \<open>Grace\<close>: \<open>heal/grace.py\<close>, the two reads rule (\<open>judge\<close>).
  \<^item> \<open>Incidents\<close>: \<open>heal/incidents.py\<close>. The store is the file's list of incidents; each operation is
    a function on it through \<open>on_incident\<close> (\<open>_mutate\<close>), and \<open>sight\<close> with its fold and its cuts.
  \<^item> \<open>Triggers\<close>, \<open>Flaps\<close>: \<open>heal/triggers.py\<close>, the readers' steps; \<open>heal/flaps.py\<close>, the record of each
    interface's transitions, kept by a step on the same reader of logs.
  \<^item> \<open>Actions\<close>: \<open>heal/actions.py\<close>, the guards 13a to 13e of the action remediations, none built yet.
  \<^item> \<open>Attribution\<close>, \<open>Hold\<close>: \<open>heal/attribution.py\<close>, \<open>heal/hold.py\<close>.
  \<^item> \<open>Policy\<close>: \<open>heal/policy.py\<close>, with the stage of \<open>sdn/modes.py\<close> and the bounds of
    \<open>settings_schema.py\<close> that decide in it.
  \<^item> \<open>Sections\<close>, \<open>Removal\<close>, \<open>Recreate\<close>: \<open>nsot/sections.py\<close>, the merge of \<open>nsot/deploy.py\<close>,
    \<open>nsot/removal.py\<close>, \<open>nsot/recreate.py\<close>.
  \<^item> \<open>Kinds\<close>, \<open>Program\<close>: \<open>heal/kinds.py\<close>; \<open>program\<close> of \<open>heal/decide.py\<close> and \<open>_program\<close> of
    \<open>routes/deploy.py\<close>.
  \<^item> \<open>Guards\<close>: \<open>heal/guards.py\<close>, guards 1 to 12 and 14. Guard 13 is the tier: the decision's last
    step, \<open>outcome_of\<close> in \<open>Decide\<close>.
  \<^item> \<open>Decisions\<close>: \<open>heal/decisions.py\<close>, the append-only log, its replay and its operations. \<open>Ledger\<close>
    is what it promises: an abstract record of decisions, marks, takes, outcomes and halts, and the
    refinement of it by the log.
  \<^item> \<open>Decide\<close>, \<open>Decide_Run\<close>: \<open>heal/decide.py\<close>, one decision and a run of them, each incident under the
    policy in force when it is reached.
  \<^item> \<open>Detect\<close>: \<open>heal/detect.py\<close>, and \<open>withdrawn_how\<close> and \<open>withdraw\<close> of \<open>heal/propose.py\<close>.
  \<^item> \<open>Pipeline\<close>, \<open>Batch\<close>: \<open>PipelineRunner\<close> of \<open>pipeline.py\<close>; \<open>nsot/deploy.py\<close> and
    \<open>routes/deploy.py\<close>, \<open>receipts.was_sent\<close>, \<open>roll_back_end\<close> of \<open>paired_deploy.py\<close>.
  \<^item> \<open>Symptom\<close>, \<open>Steplog\<close>, \<open>Act\<close>, \<open>Interrupted\<close>, \<open>Act_Run\<close>: \<open>heal/act.py\<close>, \<open>heal/steplog.py\<close>,
    \<open>heal/interrupted.py\<close>. A mark is a file, the path that names it and the lock on it, each call of
    \<open>acquire\<close>, \<open>release\<close> and \<open>mark_state\<close> a function of its own.
  \<^item> \<open>Propose\<close>, \<open>Propose_Example\<close>: \<open>heal/propose.py\<close>, a proposal viewed, approved, applied or
    declined, over \<open>Authorise\<close> (\<open>nsot/authorisation.py\<close>, the gate's patterns of \<open>pipeline.py\<close>) and
    \<open>Reset\<close> (the process resets of \<open>nsot/privileged.py\<close>).
  \<^item> \<open>Holds\<close>, \<open>Holds_Laws\<close>, \<open>Holds_Trace\<close>, \<open>Device_Holds\<close>: \<open>nsot/device_ops.py\<close>, the device holds.
    A fleet is the holds folder, the kernel's locks and the operations under way, each at a stage of
    its code; \<open>perform\<close> takes one operation one step on, or ends its process there, and \<open>reach\<close> is
    every interleaving. The middle two keep its invariants; the last has what the holds promise.

  \<^bold>\<open>State and errors.\<close> A store file is its content (a list, or for a log: absent, unreadable, or
  rows), passed in and returned. A \<open>raise\<close> is the left of a sum, and what a function wrote before it
  raised is kept where the code keeps it. Effects of other processes are explicit: the reads of
  \<open>find\<close> (the decisions, each mark opened and then probed, the decisions again) are states with steps
  of \<open>sys_step\<close> between them, one system call each; a detect pass takes what others did during each of
  its reads as an argument, and a run of the decision what they did between its incidents (within one
  decision they do nothing: the act asks again before it sends); a batch is a function of the world, and
  the device holds are a relation of single steps, a crash between any two of them being a step. The holds
  of the machine are listed in one state, and each folder is read in a state of its own. An epoch is a real;
  ids, hashes, parsers, clocks and the answers of devices are arguments, with what the code relies
  on (two programs with one hash are one program; ids are fresh) as a named hypothesis.

  \<^bold>\<open>What the lemmas show.\<close>

  \<^item> Nothing wrong is sent: a heal passed every guard, was Tier 1 and allowed AUTO, keeps off the
    management path; what is sent is the program decided, each line of which is the golden's, takes
    back a line of the device or leaves a level; removals and running operations have their own rules.
  \<^item> What a person approves is what is sent: the proposal they confirmed by its hash, their reason on
    each dangerous line, its process reset only once the change is read at intent; and it is decided
    once.
  \<^item> A run that returned after a push was verified or rolled back, and a heal that was rolled back,
    failed after it sent, or was lost, leaves the network halted until a person lifts the halt.
    The exception proved is a run that \<^emph>\<open>raises\<close> out of its stages.
  \<^item> The invariants of the stores: one device in one open incident, at most 200 closed kept, legal
    moves only; a log that only grows; a take decided once; a policy confirmed by a verified
    person with a reason.
  \<^item> What is sighted: exactly the log's changes from outside Mercury, each line once; nothing where
    healing is off; and stores of incidents that keep their invariant. The exception proved is a step
    that raises, whose lines are lost. A flap is the count of an interface's changes of
    state, over any steps and from any record kept.
  \<^item> A heal found interrupted has ended. The one exception is shown to happen: a release unlocks its mark
    and only then removes its name, and with it the mark of an act that locked the same file in between.
  \<^item> Device holds: one operation per device at a time, as an abstract lock service promises; what a
    crash cut off is listed until somebody takes its device, and can be taken at once; an update
    waits for every device; a device taken and given back leaves the folder clear. Two exceptions
    are proved: an acquire that raises keeps its lock, and an end within a note loses the record.
  \<^item> Rates, and progress: the heals of an hour within their limits; a run decides each ready incident,
    with the decision recorded, or names it as failed; a due
    read settles; a pass forgets no incident; the runner answers each heal; a reap settles.
  \<^item> Equivalences with plain descriptions: section chains, management routes, the departure's units.

  \<^bold>\<open>Bounds.\<close> Every function is total. Two loops run on fuel. The wait of a process reset has
  \<open>RESET_ROUNDS\<close>, its measured bound over \<open>RESET_POLL_S\<close> (5 seconds) and one, and \<open>Reset\<close> proves it
  ends within them on a clock that moves. The other is the wait for a symptom: \<open>ROUNDS\<close>
  (26) is the longest wait of any symptom (750 seconds) over the 30 seconds between two rounds, and
  one, and \<open>Symptom\<close> proves that the wait always answers within them. The \<open>while changed\<close> loop over
  the routes is shown to end with exactly the routes that may reach the manager. A pass makes
  \<open>READS_PER_PASS\<close> (10) reads, and as many again for each incident that moved under it, whose
  reads are not taken from the ten. An acquire is refused at once by a holder's record; where the lock is
  held and the file says nothing (a probe's instant lock) it tries six times (\<open>PROBE_RETRIES\<close>, 5,
  and one). An address is its family and a natural number; Python's integers do not wrap, and
  nothing modelled depends on a width beyond a prefix's.

  \<^bold>\<open>Not modelled\<close>, and why.

  \<^item> \<open>heal/diagnose*.py\<close>, \<open>heal/change_record.py\<close>, \<open>heal/journal.py\<close>, the pages and every sentence:
    texts for people. No state of a heal depends on them.
  \<^item> The pipeline's stage handlers, the device sessions, NetBox, git and rendering: I/O, arguments of
    the runner and of the plan. The paired deploy, scopes and the batch's worker threads: a heal
    deploys one device with none of them.
  \<^item> The parsing of log lines for changes and persons, of addresses and of times; the reading of
    inventories, committed intent, holds, receipts and plans: arguments.
  \<^item> An exception out of the rollback after the check that follows verify, or out of the save after it
    (\<open>settle_one\<close> of \<open>Batch\<close> has both return); \<open>assert_sendable\<close> refusing a program of re-created operations.
  \<^item> Who computes the facts the action guards judge (\<open>guard_answer\<close> of \<open>Actions\<close>): no caller is built yet.
  \<^item> The steps repeated in an act's own row of the step log, and threads that repeat the passes.
  \<^item> Of the device holds: the words of a record and of a refusal, the announcements, the log of moved
    databases, and a system without \<open>flock\<close>.
  \<^item> The SDN engine, pollers, onboarding, attention, history and the AI analysis: other subsystems.
\<close>

end
